(* ===== verification/Prelude.thy ===== *)
theory Prelude
  imports Main "HOL-Library.Word" "HOL-Library.Monad_Syntax" "HOL-Library.Multiset"
begin

text \<open>
  Shared vocabulary of the development: the machine types of the 32-bit x86
  target, the reading of \<open>ASSERT\<close> and \<open>PANIC\<close> as the value \<open>None\<close>, the
  rounding macros of \<^verbatim>\<open>lib/round.h\<close>, arithmetic on \<open>size_t\<close> with its
  wrap-around written out, and generic lemmas used by several components.
\<close>

unbundle bit_operations_syntax

section \<open>Machine types\<close>

text \<open>
  Pintos runs on 32-bit x86: \<open>int\<close>, \<open>unsigned\<close>, \<open>long\<close>, \<open>size_t\<close> and
  pointers have 32 bits, \<open>long long\<close> and \<open>int64_t\<close> have 64.
\<close>

type_synonym u8 = "8 word"
type_synonym u16 = "16 word"
type_synonym u32 = "32 word"
type_synonym u64 = "64 word"

text \<open>
  An address where the model does not compute with its bits (the elements of a
  linked list, a thread, a page) is a natural number; 0 is the null pointer.
\<close>

type_synonym ptr = nat

abbreviation (input) NULL :: ptr where
  "NULL \<equiv> 0"

section \<open>Assertions and panics\<close>

text \<open>
  A function that can panic (\<open>ASSERT\<close>, \<open>PANIC\<close>, \<open>NOT_REACHED\<close>, a fault on
  a bad pointer) has an \<open>option\<close> result: \<open>None\<close> is the panic, after which the
  kernel does not continue.
\<close>

definition ASSERT :: "bool \<Rightarrow> unit option" where
  "ASSERT b = (if b then Some () else None)"

lemma ASSERT_simps [simp]:
  "ASSERT True = Some ()"
  "ASSERT False = None"
  "ASSERT b = Some u \<longleftrightarrow> b"
  "ASSERT b = None \<longleftrightarrow> \<not> b"
  by (simp_all add: ASSERT_def)

lemma ASSERT_bind [simp]: "b \<Longrightarrow> Option.bind (ASSERT b) f = f ()"
  by (simp add: ASSERT_def)

lemma ASSERT_bind_None [simp]: "\<not> b \<Longrightarrow> Option.bind (ASSERT b) f = None"
  by (simp add: ASSERT_def)

section \<open>size\_t arithmetic and the rounding macros\<close>

text \<open>
  Sizes and indices are natural numbers below \<open>2 ^ 32\<close>; the operations that
  can leave that range are written with their wrap-around.
\<close>

definition SIZE_MAX :: nat where
  "SIZE_MAX = 2 ^ 32 - 1"

definition size_add :: "nat \<Rightarrow> nat \<Rightarrow> nat" where
  "size_add a b = (a + b) mod 2 ^ 32"

definition size_sub :: "nat \<Rightarrow> nat \<Rightarrow> nat" where
  "size_sub a b = (a + (2 ^ 32 - b mod 2 ^ 32)) mod 2 ^ 32"

definition size_mul :: "nat \<Rightarrow> nat \<Rightarrow> nat" where
  "size_mul a b = (a * b) mod 2 ^ 32"

definition DIV_ROUND_UP :: "nat \<Rightarrow> nat \<Rightarrow> nat" where
  "DIV_ROUND_UP x step = size_sub (size_add x step) 1 div step"

definition ROUND_UP :: "nat \<Rightarrow> nat \<Rightarrow> nat" where
  "ROUND_UP x step = size_mul (size_sub (size_add x step) 1 div step) step"

definition ROUND_DOWN :: "nat \<Rightarrow> nat \<Rightarrow> nat" where
  "ROUND_DOWN x step = size_mul (x div step) step"

lemma size_add_bound [simp]: "size_add a b < 2 ^ 32"
  by (simp add: size_add_def)

lemma size_add_id: "a + b < 2 ^ 32 \<Longrightarrow> size_add a b = a + b"
  by (simp add: size_add_def)

lemma size_sub_id: "b \<le> a \<Longrightarrow> a < 2 ^ 32 \<Longrightarrow> size_sub a b = a - b"
proof -
  assume le: "b \<le> a" and lt: "a < 2 ^ 32"
  have "a + (2 ^ 32 - b mod 2 ^ 32) = (a - b) + 2 ^ 32"
    using le lt by simp
  then show ?thesis using lt by (simp add: size_sub_def)
qed

lemma size_mul_id: "a * b < 2 ^ 32 \<Longrightarrow> size_mul a b = a * b"
  by (simp add: size_mul_def)

lemma DIV_ROUND_UP_eq:
  assumes "0 < step" and "x + step < 2 ^ 32"
  shows "DIV_ROUND_UP x step = (x + step - 1) div step"
  using assms by (simp add: DIV_ROUND_UP_def size_add_id size_sub_id)

lemma ROUND_UP_eq:
  assumes "0 < step" and "x + step < 2 ^ 32"
  shows "ROUND_UP x step = (x + step - 1) div step * step"
proof -
  have "(x + step - 1) div step * step \<le> x + step - 1"
    by (rule div_times_less_eq_dividend)
  with assms have "(x + step - 1) div step * step < 2 ^ 32" by linarith
  with assms show ?thesis
    by (simp add: ROUND_UP_def size_add_id size_sub_id size_mul_id)
qed

lemma ROUND_DOWN_eq: "x < 2 ^ 32 \<Longrightarrow> ROUND_DOWN x step = x div step * step"
  by (simp add: ROUND_DOWN_def size_mul_def)
     (meson div_times_less_eq_dividend le_less_trans mod_less)

lemma round_up_div_bounds:
  fixes x step :: nat
  assumes "0 < step"
  shows "x \<le> (x + step - 1) div step * step"
    and "(x + step - 1) div step * step < x + step"
proof -
  let ?y = "x + step - 1"
  have eq: "?y div step * step + ?y mod step = ?y" by simp
  have lt: "?y mod step < step" using assms by simp
  show "x \<le> ?y div step * step" using eq lt assms by linarith
  show "?y div step * step < x + step" using eq assms by linarith
qed

section \<open>Comparison functions\<close>

text \<open>What the comparison functions of the lists and hash tables have to satisfy: a strict weak order.\<close>

definition weak_order :: "('a \<Rightarrow> 'a \<Rightarrow> bool) \<Rightarrow> bool" where
  "weak_order lt \<longleftrightarrow>
     (\<forall>x y. lt x y \<longrightarrow> \<not> lt y x) \<and> (\<forall>x y z. \<not> lt x y \<longrightarrow> \<not> lt y z \<longrightarrow> \<not> lt x z)"

text \<open>Elements neither of which precedes the other.\<close>

definition eqv :: "('a \<Rightarrow> 'a \<Rightarrow> bool) \<Rightarrow> 'a \<Rightarrow> 'a \<Rightarrow> bool" where
  "eqv lt k x \<longleftrightarrow> \<not> lt k x \<and> \<not> lt x k"

lemma weak_asym: "weak_order lt \<Longrightarrow> lt x y \<Longrightarrow> \<not> lt y x"
  unfolding weak_order_def by blast

lemma weak_negtrans: "weak_order lt \<Longrightarrow> \<not> lt x y \<Longrightarrow> \<not> lt y z \<Longrightarrow> \<not> lt x z"
  unfolding weak_order_def by blast

lemma eqv_refl [simp]: "weak_order lt \<Longrightarrow> eqv lt x x"
  using weak_asym [of lt x x] by (auto simp: eqv_def)

lemma eqv_sym: "eqv lt x y \<longleftrightarrow> eqv lt y x"
  by (auto simp: eqv_def)

lemma eqv_trans: "weak_order lt \<Longrightarrow> eqv lt x y \<Longrightarrow> eqv lt y z \<Longrightarrow> eqv lt x z"
  unfolding eqv_def using weak_negtrans [of lt] by blast

section \<open>Bytes in memory\<close>

text \<open>The four bytes of a 32-bit value, least significant first, and back.\<close>

definition u32_bytes :: "u32 \<Rightarrow> u8 list" where
  "u32_bytes w = [ucast w, ucast (drop_bit 8 w), ucast (drop_bit 16 w), ucast (drop_bit 24 w)]"

fun bytes_u32s :: "u8 list \<Rightarrow> u32 list" where
  "bytes_u32s (a # b # c # d # bs) =
     (ucast a OR push_bit 8 (ucast b) OR push_bit 16 (ucast c) OR push_bit 24 (ucast d)) # bytes_u32s bs"
| "bytes_u32s _ = []"

lemma u32_bytes_length [simp]: "length (u32_bytes w) = 4"
  by (simp add: u32_bytes_def)

lemma bytes_u32s_u32_bytes [simp]: "bytes_u32s (u32_bytes w @ bs) = w # bytes_u32s bs"
proof -
  have "ucast (ucast w :: u8) OR push_bit 8 (ucast (ucast (drop_bit 8 w) :: u8)) OR
      push_bit 16 (ucast (ucast (drop_bit 16 w) :: u8)) OR push_bit 24 (ucast (ucast (drop_bit 24 w) :: u8)) = w"
    (is "?l = w")
  proof (rule bit_word_eqI)
    fix n assume "n < LENGTH(32)"
    then consider "n < 8" | "8 \<le> n" "n < 16" | "16 \<le> n" "n < 24" | "24 \<le> n" "n < 32" by fastforce
    then show "bit ?l n = bit w n"
      by cases (auto simp: bit_or_iff bit_push_bit_iff bit_ucast_iff bit_drop_bit_eq)
  qed
  then show ?thesis by (simp add: u32_bytes_def)
qed

lemma bytes_u32s_concat [simp]: "bytes_u32s (concat (map u32_bytes ws)) = ws"
  by (induction ws) simp_all

end
