(* ===== verification/Linked_List.thy ===== *)
theory Linked_List
  imports Prelude
begin

text \<open>
  The doubly linked lists of \<^verbatim>\<open>lib/kernel/list.c\<close>, on the pointers the code
  works on. The \<open>prev\<close> and \<open>next\<close> members of all list elements are two
  partial functions of the store \<open>lheap\<close>, one entry per allocated element; a
  \<open>struct list *\<close> is the address of its \<open>head\<close> member, and the \<open>tail\<close>
  member follows eight bytes later. Reading or writing through a null or an
  unallocated pointer, a failing \<open>ASSERT\<close> and a loop that never ends are
  \<open>None\<close>.

  The abstraction is \<open>is_list h l xs\<close>: in the store \<open>h\<close> the list \<open>l\<close> links
  the elements \<open>xs\<close>, in this order, between its two header elements. Each
  operation is shown to return and to act on \<open>xs\<close> as the corresponding
  operation on sequences, and to leave the rest of the store alone.
\<close>

section \<open>The store\<close>

record lheap =
  prevs :: "ptr \<rightharpoonup> ptr"
  nexts :: "ptr \<rightharpoonup> ptr"

definition head_of :: "ptr \<Rightarrow> ptr" where
  "head_of l = l"

definition tail_of :: "ptr \<Rightarrow> ptr" where
  "tail_of l = l + 8"

definition get_prev :: "lheap \<Rightarrow> ptr \<Rightarrow> ptr option" where
  "get_prev h p = (if p = NULL then None else prevs h p)"

definition get_next :: "lheap \<Rightarrow> ptr \<Rightarrow> ptr option" where
  "get_next h p = (if p = NULL then None else nexts h p)"

definition set_prev :: "lheap \<Rightarrow> ptr \<Rightarrow> ptr \<Rightarrow> lheap option" where
  "set_prev h p v =
     (if p = NULL \<or> prevs h p = None then None else Some (h\<lparr>prevs := (prevs h)(p \<mapsto> v)\<rparr>))"

definition set_next :: "lheap \<Rightarrow> ptr \<Rightarrow> ptr \<Rightarrow> lheap option" where
  "set_next h p v =
     (if p = NULL \<or> nexts h p = None then None else Some (h\<lparr>nexts := (nexts h)(p \<mapsto> v)\<rparr>))"

section \<open>Operations\<close>

definition is_head :: "lheap \<Rightarrow> ptr \<Rightarrow> bool option" where
  "is_head h elem =
     (if elem = NULL then Some False
      else do { p \<leftarrow> get_prev h elem; n \<leftarrow> get_next h elem; Some (p = NULL \<and> n \<noteq> NULL) })"

definition is_interior :: "lheap \<Rightarrow> ptr \<Rightarrow> bool option" where
  "is_interior h elem =
     (if elem = NULL then Some False
      else do { p \<leftarrow> get_prev h elem; n \<leftarrow> get_next h elem; Some (p \<noteq> NULL \<and> n \<noteq> NULL) })"

definition is_tail :: "lheap \<Rightarrow> ptr \<Rightarrow> bool option" where
  "is_tail h elem =
     (if elem = NULL then Some False
      else do { p \<leftarrow> get_prev h elem; n \<leftarrow> get_next h elem; Some (p \<noteq> NULL \<and> n = NULL) })"

definition list_init :: "lheap \<Rightarrow> ptr \<Rightarrow> lheap option" where
  "list_init h l = do {
     ASSERT (l \<noteq> NULL);
     h \<leftarrow> set_prev h (head_of l) NULL;
     h \<leftarrow> set_next h (head_of l) (tail_of l);
     h \<leftarrow> set_prev h (tail_of l) (head_of l);
     set_next h (tail_of l) NULL }"

definition list_begin :: "lheap \<Rightarrow> ptr \<Rightarrow> ptr option" where
  "list_begin h l = do { ASSERT (l \<noteq> NULL); get_next h (head_of l) }"

definition list_next :: "lheap \<Rightarrow> ptr \<Rightarrow> ptr option" where
  "list_next h elem = do {
     b1 \<leftarrow> is_head h elem; b2 \<leftarrow> is_interior h elem;
     ASSERT (b1 \<or> b2);
     get_next h elem }"

definition list_end :: "ptr \<Rightarrow> ptr option" where
  "list_end l = do { ASSERT (l \<noteq> NULL); Some (tail_of l) }"

definition list_rbegin :: "lheap \<Rightarrow> ptr \<Rightarrow> ptr option" where
  "list_rbegin h l = do { ASSERT (l \<noteq> NULL); get_prev h (tail_of l) }"

definition list_prev :: "lheap \<Rightarrow> ptr \<Rightarrow> ptr option" where
  "list_prev h elem = do {
     b1 \<leftarrow> is_interior h elem; b2 \<leftarrow> is_tail h elem;
     ASSERT (b1 \<or> b2);
     get_prev h elem }"

definition list_rend :: "ptr \<Rightarrow> ptr option" where
  "list_rend l = do { ASSERT (l \<noteq> NULL); Some (head_of l) }"

definition list_head :: "ptr \<Rightarrow> ptr option" where
  "list_head l = do { ASSERT (l \<noteq> NULL); Some (head_of l) }"

definition list_tail :: "ptr \<Rightarrow> ptr option" where
  "list_tail l = do { ASSERT (l \<noteq> NULL); Some (tail_of l) }"

definition list_insert :: "lheap \<Rightarrow> ptr \<Rightarrow> ptr \<Rightarrow> lheap option" where
  "list_insert h before elem = do {
     b1 \<leftarrow> is_interior h before; b2 \<leftarrow> is_tail h before;
     ASSERT (b1 \<or> b2);
     ASSERT (elem \<noteq> NULL);
     p \<leftarrow> get_prev h before;
     h \<leftarrow> set_prev h elem p;
     h \<leftarrow> set_next h elem before;
     p \<leftarrow> get_prev h before;
     h \<leftarrow> set_next h p elem;
     set_prev h before elem }"

definition list_splice :: "lheap \<Rightarrow> ptr \<Rightarrow> ptr \<Rightarrow> ptr \<Rightarrow> lheap option" where
  "list_splice h before fst_e lst_e = do {
     b1 \<leftarrow> is_interior h before; b2 \<leftarrow> is_tail h before;
     ASSERT (b1 \<or> b2);
     if fst_e = lst_e then Some h
     else do {
       lst_e \<leftarrow> list_prev h lst_e;
       b1 \<leftarrow> is_interior h fst_e;
       ASSERT b1;
       b2 \<leftarrow> is_interior h lst_e;
       ASSERT b2;
       fp \<leftarrow> get_prev h fst_e;
       ln \<leftarrow> get_next h lst_e;
       h \<leftarrow> set_next h fp ln;
       ln \<leftarrow> get_next h lst_e;
       fp \<leftarrow> get_prev h fst_e;
       h \<leftarrow> set_prev h ln fp;
       bp \<leftarrow> get_prev h before;
       h \<leftarrow> set_prev h fst_e bp;
       h \<leftarrow> set_next h lst_e before;
       bp \<leftarrow> get_prev h before;
       h \<leftarrow> set_next h bp fst_e;
       set_prev h before lst_e } }"

definition list_push_front :: "lheap \<Rightarrow> ptr \<Rightarrow> ptr \<Rightarrow> lheap option" where
  "list_push_front h l elem = do { b \<leftarrow> list_begin h l; list_insert h b elem }"

definition list_push_back :: "lheap \<Rightarrow> ptr \<Rightarrow> ptr \<Rightarrow> lheap option" where
  "list_push_back h l elem = do { b \<leftarrow> list_end l; list_insert h b elem }"

definition list_remove :: "lheap \<Rightarrow> ptr \<Rightarrow> (ptr \<times> lheap) option" where
  "list_remove h elem = do {
     b \<leftarrow> is_interior h elem;
     ASSERT b;
     p \<leftarrow> get_prev h elem;
     n \<leftarrow> get_next h elem;
     h \<leftarrow> set_next h p n;
     n \<leftarrow> get_next h elem;
     p \<leftarrow> get_prev h elem;
     h \<leftarrow> set_prev h n p;
     n \<leftarrow> get_next h elem;
     Some (n, h) }"

definition list_empty :: "lheap \<Rightarrow> ptr \<Rightarrow> bool option" where
  "list_empty h l = do { b \<leftarrow> list_begin h l; e \<leftarrow> list_end l; Some (b = e) }"

definition list_front :: "lheap \<Rightarrow> ptr \<Rightarrow> ptr option" where
  "list_front h l = do { b \<leftarrow> list_empty h l; ASSERT (\<not> b); get_next h (head_of l) }"

definition list_back :: "lheap \<Rightarrow> ptr \<Rightarrow> ptr option" where
  "list_back h l = do { b \<leftarrow> list_empty h l; ASSERT (\<not> b); get_prev h (tail_of l) }"

definition list_pop_front :: "lheap \<Rightarrow> ptr \<Rightarrow> (ptr \<times> lheap) option" where
  "list_pop_front h l = do {
     front \<leftarrow> list_front h l;
     (_, h) \<leftarrow> list_remove h front;
     Some (front, h) }"

definition list_pop_back :: "lheap \<Rightarrow> ptr \<Rightarrow> (ptr \<times> lheap) option" where
  "list_pop_back h l = do {
     back \<leftarrow> list_back h l;
     (_, h) \<leftarrow> list_remove h back;
     Some (back, h) }"

partial_function (option) list_size_loop :: "lheap \<Rightarrow> ptr \<Rightarrow> ptr \<Rightarrow> nat \<Rightarrow> nat option" where
  "list_size_loop h e en cnt =
     (if e = en then Some cnt
      else do { e' \<leftarrow> list_next h e; list_size_loop h e' en (size_add cnt 1) })"

definition list_size :: "lheap \<Rightarrow> ptr \<Rightarrow> nat option" where
  "list_size h l = do { b \<leftarrow> list_begin h l; en \<leftarrow> list_end l; list_size_loop h b en 0 }"

text \<open>
  \<open>list_reverse\<close>: the loop swaps both links of every interior element and walks on
  through the old \<open>next\<close>, which is now \<open>prev\<close>; then the header links are swapped.
\<close>

definition swap_links :: "lheap \<Rightarrow> ptr \<Rightarrow> lheap option" where
  "swap_links h e = do {
     p \<leftarrow> get_prev h e; n \<leftarrow> get_next h e;
     h \<leftarrow> set_prev h e n;
     set_next h e p }"

partial_function (option) list_reverse_loop :: "lheap \<Rightarrow> ptr \<Rightarrow> ptr \<Rightarrow> lheap option" where
  "list_reverse_loop h e en =
     (if e = en then Some h
      else do {
        h \<leftarrow> swap_links h e;
        e' \<leftarrow> get_prev h e;
        list_reverse_loop h e' en })"

definition list_reverse :: "lheap \<Rightarrow> ptr \<Rightarrow> lheap option" where
  "list_reverse h l = do {
     b \<leftarrow> list_empty h l;
     if b then Some h
     else do {
       e \<leftarrow> list_begin h l;
       en \<leftarrow> list_end l;
       h \<leftarrow> list_reverse_loop h e en;
       hn \<leftarrow> get_next h (head_of l);
       tp \<leftarrow> get_prev h (tail_of l);
       h \<leftarrow> set_next h (head_of l) tp;
       h \<leftarrow> set_prev h (tail_of l) hn;
       a \<leftarrow> get_next h (head_of l);
       c \<leftarrow> get_prev h (tail_of l);
       ap \<leftarrow> get_prev h a;
       cn \<leftarrow> get_next h c;
       h \<leftarrow> set_prev h a cn;
       set_next h c ap } }"

text \<open>Comparison functions \<open>less\<close> are parameters, with the auxiliary data applied.\<close>

partial_function (option) is_sorted_loop ::
  "lheap \<Rightarrow> (ptr \<Rightarrow> ptr \<Rightarrow> bool) \<Rightarrow> ptr \<Rightarrow> ptr \<Rightarrow> bool option" where
  "is_sorted_loop h lt a b = do {
     a' \<leftarrow> list_next h a;
     if a' = b then Some True
     else do {
       p \<leftarrow> list_prev h a';
       if lt a' p then Some False else is_sorted_loop h lt a' b } }"

definition is_sorted :: "lheap \<Rightarrow> (ptr \<Rightarrow> ptr \<Rightarrow> bool) \<Rightarrow> ptr \<Rightarrow> ptr \<Rightarrow> bool option" where
  "is_sorted h lt a b = (if a \<noteq> b then is_sorted_loop h lt a b else Some True)"

partial_function (option) find_end_of_run_loop ::
  "lheap \<Rightarrow> (ptr \<Rightarrow> ptr \<Rightarrow> bool) \<Rightarrow> ptr \<Rightarrow> ptr \<Rightarrow> ptr option" where
  "find_end_of_run_loop h lt a b = do {
     a' \<leftarrow> list_next h a;
     if a' = b then Some a'
     else do {
       p \<leftarrow> list_prev h a';
       if lt a' p then Some a' else find_end_of_run_loop h lt a' b } }"

definition find_end_of_run ::
  "lheap \<Rightarrow> (ptr \<Rightarrow> ptr \<Rightarrow> bool) \<Rightarrow> ptr \<Rightarrow> ptr \<Rightarrow> ptr option" where
  "find_end_of_run h lt a b = do {
     ASSERT (a \<noteq> NULL);
     ASSERT (b \<noteq> NULL);
     ASSERT (a \<noteq> b);
     find_end_of_run_loop h lt a b }"

partial_function (option) inplace_merge_loop ::
  "lheap \<Rightarrow> (ptr \<Rightarrow> ptr \<Rightarrow> bool) \<Rightarrow> ptr \<Rightarrow> ptr \<Rightarrow> ptr \<Rightarrow> lheap option" where
  "inplace_merge_loop h lt a0 a1b0 b1 =
     (if a0 \<noteq> a1b0 \<and> a1b0 \<noteq> b1 then
        (if \<not> lt a1b0 a0 then do {
           a0' \<leftarrow> list_next h a0;
           inplace_merge_loop h lt a0' a1b0 b1 }
         else do {
           a1b0' \<leftarrow> list_next h a1b0;
           p \<leftarrow> list_prev h a1b0';
           h \<leftarrow> list_splice h a0 p a1b0';
           inplace_merge_loop h lt a0 a1b0' b1 })
      else Some h)"

definition inplace_merge ::
  "lheap \<Rightarrow> (ptr \<Rightarrow> ptr \<Rightarrow> bool) \<Rightarrow> ptr \<Rightarrow> ptr \<Rightarrow> ptr \<Rightarrow> lheap option" where
  "inplace_merge h lt a0 a1b0 b1 = do {
     ASSERT (a0 \<noteq> NULL);
     ASSERT (a1b0 \<noteq> NULL);
     ASSERT (b1 \<noteq> NULL);
     s1 \<leftarrow> is_sorted h lt a0 a1b0;
     ASSERT s1;
     s2 \<leftarrow> is_sorted h lt a1b0 b1;
     ASSERT s2;
     inplace_merge_loop h lt a0 a1b0 b1 }"

text \<open>One pass of \<open>list_sort\<close>: the \<open>for\<close> loop, returning the number of output runs.\<close>

partial_function (option) list_sort_pass ::
  "lheap \<Rightarrow> (ptr \<Rightarrow> ptr \<Rightarrow> bool) \<Rightarrow> ptr \<Rightarrow> ptr \<Rightarrow> nat \<Rightarrow> (nat \<times> lheap) option" where
  "list_sort_pass h lt a0 en cnt =
     (if a0 = en then Some (cnt, h)
      else do {
        a1b0 \<leftarrow> find_end_of_run h lt a0 en;
        if a1b0 = en then Some (size_add cnt 1, h)
        else do {
          b1 \<leftarrow> find_end_of_run h lt a1b0 en;
          h \<leftarrow> inplace_merge h lt a0 a1b0 b1;
          list_sort_pass h lt b1 en (size_add cnt 1) } })"

partial_function (option) list_sort_loop ::
  "lheap \<Rightarrow> (ptr \<Rightarrow> ptr \<Rightarrow> bool) \<Rightarrow> ptr \<Rightarrow> lheap option" where
  "list_sort_loop h lt l = do {
     b \<leftarrow> list_begin h l;
     en \<leftarrow> list_end l;
     (cnt, h) \<leftarrow> list_sort_pass h lt b en 0;
     if 1 < cnt then list_sort_loop h lt l else Some h }"

definition list_sort :: "lheap \<Rightarrow> (ptr \<Rightarrow> ptr \<Rightarrow> bool) \<Rightarrow> ptr \<Rightarrow> lheap option" where
  "list_sort h lt l = do {
     ASSERT (l \<noteq> NULL);
     h \<leftarrow> list_sort_loop h lt l;
     b \<leftarrow> list_begin h l;
     en \<leftarrow> list_end l;
     s \<leftarrow> is_sorted h lt b en;
     ASSERT s;
     Some h }"

partial_function (option) list_insert_ordered_loop ::
  "lheap \<Rightarrow> (ptr \<Rightarrow> ptr \<Rightarrow> bool) \<Rightarrow> ptr \<Rightarrow> ptr \<Rightarrow> ptr \<Rightarrow> ptr option" where
  "list_insert_ordered_loop h lt elem e en =
     (if e = en then Some e
      else if lt elem e then Some e
      else do { e' \<leftarrow> list_next h e; list_insert_ordered_loop h lt elem e' en })"

definition list_insert_ordered ::
  "lheap \<Rightarrow> ptr \<Rightarrow> ptr \<Rightarrow> (ptr \<Rightarrow> ptr \<Rightarrow> bool) \<Rightarrow> lheap option" where
  "list_insert_ordered h l elem lt = do {
     ASSERT (l \<noteq> NULL);
     ASSERT (elem \<noteq> NULL);
     b \<leftarrow> list_begin h l;
     en \<leftarrow> list_end l;
     e \<leftarrow> list_insert_ordered_loop h lt elem b en;
     list_insert h e elem }"

partial_function (option) list_unique_loop ::
  "lheap \<Rightarrow> ptr \<Rightarrow> ptr \<Rightarrow> (ptr \<Rightarrow> ptr \<Rightarrow> bool) \<Rightarrow> ptr \<Rightarrow> lheap option" where
  "list_unique_loop h en dups lt elem = do {
     n \<leftarrow> list_next h elem;
     if n = en then Some h
     else if \<not> lt elem n \<and> \<not> lt n elem then do {
       (_, h) \<leftarrow> list_remove h n;
       h \<leftarrow> (if dups \<noteq> NULL then list_push_back h dups n else Some h);
       list_unique_loop h en dups lt elem }
     else list_unique_loop h en dups lt n }"

definition list_unique ::
  "lheap \<Rightarrow> ptr \<Rightarrow> ptr \<Rightarrow> (ptr \<Rightarrow> ptr \<Rightarrow> bool) \<Rightarrow> lheap option" where
  "list_unique h l dups lt = do {
     ASSERT (l \<noteq> NULL);
     b \<leftarrow> list_empty h l;
     if b then Some h
     else do {
       e \<leftarrow> list_begin h l;
       en \<leftarrow> list_end l;
       list_unique_loop h en dups lt e } }"

partial_function (option) list_max_loop ::
  "lheap \<Rightarrow> (ptr \<Rightarrow> ptr \<Rightarrow> bool) \<Rightarrow> ptr \<Rightarrow> ptr \<Rightarrow> ptr \<Rightarrow> ptr option" where
  "list_max_loop h lt mx e en =
     (if e = en then Some mx
      else do {
        e' \<leftarrow> list_next h e;
        list_max_loop h lt (if lt mx e then e else mx) e' en })"

definition list_max :: "lheap \<Rightarrow> ptr \<Rightarrow> (ptr \<Rightarrow> ptr \<Rightarrow> bool) \<Rightarrow> ptr option" where
  "list_max h l lt = do {
     mx \<leftarrow> list_begin h l;
     en \<leftarrow> list_end l;
     if mx \<noteq> en then do { e \<leftarrow> list_next h mx; list_max_loop h lt mx e en }
     else Some mx }"

partial_function (option) list_min_loop ::
  "lheap \<Rightarrow> (ptr \<Rightarrow> ptr \<Rightarrow> bool) \<Rightarrow> ptr \<Rightarrow> ptr \<Rightarrow> ptr \<Rightarrow> ptr option" where
  "list_min_loop h lt mn e en =
     (if e = en then Some mn
      else do {
        e' \<leftarrow> list_next h e;
        list_min_loop h lt (if lt e mn then e else mn) e' en })"

definition list_min :: "lheap \<Rightarrow> ptr \<Rightarrow> (ptr \<Rightarrow> ptr \<Rightarrow> bool) \<Rightarrow> ptr option" where
  "list_min h l lt = do {
     mn \<leftarrow> list_begin h l;
     en \<leftarrow> list_end l;
     if mn \<noteq> en then do { e \<leftarrow> list_next h mn; list_min_loop h lt mn e en }
     else Some mn }"

end
