(* ===== verification/Linked_List_Ops.thy ===== *)
theory Linked_List_Ops
  imports Linked_List
begin

text \<open>
  What the operations of \<^verbatim>\<open>lib/kernel/list.c\<close> do, except \<open>list_sort\<close>. The
  abstraction \<open>is_list h l xs\<close> says that in the store \<open>h\<close> the list \<open>l\<close> links
  exactly the elements \<open>xs\<close> in both directions between its two header
  elements. Each operation is shown to return, to act on \<open>xs\<close> like the
  corresponding operation on sequences, and to change no cell outside the
  list (\<open>frame\<close>). The locale \<open>fifo\<close> is the queue contract that the scheduler,
  the semaphores and the free lists rely on; the lists provide it.
\<close>

section \<open>The abstraction\<close>

fun fwd :: "(ptr \<rightharpoonup> ptr) \<Rightarrow> ptr list \<Rightarrow> bool" where
  "fwd n [] \<longleftrightarrow> True"
| "fwd n [x] \<longleftrightarrow> True"
| "fwd n (x # y # zs) \<longleftrightarrow> n x = Some y \<and> fwd n (y # zs)"

fun bwd :: "(ptr \<rightharpoonup> ptr) \<Rightarrow> ptr list \<Rightarrow> bool" where
  "bwd p [] \<longleftrightarrow> True"
| "bwd p [x] \<longleftrightarrow> True"
| "bwd p (x # y # zs) \<longleftrightarrow> p y = Some x \<and> bwd p (y # zs)"

definition dseq :: "lheap \<Rightarrow> ptr list \<Rightarrow> bool" where
  "dseq h zs \<longleftrightarrow>
     zs \<noteq> [] \<and> distinct zs \<and> NULL \<notin> set zs \<and> fwd (nexts h) zs \<and> bwd (prevs h) zs \<and>
     prevs h (hd zs) = Some NULL \<and> nexts h (last zs) = Some NULL"

definition is_list :: "lheap \<Rightarrow> ptr \<Rightarrow> ptr list \<Rightarrow> bool" where
  "is_list h l xs \<longleftrightarrow> dseq h (head_of l # xs @ [tail_of l])"

text \<open>The store outside \<open>S\<close> is unchanged, and the same elements are allocated.\<close>

definition frame :: "ptr set \<Rightarrow> lheap \<Rightarrow> lheap \<Rightarrow> bool" where
  "frame S h h' \<longleftrightarrow>
     (\<forall>p. p \<notin> S \<longrightarrow> prevs h' p = prevs h p \<and> nexts h' p = nexts h p) \<and>
     dom (prevs h') = dom (prevs h) \<and> dom (nexts h') = dom (nexts h)"

definition allocated :: "lheap \<Rightarrow> ptr \<Rightarrow> bool" where
  "allocated h e \<longleftrightarrow> e \<noteq> NULL \<and> prevs h e \<noteq> None \<and> nexts h e \<noteq> None"

text \<open>The addresses a list occupies: its header elements and its elements.\<close>

definition cells :: "ptr \<Rightarrow> ptr list \<Rightarrow> ptr set" where
  "cells l xs = set (head_of l # xs @ [tail_of l])"

text \<open>The first maximal element of a non-empty sequence, as \<open>list_max\<close> scans for it.\<close>

fun max_by :: "('a \<Rightarrow> 'a \<Rightarrow> bool) \<Rightarrow> 'a \<Rightarrow> 'a list \<Rightarrow> 'a" where
  "max_by lt m [] = m"
| "max_by lt m (x # xs) = max_by lt (if lt m x then x else m) xs"

text \<open>\<open>list_unique\<close> on sequences: the elements kept and the elements removed.\<close>

fun unique_by :: "('a \<Rightarrow> 'a \<Rightarrow> bool) \<Rightarrow> 'a \<Rightarrow> 'a list \<Rightarrow> 'a list \<times> 'a list" where
  "unique_by lt e [] = ([], [])"
| "unique_by lt e (n # ns) =
     (if \<not> lt e n \<and> \<not> lt n e then let (k, d) = unique_by lt e ns in (k, n # d)
      else let (k, d) = unique_by lt n ns in (n # k, d))"

section \<open>Linked sequences\<close>

lemma frame_refl [simp]: "frame S h h"
  by (simp add: frame_def)

lemma frame_trans: "frame S h h' \<Longrightarrow> frame S h' h'' \<Longrightarrow> frame S h h''"
  by (simp add: frame_def)

lemma frame_mono: "frame S h h' \<Longrightarrow> S \<subseteq> T \<Longrightarrow> frame T h h'"
  by (auto simp: frame_def)

lemma frame_allocated: "frame S h h' \<Longrightarrow> allocated h' e = allocated h e"
  unfolding frame_def allocated_def dom_def by blast

lemma fwd_append [simp]:
  "fwd n (xs @ y # z # zs) \<longleftrightarrow> fwd n (xs @ [y]) \<and> n y = Some z \<and> fwd n (z # zs)"
  by (induction n xs rule: fwd.induct) auto

lemma fwd_append_Cons [simp]:
  "fwd n (x # xs @ y # z # zs) \<longleftrightarrow> fwd n (x # xs @ [y]) \<and> n y = Some z \<and> fwd n (z # zs)"
  using fwd_append [of n "x # xs"] by simp

lemma bwd_append [simp]:
  "bwd p (xs @ y # z # zs) \<longleftrightarrow> bwd p (xs @ [y]) \<and> p z = Some y \<and> bwd p (z # zs)"
  by (induction p xs rule: bwd.induct) auto

lemma bwd_append_Cons [simp]:
  "bwd p (x # xs @ y # z # zs) \<longleftrightarrow> bwd p (x # xs @ [y]) \<and> p z = Some y \<and> bwd p (z # zs)"
  using bwd_append [of p "x # xs"] by simp

lemma fwd_cong: "(\<And>x. x \<in> set (butlast zs) \<Longrightarrow> n x = n' x) \<Longrightarrow> fwd n zs = fwd n' zs"
  by (induction n zs rule: fwd.induct) auto

lemma bwd_cong: "(\<And>x. x \<in> set (tl zs) \<Longrightarrow> p x = p' x) \<Longrightarrow> bwd p zs = bwd p' zs"
  by (induction p zs rule: bwd.induct) auto

lemma fwd_upd [simp]: "x \<notin> set zs \<Longrightarrow> fwd (n(x := v)) zs = fwd n zs"
  by (rule fwd_cong) (auto dest: in_set_butlastD)

lemma fwd_upd_snoc [simp]: "x \<notin> set xs \<Longrightarrow> fwd (n(x := v)) (xs @ [y]) = fwd n (xs @ [y])"
  by (rule fwd_cong) auto

lemma fwd_upd_Cons_snoc [simp]:
  "x \<notin> set (z # xs) \<Longrightarrow> fwd (n(x := v)) (z # xs @ [y]) = fwd n (z # xs @ [y])"
  by (rule fwd_cong) auto

lemma bwd_upd [simp]: "x \<notin> set zs \<Longrightarrow> bwd (p(x := v)) zs = bwd p zs"
  by (rule bwd_cong) (cases zs; auto)

lemma bwd_upd_Cons [simp]: "x \<notin> set zs \<Longrightarrow> bwd (p(x := v)) (z # zs) = bwd p (z # zs)"
  by (rule bwd_cong) auto

lemma dseq_frame: "dseq h zs \<Longrightarrow> frame S h h' \<Longrightarrow> S \<inter> set zs = {} \<Longrightarrow> dseq h' zs"
proof -
  assume d: "dseq h zs" and f: "frame S h h'" and S: "S \<inter> set zs = {}"
  have p: "\<And>x. x \<in> set zs \<Longrightarrow> prevs h' x = prevs h x \<and> nexts h' x = nexts h x"
    using f S by (auto simp: frame_def)
  have "fwd (nexts h') zs = fwd (nexts h) zs"
    by (rule fwd_cong) (auto dest: in_set_butlastD simp: p)
  moreover have "bwd (prevs h') zs = bwd (prevs h) zs"
    by (rule bwd_cong) (metis p list.set_sel(2) empty_iff list.set(1) tl_Nil)
  ultimately show ?thesis
    using d p by (simp add: dseq_def)
qed

lemma dseq_cells:
  assumes "dseq h (us @ e # vs)"
  shows "e \<noteq> NULL"
    and "prevs h e = Some (last (NULL # us))"
    and "nexts h e = Some (hd (vs @ [NULL]))"
proof -
  show "e \<noteq> NULL" using assms by (auto simp: dseq_def)
  show "prevs h e = Some (last (NULL # us))"
  proof (cases us rule: rev_cases)
    case Nil
    with assms show ?thesis by (simp add: dseq_def)
  next
    case (snoc ws w)
    with assms show ?thesis by (simp add: dseq_def)
  qed
  show "nexts h e = Some (hd (vs @ [NULL]))"
    using assms by (cases vs) (auto simp: dseq_def)
qed

lemma dseq_allocated: "dseq h zs \<Longrightarrow> e \<in> set zs \<Longrightarrow> allocated h e"
  by (auto simp: allocated_def dest!: split_list dest: dseq_cells)

lemma dseq_neq_NULL: "dseq h zs \<Longrightarrow> e \<in> set zs \<Longrightarrow> e \<noteq> NULL"
  unfolding dseq_def by metis

lemma dseq_pair:
  assumes "dseq h (us @ u # b # vs)"
  shows "prevs h b = Some u" "nexts h u = Some b" "u \<noteq> NULL" "b \<noteq> NULL" "u \<noteq> b"
  using assms by (simp_all add: dseq_def)

lemma list_next_dseq: "dseq h (us @ e # v # vs) \<Longrightarrow> list_next h e = Some v"
  using dseq_cells [of h us e "v # vs"] dseq_neq_NULL [of h _ v]
  by (cases "last (NULL # us) = NULL")
     (simp_all add: list_next_def is_head_def is_interior_def get_prev_def get_next_def)

lemma list_prev_dseq: "dseq h (us @ u # e # vs) \<Longrightarrow> list_prev h e = Some u"
  using dseq_cells [of h "us @ [u]" e vs] dseq_neq_NULL [of h _ u]
  by (cases "hd (vs @ [NULL]) = NULL")
     (simp_all add: list_prev_def is_tail_def is_interior_def get_prev_def get_next_def)

lemma is_interior_dseq:
  assumes "dseq h (us @ u # e # v # vs)"
  shows "is_interior h e = Some True"
  using dseq_cells [of h "us @ [u]" e "v # vs"] dseq_neq_NULL [OF assms, of u]
    dseq_neq_NULL [OF assms, of v] assms
  by (simp add: is_interior_def get_prev_def get_next_def)

text \<open>The guard of the operations that take a position to insert before.\<close>

lemma before_ok_dseq:
  assumes "dseq h (us @ u # b # vs)"
  obtains b1 b2 where "is_interior h b = Some b1" "is_tail h b = Some b2" "b1 \<or> b2"
proof (cases "hd (vs @ [NULL]) = NULL")
  case True
  with that [of False True] show ?thesis
    using dseq_cells [of h "us @ [u]" b vs] dseq_neq_NULL [OF assms, of u] assms
    by (simp add: is_tail_def is_interior_def get_prev_def get_next_def)
next
  case False
  with that [of True False] show ?thesis
    using dseq_cells [of h "us @ [u]" b vs] dseq_neq_NULL [OF assms, of u] assms
    by (simp add: is_tail_def is_interior_def get_prev_def get_next_def)
qed

lemma list_insert_dseq:
  assumes d: "dseq h (us @ u # b # vs)" and e: "allocated h e" "e \<notin> set (us @ u # b # vs)"
  shows "\<exists>h'. list_insert h b e = Some h' \<and> dseq h' (us @ u # e # b # vs) \<and> frame {u, e, b} h h'"
proof -
  obtain b1 b2 where g: "is_interior h b = Some b1" "is_tail h b = Some b2" "b1 \<or> b2"
    using before_ok_dseq [OF d] .
  note c = dseq_pair [OF d]
  let ?h = "\<lparr>prevs = (prevs h)(e \<mapsto> u, b \<mapsto> e), nexts = (nexts h)(e \<mapsto> b, u \<mapsto> e)\<rparr>"
  have ok: "list_insert h b e = Some ?h"
    using g c e by (simp add: list_insert_def get_prev_def set_prev_def set_next_def allocated_def)
  have "dseq ?h (us @ u # e # b # vs)"
  proof -
    have "fwd (nexts ?h) (us @ u # e # b # vs)"
      using d e by (simp add: dseq_def)
    moreover have "bwd (prevs ?h) (us @ u # e # b # vs)"
      using d e by (simp add: dseq_def)
    moreover have "hd (us @ u # e # b # vs) = hd (us @ u # b # vs)"
      by (cases us) simp_all
    moreover have "prevs ?h (hd (us @ u # e # b # vs)) = Some NULL"
      using d e by (cases us) (simp_all add: dseq_def)
    moreover have "nexts ?h (last (us @ u # e # b # vs)) = Some NULL"
      using d e by (cases vs rule: rev_cases) (simp_all add: dseq_def)
    ultimately show ?thesis
      using d e by (simp add: dseq_def allocated_def)
  qed
  moreover have "frame {u, e, b} h ?h"
    using c e by (auto simp: frame_def allocated_def)
  ultimately show ?thesis using ok by blast
qed

lemma fwd_concat:
  "fwd n (xs @ ys) \<longleftrightarrow>
     fwd n xs \<and> fwd n ys \<and> (xs \<noteq> [] \<and> ys \<noteq> [] \<longrightarrow> n (last xs) = Some (hd ys))"
  by (induction n xs rule: fwd.induct) (cases ys; auto)+

lemma bwd_concat:
  "bwd p (xs @ ys) \<longleftrightarrow>
     bwd p xs \<and> bwd p ys \<and> (xs \<noteq> [] \<and> ys \<noteq> [] \<longrightarrow> p (hd ys) = Some (last xs))"
  by (induction p xs rule: bwd.induct) (cases ys; auto)+

lemma fwd_upd_last: "distinct zs \<Longrightarrow> fwd (n(last zs := v)) zs = fwd n zs"
  by (rule fwd_cong) (metis append_butlast_last_id butlast.simps(1) distinct_butlast
      distinct_append disjoint_insert(1) empty_iff fun_upd_other in_set_butlastD list.set(1,2)
      list.distinct(1) not_distinct_conv_prefix)

lemma bwd_upd_hd: "distinct zs \<Longrightarrow> bwd (p(hd zs := v)) zs = bwd p zs"
  by (rule bwd_cong) (cases zs; auto)

lemma list_remove_dseq:
  assumes d: "dseq h (us @ u # e # v # vs)"
  shows "\<exists>h'. list_remove h e = Some (v, h') \<and> dseq h' (us @ u # v # vs) \<and> frame {u, v} h h'"
proof -
  have d': "dseq h ((us @ [u]) @ e # v # vs)" using d by simp
  note c = dseq_pair [OF d] dseq_pair [OF d'] is_interior_dseq [OF d]
  have uv: "u \<noteq> v" using d by (simp add: dseq_def)
  let ?h = "\<lparr>prevs = (prevs h)(v \<mapsto> u), nexts = (nexts h)(u \<mapsto> v)\<rparr>"
  have pv: "nexts h v \<noteq> None" "prevs h u \<noteq> None"
    using dseq_cells [of h "us @ [u, e]" v vs] dseq_cells [of h us u "e # v # vs"] d by simp_all
  have ok: "list_remove h e = Some (v, ?h)"
    using c uv by (simp add: list_remove_def get_prev_def get_next_def set_prev_def set_next_def)
  have "fwd (nexts ?h) (us @ u # v # vs)" "bwd (prevs ?h) (us @ u # v # vs)"
    using d by (simp_all add: dseq_def)
  moreover have "prevs ?h (hd (us @ u # v # vs)) = Some NULL"
    using d by (cases us) (simp_all add: dseq_def)
  moreover have "nexts ?h (last (us @ u # v # vs)) = Some NULL"
    using d by (cases vs rule: rev_cases) (simp_all add: dseq_def)
  ultimately have "dseq ?h (us @ u # v # vs)"
    using d by (simp add: dseq_def)
  moreover have "frame {u, v} h ?h"
    using c by (auto simp: frame_def)
  ultimately show ?thesis using ok by blast
qed

text \<open>The pointer assignments of \<open>list_splice\<close>, when the cells involved do not coincide.\<close>

lemma list_splice_exec:
  assumes g: "is_interior h b = Some b1" "is_tail h b = Some b2" "b1 \<or> b2"
    and fl: "f \<noteq> y" "list_prev h y = Some g"
    and i: "is_interior h f = Some True" "is_interior h g = Some True"
    and c: "prevs h f = Some w" "nexts h g = Some y" "prevs h b = Some u"
    and nn: "f \<noteq> NULL" "g \<noteq> NULL" "w \<noteq> NULL" "y \<noteq> NULL" "b \<noteq> NULL" "u \<noteq> NULL"
    and al: "nexts h w \<noteq> None" "prevs h y \<noteq> None" "nexts h u \<noteq> None"
    and ne: "b \<noteq> y" "b \<noteq> f" "g \<noteq> w" "u \<noteq> w" "u \<noteq> g" "f \<noteq> y"
  shows "list_splice h b f y = Some \<lparr>prevs = (prevs h)(y \<mapsto> w, f \<mapsto> u, b \<mapsto> g),
                                      nexts = (nexts h)(w \<mapsto> y, g \<mapsto> b, u \<mapsto> f)\<rparr>"
  using assms
  by (simp add: list_splice_def get_prev_def get_next_def set_prev_def set_next_def)

lemma dseq_junction:
  assumes "dseq h (A @ B)" and "A \<noteq> []" and "B \<noteq> []"
  shows "nexts h (last A) = Some (hd B)" "prevs h (hd B) = Some (last A)"
    "last A \<noteq> NULL" "hd B \<noteq> NULL" "last A \<noteq> hd B"
proof -
  have m: "last A \<in> set A" "hd B \<in> set B" using assms by simp_all
  show "nexts h (last A) = Some (hd B)" "prevs h (hd B) = Some (last A)"
    using assms by (simp_all add: dseq_def fwd_concat bwd_concat)
  have "NULL \<notin> set A" "NULL \<notin> set B" and disj: "set A \<inter> set B = {}"
    using assms(1) by (simp_all add: dseq_def)
  with m show "last A \<noteq> NULL" "hd B \<noteq> NULL" by metis+
  from m disj show "last A \<noteq> hd B" by (metis disjoint_iff)
qed

lemma dseq_interior:
  assumes "dseq h (A @ F @ B)" and "A \<noteq> []" and "F \<noteq> []" and "B \<noteq> []" and "e \<in> set F"
  shows "is_interior h e = Some True"
proof -
  obtain F1 F2 where F: "F = F1 @ e # F2" using assms(5) by (auto dest: split_list)
  obtain us u where "A @ F1 = us @ [u]" using assms(2) by (metis append_is_Nil_conv rev_exhaust)
  moreover obtain v vs where "F2 @ B = v # vs" using assms(4) by (cases "F2 @ B") auto
  ultimately have "A @ F @ B = us @ u # e # v # vs" using F by simp
  with assms(1) show ?thesis by (metis is_interior_dseq)
qed

text \<open>Moving a segment towards the front of its own list.\<close>

lemma list_splice_same:
  assumes d: "dseq h (A @ B @ F @ Y)"
    and ne: "A \<noteq> []" "B \<noteq> []" "F \<noteq> []" "Y \<noteq> []"
  shows "\<exists>h'. list_splice h (hd B) (hd F) (hd Y) = Some h' \<and> dseq h' (A @ F @ B @ Y) \<and>
    frame (set (A @ B @ F @ Y)) h h'"
proof -
  let ?u = "last A" and ?b = "hd B" and ?w = "last B" and ?f = "hd F" and ?g = "last F"
    and ?y = "hd Y"
  let ?h = "\<lparr>prevs = (prevs h)(?y \<mapsto> ?w, ?f \<mapsto> ?u, ?b \<mapsto> ?g),
             nexts = (nexts h)(?w \<mapsto> ?y, ?g \<mapsto> ?b, ?u \<mapsto> ?f)\<rparr>"
  have j1: "nexts h ?u = Some ?b" "prevs h ?b = Some ?u" "?u \<noteq> NULL" "?b \<noteq> NULL"
    using dseq_junction [of h A "B @ F @ Y"] d ne by simp_all
  have j2: "nexts h ?w = Some ?f" "prevs h ?f = Some ?w" "?w \<noteq> NULL" "?f \<noteq> NULL"
    using dseq_junction [of h "A @ B" "F @ Y"] d ne by simp_all
  have j3: "nexts h ?g = Some ?y" "prevs h ?y = Some ?g" "?g \<noteq> NULL" "?y \<noteq> NULL"
    using dseq_junction [of h "A @ B @ F" Y] d ne by simp_all
  have mem: "?u \<in> set A" "?b \<in> set B" "?w \<in> set B" "?f \<in> set F" "?g \<in> set F" "?y \<in> set Y"
    using ne by simp_all
  have dist: "distinct (A @ B @ F @ Y)" using d by (simp add: dseq_def)
  have lp: "list_prev h ?y = Some ?g"
  proof -
    obtain ys where "Y = ?y # ys" using ne by (cases Y) auto
    moreover obtain fs where "F = fs @ [?g]" using ne by (metis append_butlast_last_id)
    ultimately have "A @ B @ F @ Y = (A @ B @ fs) @ ?g # ?y # ys" by (metis append.assoc append_Cons append_Nil)
    with d show ?thesis by (metis list_prev_dseq)
  qed
  obtain us where A: "A = us @ [?u]" using ne by (metis append_butlast_last_id)
  obtain bs where B: "B = ?b # bs" using ne by (cases B) auto
  have "dseq h (us @ ?u # ?b # bs @ F @ Y)" using d A B by (metis append.assoc append_Cons append_Nil)
  then obtain b1 b2 where bb: "is_interior h ?b = Some b1" "is_tail h ?b = Some b2" "b1 \<or> b2"
    using before_ok_dseq by metis
  have i: "is_interior h ?f = Some True" "is_interior h ?g = Some True"
    using dseq_interior [of h "A @ B" F Y] d ne mem by simp_all
  have neq: "?b \<noteq> ?y" "?b \<noteq> ?f" "?g \<noteq> ?w" "?u \<noteq> ?w" "?u \<noteq> ?g" "?f \<noteq> ?y"
    using dist mem by auto
  have ok: "list_splice h ?b ?f ?y = Some ?h"
    using bb lp i j1 j2 j3 neq by (intro list_splice_exec) simp_all
  have nm: "?u \<notin> set B" "?u \<notin> set F" "?u \<notin> set Y" "?w \<notin> set A" "?w \<notin> set F" "?w \<notin> set Y"
    "?g \<notin> set A" "?g \<notin> set B" "?g \<notin> set Y" "?y \<notin> set A" "?y \<notin> set B" "?y \<notin> set F"
    "?f \<notin> set A" "?f \<notin> set B" "?f \<notin> set Y" "?b \<notin> set A" "?b \<notin> set F" "?b \<notin> set Y"
    using dist mem by auto
  have dis: "distinct A" "distinct B" "distinct F" "distinct Y" using dist by simp_all
  have old: "fwd (nexts h) A" "fwd (nexts h) B" "fwd (nexts h) F" "fwd (nexts h) Y"
     "bwd (prevs h) A" "bwd (prevs h) B" "bwd (prevs h) F" "bwd (prevs h) Y"
    using d by (simp_all add: dseq_def fwd_concat bwd_concat)
  have "fwd (nexts ?h) (A @ F @ B @ Y)"
    using old nm dis ne neq by (simp add: fwd_concat fwd_upd_last)
  moreover have "bwd (prevs ?h) (A @ F @ B @ Y)"
    using old nm dis ne neq by (simp add: bwd_concat bwd_upd_hd)
  moreover have "prevs ?h (hd (A @ F @ B @ Y)) = Some NULL"
    using d ne nm by (cases A) (auto simp: dseq_def)
  moreover have "nexts ?h (last (A @ F @ B @ Y)) = Some NULL"
  proof -
    have "last Y \<in> set Y" using ne by simp
    then have "last Y \<noteq> ?w" "last Y \<noteq> ?g" "last Y \<noteq> ?u" using nm by metis+
    then show ?thesis using d ne by (simp add: dseq_def)
  qed
  ultimately have "dseq ?h (A @ F @ B @ Y)"
    using d ne by (auto simp: dseq_def)
  moreover have "frame (set (A @ B @ F @ Y)) h ?h"
    using mem j1 j2 j3 by (auto simp: frame_def)
  ultimately show ?thesis using ok by blast
qed

text \<open>Moving a segment from one list to another.\<close>

lemma list_splice_other:
  assumes d1: "dseq h (A @ F @ Y)" and d2: "dseq h (C @ D)"
    and disj: "set (A @ F @ Y) \<inter> set (C @ D) = {}"
    and ne: "A \<noteq> []" "F \<noteq> []" "Y \<noteq> []" "C \<noteq> []" "D \<noteq> []"
  shows "\<exists>h'. list_splice h (hd D) (hd F) (hd Y) = Some h' \<and> dseq h' (A @ Y) \<and>
    dseq h' (C @ F @ D) \<and> frame (set (A @ F @ Y) \<union> set (C @ D)) h h'"
proof -
  let ?u = "last C" and ?b = "hd D" and ?w = "last A" and ?f = "hd F" and ?g = "last F"
    and ?y = "hd Y"
  let ?h = "\<lparr>prevs = (prevs h)(?y \<mapsto> ?w, ?f \<mapsto> ?u, ?b \<mapsto> ?g),
             nexts = (nexts h)(?w \<mapsto> ?y, ?g \<mapsto> ?b, ?u \<mapsto> ?f)\<rparr>"
  have j1: "nexts h ?u = Some ?b" "prevs h ?b = Some ?u" "?u \<noteq> NULL" "?b \<noteq> NULL"
    using dseq_junction [of h C D] d2 ne by simp_all
  have j2: "nexts h ?w = Some ?f" "prevs h ?f = Some ?w" "?w \<noteq> NULL" "?f \<noteq> NULL"
    using dseq_junction [of h A "F @ Y"] d1 ne by simp_all
  have j3: "nexts h ?g = Some ?y" "prevs h ?y = Some ?g" "?g \<noteq> NULL" "?y \<noteq> NULL"
    using dseq_junction [of h "A @ F" Y] d1 ne by simp_all
  have mem: "?u \<in> set C" "?b \<in> set D" "?w \<in> set A" "?f \<in> set F" "?g \<in> set F" "?y \<in> set Y"
    using ne by simp_all
  have dist: "distinct (A @ F @ Y)" "distinct (C @ D)" using d1 d2 by (simp_all add: dseq_def)
  have lp: "list_prev h ?y = Some ?g"
  proof -
    obtain ys where "Y = ?y # ys" using ne by (cases Y) auto
    moreover obtain fs where "F = fs @ [?g]" using ne by (metis append_butlast_last_id)
    ultimately have "A @ F @ Y = (A @ fs) @ ?g # ?y # ys" by (metis append.assoc append_Cons append_Nil)
    with d1 show ?thesis by (metis list_prev_dseq)
  qed
  obtain us where C: "C = us @ [?u]" using ne by (metis append_butlast_last_id)
  obtain bs where D: "D = ?b # bs" using ne by (cases D) auto
  have "dseq h (us @ ?u # ?b # bs)" using d2 C D by (metis append.assoc append_Cons append_Nil)
  then obtain b1 b2 where bb: "is_interior h ?b = Some b1" "is_tail h ?b = Some b2" "b1 \<or> b2"
    using before_ok_dseq by metis
  have i: "is_interior h ?f = Some True" "is_interior h ?g = Some True"
    using dseq_interior [of h A F Y] d1 ne mem by simp_all
  have nm: "?u \<notin> set D" "?u \<notin> set F" "?u \<notin> set Y" "?u \<notin> set A"
    "?w \<notin> set C" "?w \<notin> set D" "?w \<notin> set F" "?w \<notin> set Y"
    "?g \<notin> set A" "?g \<notin> set C" "?g \<notin> set D" "?g \<notin> set Y"
    "?y \<notin> set A" "?y \<notin> set C" "?y \<notin> set D" "?y \<notin> set F"
    "?f \<notin> set A" "?f \<notin> set C" "?f \<notin> set D" "?f \<notin> set Y"
    "?b \<notin> set A" "?b \<notin> set C" "?b \<notin> set F" "?b \<notin> set Y"
    using dist disj mem by auto
  have neq: "?b \<noteq> ?y" "?b \<noteq> ?f" "?g \<noteq> ?w" "?u \<noteq> ?w" "?u \<noteq> ?g" "?f \<noteq> ?y"
    using nm mem by metis+
  have ok: "list_splice h ?b ?f ?y = Some ?h"
    using bb lp i j1 j2 j3 neq by (intro list_splice_exec) simp_all
  have dis: "distinct A" "distinct F" "distinct Y" "distinct C" "distinct D"
    using dist by simp_all
  have old: "fwd (nexts h) A" "fwd (nexts h) F" "fwd (nexts h) Y" "fwd (nexts h) C" "fwd (nexts h) D"
     "bwd (prevs h) A" "bwd (prevs h) F" "bwd (prevs h) Y" "bwd (prevs h) C" "bwd (prevs h) D"
    using d1 d2 by (simp_all add: dseq_def fwd_concat bwd_concat)
  have ends: "last Y \<in> set Y" "last D \<in> set D" "hd A \<in> set A" "hd C \<in> set C" using ne by simp_all
  have e1: "last Y \<noteq> ?w" "last Y \<noteq> ?g" "last Y \<noteq> ?u" "last D \<noteq> ?w" "last D \<noteq> ?g" "last D \<noteq> ?u"
    "hd A \<noteq> ?y" "hd A \<noteq> ?f" "hd A \<noteq> ?b" "hd C \<noteq> ?y" "hd C \<noteq> ?f" "hd C \<noteq> ?b"
    using nm ends by metis+
  have fw: "fwd (nexts ?h) (A @ Y)" "fwd (nexts ?h) (C @ F @ D)"
    using old nm dis ne neq by (simp_all add: fwd_concat fwd_upd_last)
  have bw: "bwd (prevs ?h) (A @ Y)" "bwd (prevs ?h) (C @ F @ D)"
    using old nm dis ne neq by (simp_all add: bwd_concat bwd_upd_hd)
  have hl: "prevs h (hd A) = Some NULL" "nexts h (last Y) = Some NULL"
    "prevs h (hd C) = Some NULL" "nexts h (last D) = Some NULL"
    "NULL \<notin> set (A @ F @ Y)" "NULL \<notin> set (C @ D)"
    using d1 d2 ne by (simp_all add: dseq_def)
  have ds: "distinct (A @ Y)" "distinct (C @ F @ D)"
    using dist disj by auto
  have "dseq ?h (A @ Y)"
    unfolding dseq_def using fw(1) bw(1) ds hl e1 ne by simp
  moreover have "dseq ?h (C @ F @ D)"
    unfolding dseq_def using fw(2) bw(2) ds hl e1 ne by simp
  moreover have "frame (set (A @ F @ Y) \<union> set (C @ D)) h ?h"
    using mem j1 j2 j3 by (auto simp: frame_def)
  ultimately show ?thesis using ok by blast
qed

section \<open>The operations on a list\<close>

lemma is_list_dseq: "is_list h l xs \<Longrightarrow> dseq h (head_of l # xs @ [tail_of l])"
  by (simp add: is_list_def)

lemma is_list_frame: "is_list h l xs \<Longrightarrow> frame S h h' \<Longrightarrow> S \<inter> cells l xs = {} \<Longrightarrow> is_list h' l xs"
  unfolding is_list_def cells_def by (rule dseq_frame)

lemma is_list_distinct:
  assumes "is_list h l xs"
  shows "distinct xs" "head_of l \<notin> set xs" "tail_of l \<notin> set xs" "NULL \<notin> set xs"
    "l \<noteq> NULL" "head_of l \<noteq> NULL" "tail_of l \<noteq> NULL"
  using assms by (auto simp: is_list_def dseq_def head_of_def)

lemma is_list_allocated: "is_list h l xs \<Longrightarrow> x \<in> cells l xs \<Longrightarrow> allocated h x"
  unfolding is_list_def cells_def by (rule dseq_allocated)

lemma list_init_ok:
  assumes "allocated h (head_of l)" and "allocated h (tail_of l)"
  shows "\<exists>h'. list_init h l = Some h' \<and> is_list h' l [] \<and> frame (cells l []) h h'"
  using assms
  by (auto simp: list_init_def allocated_def head_of_def tail_of_def set_prev_def set_next_def
      is_list_def dseq_def frame_def cells_def)

lemma list_begin_ok: "is_list h l xs \<Longrightarrow> list_begin h l = Some (hd (xs @ [tail_of l]))"
  using is_list_distinct [of h l xs] dseq_cells [of h "[]" "head_of l" "xs @ [tail_of l]"]
  by (cases xs) (simp_all add: is_list_def list_begin_def get_next_def head_of_def)

lemma list_rbegin_ok: "is_list h l xs \<Longrightarrow> list_rbegin h l = Some (last (head_of l # xs))"
  using is_list_distinct [of h l xs] dseq_cells [of h "head_of l # xs" "tail_of l" "[]"]
  by (simp add: is_list_def list_rbegin_def get_prev_def)

lemma list_end_ok: "is_list h l xs \<Longrightarrow> list_end l = Some (tail_of l)"
  using is_list_distinct [of h l xs] by (simp add: list_end_def)

lemma list_empty_ok: "is_list h l xs \<Longrightarrow> list_empty h l = Some (xs = [])"
  using is_list_distinct [of h l xs]
  by (cases xs) (auto simp: list_empty_def list_begin_ok list_end_ok)

lemma list_front_ok: "is_list h l (x # xs) \<Longrightarrow> list_front h l = Some x"
  using list_begin_ok [of h l "x # xs"] is_list_distinct [of h l "x # xs"]
  by (simp add: list_front_def list_empty_ok list_begin_def)

lemma list_back_ok: "is_list h l (xs @ [x]) \<Longrightarrow> list_back h l = Some x"
  using list_rbegin_ok [of h l "xs @ [x]"] is_list_distinct [of h l "xs @ [x]"]
  by (simp add: list_back_def list_empty_ok list_rbegin_def)

lemma list_insert_ok:
  assumes l: "is_list h l (us @ vs)" and e: "allocated h e" "e \<notin> cells l (us @ vs)"
  shows "\<exists>h'. list_insert h (hd (vs @ [tail_of l])) e = Some h' \<and> is_list h' l (us @ e # vs) \<and>
    frame (insert e (cells l (us @ vs))) h h'"
proof -
  obtain ws w where ws: "head_of l # us = ws @ [w]" by (metis list.distinct(1) rev_exhaust)
  obtain b bs where bs: "vs @ [tail_of l] = b # bs" by (cases "vs @ [tail_of l]") auto
  have split: "head_of l # (us @ vs) @ [tail_of l] = ws @ w # b # bs"
    "head_of l # (us @ e # vs) @ [tail_of l] = ws @ w # e # b # bs"
    using ws bs by (metis append.assoc append_Cons append_Nil)+
  have "e \<notin> set (ws @ w # b # bs)" using e(2) by (simp only: cells_def split not_False_eq_True)
  then obtain h' where "list_insert h b e = Some h'" "dseq h' (ws @ w # e # b # bs)"
    "frame {w, e, b} h h'"
    using list_insert_dseq [of h ws w b bs e] l e(1) unfolding is_list_def split by blast
  moreover have "{w, e, b} \<subseteq> insert e (cells l (us @ vs))" unfolding cells_def split by auto
  ultimately show ?thesis
    using frame_mono unfolding is_list_def split bs by (metis list.sel(1))
qed

lemma list_push_front_ok:
  assumes "is_list h l xs" and "allocated h e" "e \<notin> cells l xs"
  shows "\<exists>h'. list_push_front h l e = Some h' \<and> is_list h' l (e # xs) \<and>
    frame (insert e (cells l xs)) h h'"
  using list_insert_ok [of h l "[]" xs e] assms by (simp add: list_push_front_def list_begin_ok)

lemma list_push_back_ok:
  assumes "is_list h l xs" and "allocated h e" "e \<notin> cells l xs"
  shows "\<exists>h'. list_push_back h l e = Some h' \<and> is_list h' l (xs @ [e]) \<and>
    frame (insert e (cells l xs)) h h'"
  using list_insert_ok [of h l xs "[]" e] assms by (simp add: list_push_back_def list_end_ok)

lemma list_remove_ok:
  assumes l: "is_list h l (us @ e # vs)"
  shows "\<exists>h'. list_remove h e = Some (hd (vs @ [tail_of l]), h') \<and> is_list h' l (us @ vs) \<and>
    frame (cells l (us @ vs)) h h'"
proof -
  obtain ws w where ws: "head_of l # us = ws @ [w]" by (metis list.distinct(1) rev_exhaust)
  obtain b bs where bs: "vs @ [tail_of l] = b # bs" by (cases "vs @ [tail_of l]") auto
  have split: "head_of l # (us @ vs) @ [tail_of l] = ws @ w # b # bs"
    "head_of l # (us @ e # vs) @ [tail_of l] = ws @ w # e # b # bs"
    using ws bs by (metis append.assoc append_Cons append_Nil)+
  obtain h' where "list_remove h e = Some (b, h')" "dseq h' (ws @ w # b # bs)" "frame {w, b} h h'"
    using list_remove_dseq [of h ws w e b bs] l unfolding is_list_def split by blast
  moreover have "{w, b} \<subseteq> cells l (us @ vs)" unfolding cells_def split by auto
  ultimately show ?thesis
    using frame_mono unfolding is_list_def split bs by (metis list.sel(1))
qed

lemma list_pop_front_ok:
  assumes "is_list h l (x # xs)"
  shows "\<exists>h'. list_pop_front h l = Some (x, h') \<and> is_list h' l xs \<and> frame (cells l xs) h h'"
  using list_remove_ok [of h l "[]" x xs] assms by (auto simp: list_pop_front_def list_front_ok)

lemma list_pop_back_ok:
  assumes "is_list h l (xs @ [x])"
  shows "\<exists>h'. list_pop_back h l = Some (x, h') \<and> is_list h' l xs \<and> frame (cells l xs) h h'"
  using list_remove_ok [of h l xs x "[]"] assms by (auto simp: list_pop_back_def list_back_ok)

text \<open>Walking: in a list, \<open>list_next\<close> leads from each element to the next one or the tail.\<close>

lemma list_next_ok: "is_list h l (us @ e # vs) \<Longrightarrow> list_next h e = Some (hd (vs @ [tail_of l]))"
  using list_next_dseq [of h "head_of l # us" e] by (cases vs) (auto simp: is_list_def)

lemma list_prev_ok:
  assumes l: "is_list h l (us @ e # vs)"
  shows "list_prev h e = Some (last (head_of l # us))"
proof -
  obtain ws w where ws: "head_of l # us = ws @ [w]" by (metis list.distinct(1) rev_exhaust)
  then have "head_of l # (us @ e # vs) @ [tail_of l] = ws @ w # e # vs @ [tail_of l]"
    by (metis append.assoc append_Cons append_Nil)
  then have "list_prev h e = Some w"
    using l list_prev_dseq [of h ws w e] unfolding is_list_def by metis
  then show ?thesis unfolding ws by simp
qed

lemma not_tail: "is_list h l (us @ e # vs) \<Longrightarrow> e \<noteq> tail_of l"
  using is_list_distinct(3) [of h l "us @ e # vs"] by auto

lemma list_size_loop_ok:
  "is_list h l (us @ vs) \<Longrightarrow>
    list_size_loop h (hd (vs @ [tail_of l])) (tail_of l) (c mod 2 ^ 32) =
      Some ((c + length vs) mod 2 ^ 32)"
proof (induction vs arbitrary: us c)
  case Nil
  then show ?case by (simp add: list_size_loop.simps)
next
  case (Cons v vs)
  have "size_add (c mod 2 ^ 32) 1 = (c + 1) mod 2 ^ 32"
    by (simp add: size_add_def mod_Suc_eq)
  then show ?case
    using Cons.IH [of "us @ [v]" "c + 1"] Cons.prems not_tail [OF Cons.prems]
    by (subst list_size_loop.simps) (simp add: list_next_ok)
qed

lemma list_size_ok: "is_list h l xs \<Longrightarrow> list_size h l = Some (length xs mod 2 ^ 32)"
  using list_size_loop_ok [of h l "[]" xs 0] by (simp add: list_size_def list_begin_ok list_end_ok)

lemma list_insert_ordered_loop_ok:
  "is_list h l (us @ vs) \<Longrightarrow>
    list_insert_ordered_loop h lt e (hd (vs @ [tail_of l])) (tail_of l) =
      Some (hd (dropWhile (\<lambda>x. \<not> lt e x) vs @ [tail_of l]))"
proof (induction vs arbitrary: us)
  case Nil
  then show ?case by (simp add: list_insert_ordered_loop.simps)
next
  case (Cons v vs)
  then show ?case
    using Cons.IH [of "us @ [v]"] not_tail [OF Cons.prems]
    by (subst list_insert_ordered_loop.simps) (simp add: list_next_ok)
qed

lemma list_insert_ordered_ok:
  assumes l: "is_list h l xs" and e: "allocated h e" "e \<notin> cells l xs"
  shows "\<exists>h'. list_insert_ordered h l e lt = Some h' \<and>
    is_list h' l (takeWhile (\<lambda>x. \<not> lt e x) xs @ e # dropWhile (\<lambda>x. \<not> lt e x) xs) \<and>
    frame (insert e (cells l xs)) h h'"
  using list_insert_ok [of h l "takeWhile (\<lambda>x. \<not> lt e x) xs" "dropWhile (\<lambda>x. \<not> lt e x) xs" e]
    list_insert_ordered_loop_ok [of h l "[]" xs lt e] is_list_distinct(5) [OF l] assms
  by (simp add: list_insert_ordered_def list_begin_ok list_end_ok allocated_def)

lemma list_max_loop_ok:
  "is_list h l (us @ vs) \<Longrightarrow>
    list_max_loop h lt m (hd (vs @ [tail_of l])) (tail_of l) = Some (max_by lt m vs)"
proof (induction vs arbitrary: us m)
  case Nil
  then show ?case by (simp add: list_max_loop.simps)
next
  case (Cons v vs)
  then show ?case
    using Cons.IH [of "us @ [v]"] not_tail [OF Cons.prems]
    by (subst list_max_loop.simps) (simp add: list_next_ok)
qed

lemma list_min_loop_ok:
  "is_list h l (us @ vs) \<Longrightarrow>
    list_min_loop h lt m (hd (vs @ [tail_of l])) (tail_of l) = Some (max_by (\<lambda>a b. lt b a) m vs)"
proof (induction vs arbitrary: us m)
  case Nil
  then show ?case by (simp add: list_min_loop.simps)
next
  case (Cons v vs)
  then show ?case
    using Cons.IH [of "us @ [v]"] not_tail [OF Cons.prems]
    by (subst list_min_loop.simps) (simp add: list_next_ok)
qed

lemma list_max_ok: "is_list h l (x # xs) \<Longrightarrow> list_max h l lt = Some (max_by lt x xs)"
  using list_max_loop_ok [of h l "[x]" xs lt x] not_tail [of h l "[]" x xs] list_next_ok [of h l "[]" x xs]
  by (simp add: list_max_def list_begin_ok list_end_ok)

lemma list_min_ok: "is_list h l (x # xs) \<Longrightarrow> list_min h l lt = Some (max_by (\<lambda>a b. lt b a) x xs)"
  using list_min_loop_ok [of h l "[x]" xs lt x] not_tail [of h l "[]" x xs] list_next_ok [of h l "[]" x xs]
  by (simp add: list_min_def list_begin_ok list_end_ok)

section \<open>Reversal and removal of duplicates\<close>

lemma fwd_rev: "fwd n (rev zs) = bwd n zs"
  by (induction n zs rule: bwd.induct) (auto simp: fwd_concat)

lemma bwd_rev: "bwd n (rev zs) = fwd n zs"
  using fwd_rev [of n "rev zs"] by simp

lemma list_reverse_loop_ok:
  assumes "fwd (nexts h) (vs @ [t])" and "distinct (vs @ [t])" and "\<forall>v \<in> set vs. allocated h v"
  shows "list_reverse_loop h (hd (vs @ [t])) t =
    Some (h\<lparr>prevs := (\<lambda>e. if e \<in> set vs then nexts h e else prevs h e),
            nexts := (\<lambda>e. if e \<in> set vs then prevs h e else nexts h e)\<rparr>)"
  using assms
proof (induction vs arbitrary: h)
  case Nil
  then show ?case by (simp add: list_reverse_loop.simps)
next
  case (Cons v vs)
  obtain p n where pn: "prevs h v = Some p" "nexts h v = Some n" "v \<noteq> NULL"
    using Cons.prems(3) by (auto simp: allocated_def)
  have n: "n = hd (vs @ [t])" using Cons.prems(1) pn by (cases vs) auto
  let ?h = "h\<lparr>prevs := (prevs h)(v \<mapsto> n), nexts := (nexts h)(v \<mapsto> p)\<rparr>"
  have "swap_links h v = Some ?h"
    using pn by (simp add: swap_links_def get_prev_def get_next_def set_prev_def set_next_def)
  moreover have "get_prev ?h v = Some n" using pn by (simp add: get_prev_def)
  moreover have f: "fwd (nexts ?h) (vs @ [t])"
    using Cons.prems(1,2) by (cases vs) auto
  have "list_reverse_loop ?h (hd (vs @ [t])) t =
    Some (?h\<lparr>prevs := (\<lambda>e. if e \<in> set vs then nexts ?h e else prevs ?h e),
            nexts := (\<lambda>e. if e \<in> set vs then prevs ?h e else nexts ?h e)\<rparr>)"
    using f by (rule Cons.IH) (use Cons.prems in \<open>auto simp: allocated_def\<close>)
  moreover have "v \<noteq> t" "v \<notin> set vs" using Cons.prems(2) by auto
  ultimately show ?case
    using pn n by (subst list_reverse_loop.simps) (auto simp: fun_eq_iff)
qed

lemma list_reverse_ok:
  assumes l: "is_list h l xs"
  shows "\<exists>h'. list_reverse h l = Some h' \<and> is_list h' l (rev xs) \<and> frame (cells l xs) h h'"
proof (cases "xs = []")
  case True
  then show ?thesis using l by (simp add: list_reverse_def list_empty_ok)
next
  case False
  let ?H = "head_of l" and ?T = "tail_of l" and ?x = "hd xs" and ?y = "last xs"
  have d: "dseq h ([?H] @ xs @ [?T])" using l by (simp add: is_list_def)
  have dist: "distinct (?H # xs @ [?T])" "NULL \<notin> set (?H # xs @ [?T])"
    using d by (simp_all add: dseq_def)
  have mem: "?x \<in> set xs" "?y \<in> set xs" using False by simp_all
  have nn: "?H \<noteq> NULL" "?T \<noteq> NULL" "?x \<noteq> NULL" "?y \<noteq> NULL" "?H \<noteq> ?T"
    "?H \<notin> set xs" "?T \<notin> set xs" "?H \<noteq> ?x" "?H \<noteq> ?y" "?T \<noteq> ?x" "?T \<noteq> ?y"
    using dist mem by (metis distinct.simps(2) in_set_conv_decomp set_append Un_iff
        distinct_append disjoint_iff list.set_intros)+
  have j1: "nexts h ?H = Some ?x" "prevs h ?x = Some ?H"
    using dseq_junction [of h "[?H]" "xs @ [?T]"] d False by simp_all
  have j2: "nexts h ?y = Some ?T" "prevs h ?T = Some ?y"
    using dseq_junction [of h "?H # xs" "[?T]"] d False by simp_all
  have inner: "fwd (nexts h) xs" "bwd (prevs h) xs" "prevs h ?H = Some NULL" "nexts h ?T = Some NULL"
    using d False fwd_concat [of "nexts h" "[?H]" "xs @ [?T]"] bwd_concat [of "prevs h" "[?H]" "xs @ [?T]"]
    by (simp_all add: dseq_def fwd_concat bwd_concat)
  have al: "\<forall>v \<in> set xs. allocated h v" using dseq_allocated [OF d] by auto
  let ?P = "\<lambda>e. if e \<in> set xs then nexts h e else prevs h e"
  let ?N = "\<lambda>e. if e \<in> set xs then prevs h e else nexts h e"
  let ?h = "h\<lparr>prevs := ?P(?T \<mapsto> ?x, ?y \<mapsto> ?H), nexts := ?N(?H \<mapsto> ?y, ?x \<mapsto> ?T)\<rparr>"
  have "list_reverse_loop h ?x ?T = Some (h\<lparr>prevs := ?P, nexts := ?N\<rparr>)"
    using list_reverse_loop_ok [of h xs ?T] inner(1) j2(1) dist(1) False al by (simp add: fwd_concat)
  then have ok: "list_reverse h l = Some ?h"
    using False nn mem j1 j2
    by (simp add: list_reverse_def list_empty_ok [OF l] list_begin_ok [OF l] list_end_ok [OF l]
        get_prev_def get_next_def set_prev_def set_next_def)
  have dxs: "distinct xs" using dist by simp
  have "fwd (nexts ?h) (rev xs)"
    unfolding fwd_rev using inner(2) nn dxs False
    by (subst bwd_cong [where p' = "prevs h"]) (cases xs; auto)+
  then have f: "fwd (nexts ?h) (?H # rev xs @ [?T])"
    using fwd_concat [of _ "[?H]" "rev xs @ [?T]"] False nn
    by (simp add: fwd_concat hd_rev last_rev)
  have "bwd (prevs ?h) (rev xs)"
    unfolding bwd_rev using inner(1) nn dxs False
  proof (subst fwd_cong [where n' = "nexts h"])
    fix e assume "e \<in> set (butlast xs)"
    then have "e \<in> set xs" "e \<noteq> ?y"
      using dxs by (auto dest: in_set_butlastD)
        (metis append_butlast_last_id distinct_append disjoint_iff in_set_conv_decomp
          list.set_intros(1) False)
    then show "prevs ?h e = nexts h e" using nn by auto
  qed
  then have b: "bwd (prevs ?h) (?H # rev xs @ [?T])"
    using bwd_concat [of _ "[?H]" "rev xs @ [?T]"] False nn
    by (simp add: bwd_concat hd_rev last_rev)
  have "is_list ?h l (rev xs)"
    unfolding is_list_def dseq_def using f b dist nn inner by simp
  moreover have "frame (cells l xs) h ?h"
  proof -
    have "nexts h v \<noteq> None \<and> prevs h v \<noteq> None" if "v \<in> set xs" for v
      using al that by (auto simp: allocated_def)
    then show ?thesis
      using mem j1 j2 by (auto simp: frame_def cells_def dom_def split: if_splits)
  qed
  ultimately show ?thesis using ok by blast
qed

lemma list_unique_loop_ok:
  assumes "is_list h l (us @ e # vs)" and "dups \<noteq> NULL \<longrightarrow> is_list h dups ds"
    and "dups \<noteq> NULL \<longrightarrow> cells l (us @ e # vs) \<inter> cells dups ds = {}"
    and "unique_by lt e vs = (k, d)"
  shows "\<exists>h'. list_unique_loop h (tail_of l) dups lt e = Some h' \<and> is_list h' l (us @ e # k) \<and>
    (dups \<noteq> NULL \<longrightarrow> is_list h' dups (ds @ d))"
  using assms
proof (induction vs arbitrary: h us e ds k d)
  case Nil
  then show ?case
    by (subst list_unique_loop.simps) (simp add: list_next_ok)
next
  case (Cons n ns)
  have nx: "list_next h e = Some n" using list_next_ok [OF Cons.prems(1)] by simp
  have nt: "n \<noteq> tail_of l" using not_tail [of h l "us @ [e]" n ns] Cons.prems(1) by simp
  show ?case
  proof (cases "\<not> lt e n \<and> \<not> lt n e")
    case True
    then obtain d' where d: "d = n # d'" and u: "unique_by lt e ns = (k, d')"
      using Cons.prems(4) by (auto split: prod.splits)
    obtain h1 where h1: "list_remove h n = Some (hd (ns @ [tail_of l]), h1)"
      "is_list h1 l (us @ e # ns)" "frame (cells l (us @ e # ns)) h h1"
      using list_remove_ok [of h l "us @ [e]" n ns] Cons.prems(1) by auto
    have al: "allocated h1 n"
      using frame_allocated [OF h1(3)] is_list_allocated [OF Cons.prems(1), of n] by (simp add: cells_def)
    have nn: "n \<notin> cells l (us @ e # ns)"
      using is_list_dseq [OF Cons.prems(1)] by (auto simp: dseq_def cells_def)
    show ?thesis
    proof (cases "dups = NULL")
      case True
      then obtain h' where "list_unique_loop h1 (tail_of l) dups lt e = Some h'" "is_list h' l (us @ e # k)"
        using Cons.IH [OF h1(2) _ _ u, of ds] by auto
      then show ?thesis
        using True \<open>\<not> lt e n \<and> \<not> lt n e\<close> nx nt h1(1) by (subst list_unique_loop.simps) simp
    next
      case False
      have disj: "cells l (us @ e # n # ns) \<inter> cells dups ds = {}" using Cons.prems(3) False by simp
      have sub: "cells l (us @ e # ns) \<subseteq> cells l (us @ e # n # ns)" by (auto simp: cells_def)
      have ld: "is_list h1 dups ds"
        using Cons.prems(2) False is_list_frame [OF _ h1(3)] disj sub by blast
      have nd: "n \<notin> cells dups ds" using disj by (auto simp: cells_def)
      obtain h2 where h2: "list_push_back h1 dups n = Some h2" "is_list h2 dups (ds @ [n])"
        "frame (insert n (cells dups ds)) h1 h2"
        using list_push_back_ok [OF ld al nd] by blast
      have l2: "is_list h2 l (us @ e # ns)"
        using is_list_frame [OF h1(2) h2(3)] nn disj sub by blast
      have "cells l (us @ e # ns) \<inter> cells dups (ds @ [n]) = {}"
        using nn disj sub by (auto simp: cells_def)
      then obtain h' where "list_unique_loop h2 (tail_of l) dups lt e = Some h'"
        "is_list h' l (us @ e # k)" "is_list h' dups ((ds @ [n]) @ d')"
        using Cons.IH [OF l2 _ _ u, of "ds @ [n]"] h2(2) False by auto
      then show ?thesis
        using False True nx nt h1(1) h2(1) d by (subst list_unique_loop.simps) simp
    qed
  next
    case False
    then obtain k' where k: "k = n # k'" and u: "unique_by lt n ns = (k', d)"
      using Cons.prems(4) by (auto split: prod.splits if_splits)
    obtain h' where "list_unique_loop h (tail_of l) dups lt n = Some h'" "is_list h' l (us @ e # n # k')"
      "dups \<noteq> NULL \<longrightarrow> is_list h' dups (ds @ d)"
      using Cons.IH [of h "us @ [e]" n ds k' d] Cons.prems u by auto
    then show ?thesis
      using False nx nt k by (subst list_unique_loop.simps) auto
  qed
qed

lemma list_unique_ok:
  assumes "is_list h l (x # xs)" and "dups \<noteq> NULL \<longrightarrow> is_list h dups ds"
    and "dups \<noteq> NULL \<longrightarrow> cells l (x # xs) \<inter> cells dups ds = {}"
    and "unique_by lt x xs = (k, d)"
  shows "\<exists>h'. list_unique h l dups lt = Some h' \<and> is_list h' l (x # k) \<and>
    (dups \<noteq> NULL \<longrightarrow> is_list h' dups (ds @ d))"
  using list_unique_loop_ok [of h l "[]" x xs dups ds lt k d] assms is_list_distinct(5) [OF assms(1)]
  by (simp add: list_unique_def list_empty_ok [OF assms(1)] list_begin_ok [OF assms(1)] list_end_ok [OF assms(1)])

section \<open>The queue contract\<close>

text \<open>Repeated operations of a queue: add all of \<open>es\<close>, and remove \<open>n\<close> elements.\<close>

primrec enq_all :: "('s \<Rightarrow> 'q \<Rightarrow> 'e \<Rightarrow> 's option) \<Rightarrow> 's \<Rightarrow> 'q \<Rightarrow> 'e list \<Rightarrow> 's option" where
  "enq_all en s q [] = Some s"
| "enq_all en s q (e # es) = do { s' \<leftarrow> en s q e; enq_all en s' q es }"

primrec deq_n :: "('s \<Rightarrow> 'q \<Rightarrow> ('e \<times> 's) option) \<Rightarrow> 's \<Rightarrow> 'q \<Rightarrow> nat \<Rightarrow> ('e list \<times> 's) option" where
  "deq_n de s q 0 = Some ([], s)"
| "deq_n de s q (Suc n) = do { (x, s') \<leftarrow> de s q; (xs, s'') \<leftarrow> deq_n de s' q n; Some (x # xs, s'') }"

text \<open>
  A queue of elements of type \<open>'e\<close> named by \<open>'q\<close> in a store \<open>'s\<close>: \<open>holds s q xs\<close>
  is its contents, \<open>fresh s q e\<close> says that \<open>e\<close> may be added.
\<close>

locale fifo =
  fixes holds :: "'s \<Rightarrow> 'q \<Rightarrow> 'e list \<Rightarrow> bool"
    and fresh :: "'s \<Rightarrow> 'q \<Rightarrow> 'e list \<Rightarrow> 'e \<Rightarrow> bool"
    and enq :: "'s \<Rightarrow> 'q \<Rightarrow> 'e \<Rightarrow> 's option"
    and deq :: "'s \<Rightarrow> 'q \<Rightarrow> ('e \<times> 's) option"
  assumes enq_law: "holds s q xs \<Longrightarrow> fresh s q xs e \<Longrightarrow>
      \<exists>s'. enq s q e = Some s' \<and> holds s' q (xs @ [e]) \<and>
        (\<forall>e'. e' \<noteq> e \<longrightarrow> fresh s q xs e' \<longrightarrow> fresh s' q (xs @ [e]) e')"
    and deq_law: "holds s q (x # xs) \<Longrightarrow> \<exists>s'. deq s q = Some (x, s') \<and> holds s' q xs"
begin

lemma enq_all_holds:
  "holds s q xs \<Longrightarrow> distinct es \<Longrightarrow> \<forall>e \<in> set es. fresh s q xs e \<Longrightarrow>
    \<exists>s'. enq_all enq s q es = Some s' \<and> holds s' q (xs @ es)"
proof (induction es arbitrary: s xs)
  case (Cons e es)
  obtain s1 where s1: "enq s q e = Some s1" "holds s1 q (xs @ [e])"
      "\<And>e'. e' \<noteq> e \<Longrightarrow> fresh s q xs e' \<Longrightarrow> fresh s1 q (xs @ [e]) e'"
    using enq_law [of s q xs e] Cons.prems by auto
  have "\<forall>e' \<in> set es. fresh s1 q (xs @ [e]) e'"
    using s1(3) Cons.prems(2,3) by (metis distinct.simps(2) list.set_intros(2))
  then show ?case using Cons.IH [of s1 "xs @ [e]"] s1 Cons.prems(2) by auto
qed simp

lemma deq_n_holds: "holds s q (xs @ ys) \<Longrightarrow> \<exists>s'. deq_n deq s q (length xs) = Some (xs, s') \<and> holds s' q ys"
proof (induction xs arbitrary: s)
  case (Cons x xs)
  obtain s1 where "deq s q = Some (x, s1)" "holds s1 q (xs @ ys)"
    using deq_law [of s q x "xs @ ys"] Cons.prems by auto
  then show ?case using Cons.IH [of s1] by auto
qed simp

lemma fifo_order:
  assumes "holds s q xs" and "distinct es" and "\<forall>e \<in> set es. fresh s q xs e"
  shows "\<exists>s' s''. enq_all enq s q es = Some s' \<and>
    deq_n deq s' q (length xs + length es) = Some (xs @ es, s'') \<and> holds s'' q []"
  using enq_all_holds [OF assms] deq_n_holds [of _ q "xs @ es" "[]"] by fastforce

end

text \<open>The linked lists are queues: \<open>list_push_back\<close> enqueues, \<open>list_pop_front\<close> dequeues.\<close>

definition list_fresh :: "lheap \<Rightarrow> ptr \<Rightarrow> ptr list \<Rightarrow> ptr \<Rightarrow> bool" where
  "list_fresh h l xs e \<longleftrightarrow> allocated h e \<and> e \<notin> cells l xs"

lemma list_enq_law:
  assumes "is_list h l xs" and "list_fresh h l xs e"
  shows "\<exists>h'. list_push_back h l e = Some h' \<and> is_list h' l (xs @ [e]) \<and>
    (\<forall>e'. e' \<noteq> e \<longrightarrow> list_fresh h l xs e' \<longrightarrow> list_fresh h' l (xs @ [e]) e')"
proof -
  obtain h' where "list_push_back h l e = Some h'" "is_list h' l (xs @ [e])"
    "frame (insert e (cells l xs)) h h'"
    using list_push_back_ok [of h l xs e] assms by (auto simp: list_fresh_def)
  moreover from this have "list_fresh h' l (xs @ [e]) e'" if "e' \<noteq> e" "list_fresh h l xs e'" for e'
    using that by (auto simp: list_fresh_def frame_allocated cells_def)
  ultimately show ?thesis by blast
qed

lemma list_deq_law:
  "is_list h l (x # xs) \<Longrightarrow> \<exists>h'. list_pop_front h l = Some (x, h') \<and> is_list h' l xs"
  using list_pop_front_ok by blast

interpretation list_queue: fifo is_list list_fresh list_push_back list_pop_front
  by unfold_locales (rule list_enq_law list_deq_law; assumption)+

section \<open>Properties\<close>

text \<open>
  C19. A list used as a queue is first-in first-out on the linked cells
  themselves: \<open>list_push_back\<close> of any allocated, distinct elements outside the
  list, followed by as many \<open>list_pop_front\<close> as there are elements then,
  succeeds, returns the old elements and then the new ones in the order they
  were added, and leaves the list empty.
\<close>

theorem list_push_back_pop_front_fifo:
  assumes "is_list h l xs" and "distinct es"
    and "\<forall>e \<in> set es. allocated h e \<and> e \<notin> cells l xs"
  shows "\<exists>h' h''. enq_all list_push_back h l es = Some h' \<and>
    deq_n list_pop_front h' l (length xs + length es) = Some (xs @ es, h'') \<and> is_list h'' l []"
  using list_queue.fifo_order [of h l xs es] assms by (simp add: list_fresh_def)

definition demo_heap :: lheap where
  "demo_heap = \<lparr>prevs = [1000 \<mapsto> 0, 30 \<mapsto> 1000, 10 \<mapsto> 30, 20 \<mapsto> 10, 1008 \<mapsto> 20, 40 \<mapsto> 0, 50 \<mapsto> 0],
                nexts = [1000 \<mapsto> 30, 30 \<mapsto> 10, 10 \<mapsto> 20, 20 \<mapsto> 1008, 1008 \<mapsto> 0, 40 \<mapsto> 0, 50 \<mapsto> 0]\<rparr>"

lemma demo_heap_list: "is_list demo_heap 1000 [30, 10, 20]"
  by (simp add: is_list_def dseq_def demo_heap_def head_of_def tail_of_def)

theorem list_push_back_pop_front_fifo_witness:
  "\<exists>h' h''. enq_all list_push_back demo_heap 1000 [40, 50] = Some h' \<and>
    deq_n list_pop_front h' 1000 5 = Some ([30, 10, 20, 40, 50], h'') \<and> is_list h'' 1000 []"
proof -
  have five: "5 = Suc (Suc (Suc (Suc (Suc 0))))" by simp
  have "\<forall>e \<in> set [40, 50]. allocated demo_heap e \<and> e \<notin> cells 1000 [30, 10, 20]"
    by (simp add: allocated_def cells_def demo_heap_def head_of_def tail_of_def)
  from list_push_back_pop_front_fifo [OF demo_heap_list _ this]
  show ?thesis by (simp del: enq_all.simps deq_n.simps add: five)
qed

end
