(* ===== verification/Linked_List_Sort.thy ===== *)
theory Linked_List_Sort
  imports Linked_List_Ops
begin

text \<open>
  \<open>list_sort\<close> of \<^verbatim>\<open>lib/kernel/list.c\<close>: a natural merge sort in place. The
  sequence functions \<open>run_by\<close>, \<open>merge_by\<close> and \<open>pass_by\<close> are what
  \<open>find_end_of_run\<close>, \<open>inplace_merge\<close> and one pass of the outer loop do to the
  elements; the number of runs (\<open>nruns\<close>) is the measure by which the outer
  loop ends. The comparison function has to be a strict weak order.
\<close>

section \<open>Sorting on sequences\<close>

fun sorted_by :: "('a \<Rightarrow> 'a \<Rightarrow> bool) \<Rightarrow> 'a list \<Rightarrow> bool" where
  "sorted_by lt [] \<longleftrightarrow> True"
| "sorted_by lt [x] \<longleftrightarrow> True"
| "sorted_by lt (x # y # zs) \<longleftrightarrow> \<not> lt y x \<and> sorted_by lt (y # zs)"

fun merge_by :: "('a \<Rightarrow> 'a \<Rightarrow> bool) \<Rightarrow> 'a list \<Rightarrow> 'a list \<Rightarrow> 'a list" where
  "merge_by lt [] ys = ys"
| "merge_by lt xs [] = xs"
| "merge_by lt (x # xs) (y # ys) =
     (if \<not> lt y x then x # merge_by lt xs (y # ys) else y # merge_by lt (x # xs) ys)"

text \<open>The run that starts with \<open>a\<close>: what follows \<open>a\<close> in the run, and the rest.\<close>

fun run_by :: "('a \<Rightarrow> 'a \<Rightarrow> bool) \<Rightarrow> 'a \<Rightarrow> 'a list \<Rightarrow> 'a list \<times> 'a list" where
  "run_by lt a [] = ([], [])"
| "run_by lt a (x # xs) =
     (if lt x a then ([], x # xs) else let (r, s) = run_by lt x xs in (x # r, s))"

lemma run_by_append: "run_by lt a xs = (r, s) \<Longrightarrow> xs = r @ s"
  by (induction lt a xs arbitrary: r s rule: run_by.induct) (auto split: if_splits prod.splits)

lemma run_by_sorted: "run_by lt a xs = (r, s) \<Longrightarrow> sorted_by lt (a # r)"
  by (induction lt a xs arbitrary: r s rule: run_by.induct) (auto split: if_splits prod.splits)

lemma run_by_length: "run_by lt a xs = (r, s) \<Longrightarrow> length s \<le> length xs"
  by (drule run_by_append) simp

text \<open>One pass: the number of runs written and the resulting sequence.\<close>

function (sequential) pass_by :: "('a \<Rightarrow> 'a \<Rightarrow> bool) \<Rightarrow> 'a list \<Rightarrow> nat \<times> 'a list" where
  "pass_by lt [] = (0, [])"
| "pass_by lt (a # xs) =
     (case run_by lt a xs of
        (r, []) \<Rightarrow> (1, a # xs)
      | (r, b # s) \<Rightarrow>
          (case run_by lt b s of
             (r2, s2) \<Rightarrow> (case pass_by lt s2 of (c, res) \<Rightarrow> (Suc c, merge_by lt (a # r) (b # r2) @ res))))"
  by pat_completeness auto
termination
  by (relation "measure (\<lambda>(lt, xs). length xs)")
     (auto dest!: run_by_length [OF sym])

text \<open>The number of maximal runs.\<close>

fun nruns :: "('a \<Rightarrow> 'a \<Rightarrow> bool) \<Rightarrow> 'a list \<Rightarrow> nat" where
  "nruns lt [] = 0"
| "nruns lt [x] = 1"
| "nruns lt (x # y # zs) = (if lt y x then 1 else 0) + nruns lt (y # zs)"

lemma nruns_pos: "0 < nruns lt (x # xs)"
  by (induction xs arbitrary: x) auto

lemma nruns_le_length: "nruns lt xs \<le> length xs"
  by (induction lt xs rule: nruns.induct) auto

lemma nruns_le1_sorted: "nruns lt xs \<le> 1 \<longleftrightarrow> sorted_by lt xs"
proof (induction lt xs rule: nruns.induct)
  case (3 lt x y zs)
  then show ?case using nruns_pos [of lt y zs] by auto
qed auto

lemma nruns_run: "run_by lt a xs = (r, s) \<Longrightarrow> nruns lt (a # xs) = Suc (nruns lt s)"
  by (induction lt a xs arbitrary: r s rule: run_by.induct) (auto split: if_splits prod.splits)

lemma nruns_append: "nruns lt (xs @ ys) \<le> nruns lt xs + nruns lt ys"
proof (induction lt xs rule: nruns.induct)
  case (2 lt x)
  then show ?case by (cases ys) auto
qed auto

lemma pass_by_count: "pass_by lt xs = (c, res) \<Longrightarrow> c = (nruns lt xs + 1) div 2"
proof (induction lt xs arbitrary: c res rule: pass_by.induct)
  case (2 lt a xs)
  obtain r s where rs: "run_by lt a xs = (r, s)" by fastforce
  show ?case
  proof (cases s)
    case Nil
    then show ?thesis using "2.prems" rs nruns_run [OF rs] by simp
  next
    case (Cons b s')
    obtain r2 s2 where rs2: "run_by lt b s' = (r2, s2)" by fastforce
    obtain c' res' where p: "pass_by lt s2 = (c', res')" by fastforce
    then have "c' = (nruns lt s2 + 1) div 2" using "2.IH" rs Cons rs2 by fastforce
    then show ?thesis
      using "2.prems" rs Cons rs2 p nruns_run [OF rs] nruns_run [OF rs2] by simp
  qed
qed simp

lemma merge_by_mset [simp]: "mset (merge_by lt xs ys) = mset xs + mset ys"
  by (induction lt xs ys rule: merge_by.induct) auto

lemma merge_by_set [simp]: "set (merge_by lt xs ys) = set xs \<union> set ys"
  using merge_by_mset [of lt xs ys] by (metis set_mset_mset set_mset_union)

lemma merge_by_length [simp]: "length (merge_by lt xs ys) = length xs + length ys"
  by (induction lt xs ys rule: merge_by.induct) auto

lemma pass_by_mset: "pass_by lt xs = (c, res) \<Longrightarrow> mset res = mset xs"
proof (induction lt xs arbitrary: c res rule: pass_by.induct)
  case (2 lt a xs)
  obtain r s where rs: "run_by lt a xs = (r, s)" by fastforce
  show ?case
  proof (cases s)
    case Nil
    then show ?thesis using "2.prems" rs by simp
  next
    case (Cons b s')
    obtain r2 s2 where rs2: "run_by lt b s' = (r2, s2)" by fastforce
    obtain c' res' where p: "pass_by lt s2 = (c', res')" by fastforce
    then have "mset res' = mset s2" using "2.IH" rs Cons rs2 by fastforce
    then show ?thesis
      using "2.prems" rs Cons rs2 p run_by_append [OF rs] run_by_append [OF rs2] by auto
  qed
qed simp

lemma sorted_by_Cons:
  assumes "weak_order lt"
  shows "sorted_by lt (x # xs) \<longleftrightarrow> sorted_by lt xs \<and> (\<forall>y \<in> set xs. \<not> lt y x)"
proof (induction xs arbitrary: x)
  case (Cons y ys)
  have "\<not> lt y x \<Longrightarrow> \<forall>z \<in> set ys. \<not> lt z y \<Longrightarrow> \<forall>z \<in> set ys. \<not> lt z x"
    using weak_negtrans [OF assms] by blast
  then show ?case using Cons [of y] by auto
qed simp

lemma merge_by_sorted:
  assumes "weak_order lt" "sorted_by lt xs" "sorted_by lt ys"
  shows "sorted_by lt (merge_by lt xs ys)"
  using assms
proof (induction lt xs ys rule: merge_by.induct)
  case (3 lt x xs y ys)
  note w = sorted_by_Cons [OF "3.prems"(1)]
  have xs: "\<forall>z \<in> set xs. \<not> lt z x" "sorted_by lt xs" and ys: "\<forall>z \<in> set ys. \<not> lt z y" "sorted_by lt ys"
    using "3.prems" w by blast+
  show ?case
  proof (cases "lt y x")
    case True
    have "\<forall>z \<in> set xs. \<not> lt z y"
      using True xs(1) weak_asym [OF "3.prems"(1)] weak_negtrans [OF "3.prems"(1)] by blast
    then show ?thesis
      using True "3.IH"(2) "3.prems" ys weak_asym [OF "3.prems"(1) True]
      by (simp add: w ball_Un)
  next
    case False
    have "\<forall>z \<in> set ys. \<not> lt z x"
      using False ys(1) weak_negtrans [OF "3.prems"(1)] by blast
    then show ?thesis
      using False "3.IH"(1) "3.prems" xs by (simp add: w ball_Un)
  qed
qed auto

lemma filter_merge_by:
  assumes "weak_order lt" "sorted_by lt xs"
  shows "filter (eqv lt k) (merge_by lt xs ys) = filter (eqv lt k) (xs @ ys)"
  using assms
proof (induction lt xs ys rule: merge_by.induct)
  case (3 lt x xs y ys)
  note w = sorted_by_Cons [OF "3.prems"(1)]
  have xs: "\<forall>z \<in> set xs. \<not> lt z x" "sorted_by lt xs" using "3.prems"(2) w by blast+
  show ?case
  proof (cases "lt y x")
    case False
    then show ?thesis using "3.IH"(1) "3.prems" xs by simp
  next
    case True
    have none: "filter (eqv lt k) (x # xs) = []" if e: "eqv lt k y"
    proof -
      have "\<not> eqv lt k z" if z: "z \<in> set (x # xs)" for z
      proof -
        have "\<not> lt z x" using z xs(1) weak_asym [OF "3.prems"(1)] by auto
        then have "lt y z" using True weak_negtrans [OF "3.prems"(1)] by blast
        then show ?thesis
          using e weak_negtrans [OF "3.prems"(1), of y k z] by (auto simp: eqv_def)
      qed
      then show ?thesis by (simp only: filter_empty_conv) blast
    qed
    show ?thesis
    proof (cases "eqv lt k y")
      case e: True
      have "filter (eqv lt k) ((x # xs) @ zs) = filter (eqv lt k) zs" for zs
        using none [OF e] by (simp only: filter_append append_Nil)
      then show ?thesis using True "3.IH"(2) "3.prems" e by simp
    next
      case e: False
      then show ?thesis using True "3.IH"(2) "3.prems" by simp
    qed
  qed
qed auto

lemma filter_pass_by:
  assumes "weak_order lt" "pass_by lt xs = (c, res)"
  shows "filter (eqv lt k) res = filter (eqv lt k) xs"
  using assms
proof (induction lt xs arbitrary: c res rule: pass_by.induct)
  case (2 lt a xs)
  obtain r s where rs: "run_by lt a xs = (r, s)" by fastforce
  show ?case
  proof (cases s)
    case Nil
    then show ?thesis using "2.prems" rs by simp
  next
    case (Cons b s')
    obtain r2 s2 where rs2: "run_by lt b s' = (r2, s2)" by fastforce
    obtain c' res' where p: "pass_by lt s2 = (c', res')" by fastforce
    then have e: "filter (eqv lt k) res' = filter (eqv lt k) s2" using "2.IH" "2.prems"(1) rs Cons rs2 by fastforce
    have "res = merge_by lt (a # r) (b # r2) @ res'" using "2.prems" rs Cons rs2 p by simp
    moreover have "a # xs = (a # r) @ (b # r2) @ s2"
      using run_by_append [OF rs] run_by_append [OF rs2] Cons by simp
    ultimately show ?thesis
      using filter_merge_by [OF "2.prems"(1) run_by_sorted [OF rs]] e
      by (simp only: filter_append append_assoc)
  qed
qed simp

lemma nruns_merge:
  "weak_order lt \<Longrightarrow> sorted_by lt xs \<Longrightarrow> sorted_by lt ys \<Longrightarrow> nruns lt (merge_by lt xs ys) \<le> 1"
  using nruns_le1_sorted merge_by_sorted by blast

lemma nruns_pass_by:
  assumes "weak_order lt" "pass_by lt xs = (c, res)"
  shows "nruns lt res \<le> c"
  using assms
proof (induction lt xs arbitrary: c res rule: pass_by.induct)
  case (2 lt a xs)
  obtain r s where rs: "run_by lt a xs = (r, s)" by fastforce
  show ?case
  proof (cases s)
    case Nil
    then show ?thesis using "2.prems" rs nruns_run [OF rs] by simp
  next
    case (Cons b s')
    obtain r2 s2 where rs2: "run_by lt b s' = (r2, s2)" by fastforce
    obtain c' res' where p: "pass_by lt s2 = (c', res')" by fastforce
    then have e: "nruns lt res' \<le> c'" using "2.IH" "2.prems"(1) rs Cons rs2 by fastforce
    have "res = merge_by lt (a # r) (b # r2) @ res'" "c = Suc c'" using "2.prems" rs Cons rs2 p by simp_all
    then show ?thesis
      using nruns_append [of lt "merge_by lt (a # r) (b # r2)" res'] e
        nruns_merge [OF "2.prems"(1) run_by_sorted [OF rs] run_by_sorted [OF rs2]] by simp
  qed
qed simp

section \<open>Sorting the linked list\<close>

lemma list_prev_hd:
  assumes "is_list h l (us @ e # vs)"
  shows "list_prev h (hd (vs @ [tail_of l])) = Some e"
proof -
  obtain b bs where "vs @ [tail_of l] = b # bs" by (cases "vs @ [tail_of l]") auto
  then show ?thesis
    using assms list_prev_dseq [of h "head_of l # us" e b bs] by (simp add: is_list_def)
qed

lemma hd_neq:
  assumes "is_list h l (us @ e # vs @ ws)"
  shows "e \<noteq> hd (ws @ [tail_of l])"
  using is_list_distinct [OF assms] by (cases ws) auto

lemma find_end_of_run_loop_ok:
  assumes "is_list h l (us @ a # xs)" and "run_by lt a xs = (r, s)"
  shows "find_end_of_run_loop h lt a (tail_of l) = Some (hd (s @ [tail_of l]))"
  using assms
proof (induction xs arbitrary: us a r s)
  case Nil
  then show ?case
    by (simp add: find_end_of_run_loop.simps [of h lt a] list_next_ok [of h l us a "[]"])
next
  case (Cons x xs)
  have "list_next h a = Some x" "x \<noteq> tail_of l" "list_prev h x = Some a"
    using Cons.prems(1) list_next_ok [of h l us a "x # xs"] list_prev_hd [of h l us a "x # xs"]
      not_tail [of h l "us @ [a]" x xs] by simp_all
  then show ?case
    using Cons.IH [of "us @ [a]" x] Cons.prems
    by (auto simp: find_end_of_run_loop.simps [of h lt a] split: if_splits prod.splits)
qed

lemma find_end_of_run_ok:
  assumes "is_list h l (us @ a # xs)" and "run_by lt a xs = (r, s)"
  shows "find_end_of_run h lt a (tail_of l) = Some (hd (s @ [tail_of l]))"
  using assms find_end_of_run_loop_ok [OF assms] is_list_distinct [OF assms(1)]
  by (auto simp: find_end_of_run_def)

lemma is_sorted_loop_ok:
  assumes "is_list h l (us @ a # xs @ ys)"
  shows "is_sorted_loop h lt a (hd (ys @ [tail_of l])) = Some (sorted_by lt (a # xs))"
  using assms
proof (induction xs arbitrary: us a)
  case Nil
  then show ?case
    by (simp add: is_sorted_loop.simps [of h lt a] list_next_ok [of h l us a ys])
next
  case (Cons x xs)
  have "list_next h a = Some x" "x \<noteq> hd (ys @ [tail_of l])" "list_prev h x = Some a"
    using Cons.prems(1) list_next_ok [of h l us a "x # xs @ ys"]
      list_prev_hd [of h l us a "x # xs @ ys"] hd_neq [of h l "us @ [a]" x xs ys] by simp_all
  then show ?case
    using Cons.IH [of "us @ [a]" x] Cons.prems
    by (simp add: is_sorted_loop.simps [of h lt a])
qed

lemma is_sorted_ok:
  assumes "is_list h l (us @ xs @ ys)"
  shows "is_sorted h lt (hd (xs @ ys @ [tail_of l])) (hd (ys @ [tail_of l])) = Some (sorted_by lt xs)"
  using assms is_sorted_loop_ok [of h l us _ _ ys] hd_neq [of h l us _ _ ys]
  by (cases xs) (simp_all add: is_sorted_def)

lemma inplace_merge_loop_ok:
  assumes "is_list h l (us @ xs @ ys @ zs)"
  shows "\<exists>h'. inplace_merge_loop h lt (hd (xs @ ys @ zs @ [tail_of l]))
      (hd (ys @ zs @ [tail_of l])) (hd (zs @ [tail_of l])) = Some h' \<and>
    is_list h' l (us @ merge_by lt xs ys @ zs) \<and> frame (cells l (us @ xs @ ys @ zs)) h h'"
  using assms
proof (induction lt xs ys arbitrary: us h rule: merge_by.induct)
  case (1 lt ys)
  then show ?case by (auto simp: inplace_merge_loop.simps)
next
  case (2 lt v va)
  then show ?case by (auto simp: inplace_merge_loop.simps)
next
  case (3 lt x xs y ys)
  have ne: "x \<noteq> y" "y \<noteq> hd (zs @ [tail_of l])"
    using "3.prems" is_list_distinct(1) [OF "3.prems"] hd_neq [of h l "us @ x # xs" y ys zs] by auto
  show ?case
  proof (cases "lt y x")
    case False
    have n: "list_next h x = Some (hd (xs @ y # ys @ zs @ [tail_of l]))"
      using list_next_ok [of h l us x "xs @ y # ys @ zs"] "3.prems" by simp
    show ?thesis
      using "3.IH"(1) [of h "us @ [x]"] "3.prems" False ne n
      by (simp add: inplace_merge_loop.simps [of h lt x])
  next
    case True
    let ?q = "hd (ys @ zs @ [tail_of l])"
    have n: "list_next h y = Some ?q" "list_prev h ?q = Some y"
      using list_next_ok [of h l "us @ x # xs" y "ys @ zs"]
        list_prev_hd [of h l "us @ x # xs" y "ys @ zs"] "3.prems" by simp_all
    obtain h1 where h1: "list_splice h x y ?q = Some h1" "is_list h1 l (us @ y # x # xs @ ys @ zs)"
        "frame (cells l (us @ (x # xs) @ (y # ys) @ zs)) h h1"
      using list_splice_same [of h "head_of l # us" "x # xs" "[y]" "ys @ zs @ [tail_of l]"] "3.prems"
      by (auto simp: is_list_def cells_def)
    have c: "cells l (us @ y # x # xs @ ys @ zs) = cells l (us @ (x # xs) @ (y # ys) @ zs)"
      by (auto simp: cells_def)
    obtain h2 where "inplace_merge_loop h1 lt x ?q (hd (zs @ [tail_of l])) = Some h2"
        "is_list h2 l (us @ y # merge_by lt (x # xs) ys @ zs)"
        "frame (cells l (us @ y # x # xs @ ys @ zs)) h1 h2"
      using "3.IH"(2) [of h1 "us @ [y]"] True h1(2) by auto
    then show ?thesis
      using True ne n h1 frame_trans [OF h1(3), of h2] unfolding c
      by (simp add: inplace_merge_loop.simps [of h lt x])
  qed
qed

lemma inplace_merge_ok:
  assumes l: "is_list h l (us @ xs @ ys @ zs)" and "sorted_by lt xs" "sorted_by lt ys"
  shows "\<exists>h'. inplace_merge h lt (hd (xs @ ys @ zs @ [tail_of l]))
      (hd (ys @ zs @ [tail_of l])) (hd (zs @ [tail_of l])) = Some h' \<and>
    is_list h' l (us @ merge_by lt xs ys @ zs) \<and> frame (cells l (us @ xs @ ys @ zs)) h h'"
proof -
  have nn: "hd (ws @ [tail_of l]) \<noteq> NULL" if "set ws \<subseteq> set (us @ xs @ ys @ zs)" for ws
    using is_list_distinct [OF l] that by (cases ws) auto
  have "hd (xs @ ys @ zs @ [tail_of l]) \<noteq> NULL" "hd (ys @ zs @ [tail_of l]) \<noteq> NULL"
    "hd (zs @ [tail_of l]) \<noteq> NULL"
    using nn [of "xs @ ys @ zs"] nn [of "ys @ zs"] nn [of zs] by auto
  then show ?thesis
    using inplace_merge_loop_ok [OF l] is_sorted_ok [of h l us xs "ys @ zs" lt]
      is_sorted_ok [of h l "us @ xs" ys zs lt] assms
    by (simp add: inplace_merge_def)
qed

lemma size_add_mod: "size_add (n mod 4294967296) (Suc 0) = Suc n mod 4294967296"
  by (simp add: size_add_def mod_simps)

lemma list_sort_pass_ok:
  assumes "is_list h l (us @ xs)" and "pass_by lt xs = (c, res)"
  shows "\<exists>h'. list_sort_pass h lt (hd (xs @ [tail_of l])) (tail_of l) (n mod 2 ^ 32) =
      Some ((n + c) mod 2 ^ 32, h') \<and>
    is_list h' l (us @ res) \<and> frame (cells l (us @ xs)) h h'"
  using assms
proof (induction lt xs arbitrary: us h n c res rule: pass_by.induct)
  case (1 lt)
  then show ?case by (simp add: list_sort_pass.simps)
next
  case (2 lt a xs)
  note step = list_sort_pass.simps [of h lt a]
  obtain r s where rs: "run_by lt a xs = (r, s)" by fastforce
  have a: "a \<noteq> tail_of l" using not_tail [OF "2.prems"(1)] .
  note f1 = find_end_of_run_ok [OF "2.prems"(1) rs]
  show ?case
  proof (cases s)
    case Nil
    then show ?thesis using "2.prems" rs a f1 by (auto simp: step size_add_mod)
  next
    case (Cons b s')
    obtain r2 s2 where rs2: "run_by lt b s' = (r2, s2)" by fastforce
    obtain c' res' where p: "pass_by lt s2 = (c', res')" by fastforce
    have split: "a # xs = (a # r) @ (b # r2) @ s2"
      using run_by_append [OF rs] run_by_append [OF rs2] Cons by simp
    have b: "is_list h l ((us @ a # r) @ b # s')" "b \<noteq> tail_of l"
      using "2.prems"(1) run_by_append [OF rs] Cons not_tail [of h l "us @ a # r" b s'] by simp_all
    note f2 = find_end_of_run_ok [OF b(1) rs2]
    let ?m = "merge_by lt (a # r) (b # r2)"
    obtain h1 where h1: "inplace_merge h lt a b (hd (s2 @ [tail_of l])) = Some h1"
        "is_list h1 l (us @ ?m @ s2)" "frame (cells l (us @ a # xs)) h h1"
      using inplace_merge_ok [of h l us "a # r" "b # r2" s2 lt] "2.prems"(1)
        run_by_sorted [OF rs] run_by_sorted [OF rs2] unfolding split by auto
    have c: "cells l ((us @ ?m) @ s2) = cells l (us @ a # xs)"
      unfolding split by (auto simp: cells_def)
    obtain h2 where "list_sort_pass h1 lt (hd (s2 @ [tail_of l])) (tail_of l) (Suc n mod 2 ^ 32) =
          Some ((Suc n + c') mod 2 ^ 32, h2)" "is_list h2 l ((us @ ?m) @ res')"
        "frame (cells l ((us @ ?m) @ s2)) h1 h2"
      using "2.IH" [OF rs [symmetric] Cons rs2 [symmetric], of h1 "us @ ?m" c' res' "Suc n"] h1(2) p by auto
    then show ?thesis
      using "2.prems"(2) rs Cons rs2 p a b f1 f2 h1 frame_trans [OF h1(3), of h2] unfolding c
      by (auto simp: step size_add_mod simp del: merge_by.simps)
  qed
qed

lemma list_sort_loop_ok:
  assumes "weak_order lt" and "is_list h l xs" and "length xs < 2 ^ 32"
  shows "\<exists>h' ys. list_sort_loop h lt l = Some h' \<and> is_list h' l ys \<and> mset ys = mset xs \<and>
    sorted_by lt ys \<and> (\<forall>k. filter (eqv lt k) ys = filter (eqv lt k) xs) \<and> frame (cells l xs) h h'"
  using assms
proof (induction "nruns lt xs" arbitrary: h xs rule: less_induct)
  case less
  obtain c res where p: "pass_by lt xs = (c, res)" by fastforce
  note c = pass_by_count [OF p] and m = pass_by_mset [OF p]
  have bound: "c < 2 ^ 32" using c nruns_le_length [of lt xs] less.prems(3) by linarith
  obtain h1 where h1: "list_sort_pass h lt (hd (xs @ [tail_of l])) (tail_of l) 0 = Some (c, h1)"
      "is_list h1 l res" "frame (cells l xs) h h1"
    using list_sort_pass_ok [of h l "[]" xs lt c res 0] less.prems(2) p bound by auto
  note step = list_sort_loop.simps [of h lt l] list_begin_ok [OF less.prems(2)] list_end_ok [OF less.prems(2)]
  have cells: "cells l res = cells l xs" using mset_eq_setD [OF m] by (simp add: cells_def)
  note f = filter_pass_by [OF less.prems(1) p]
  note n = nruns_pass_by [OF less.prems(1) p]
  show ?case
  proof (cases "1 < c")
    case True
    then have "nruns lt res < nruns lt xs" using n c by linarith
    moreover have "length res < 2 ^ 32" using less.prems(3) mset_eq_length [OF m] by simp
    ultimately obtain h2 ys where "list_sort_loop h1 lt l = Some h2" "is_list h2 l ys"
        "mset ys = mset res" "sorted_by lt ys" "\<forall>k. filter (eqv lt k) ys = filter (eqv lt k) res"
        "frame (cells l res) h1 h2"
      using less.hyps [OF _ less.prems(1) h1(2)] by blast
    then show ?thesis using True h1 step m f frame_trans [OF h1(3), of h2] unfolding cells by auto
  next
    case False
    then have "sorted_by lt res" using n nruns_le1_sorted [of lt res] by linarith
    then show ?thesis using False h1 step m f by auto
  qed
qed

lemma list_sort_ok:
  assumes "weak_order lt" and "is_list h l xs" and "length xs < 2 ^ 32"
  shows "\<exists>h' ys. list_sort h lt l = Some h' \<and> is_list h' l ys \<and> mset ys = mset xs \<and>
    sorted_by lt ys \<and> (\<forall>k. filter (eqv lt k) ys = filter (eqv lt k) xs) \<and> frame (cells l xs) h h'"
proof -
  obtain h' ys where r: "list_sort_loop h lt l = Some h'" "is_list h' l ys" "mset ys = mset xs"
    "sorted_by lt ys" "\<forall>k. filter (eqv lt k) ys = filter (eqv lt k) xs" "frame (cells l xs) h h'"
    using list_sort_loop_ok [OF assms] by blast
  then have "is_sorted h' lt (hd (ys @ [tail_of l])) (tail_of l) = Some True"
    using is_sorted_ok [of h' l "[]" ys "[]" lt] by simp
  then show ?thesis
    using r is_list_distinct [OF assms(2)] list_begin_ok [OF r(2)] list_end_ok [OF r(2)]
    by (auto simp: list_sort_def)
qed

section \<open>Properties\<close>

text \<open>
  C12. \<open>list_sort\<close> terminates without a failed assertion on every well-formed
  list of fewer than \<open>2 ^ 32\<close> elements and every strict weak order, and leaves a
  well-formed list of the same elements that is sorted, in which equivalent
  elements keep their relative order; no cell outside the list changes.
\<close>

theorem list_sort_correct:
  assumes "weak_order lt" and "is_list h l xs" and "length xs < 2 ^ 32"
  shows "\<exists>h' ys. list_sort h lt l = Some h' \<and> is_list h' l ys \<and> mset ys = mset xs \<and>
    sorted_by lt ys \<and> (\<forall>k. filter (eqv lt k) ys = filter (eqv lt k) xs) \<and> frame (cells l xs) h h'"
  using list_sort_ok [OF assms] .

theorem list_sort_correct_witness:
  "\<exists>h' ys. list_sort demo_heap (\<lambda>a b. a div 20 < b div 20) 1000 = Some h' \<and> is_list h' 1000 ys \<and>
    mset ys = {#10, 20, 30#} \<and> sorted_by (\<lambda>a b. a div 20 < b div 20) ys \<and>
    filter (eqv (\<lambda>a b. a div 20 < b div 20) 20) ys = [30, 20]"
proof -
  have "weak_order (\<lambda>a b :: nat. a div 20 < b div 20)" by (auto simp: weak_order_def)
  from list_sort_correct [OF this demo_heap_list] show ?thesis
    by (fastforce simp: eqv_def)
qed

end
