(* ===== verification/Bitmap.thy ===== *)
theory Bitmap
  imports Prelude
begin

text \<open>
  The bitmaps of \<^verbatim>\<open>lib/kernel/bitmap.c\<close>: an array of 32-bit elements that
  simulates an array of bits. A bitmap is the contents of a \<open>struct bitmap\<close>
  and of the array it points to, so the assertions that the pointer is not
  null hold by construction; an access outside the element array is \<open>None\<close>,
  like a failed assertion.

  The abstraction is \<open>bm_bits b\<close>, the bits as a list of truth values; every
  operation is shown to act on that list. \<open>bitmap_scan\<close> returns the first
  group of equal bits and \<open>bitmap_scan_and_flip\<close> is an allocator: the locale
  \<open>range_allocator\<close> states what the page allocator, the swap table and the free
  map rely on, and shows that live allocations never overlap.
\<close>

section \<open>The code\<close>

abbreviation (input) ELEM_BITS :: nat where
  "ELEM_BITS \<equiv> 32"

abbreviation (input) BITMAP_ERROR :: nat where
  "BITMAP_ERROR \<equiv> SIZE_MAX"

record bitmap =
  bit_cnt :: nat
  bits :: "u32 list"

definition elem_idx :: "nat \<Rightarrow> nat" where
  "elem_idx bit_idx = bit_idx div ELEM_BITS"

definition bit_mask :: "nat \<Rightarrow> u32" where
  "bit_mask bit_idx = push_bit (bit_idx mod ELEM_BITS) 1"

definition elem_cnt :: "nat \<Rightarrow> nat" where
  "elem_cnt n = DIV_ROUND_UP n ELEM_BITS"

definition byte_cnt :: "nat \<Rightarrow> nat" where
  "byte_cnt n = size_mul 4 (elem_cnt n)"

definition last_mask :: "bitmap \<Rightarrow> u32" where
  "last_mask b = (let last_bits = bit_cnt b mod ELEM_BITS in
     if last_bits \<noteq> 0 then push_bit last_bits 1 - 1 else - 1)"

definition bitmap_size :: "bitmap \<Rightarrow> nat" where
  "bitmap_size b = bit_cnt b"

text \<open>The three atomic updates of one element; the index is not checked by the code.\<close>

definition upd_elem :: "bitmap \<Rightarrow> nat \<Rightarrow> (u32 \<Rightarrow> u32) \<Rightarrow> bitmap option" where
  "upd_elem b idx f =
     (if idx < length (bits b) then Some (b\<lparr>bits := (bits b)[idx := f (bits b ! idx)]\<rparr>) else None)"

definition bitmap_mark :: "bitmap \<Rightarrow> nat \<Rightarrow> bitmap option" where
  "bitmap_mark b bit_idx = upd_elem b (elem_idx bit_idx) (\<lambda>w. w OR bit_mask bit_idx)"

definition bitmap_reset :: "bitmap \<Rightarrow> nat \<Rightarrow> bitmap option" where
  "bitmap_reset b bit_idx = upd_elem b (elem_idx bit_idx) (\<lambda>w. w AND NOT (bit_mask bit_idx))"

definition bitmap_flip :: "bitmap \<Rightarrow> nat \<Rightarrow> bitmap option" where
  "bitmap_flip b bit_idx = upd_elem b (elem_idx bit_idx) (\<lambda>w. w XOR bit_mask bit_idx)"

definition bitmap_set :: "bitmap \<Rightarrow> nat \<Rightarrow> bool \<Rightarrow> bitmap option" where
  "bitmap_set b idx value = do {
     ASSERT (idx < bit_cnt b);
     if value then bitmap_mark b idx else bitmap_reset b idx }"

definition bitmap_test :: "bitmap \<Rightarrow> nat \<Rightarrow> bool option" where
  "bitmap_test b idx = do {
     ASSERT (idx < bit_cnt b);
     if elem_idx idx < length (bits b)
     then Some ((bits b ! elem_idx idx) AND bit_mask idx \<noteq> 0) else None }"

function bitmap_set_multiple_loop :: "bitmap \<Rightarrow> nat \<Rightarrow> nat \<Rightarrow> nat \<Rightarrow> bool \<Rightarrow> bitmap option" where
  "bitmap_set_multiple_loop b start i cnt value =
     (if i < cnt then do {
        b \<leftarrow> bitmap_set b (size_add start i) value;
        bitmap_set_multiple_loop b start (i + 1) cnt value }
      else Some b)"
  by pat_completeness auto
termination by (relation "measure (\<lambda>(b, start, i, cnt, value). cnt - i)") auto

definition bitmap_set_multiple :: "bitmap \<Rightarrow> nat \<Rightarrow> nat \<Rightarrow> bool \<Rightarrow> bitmap option" where
  "bitmap_set_multiple b start cnt value = do {
     ASSERT (start \<le> bit_cnt b);
     ASSERT (size_add start cnt \<le> bit_cnt b);
     bitmap_set_multiple_loop b start 0 cnt value }"

definition bitmap_set_all :: "bitmap \<Rightarrow> bool \<Rightarrow> bitmap option" where
  "bitmap_set_all b value = bitmap_set_multiple b 0 (bitmap_size b) value"

text \<open>
  Creation. The two calls of \<open>malloc\<close> return memory or fail: \<open>m\<close> says whether
  the first succeeds, \<open>p\<close> is the uninitialised array of the second or \<open>None\<close>.
  The inner option is the returned pointer. For a bitmap of no bits a failed
  second allocation is not an error.
\<close>

definition bitmap_create :: "nat \<Rightarrow> bool \<Rightarrow> u32 list option \<Rightarrow> bitmap option option" where
  "bitmap_create n m p =
     (if m then
        (case p of
           Some junk \<Rightarrow> map_option Some (bitmap_set_all \<lparr>bit_cnt = n, bits = junk\<rparr> False)
         | None \<Rightarrow> if n = 0 then map_option Some (bitmap_set_all \<lparr>bit_cnt = n, bits = []\<rparr> False)
                    else Some None)
      else Some None)"

definition bitmap_buf_size :: "nat \<Rightarrow> nat" where
  "bitmap_buf_size n = size_add 8 (byte_cnt n)"

text \<open>Creation in a caller's block: \<open>junk\<close> is the block after the 8 bytes of the struct.\<close>

definition bitmap_create_in_buf :: "nat \<Rightarrow> u32 list \<Rightarrow> nat \<Rightarrow> bitmap option" where
  "bitmap_create_in_buf n junk block_size = do {
     ASSERT (bitmap_buf_size n \<le> block_size);
     bitmap_set_all \<lparr>bit_cnt = n, bits = junk\<rparr> False }"

function bitmap_count_loop :: "bitmap \<Rightarrow> nat \<Rightarrow> nat \<Rightarrow> nat \<Rightarrow> bool \<Rightarrow> nat \<Rightarrow> nat option" where
  "bitmap_count_loop b start i cnt value value_cnt =
     (if i < cnt then do {
        t \<leftarrow> bitmap_test b (size_add start i);
        bitmap_count_loop b start (i + 1) cnt value (if t = value then value_cnt + 1 else value_cnt) }
      else Some value_cnt)"
  by pat_completeness auto
termination by (relation "measure (\<lambda>(b, start, i, cnt, value, n). cnt - i)") auto

definition bitmap_count :: "bitmap \<Rightarrow> nat \<Rightarrow> nat \<Rightarrow> bool \<Rightarrow> nat option" where
  "bitmap_count b start cnt value = do {
     ASSERT (start \<le> bit_cnt b);
     ASSERT (size_add start cnt \<le> bit_cnt b);
     bitmap_count_loop b start 0 cnt value 0 }"

function bitmap_contains_loop :: "bitmap \<Rightarrow> nat \<Rightarrow> nat \<Rightarrow> nat \<Rightarrow> bool \<Rightarrow> bool option" where
  "bitmap_contains_loop b start i cnt value =
     (if i < cnt then do {
        t \<leftarrow> bitmap_test b (size_add start i);
        if t = value then Some True else bitmap_contains_loop b start (i + 1) cnt value }
      else Some False)"
  by pat_completeness auto
termination by (relation "measure (\<lambda>(b, start, i, cnt, value). cnt - i)") auto

definition bitmap_contains :: "bitmap \<Rightarrow> nat \<Rightarrow> nat \<Rightarrow> bool \<Rightarrow> bool option" where
  "bitmap_contains b start cnt value = do {
     ASSERT (start \<le> bit_cnt b);
     ASSERT (size_add start cnt \<le> bit_cnt b);
     bitmap_contains_loop b start 0 cnt value }"

definition bitmap_any :: "bitmap \<Rightarrow> nat \<Rightarrow> nat \<Rightarrow> bool option" where
  "bitmap_any b start cnt = bitmap_contains b start cnt True"

definition bitmap_none :: "bitmap \<Rightarrow> nat \<Rightarrow> nat \<Rightarrow> bool option" where
  "bitmap_none b start cnt = map_option Not (bitmap_contains b start cnt True)"

definition bitmap_all :: "bitmap \<Rightarrow> nat \<Rightarrow> nat \<Rightarrow> bool option" where
  "bitmap_all b start cnt = map_option Not (bitmap_contains b start cnt False)"

text \<open>
  The loop counter of \<open>bitmap_scan\<close> could only wrap around if \<open>last\<close> were the
  largest \<open>size_t\<close>; then \<open>cnt\<close> is 0 and the first iteration returns.
\<close>

function bitmap_scan_loop :: "bitmap \<Rightarrow> nat \<Rightarrow> nat \<Rightarrow> nat \<Rightarrow> bool \<Rightarrow> nat option" where
  "bitmap_scan_loop b i last_idx cnt value =
     (if i \<le> last_idx then do {
        c \<leftarrow> bitmap_contains b i cnt (\<not> value);
        if \<not> c then Some i else bitmap_scan_loop b (i + 1) last_idx cnt value }
      else Some BITMAP_ERROR)"
  by pat_completeness auto
termination by (relation "measure (\<lambda>(b, i, l, cnt, value). Suc l - i)") auto

definition bitmap_scan :: "bitmap \<Rightarrow> nat \<Rightarrow> nat \<Rightarrow> bool \<Rightarrow> nat option" where
  "bitmap_scan b start cnt value = do {
     ASSERT (start \<le> bit_cnt b);
     if cnt \<le> bit_cnt b then bitmap_scan_loop b start (bit_cnt b - cnt) cnt value
     else Some BITMAP_ERROR }"

definition bitmap_scan_and_flip :: "bitmap \<Rightarrow> nat \<Rightarrow> nat \<Rightarrow> bool \<Rightarrow> (nat \<times> bitmap) option" where
  "bitmap_scan_and_flip b start cnt value = do {
     idx \<leftarrow> bitmap_scan b start cnt value;
     if idx \<noteq> BITMAP_ERROR then do {
       b \<leftarrow> bitmap_set_multiple b idx cnt (\<not> value);
       Some (idx, b) }
     else Some (idx, b) }"

definition bitmap_file_size :: "bitmap \<Rightarrow> nat" where
  "bitmap_file_size b = byte_cnt (bit_cnt b)"

text \<open>
  File input and output. \<open>data\<close> is what \<open>file_read_at\<close> stored at \<open>b->bits\<close>, as
  many bytes as it returned; \<open>bitmap_write\<close> is the byte sequence handed to
  \<open>file_write_at\<close>, and \<open>written\<close> what that returned.
\<close>

definition bitmap_bytes :: "bitmap \<Rightarrow> u8 list" where
  "bitmap_bytes b = concat (map u32_bytes (bits b))"

definition bitmap_read :: "bitmap \<Rightarrow> u8 list \<Rightarrow> bool \<times> bitmap" where
  "bitmap_read b data =
     (if 0 < bit_cnt b then
        let size = byte_cnt (bit_cnt b);
            ws = bytes_u32s (data @ drop (length data) (bitmap_bytes b));
            i = size_sub (elem_cnt (bit_cnt b)) 1
        in (length data = size, b\<lparr>bits := ws[i := ws ! i AND last_mask b]\<rparr>)
      else (True, b))"

definition bitmap_write :: "bitmap \<Rightarrow> nat \<Rightarrow> bool \<times> u8 list" where
  "bitmap_write b written =
     (let size = byte_cnt (bit_cnt b) in (written = size, take size (bitmap_bytes b)))"

section \<open>The abstraction\<close>

definition bm_ok :: "bitmap \<Rightarrow> bool" where
  "bm_ok b \<longleftrightarrow> bit_cnt b + 32 < 2 ^ 32 \<and> length (bits b) = (bit_cnt b + 31) div 32"

definition bm_bits :: "bitmap \<Rightarrow> bool list" where
  "bm_bits b = map (\<lambda>i. bit (bits b ! (i div 32)) (i mod 32)) [0..<bit_cnt b]"

definition range_eq :: "bool list \<Rightarrow> nat \<Rightarrow> nat \<Rightarrow> bool \<Rightarrow> bool" where
  "range_eq xs start cnt v \<longleftrightarrow> (\<forall>i < cnt. xs ! (start + i) = v)"

definition set_range :: "bool list \<Rightarrow> nat \<Rightarrow> nat \<Rightarrow> bool \<Rightarrow> bool list" where
  "set_range xs start cnt v = map (\<lambda>i. if start \<le> i \<and> i < start + cnt then v else xs ! i) [0..<length xs]"

declare bitmap_set_multiple_loop.simps [simp del] bitmap_count_loop.simps [simp del]
  bitmap_contains_loop.simps [simp del] bitmap_scan_loop.simps [simp del]

lemma bm_bits_length [simp]: "length (bm_bits b) = bit_cnt b"
  by (simp add: bm_bits_def)

lemma bm_bits_nth: "i < bit_cnt b \<Longrightarrow> bm_bits b ! i = bit (bits b ! (i div 32)) (i mod 32)"
  by (simp add: bm_bits_def)

lemma elem_idx_bound: "bm_ok b \<Longrightarrow> i < bit_cnt b \<Longrightarrow> elem_idx i < length (bits b)"
  by (simp add: bm_ok_def elem_idx_def)

lemma bit_bit_mask: "bit (bit_mask i) n \<longleftrightarrow> n = i mod 32"
proof -
  have "i mod 32 < 32" by simp
  then show ?thesis by (auto simp: bit_mask_def bit_exp_iff possible_bit_word)
qed

lemma and_bit_mask: "(w AND bit_mask i \<noteq> 0) = bit w (i mod 32)"
proof -
  have "w AND bit_mask i \<noteq> 0 \<longleftrightarrow> (\<exists>n. bit (w AND bit_mask i) n)"
    by (metis bit_0_eq bit_eqI bot_apply bot_bool_def)
  then show ?thesis by (auto simp: bit_and_iff bit_bit_mask)
qed

lemma bitmap_test_ok:
  assumes "bm_ok b"
  shows "bitmap_test b i = (if i < bit_cnt b then Some (bm_bits b ! i) else None)"
  using elem_idx_bound [OF assms, of i]
  by (simp add: bitmap_test_def and_bit_mask bm_bits_nth) (simp add: elem_idx_def)

lemma upd_elem_ok:
  assumes ok: "bm_ok b" and i: "i < bit_cnt b"
    and f: "\<And>w n. bit (f w) n = (if n = i mod 32 then g (bit w n) else bit w n)"
  shows "\<exists>b'. upd_elem b (elem_idx i) f = Some b' \<and> bm_ok b' \<and> bit_cnt b' = bit_cnt b \<and>
    bm_bits b' = (bm_bits b)[i := g (bm_bits b ! i)]"
proof -
  let ?b = "b\<lparr>bits := (bits b)[elem_idx i := f (bits b ! elem_idx i)]\<rparr>"
  have "bm_bits ?b ! j = (bm_bits b)[i := g (bm_bits b ! i)] ! j" if "j < bit_cnt b" for j
  proof (cases "j div 32 = i div 32")
    case True
    have "j mod 32 = i mod 32 \<longleftrightarrow> j = i" using True by (metis div_mult_mod_eq)
    then show ?thesis
      using True that i f elem_idx_bound [OF ok i] by (auto simp: bm_bits_nth elem_idx_def)
  next
    case False
    then have "j \<noteq> i" by auto
    then show ?thesis
      using False that i by (simp add: bm_bits_nth elem_idx_def)
  qed
  then have "bm_bits ?b = (bm_bits b)[i := g (bm_bits b ! i)]"
    by (intro nth_equalityI) simp_all
  moreover have "bm_ok ?b" using ok by (simp add: bm_ok_def)
  ultimately show ?thesis using elem_idx_bound [OF ok i] by (simp add: upd_elem_def)
qed

lemma bitmap_mark_ok:
  "bm_ok b \<Longrightarrow> i < bit_cnt b \<Longrightarrow> \<exists>b'. bitmap_mark b i = Some b' \<and> bm_ok b' \<and>
    bit_cnt b' = bit_cnt b \<and> bm_bits b' = (bm_bits b)[i := True]"
  unfolding bitmap_mark_def
  by (rule upd_elem_ok [where g = "\<lambda>_. True"]) (auto simp: bit_or_iff bit_bit_mask)

lemma bitmap_reset_ok:
  "bm_ok b \<Longrightarrow> i < bit_cnt b \<Longrightarrow> \<exists>b'. bitmap_reset b i = Some b' \<and> bm_ok b' \<and>
    bit_cnt b' = bit_cnt b \<and> bm_bits b' = (bm_bits b)[i := False]"
  unfolding bitmap_reset_def
  by (rule upd_elem_ok [where g = "\<lambda>_. False"])
     (auto simp: bit_and_iff bit_not_iff bit_bit_mask dest: bit_imp_le_length)

lemma bitmap_flip_ok:
  "bm_ok b \<Longrightarrow> i < bit_cnt b \<Longrightarrow> \<exists>b'. bitmap_flip b i = Some b' \<and> bm_ok b' \<and>
    bit_cnt b' = bit_cnt b \<and> bm_bits b' = (bm_bits b)[i := \<not> bm_bits b ! i]"
  unfolding bitmap_flip_def
  by (rule upd_elem_ok [where g = Not]) (auto simp: bit_xor_iff bit_bit_mask)

lemma bitmap_set_ok:
  "bm_ok b \<Longrightarrow> i < bit_cnt b \<Longrightarrow> \<exists>b'. bitmap_set b i v = Some b' \<and> bm_ok b' \<and>
    bit_cnt b' = bit_cnt b \<and> bm_bits b' = (bm_bits b)[i := v]"
  using bitmap_mark_ok [of b i] bitmap_reset_ok [of b i] by (cases v) (simp_all add: bitmap_set_def)


lemma set_range_0 [simp]: "set_range xs start 0 v = xs"
  by (intro nth_equalityI) (auto simp: set_range_def)

lemma set_range_length [simp]: "length (set_range xs start cnt v) = length xs"
  by (simp add: set_range_def)

lemma set_range_nth:
  "i < length xs \<Longrightarrow> set_range xs start cnt v ! i = (if start \<le> i \<and> i < start + cnt then v else xs ! i)"
  by (simp add: set_range_def)

lemma set_range_Suc: "set_range (xs[start := v]) (Suc start) n v = set_range xs start (Suc n) v"
  by (intro nth_equalityI) (auto simp: set_range_nth nth_list_update)

lemma bitmap_set_multiple_loop_ok:
  assumes "bm_ok b" and "i \<le> cnt" and "start + cnt \<le> bit_cnt b"
  shows "\<exists>b'. bitmap_set_multiple_loop b start i cnt v = Some b' \<and> bm_ok b' \<and>
    bit_cnt b' = bit_cnt b \<and> bm_bits b' = set_range (bm_bits b) (start + i) (cnt - i) v"
  using assms
proof (induction "cnt - i" arbitrary: b i)
  case 0
  then show ?case by (simp add: bitmap_set_multiple_loop.simps [of b])
next
  case (Suc n)
  then have i: "i < cnt" "size_add start i = start + i" "start + i < bit_cnt b"
    by (auto simp: size_add_id bm_ok_def)
  have n: "n = cnt - (i + 1)" using Suc.hyps(2) by linarith
  obtain b1 where b1: "bitmap_set b (start + i) v = Some b1" "bm_ok b1" "bit_cnt b1 = bit_cnt b"
      "bm_bits b1 = (bm_bits b)[start + i := v]"
    using bitmap_set_ok [OF Suc.prems(1) i(3)] by blast
  obtain b' where "bitmap_set_multiple_loop b1 start (i + 1) cnt v = Some b'" "bm_ok b'"
      "bit_cnt b' = bit_cnt b1" "bm_bits b' = set_range (bm_bits b1) (start + (i + 1)) (cnt - (i + 1)) v"
    using Suc.hyps(1) [of "i + 1" b1] n Suc.prems b1 i(1) by auto
  then show ?case
    using i b1 Suc_diff_Suc [OF i(1)] set_range_Suc [of "bm_bits b" "start + i" v "cnt - Suc i"]
    by (simp add: bitmap_set_multiple_loop.simps [of b])
qed

lemma bitmap_set_multiple_ok:
  assumes "bm_ok b" and "start + cnt \<le> bit_cnt b"
  shows "\<exists>b'. bitmap_set_multiple b start cnt v = Some b' \<and> bm_ok b' \<and>
    bit_cnt b' = bit_cnt b \<and> bm_bits b' = set_range (bm_bits b) start cnt v"
proof -
  have "size_add start cnt = start + cnt" using assms by (simp add: size_add_id bm_ok_def)
  then show ?thesis
    using bitmap_set_multiple_loop_ok [OF assms(1), of 0 cnt start v] assms(2)
    by (simp add: bitmap_set_multiple_def)
qed

lemma bitmap_set_all_ok:
  assumes "bm_ok b"
  shows "\<exists>b'. bitmap_set_all b v = Some b' \<and> bm_ok b' \<and>
    bit_cnt b' = bit_cnt b \<and> bm_bits b' = replicate (bit_cnt b) v"
proof -
  have "set_range (bm_bits b) 0 (bit_cnt b) v = replicate (bit_cnt b) v"
    by (intro nth_equalityI) (auto simp: set_range_nth)
  then show ?thesis
    using bitmap_set_multiple_ok [OF assms, of 0 "bit_cnt b" v]
    by (simp add: bitmap_set_all_def bitmap_size_def)
qed

lemma bitmap_contains_loop_ok:
  assumes "bm_ok b" and "i \<le> cnt" and "start + cnt \<le> bit_cnt b"
  shows "bitmap_contains_loop b start i cnt v = Some (\<exists>j. i \<le> j \<and> j < cnt \<and> bm_bits b ! (start + j) = v)"
  using assms
proof (induction "cnt - i" arbitrary: i)
  case 0
  then show ?case by (auto simp: bitmap_contains_loop.simps [of b])
next
  case (Suc n)
  then have i: "i < cnt" "size_add start i = start + i" "start + i < bit_cnt b"
    by (auto simp: size_add_id bm_ok_def)
  have n: "n = cnt - (i + 1)" using Suc.hyps(2) by linarith
  have "bitmap_contains_loop b start (i + 1) cnt v =
      Some (\<exists>j. i + 1 \<le> j \<and> j < cnt \<and> bm_bits b ! (start + j) = v)"
    using Suc.hyps(1) [of "i + 1"] n Suc.prems i(1) by simp
  moreover have "(\<exists>j. i \<le> j \<and> j < cnt \<and> bm_bits b ! (start + j) = v) \<longleftrightarrow>
      bm_bits b ! (start + i) = v \<or> (\<exists>j. i + 1 \<le> j \<and> j < cnt \<and> bm_bits b ! (start + j) = v)"
  proof -
    have "i \<le> j \<longleftrightarrow> j = i \<or> i + 1 \<le> j" for j by auto
    then show ?thesis using i(1) by auto
  qed
  ultimately show ?case
    using i bitmap_test_ok [OF Suc.prems(1)] by (simp add: bitmap_contains_loop.simps [of b])
qed

lemma bitmap_contains_ok:
  assumes "bm_ok b" and "start + cnt \<le> bit_cnt b"
  shows "bitmap_contains b start cnt v = Some (\<not> range_eq (bm_bits b) start cnt (\<not> v))"
proof -
  have "size_add start cnt = start + cnt" using assms by (simp add: size_add_id bm_ok_def)
  then show ?thesis
    using bitmap_contains_loop_ok [OF assms(1), of 0 cnt start v] assms(2)
    by (auto simp: bitmap_contains_def range_eq_def)
qed

lemma bitmap_count_loop_ok:
  assumes "bm_ok b" and "i \<le> cnt" and "start + cnt \<le> bit_cnt b"
  shows "bitmap_count_loop b start i cnt v n =
    Some (n + length (filter ((=) v) (take (cnt - i) (drop (start + i) (bm_bits b)))))"
  using assms
proof (induction "cnt - i" arbitrary: i n)
  case 0
  then show ?case by (simp add: bitmap_count_loop.simps [of b])
next
  case (Suc k)
  then have i: "i < cnt" "size_add start i = start + i" "start + i < bit_cnt b"
    by (auto simp: size_add_id bm_ok_def)
  have "take (cnt - i) (drop (start + i) (bm_bits b)) =
      bm_bits b ! (start + i) # take (cnt - (i + 1)) (drop (start + (i + 1)) (bm_bits b))"
    using i by (simp add: Cons_nth_drop_Suc [symmetric] take_Cons' )
  then show ?case
    using i Suc.hyps(1) [of "i + 1"] Suc.hyps(2) Suc.prems bitmap_test_ok [OF Suc.prems(1)]
    by (auto simp: bitmap_count_loop.simps [of b])
qed

lemma bitmap_count_ok:
  assumes "bm_ok b" and "start + cnt \<le> bit_cnt b"
  shows "bitmap_count b start cnt v = Some (length (filter ((=) v) (take cnt (drop start (bm_bits b)))))"
proof -
  have "size_add start cnt = start + cnt" using assms by (simp add: size_add_id bm_ok_def)
  then show ?thesis
    using bitmap_count_loop_ok [OF assms(1), of 0 cnt start v 0] assms(2)
    by (simp add: bitmap_count_def)
qed

text \<open>The first group: the least index at which \<open>cnt\<close> bits equal \<open>v\<close>.\<close>

definition first_group :: "bool list \<Rightarrow> nat \<Rightarrow> nat \<Rightarrow> bool \<Rightarrow> nat \<Rightarrow> bool" where
  "first_group xs start cnt v i \<longleftrightarrow> start \<le> i \<and> i + cnt \<le> length xs \<and> range_eq xs i cnt v \<and>
     (\<forall>j. start \<le> j \<longrightarrow> j < i \<longrightarrow> \<not> range_eq xs j cnt v)"

definition no_group :: "bool list \<Rightarrow> nat \<Rightarrow> nat \<Rightarrow> bool \<Rightarrow> bool" where
  "no_group xs start cnt v \<longleftrightarrow> (\<forall>j. start \<le> j \<longrightarrow> j + cnt \<le> length xs \<longrightarrow> \<not> range_eq xs j cnt v)"

lemma bitmap_scan_loop_ok:
  assumes "bm_ok b" and "cnt \<le> bit_cnt b"
  shows "(\<exists>i. bitmap_scan_loop b start (bit_cnt b - cnt) cnt v = Some i \<and>
      first_group (bm_bits b) start cnt v i) \<or>
    bitmap_scan_loop b start (bit_cnt b - cnt) cnt v = Some BITMAP_ERROR \<and>
      no_group (bm_bits b) start cnt v"
proof (induction "Suc (bit_cnt b - cnt) - start" arbitrary: start)
  case 0
  then show ?case using assms(2)
    by (auto simp: bitmap_scan_loop.simps [of b] no_group_def)
next
  case (Suc n)
  then have s: "start \<le> bit_cnt b - cnt" by linarith
  then have c: "bitmap_contains b start cnt (\<not> v) = Some (\<not> range_eq (bm_bits b) start cnt v)"
    using bitmap_contains_ok [OF assms(1), of start cnt "\<not> v"] assms(2) by simp
  show ?case
  proof (cases "range_eq (bm_bits b) start cnt v")
    case True
    then show ?thesis using s c assms(2)
      by (auto simp: bitmap_scan_loop.simps [of b start] first_group_def)
  next
    case False
    then have "first_group (bm_bits b) start cnt v i" if "first_group (bm_bits b) (start + 1) cnt v i" for i
      using that by (auto simp: first_group_def) (metis Suc_leI le_neq_implies_less)
    moreover have "no_group (bm_bits b) start cnt v" if "no_group (bm_bits b) (start + 1) cnt v"
      using that False by (auto simp: no_group_def) (metis Suc_leI le_neq_implies_less)
    moreover have "bitmap_scan_loop b start (bit_cnt b - cnt) cnt v =
        bitmap_scan_loop b (start + 1) (bit_cnt b - cnt) cnt v"
      using s c False by (simp add: bitmap_scan_loop.simps [of b start])
    ultimately show ?thesis using Suc.hyps(1) [of "start + 1"] Suc.hyps(2) by fastforce
  qed
qed

lemma first_group_not_error: "bm_ok b \<Longrightarrow> first_group (bm_bits b) start cnt v i \<Longrightarrow> i \<noteq> BITMAP_ERROR"
  by (simp add: bm_ok_def first_group_def SIZE_MAX_def)

lemma bitmap_scan_ok:
  assumes "bm_ok b" and "start \<le> bit_cnt b"
  shows "(\<exists>i. bitmap_scan b start cnt v = Some i \<and> first_group (bm_bits b) start cnt v i) \<or>
    bitmap_scan b start cnt v = Some BITMAP_ERROR \<and> no_group (bm_bits b) start cnt v"
  using bitmap_scan_loop_ok [OF assms(1), of cnt start v] assms(2)
  by (auto simp: bitmap_scan_def no_group_def)

lemma bitmap_scan_and_flip_ok:
  assumes "bm_ok b" and "start \<le> bit_cnt b"
  shows "(\<exists>i b'. bitmap_scan_and_flip b start cnt v = Some (i, b') \<and> i \<noteq> BITMAP_ERROR \<and>
      first_group (bm_bits b) start cnt v i \<and> bm_ok b' \<and> bit_cnt b' = bit_cnt b \<and>
      bm_bits b' = set_range (bm_bits b) i cnt (\<not> v)) \<or>
    bitmap_scan_and_flip b start cnt v = Some (BITMAP_ERROR, b) \<and> no_group (bm_bits b) start cnt v"
proof (cases "bitmap_scan b start cnt v = Some BITMAP_ERROR \<and> no_group (bm_bits b) start cnt v")
  case True
  then show ?thesis by (simp add: bitmap_scan_and_flip_def)
next
  case False
  then obtain i where i: "bitmap_scan b start cnt v = Some i" "first_group (bm_bits b) start cnt v i"
    using bitmap_scan_ok [OF assms] by blast
  then have "i + cnt \<le> bit_cnt b" by (simp add: first_group_def)
  then show ?thesis
    using bitmap_set_multiple_ok [OF assms(1), of i cnt "\<not> v"] i first_group_not_error [OF assms(1) i(2)]
    by (auto simp: bitmap_scan_and_flip_def)
qed

section \<open>Creation and files\<close>

lemma elem_cnt_eq: "n + 32 < 2 ^ 32 \<Longrightarrow> elem_cnt n = (n + 31) div 32"
  by (simp add: elem_cnt_def DIV_ROUND_UP_eq)

lemma byte_cnt_eq: "bm_ok b \<Longrightarrow> byte_cnt (bit_cnt b) = 4 * length (bits b)"
proof -
  assume ok: "bm_ok b"
  then have "4 * ((bit_cnt b + 31) div 32) < 2 ^ 32" unfolding bm_ok_def by linarith
  then show ?thesis using ok by (simp add: byte_cnt_def bm_ok_def elem_cnt_eq size_mul_id)
qed

lemma bitmap_create_ok:
  assumes "n + 32 < 2 ^ 32" and "length junk = elem_cnt n"
  shows "\<exists>b. bitmap_create n True (Some junk) = Some (Some b) \<and> bm_ok b \<and> bm_bits b = replicate n False"
    "\<exists>b. bitmap_create_in_buf n junk (bitmap_buf_size n) = Some b \<and> bm_ok b \<and> bm_bits b = replicate n False"
  using bitmap_set_all_ok [of "\<lparr>bit_cnt = n, bits = junk\<rparr>" False] assms
  by (auto simp: bitmap_create_def bitmap_create_in_buf_def bm_ok_def elem_cnt_eq)

lemma bitmap_bytes_length: "length (bitmap_bytes b) = 4 * length (bits b)"
proof -
  have "length (concat (map u32_bytes ws)) = 4 * length ws" for ws
    by (induction ws) simp_all
  then show ?thesis by (simp add: bitmap_bytes_def)
qed

lemma bit_last_mask:
  assumes "bit_cnt b mod 32 \<noteq> 0" and "n < 32"
  shows "bit (last_mask b) n \<longleftrightarrow> n < bit_cnt b mod 32"
proof -
  have "last_mask b = mask (bit_cnt b mod 32)"
    using assms(1) by (simp add: last_mask_def mask_eq_decr_exp)
  then show ?thesis using assms(2) by (simp add: bit_mask_iff)
qed

lemma length_bits:
  assumes "bm_ok b" and "bit_cnt b mod 32 \<noteq> 0"
  shows "length (bits b) = bit_cnt b div 32 + 1"
proof -
  have "(bit_cnt b + 31) div 32 = bit_cnt b div 32 + 1"
    using assms(2) div_add1_eq [of "bit_cnt b" 31 32] by (simp add: Suc_le_eq)
  then show ?thesis using assms(1) by (simp add: bm_ok_def)
qed

lemma bit_last_masked:
  assumes "bm_ok b" and "i < bit_cnt b" and "i div 32 = length (bits b) - 1"
  shows "bit (last_mask b) (i mod 32)"
proof (cases "bit_cnt b mod 32 = 0")
  case True
  then have "last_mask b = - 1" by (simp add: last_mask_def)
  then show ?thesis by (simp add: bit_minus_1_iff possible_bit_word)
next
  case False
  then have "length (bits b) = bit_cnt b div 32 + 1" by (rule length_bits [OF assms(1)])
  then have "i div 32 = bit_cnt b div 32" using assms(3) by simp
  then have "i mod 32 < bit_cnt b mod 32" 
    using assms(2) mult_div_mod_eq [of 32 i] mult_div_mod_eq [of 32 "bit_cnt b"] by linarith
  then show ?thesis using bit_last_mask [OF False] by simp
qed

text \<open>The bits of the last word that are not bits of the map.\<close>

definition tail_clear :: "bitmap \<Rightarrow> bool" where
  "tail_clear b \<longleftrightarrow> (\<forall>i < 32 * length (bits b). bit_cnt b \<le> i \<longrightarrow> \<not> bit (bits b ! (i div 32)) (i mod 32))"

lemma past_last_mask:
  assumes "bm_ok b" and "bit_cnt b \<le> i" and "i < 32 * length (bits b)"
  shows "i div 32 = length (bits b) - 1 \<and> \<not> bit (last_mask b) (i mod 32)"
proof -
  have l: "length (bits b) = (bit_cnt b + 31) div 32" using assms(1) by (simp add: bm_ok_def)
  have ne: "bit_cnt b mod 32 \<noteq> 0"
  proof
    assume "bit_cnt b mod 32 = 0"
    then have "32 * length (bits b) = bit_cnt b" using l by auto
    then show False using assms(2,3) by simp
  qed
  then have l': "length (bits b) = bit_cnt b div 32 + 1" by (rule length_bits [OF assms(1)])
  moreover have "i div 32 = bit_cnt b div 32"
    using assms(2,3) l' div_le_mono [OF assms(2), of 32] less_mult_imp_div_less [of i "length (bits b)" 32] by (simp add: mult.commute)
  moreover from this have "bit_cnt b mod 32 \<le> i mod 32"
    using assms(2) mult_div_mod_eq [of 32 i] mult_div_mod_eq [of 32 "bit_cnt b"] by linarith
  ultimately show ?thesis using bit_last_mask [OF ne, of "i mod 32"] by simp
qed

lemma bitmap_read_write_ok:
  assumes ok: "bm_ok b" "bm_ok b0" and c: "bit_cnt b0 = bit_cnt b"
  shows "\<exists>b'. bitmap_read b0 (snd (bitmap_write b n)) = (True, b') \<and> bm_ok b' \<and> bm_bits b' = bm_bits b \<and>
    bit_cnt b' = bit_cnt b \<and> tail_clear b'"
proof (cases "bit_cnt b = 0")
  case True
  then show ?thesis using ok c by (simp add: bitmap_read_def bm_bits_def tail_clear_def bm_ok_def)
next
  case False
  let ?i = "length (bits b) - 1"
  let ?b = "b0\<lparr>bits := (bits b)[?i := bits b ! ?i AND last_mask b]\<rparr>"
  have len: "length (bits b0) = length (bits b)" "0 < length (bits b)" using ok c False by (simp_all add: bm_ok_def)
  have lt: "length (bits b) < 2 ^ 32" using ok(1) unfolding bm_ok_def by linarith
  have w: "snd (bitmap_write b n) = bitmap_bytes b"
    using byte_cnt_eq [OF ok(1)] by (simp add: bitmap_write_def bitmap_bytes_length Let_def)
  have lm: "last_mask b0 = last_mask b" using c by (simp add: last_mask_def)
  have e: "elem_cnt (bit_cnt b) = length (bits b)" using ok(1) by (simp add: bm_ok_def elem_cnt_eq)
  have ss: "size_sub (length (bits b)) (Suc 0) = length (bits b) - Suc 0"
    using size_sub_id [of 1 "length (bits b)"] len lt by (simp add: Suc_le_eq)
  have "bitmap_read b0 (bitmap_bytes b) = (True, ?b)"
    using False c len ss e lm byte_cnt_eq [OF ok(1)]
    by (simp add: bitmap_read_def bitmap_bytes_length Let_def) (simp add: bitmap_bytes_def)
  moreover have "bm_bits ?b = bm_bits b"
  proof (rule nth_equalityI)
    fix j assume "j < length (bm_bits ?b)"
    then have j: "j < bit_cnt b" using c by simp
    then show "bm_bits ?b ! j = bm_bits b ! j"
      using c bit_last_masked [OF ok(1) j] elem_idx_bound [OF ok(1) j]
      by (cases "j div 32 = ?i") (simp_all add: bm_bits_nth bit_and_iff elem_idx_def)
  qed (use c in simp)
  moreover have "bm_ok ?b" using ok c by (simp add: bm_ok_def)
  moreover have "tail_clear ?b"
    using past_last_mask [OF ok(1)] len(2) c by (auto simp: tail_clear_def bit_and_iff)
  ultimately show ?thesis using w c by auto
qed

section \<open>Allocation from a bitmap\<close>

text \<open>
  The requests a client makes: allocate \<open>n\<close> slots, with options of a kind that
  depends on the allocator, or release the \<open>k\<close>-th live allocation. The state is the
  allocator's and the list of live allocations.
\<close>

datatype 'f request = Alloc 'f nat | Release nat

type_synonym span = "nat \<times> nat"

definition slots :: "span \<Rightarrow> nat set" where
  "slots r = {fst r ..< fst r + snd r}"

fun disjoint_spans :: "span list \<Rightarrow> bool" where
  "disjoint_spans [] \<longleftrightarrow> True"
| "disjoint_spans (r # rs) \<longleftrightarrow> slots r \<inter> (\<Union> (slots ` set rs)) = {} \<and> disjoint_spans rs"

fun serve :: "('s \<Rightarrow> 'f \<Rightarrow> nat \<Rightarrow> (nat option \<times> 's) option) \<Rightarrow> ('s \<Rightarrow> nat \<Rightarrow> nat \<Rightarrow> 's option) \<Rightarrow>
    's \<times> span list \<Rightarrow> 'f request \<Rightarrow> ('s \<times> span list) option" where
  "serve al re (s, live) (Alloc f n) =
     do { (r, s') \<leftarrow> al s f n; Some (s', case r of Some i \<Rightarrow> (i, n) # live | None \<Rightarrow> live) }"
| "serve al re (s, live) (Release k) =
     (if k < length live then
        do { s' \<leftarrow> re s (fst (live ! k)) (snd (live ! k)); Some (s', take k live @ drop (Suc k) live) }
      else Some (s, live))"

fun serve_all :: "('s \<Rightarrow> 'f \<Rightarrow> nat \<Rightarrow> (nat option \<times> 's) option) \<Rightarrow> ('s \<Rightarrow> nat \<Rightarrow> nat \<Rightarrow> 's option) \<Rightarrow>
    's \<times> span list \<Rightarrow> 'f request list \<Rightarrow> ('s \<times> span list) option" where
  "serve_all al re st [] = Some st"
| "serve_all al re st (q # qs) = do { st' \<leftarrow> serve al re st q; serve_all al re st' qs }"

lemma disjoint_spans_remove:
  "disjoint_spans (xs @ r # ys) \<Longrightarrow>
    disjoint_spans (xs @ ys) \<and> slots r \<inter> (\<Union> (slots ` set (xs @ ys))) = {}"
  by (induction xs) auto

locale range_allocator =
  fixes ok :: "'s \<Rightarrow> bool" and used :: "'s \<Rightarrow> nat set" and bound :: "'s \<Rightarrow> nat"
    and alloc :: "'s \<Rightarrow> 'f \<Rightarrow> nat \<Rightarrow> (nat option \<times> 's) option"
    and release :: "'s \<Rightarrow> nat \<Rightarrow> nat \<Rightarrow> 's option"
  assumes alloc_law: "ok s \<Longrightarrow>
      (\<exists>i s'. alloc s f n = Some (Some i, s') \<and> ok s' \<and> bound s' = bound s \<and> i + n \<le> bound s \<and>
        slots (i, n) \<inter> used s = {} \<and> used s' = used s \<union> slots (i, n)) \<or>
      alloc s f n = Some (None, s)"
    and release_law: "ok s \<Longrightarrow> i + n \<le> bound s \<Longrightarrow> slots (i, n) \<subseteq> used s \<Longrightarrow>
      \<exists>s'. release s i n = Some s' \<and> ok s' \<and> bound s' = bound s \<and> used s' = used s - slots (i, n)"
begin

definition good :: "nat set \<Rightarrow> 's \<times> span list \<Rightarrow> bool" where
  "good U st \<longleftrightarrow> ok (fst st) \<and> disjoint_spans (snd st) \<and> U \<inter> \<Union> (slots ` set (snd st)) = {} \<and>
     used (fst st) = U \<union> \<Union> (slots ` set (snd st)) \<and>
     (\<forall>r \<in> set (snd st). fst r + snd r \<le> bound (fst st))"

lemma serve_alloc_good:
  assumes "good U (s, live)"
  shows "\<exists>st'. serve alloc release (s, live) (Alloc f n) = Some st' \<and> good U st'"
proof -
  have "ok s" using assms by (simp add: good_def)
  from alloc_law [OF this, of f n] show ?thesis
  proof (elim disjE exE conjE)
    assume "alloc s f n = Some (None, s)"
    then show ?thesis using assms by simp
  qed (use assms in \<open>auto simp: good_def\<close>)
qed

lemma serve_release_good:
  assumes "good U (s, live)"
  shows "\<exists>st'. serve alloc release (s, live) (Release k) = Some st' \<and> good U st'"
proof (cases "k < length live")
  case True
  let ?r = "live ! k" and ?l = "take k live @ drop (Suc k) live"
  have split: "live = take k live @ ?r # drop (Suc k) live" using id_take_nth_drop [OF True] .
  have d: "disjoint_spans ?l" "slots ?r \<inter> (\<Union> (slots ` set ?l)) = {}"
    using disjoint_spans_remove [of "take k live" ?r "drop (Suc k) live"] split assms
    by (simp_all add: good_def)
  have u: "\<Union> (slots ` set live) = slots ?r \<union> \<Union> (slots ` set ?l)"
    using arg_cong [OF split, of "\<lambda>l. \<Union> (slots ` set l)"] by auto
  have g: "\<forall>r \<in> set live. fst r + snd r \<le> bound s" "ok s"
    "U \<inter> (slots ?r \<union> \<Union> (slots ` set ?l)) = {}" "used s = U \<union> (slots ?r \<union> \<Union> (slots ` set ?l))"
    using assms u by (simp_all add: good_def)
  obtain s' where s': "release s (fst ?r) (snd ?r) = Some s'" "ok s'" "bound s' = bound s"
      "used s' = used s - slots ?r"
    using release_law [of s "fst ?r" "snd ?r"] g(1,2,4) nth_mem [OF True] by auto
  have "used s' = U \<union> \<Union> (slots ` set ?l)" "U \<inter> \<Union> (slots ` set ?l) = {}"
    using s'(4) g(3,4) d(2) by blast+
  moreover have "\<forall>r \<in> set ?l. fst r + snd r \<le> bound s'"
    using g(1) s'(3) by (auto dest: in_set_takeD in_set_dropD)
  ultimately have "good U (s', ?l)" using d(1) s'(2) unfolding good_def fst_conv snd_conv by blast
  then show ?thesis using True s'(1) by simp
qed (use assms in simp)

lemma serve_all_good:
  "good U st \<Longrightarrow> \<exists>st'. serve_all alloc release st qs = Some st' \<and> good U st'"
proof (induction qs arbitrary: st)
  case (Cons q qs)
  have "\<exists>st'. serve alloc release st q = Some st' \<and> good U st'"
    using Cons.prems serve_alloc_good serve_release_good by (cases st; cases q) simp_all
  then show ?case using Cons.IH by auto
qed simp

lemma no_overlap:
  assumes "ok s"
  shows "\<exists>s' live. serve_all alloc release (s, []) qs = Some (s', live) \<and> ok s' \<and> disjoint_spans live \<and>
    used s \<inter> \<Union> (slots ` set live) = {} \<and> used s' = used s \<union> \<Union> (slots ` set live)"
  using serve_all_good [of "used s" "(s, [])" qs] assms by (auto simp: good_def)

end

definition bm_used :: "bitmap \<Rightarrow> nat set" where
  "bm_used b = {i. i < bit_cnt b \<and> bm_bits b ! i}"

text \<open>The way the page pools, the swap table and the free map allocate and release.\<close>

definition bm_alloc :: "bitmap \<Rightarrow> unit \<Rightarrow> nat \<Rightarrow> (nat option \<times> bitmap) option" where
  "bm_alloc b u n = do {
     (i, b') \<leftarrow> bitmap_scan_and_flip b 0 n False;
     Some (if i = BITMAP_ERROR then None else Some i, b') }"

definition bm_release :: "bitmap \<Rightarrow> nat \<Rightarrow> nat \<Rightarrow> bitmap option" where
  "bm_release b i n = bitmap_set_multiple b i n False"

lemma bm_alloc_law:
  assumes "bm_ok b"
  shows "(\<exists>i b'. bm_alloc b u n = Some (Some i, b') \<and> bm_ok b' \<and> bit_cnt b' = bit_cnt b \<and>
        i + n \<le> bit_cnt b \<and> slots (i, n) \<inter> bm_used b = {} \<and> bm_used b' = bm_used b \<union> slots (i, n)) \<or>
    bm_alloc b u n = Some (None, b)"
  using bitmap_scan_and_flip_ok [OF assms, of 0 n False, simplified]
proof (elim disjE exE conjE)
  fix i b'
  assume r: "bitmap_scan_and_flip b 0 n False = Some (i, b')" "i \<noteq> BITMAP_ERROR"
    and g: "first_group (bm_bits b) 0 n False i" and ok: "bm_ok b'" and c: "bit_cnt b' = bit_cnt b"
    and bits: "bm_bits b' = set_range (bm_bits b) i n True"
  have n: "i + n \<le> bit_cnt b" "\<forall>k<n. \<not> bm_bits b ! (i + k)"
    using g by (simp_all add: first_group_def range_eq_def)
  then have "\<not> bm_bits b ! j" if "i \<le> j" "j < i + n" for j
    using that by (metis add_diff_inverse_nat add_less_cancel_left not_less)
  then have "slots (i, n) \<inter> bm_used b = {}" by (auto simp: slots_def bm_used_def)
  moreover have "bm_used b' = bm_used b \<union> slots (i, n)"
    using n(1) c by (auto simp: bm_used_def bits set_range_nth slots_def)
  ultimately show ?thesis using r ok c n(1) by (simp add: bm_alloc_def)
qed (simp add: bm_alloc_def)

lemma bm_release_law:
  assumes "bm_ok b" and "i + n \<le> bit_cnt b"
  shows "\<exists>b'. bm_release b i n = Some b' \<and> bm_ok b' \<and> bit_cnt b' = bit_cnt b \<and>
    bm_used b' = bm_used b - slots (i, n)"
proof -
  obtain b' where b': "bm_release b i n = Some b'" "bm_ok b'" "bit_cnt b' = bit_cnt b"
      "bm_bits b' = set_range (bm_bits b) i n False"
    using bitmap_set_multiple_ok [OF assms(1), of i n False] assms(2) by (auto simp: bm_release_def)
  then have "bm_used b' = bm_used b - slots (i, n)"
    by (auto simp: bm_used_def set_range_nth slots_def split: if_splits)
  then show ?thesis using b' by blast
qed

interpretation bm_allocator: range_allocator bm_ok bm_used bit_cnt bm_alloc bm_release
  by unfold_locales (rule bm_alloc_law bm_release_law; assumption)+

section \<open>Properties\<close>

text \<open>
  C16. Allocation from a bitmap is safe: starting from any well-formed bitmap, every
  sequence of allocations (\<open>bitmap_scan_and_flip\<close> from bit 0) and releases
  (\<open>bitmap_set_multiple\<close>) of live allocations runs without a failed assertion; the
  live allocations never overlap each other or a slot that was in use at the
  start, and the bits set are exactly those of the start and of the live
  allocations.
\<close>

theorem bitmap_allocations_disjoint:
  assumes "bm_ok b"
  shows "\<exists>b' live. serve_all bm_alloc bm_release (b, []) qs = Some (b', live) \<and> disjoint_spans live \<and>
    bm_used b \<inter> \<Union> (slots ` set live) = {} \<and> bm_used b' = bm_used b \<union> \<Union> (slots ` set live)"
  using bm_allocator.no_overlap [OF assms, of qs] by blast

theorem bitmap_allocations_disjoint_witness:
  "\<exists>b' live. serve_all bm_alloc bm_release (\<lparr>bit_cnt = 40, bits = [5, 0]\<rparr>, [])
      [Alloc () 2, Alloc () 3, Release 1, Alloc () 1] = Some (b', live) \<and> disjoint_spans live \<and>
    bm_used \<lparr>bit_cnt = 40, bits = [5, 0]\<rparr> \<inter> \<Union> (slots ` set live) = {}"
proof -
  have "bm_ok \<lparr>bit_cnt = 40, bits = [5, 0]\<rparr>" by (simp add: bm_ok_def)
  from bitmap_allocations_disjoint [OF this] show ?thesis by fast
qed

text \<open>
  C21. \<open>bitmap_scan_and_flip\<close> returns the index of the first group of \<open>cnt\<close>
  consecutive bits at or after \<open>start\<close> that all have the value, and flips
  exactly these bits; it returns \<open>BITMAP_ERROR\<close> and changes nothing exactly
  when there is no such group.
\<close>

theorem bitmap_scan_and_flip_first_group:
  assumes "bm_ok b" and "start \<le> bit_cnt b"
  shows "\<exists>i b'. bitmap_scan_and_flip b start cnt v = Some (i, b') \<and> bm_ok b' \<and>
    (if i = BITMAP_ERROR then b' = b \<and> no_group (bm_bits b) start cnt v
     else first_group (bm_bits b) start cnt v i \<and> bm_bits b' = set_range (bm_bits b) i cnt (\<not> v))"
  using bitmap_scan_and_flip_ok [OF assms, of cnt v] assms(1) by auto

theorem bitmap_scan_and_flip_first_group_witness:
  "\<exists>i b'. bitmap_scan_and_flip \<lparr>bit_cnt = 40, bits = [5, 0]\<rparr> 1 2 False = Some (i, b') \<and> bm_ok b' \<and>
    (if i = BITMAP_ERROR then b' = \<lparr>bit_cnt = 40, bits = [5, 0]\<rparr> \<and>
       no_group (bm_bits \<lparr>bit_cnt = 40, bits = [5, 0]\<rparr>) 1 2 False
     else first_group (bm_bits \<lparr>bit_cnt = 40, bits = [5, 0]\<rparr>) 1 2 False i \<and>
       bm_bits b' = set_range (bm_bits \<lparr>bit_cnt = 40, bits = [5, 0]\<rparr>) i 2 (\<not> False))"
  by (rule bitmap_scan_and_flip_first_group) (simp_all add: bm_ok_def)

text \<open>
  C22. Writing a bitmap to a file and reading the bytes back, into any well-formed
  bitmap of the same size, restores every bit and the size, and clears the bits of the
  last word past the last bit of the map.
\<close>

theorem bitmap_write_read_round_trip:
  assumes "bm_ok b" and "bm_ok b0" and "bit_cnt b0 = bit_cnt b"
  shows "\<exists>b'. bitmap_read b0 (snd (bitmap_write b n)) = (True, b') \<and> bm_ok b' \<and> bm_bits b' = bm_bits b \<and>
    bit_cnt b' = bit_cnt b \<and>
    (\<forall>i < 32 * length (bits b'). bit_cnt b \<le> i \<longrightarrow> \<not> bit (bits b' ! (i div 32)) (i mod 32))"
  using bitmap_read_write_ok [OF assms, of n] by (auto simp: tail_clear_def)

theorem bitmap_write_read_round_trip_witness:
  "\<exists>b'. bitmap_read \<lparr>bit_cnt = 33, bits = [0, 0]\<rparr> (snd (bitmap_write \<lparr>bit_cnt = 33, bits = [7, 3]\<rparr> 8)) = (True, b') \<and>
    bm_ok b' \<and> bm_bits b' = bm_bits \<lparr>bit_cnt = 33, bits = [7, 3]\<rparr> \<and> bit_cnt b' = 33 \<and>
    (\<forall>i < 32 * length (bits b'). 33 \<le> i \<longrightarrow> \<not> bit (bits b' ! (i div 32)) (i mod 32))"
  using bitmap_write_read_round_trip [of "\<lparr>bit_cnt = 33, bits = [7, 3]\<rparr>" "\<lparr>bit_cnt = 33, bits = [0, 0]\<rparr>" 8]
  by (simp add: bm_ok_def)

text \<open>
  C23. The comment of \<open>bitmap_scan_and_flip\<close> says that it returns 0 when \<open>cnt\<close> is
  zero; it returns \<open>start\<close>.
\<close>

theorem bitmap_scan_and_flip_zero:
  assumes "start \<le> bit_cnt b" and "bit_cnt b < SIZE_MAX"
  shows "bitmap_scan_and_flip b start 0 v = Some (start, b)"
proof -
  have "bitmap_contains b start 0 (\<not> v) = Some False"
    using assms by (simp add: bitmap_contains_def bitmap_contains_loop.simps size_add_id SIZE_MAX_def)
  moreover have "bitmap_set_multiple b start 0 (\<not> v) = Some b"
    using assms by (simp add: bitmap_set_multiple_def bitmap_set_multiple_loop.simps size_add_id SIZE_MAX_def)
  ultimately show ?thesis
    using assms by (simp add: bitmap_scan_and_flip_def bitmap_scan_def bitmap_scan_loop.simps [of b start])
qed

theorem bitmap_scan_and_flip_zero_witness:
  "bitmap_scan_and_flip \<lparr>bit_cnt = 40, bits = [5, 0]\<rparr> 3 0 False = Some (3, \<lparr>bit_cnt = 40, bits = [5, 0]\<rparr>)"
  by (rule bitmap_scan_and_flip_zero) (simp_all add: SIZE_MAX_def)

end
