(* ===== verification/Arithmetic64.thy ===== *)
theory Arithmetic64
  imports Prelude "HOL-Library.Signed_Division"
begin

text \<open>
  The 64-bit division routines of \<^verbatim>\<open>lib/arithmetic.c\<close>, on machine words. A
  divide error (\<open>#DE\<close>) is \<open>None\<close>. The quotients are shown to be exact for every
  non-zero divisor, including the two-step estimate used for divisors above
  \<open>2 ^ 32\<close>; the remainders are computed through a 32-bit return type and are exact
  only when they fit in it.
\<close>

section \<open>The code\<close>

definition divl :: "u64 \<Rightarrow> u32 \<Rightarrow> u32 option" where
  "divl n d =
     (if d = 0 then None
      else let q = n div ucast d in if q < 2 ^ 32 then Some (ucast q) else None)"

text \<open>One step of \<open>nlz\<close>: if \<open>x\<close> is at most \<open>limit\<close>, count \<open>k\<close> zero bits and shift them out.\<close>

definition nlz_step :: "u32 \<Rightarrow> nat \<Rightarrow> nat \<times> u32 \<Rightarrow> nat \<times> u32" where
  "nlz_step limit k = (\<lambda>(n, x). if x \<le> limit then (n + k, push_bit k x) else (n, x))"

definition nlz :: "u32 \<Rightarrow> nat" where
  "nlz x = (let
     s = nlz_step 0x0000FFFF 16 (0, x);
     s = nlz_step 0x00FFFFFF 8 s;
     s = nlz_step 0x0FFFFFFF 4 s;
     s = nlz_step 0x3FFFFFFF 2 s
     in if snd s \<le> 0x7FFFFFFF then fst s + 1 else fst s)"

definition udiv64 :: "u64 \<Rightarrow> u64 \<Rightarrow> u64 option" where
  "udiv64 n d =
     (if drop_bit 32 d = 0 then
        let b = push_bit 32 1 :: u64;
            n1 = ucast (drop_bit 32 n) :: u32;
            n0 = ucast n :: u32;
            d0 = ucast d :: u32
        in if d0 = 0 then None
           else do {
             q \<leftarrow> divl (b * ucast (n1 mod d0) + ucast n0) d0;
             Some (ucast q + b * ucast (n1 div d0)) }
      else if n < d then Some 0
      else
        let d1 = ucast (drop_bit 32 d) :: u32;
            s = nlz d1
        in do {
          q32 \<leftarrow> divl (drop_bit 1 n) (ucast (drop_bit 32 (push_bit s d)));
          let q = ucast (drop_bit (31 - s) q32) :: u64
          in Some (if n - (q - 1) * d < d then q - 1 else q) })"

definition umod64 :: "u64 \<Rightarrow> u64 \<Rightarrow> u32 option" where
  "umod64 n d = do { q \<leftarrow> udiv64 n d; Some (ucast (n - d * q)) }"

text \<open>A signed 64-bit value is a word read by \<open>sint\<close>.\<close>

definition sdiv64 :: "u64 \<Rightarrow> u64 \<Rightarrow> u64 option" where
  "sdiv64 n d =
     (let n_abs = if 0 \<le> sint n then n else - n;
          d_abs = if 0 \<le> sint d then d else - d
      in do {
        q_abs \<leftarrow> udiv64 n_abs d_abs;
        Some (if (sint n < 0) = (sint d < 0) then q_abs else - q_abs) })"

definition smod64 :: "u64 \<Rightarrow> u64 \<Rightarrow> u32 option" where
  "smod64 n d = do { q \<leftarrow> sdiv64 n d; Some (ucast (n - d * q)) }"

text \<open>The routines GCC calls; the 32-bit remainders are zero- and sign-extended.\<close>

definition divdi3 :: "u64 \<Rightarrow> u64 \<Rightarrow> u64 option" where
  "divdi3 n d = sdiv64 n d"

definition moddi3 :: "u64 \<Rightarrow> u64 \<Rightarrow> u64 option" where
  "moddi3 n d = map_option scast (smod64 n d)"

definition udivdi3 :: "u64 \<Rightarrow> u64 \<Rightarrow> u64 option" where
  "udivdi3 n d = udiv64 n d"

definition umoddi3 :: "u64 \<Rightarrow> u64 \<Rightarrow> u64 option" where
  "umoddi3 n d = map_option ucast (umod64 n d)"

section \<open>Leading zeros\<close>

lemma unat_push_bit32: "unat x * 2 ^ k < 2 ^ 32 \<Longrightarrow> unat (push_bit k x :: u32) = unat x * 2 ^ k"
  using unsigned_push_bit_eq [of k x, where 'a = nat] by (simp only: take_bit_eq_mod push_bit_eq_mult) simp

definition nlz_inv :: "nat \<Rightarrow> nat \<Rightarrow> nat \<times> u32 \<Rightarrow> bool" where
  "nlz_inv X lo s \<longleftrightarrow> unat (snd s) = X * 2 ^ fst s \<and> lo \<le> unat (snd s)"

lemma nlz_step_ok:
  assumes "nlz_inv X (2 ^ a) s" and "a + k \<le> 32" and "unat limit = 2 ^ (32 - k) - 1" and "0 < k"
    and "a + 2 * k = 32"
  shows "nlz_inv X (2 ^ (a + k)) (nlz_step limit k s)"
proof (cases "snd s \<le> limit")
  case True
  then have "unat (snd s) < 2 ^ (32 - k)"
    using assms(3) by (simp add: word_le_nat_alt) (metis Suc_pred less_Suc_eq_le zero_less_numeral zero_less_power)
  then have "unat (snd s) * 2 ^ k < 2 ^ (32 - k) * 2 ^ k" by simp
  also have "\<dots> = (2 :: nat) ^ 32" using assms(2) by (simp flip: power_add)
  finally have "unat (push_bit k (snd s)) = unat (snd s) * 2 ^ k" by (rule unat_push_bit32)
  then show ?thesis
    using True assms(1) by (auto simp: nlz_inv_def nlz_step_def case_prod_beta power_add)
next
  case False
  then have "2 ^ (32 - k) \<le> unat (snd s)" using assms(3) by (simp add: word_le_nat_alt)
  moreover have "32 - k = a + k" using assms(5) by simp
  ultimately show ?thesis
    using False assms(1) by (auto simp: nlz_inv_def nlz_step_def case_prod_beta)
qed


lemma nlz_ok:
  assumes "x \<noteq> 0"
  shows "nlz x \<le> 31" and "2 ^ 31 \<le> unat x * 2 ^ nlz x" and "unat x * 2 ^ nlz x < 2 ^ 32"
proof -
  define s4 where "s4 = nlz_step 0x3FFFFFFF 2 (nlz_step 0x0FFFFFFF 4 (nlz_step 0x00FFFFFF 8
    (nlz_step 0x0000FFFF 16 (0, x))))"
  have "nlz_inv (unat x) (2 ^ 0) (0, x)"
    using assms by (simp add: nlz_inv_def Suc_le_eq unat_gt_0)
  from nlz_step_ok [OF nlz_step_ok [OF nlz_step_ok [OF nlz_step_ok [OF this, of 16 "0x0000FFFF"],
      of 8 "0x00FFFFFF"], of 4 "0x0FFFFFFF"], of 2 "0x3FFFFFFF"]
  have inv: "unat (snd s4) = unat x * 2 ^ fst s4" "2 ^ 30 \<le> unat (snd s4)"
    by (simp_all add: s4_def nlz_inv_def)
  have nlz: "nlz x = (if snd s4 \<le> 0x7FFFFFFF then fst s4 + 1 else fst s4)"
    by (simp add: nlz_def s4_def Let_def)
  have lt: "unat (snd s4) < 2 ^ 32" using unsigned_less [of "snd s4"] by simp
  have both: "2 ^ 31 \<le> unat x * 2 ^ nlz x \<and> unat x * 2 ^ nlz x < 2 ^ 32"
    using inv lt by (auto simp: nlz word_le_nat_alt)
  then show "2 ^ 31 \<le> unat x * 2 ^ nlz x" "unat x * 2 ^ nlz x < 2 ^ 32" by blast+
  have "1 * 2 ^ nlz x \<le> unat x * 2 ^ nlz x"
    using assms by (intro mult_right_mono) (simp_all add: Suc_le_eq unat_gt_0)
  then have "(2 :: nat) ^ nlz x < 2 ^ 32" using both by linarith
  then have "nlz x < 32" by (rule power_less_imp_less_exp [rotated]) simp
  then show "nlz x \<le> 31" by simp
qed

section \<open>Unsigned division\<close>

lemma unat_ucast64: "unat (ucast (d :: u32) :: u64) = unat d"
proof -
  have "unat d < 2 ^ 64" using unsigned_less [of d, where 'a = nat] by simp
  then show ?thesis by (simp add: unsigned_ucast_eq take_bit_nat_eq_self)
qed

lemma divl_ok:
  assumes "d \<noteq> 0" and "unat n div unat d < 2 ^ 32"
  shows "\<exists>q. divl n d = Some q \<and> unat q = unat n div unat d"
proof -
  have u: "unat (n div ucast d) = unat n div unat d"
    by (simp add: unat_div unat_ucast64)
  then have "n div ucast d < 2 ^ 32" using assms(2) by (simp add: word_less_nat_alt)
  moreover have "unat (ucast (n div ucast d) :: u32) = unat n div unat d"
    using u assms(2) by (simp add: unsigned_ucast_eq take_bit_eq_mod)
  ultimately show ?thesis using assms(1) by (simp add: divl_def)
qed

text \<open>
  The estimate for large divisors: dividing by the divisor with its low \<open>k\<close> bits
  cleared overshoots by at most one.
\<close>

lemma estimate:
  fixes N D k :: nat
  assumes "N < 2 ^ 64" and "k \<le> 32" and "2 ^ 31 \<le> D div 2 ^ k"
  defines "q \<equiv> N div (D div 2 ^ k * 2 ^ k)"
  shows "N div D \<le> q" and "q \<le> N div D + 1"
proof -
  define m V e Q where "m = (2 :: nat) ^ k" and "V = D div m" and "e = D mod m" and "Q = N div D"
  have D: "D = V * m + e" "e < m" "0 < m" unfolding V_def e_def m_def by (simp_all only: div_mult_mod_eq) simp_all
  have V: "2 ^ 31 \<le> V" using assms(3) by (simp add: V_def m_def)
  then have Vm: "0 < V * m" "2 ^ 31 * m \<le> V * m" using D(3) by simp_all
  have q: "q = N div (V * m)" by (simp add: q_def V_def m_def)
  show "N div D \<le> q" unfolding q using D(1) Vm(1) by (intro div_le_mono2) simp_all
  have QD: "Q * D \<le> N" by (simp add: Q_def)
  have "Q * (2 ^ 31 * m) \<le> Q * D" using D(1) Vm(2) by (intro mult_left_mono) linarith+
  then have "2 ^ 31 * (Q * m) \<le> Q * D" by (simp only: mult.left_commute)
  also have "\<dots> < 2 ^ 31 * 2 ^ 33" using QD assms(1) by simp
  finally have "Q * m < 2 ^ 33" by simp
  also have "(2 :: nat) ^ 33 = 2 ^ (33 - k) * m" using assms(2) by (simp add: m_def flip: power_add)
  finally have "Suc Q \<le> 2 ^ (33 - k)" using D(3) by simp
  then have Qm: "Suc Q * m \<le> 2 ^ 33" 
    using mult_le_mono1 [of "Suc Q" "2 ^ (33 - k)" m] \<open>2 ^ 33 = 2 ^ (33 - k) * m\<close> by simp
  have "4 * (m - 1) \<le> m * m"
  proof -
    have "4 * (int m - 1) \<le> int m * int m" using zero_le_power2 [of "int m - 2"] by (simp add: power2_eq_square algebra_simps)
    then have "int (4 * (m - 1)) \<le> int (m * m)" using D(3) by (simp add: of_nat_diff)
    then show ?thesis by (simp only: of_nat_le_iff)
  qed
  have "Suc Q * e * m \<le> 2 ^ 33 * (m - 1)"
    using mult_le_mono [OF Qm, of e "m - 1"] D(2) by (simp add: algebra_simps)
  also have "\<dots> \<le> 2 ^ 31 * m * m" using \<open>4 * (m - 1) \<le> m * m\<close> by simp
  also have "\<dots> \<le> V * m * m" using Vm(2) by simp
  finally have "Suc Q * e \<le> V * m" using D(3) by simp
  then have "Suc Q * D \<le> (Q + 2) * (V * m)" unfolding D(1) by (simp add: algebra_simps)
  moreover have "N < Suc Q * D" 
    using D(1) Vm(1) dividend_less_times_div [of D N] by (simp add: Q_def mult.commute)
  ultimately have "N < (Q + 2) * (V * m)" by linarith
  then have "q < Q + 2" unfolding q using Vm(1) by (simp add: less_mult_imp_div_less)
  then show "q \<le> N div D + 1" by (simp add: Q_def)
qed


lemma unat_drop_bit64: "unat (drop_bit k (x :: u64)) = unat x div 2 ^ k"
  using unsigned_less [of x, where 'a = nat]
  by (simp only: unsigned_drop_bit_eq) (simp add: drop_bit_eq_div take_bit_nat_eq_self)

lemma unat_drop_bit32: "unat (drop_bit k (x :: u32)) = unat x div 2 ^ k"
  using unsigned_less [of x, where 'a = nat]
  by (simp only: unsigned_drop_bit_eq) (simp add: drop_bit_eq_div take_bit_nat_eq_self)

lemma unat_push_bit64: "unat x * 2 ^ k < 2 ^ 64 \<Longrightarrow> unat (push_bit k x :: u64) = unat x * 2 ^ k"
  using unsigned_push_bit_eq [of k x, where 'a = nat] by (simp only: take_bit_eq_mod push_bit_eq_mult) simp

lemma unat_ucast32: "unat (ucast (x :: u64) :: u32) = unat x mod 2 ^ 32"
  by (simp add: unsigned_ucast_eq take_bit_eq_mod)

text \<open>Long division by a small divisor, digit by digit in base \<open>b\<close>.\<close>

lemma div_split:
  fixes N D b :: nat
  assumes "0 < D"
  shows "N div D = b * (N div b div D) + (b * (N div b mod D) + N mod b) div D"
proof -
  let ?a = "N div b"
  have "b * ?a = D * (b * (?a div D)) + b * (?a mod D)"
    using arg_cong [OF mult_div_mod_eq [of D ?a], of "(*) b"] by (simp only: distrib_left mult.left_commute)
  then have "N = (b * (?a mod D) + N mod b) + D * (b * (?a div D))"
    using mult_div_mod_eq [of b N] by linarith
  then have "N div D = ((b * (?a mod D) + N mod b) + D * (b * (?a div D))) div D" by (rule arg_cong)
  also have "\<dots> = b * (?a div D) + (b * (?a mod D) + N mod b) div D"
    using assms by (simp only: div_mult_self2)
  finally show ?thesis .
qed

lemma udiv64_small:
  assumes "unat d < 2 ^ 32" and "d \<noteq> 0"
  shows "udiv64 n d = Some (n div d)"
proof -
  let ?b = "2 ^ 32 :: nat" and ?N = "unat n" and ?D = "unat d"
  let ?n1 = "ucast (drop_bit 32 n) :: u32" and ?n0 = "ucast n :: u32" and ?d0 = "ucast d :: u32"
  have lt: "?N < 2 ^ 64" using unsigned_less [of n, where 'a = nat] by simp
  have d: "drop_bit 32 d = 0" using assms(1) by (simp add: word_unat_eq_iff unat_drop_bit64)
  have n1: "unat ?n1 = ?N div ?b"
  proof -
    have "?N div ?b < ?b" using lt by (simp add: less_mult_imp_div_less)
    then show ?thesis by (simp add: unat_ucast32 unat_drop_bit64)
  qed
  have n0: "unat ?n0 = ?N mod ?b" by (simp add: unat_ucast32)
  have d0: "unat ?d0 = ?D" "?d0 \<noteq> 0"
    using assms by (simp_all add: unat_ucast32 word_unat_eq_iff)
  have Dpos: "0 < ?D" using assms(2) by (simp add: unat_gt_0)
  let ?x = "push_bit 32 1 * ucast (?n1 mod ?d0) + ucast ?n0 :: u64"
  have xb: "?b * (?N div ?b mod ?D) + ?N mod ?b < ?b * ?D"
  proof -
    have "?b * (?N div ?b mod ?D) + ?N mod ?b < ?b * (?N div ?b mod ?D) + ?b" by simp
    also have "\<dots> = ?b * Suc (?N div ?b mod ?D)" by simp
    also have "\<dots> \<le> ?b * ?D" using Dpos by (intro mult_left_mono) (simp_all add: Suc_le_eq)
    finally show ?thesis .
  qed
  have "?b * ?D \<le> 2 ^ 64" using assms(1) by simp
  with xb have x: "unat ?x = ?b * (?N div ?b mod ?D) + ?N mod ?b"
    by (simp add: unat_word_ariths unat_ucast64 unat_mod n1 n0 d0 push_bit_eq_mult)
  have "unat ?x div unat ?d0 < 2 ^ 32" using xb x d0 by (simp add: less_mult_imp_div_less)
  then obtain q where q: "divl ?x ?d0 = Some q" "unat q = unat ?x div unat ?d0"
    using divl_ok [OF d0(2), of ?x] by blast
  have quot: "?N div ?D = ?b * (?N div ?b div ?D) + (?b * (?N div ?b mod ?D) + ?N mod ?b) div ?D"
    by (rule div_split [OF Dpos])
  have q2: "unat q = (?b * (?N div ?b mod ?D) + ?N mod ?b) div ?D" using q(2) by (simp only: x d0(1))
  have lt2: "?N div ?D < 2 ^ 64" using lt by (meson div_le_dividend le_less_trans)
  have hi: "unat (push_bit 32 1 * ucast (?n1 div ?d0) :: u64) = ?b * (?N div ?b div ?D)"
    using lt2 quot by (simp add: unat_word_ariths(2) unat_ucast64 unat_div n1 d0 push_bit_eq_mult)
  have "unat (ucast q + push_bit 32 1 * ucast (?n1 div ?d0) :: u64) = ?N div ?D"
    using lt2 quot unfolding unat_word_ariths(1) hi by (simp add: unat_ucast64 q2)
  then have "ucast q + push_bit 32 1 * ucast (?n1 div ?d0) = n div d"
    by (simp add: word_unat_eq_iff unat_div)
  then show ?thesis using d d0(2) q(1) by (simp add: udiv64_def Let_def)
qed


text \<open>The correction of the estimate.\<close>

lemma final_step:
  fixes q N D :: nat
  assumes "N div D \<le> q" and "q \<le> N div D + 1" and "0 < N div D" and "0 < D"
  shows "(if N - (q - 1) * D < D then q - 1 else q) = N div D"
proof -
  let ?Q = "N div D"
  have N: "?Q * D \<le> N" "N < ?Q * D + D"
    using dividend_less_times_div [OF assms(4), of N] by (simp_all add: mult.commute)
  show ?thesis
  proof (cases "q = ?Q")
    case True
    have "(?Q - 1) * D + D = ?Q * D" using assms(3) by (cases ?Q) simp_all
    then have "D \<le> N - (?Q - 1) * D" using N by linarith
    then show ?thesis using True by simp
  next
    case False
    then have "q - 1 = ?Q" using assms(1,2) by linarith
    moreover have "N - ?Q * D < D" using N by linarith
    ultimately show ?thesis by simp
  qed
qed

lemma udiv64_large:
  assumes "2 ^ 32 \<le> unat d"
  shows "udiv64 n d = Some (n div d)"
proof (cases "n < d")
  case True
  have "n div d = 0" using True by (simp add: word_unat_eq_iff unat_div word_less_nat_alt)
  moreover have "drop_bit 32 d \<noteq> 0"
    using assms by (simp add: word_unat_eq_iff unat_drop_bit64 div_eq_0_iff)
  ultimately show ?thesis using True by (simp add: udiv64_def)
next
  case False
  let ?N = "unat n" and ?D = "unat d" and ?d1 = "ucast (drop_bit 32 d) :: u32"
  define s k where "s = nlz ?d1" and "k = 32 - s"
  have ND: "?D \<le> ?N" using False by (simp add: word_less_nat_alt)
  have Nlt: "?N < 2 ^ 64" and Dlt: "?D < 2 ^ 64"
    using unsigned_less [of n, where 'a = nat] unsigned_less [of d, where 'a = nat] by simp_all
  have nz: "drop_bit 32 d \<noteq> 0"
    using assms by (simp add: word_unat_eq_iff unat_drop_bit64 div_eq_0_iff)
  have "?D div 2 ^ 32 < 2 ^ 32" using Dlt by (simp add: less_mult_imp_div_less)
  then have d1: "unat ?d1 = ?D div 2 ^ 32" by (simp add: unat_ucast32 unat_drop_bit64)
  then have d1nz: "?d1 \<noteq> 0" using assms by (simp add: word_unat_eq_iff div_eq_0_iff)
  note z = nlz_ok [OF d1nz, folded s_def, unfolded d1]
  have k: "k \<le> 32" "s + k = 32" "0 < k" using z(1) by (simp_all add: k_def)
  have shift: "?D * 2 ^ s < 2 ^ 64"
  proof -
    have "?D div 2 ^ 32 < 2 ^ k" using z(3) k(2) by (metis power_add mult.commute nat_mult_less_cancel_disj)
    then have "?D < 2 ^ k * 2 ^ 32" by (simp add: div_less_iff_less_mult)
    then have "?D * 2 ^ s < 2 ^ k * 2 ^ 32 * 2 ^ s" by simp
    also have "(2 :: nat) ^ k * 2 ^ 32 * 2 ^ s = 2 ^ (s + k) * 2 ^ 32" by (simp add: power_add)
    also have "\<dots> = 2 ^ 64" by (simp add: k(2))
    finally show ?thesis .
  qed
  have V: "?D * 2 ^ s div 2 ^ 32 = ?D div 2 ^ k"
    using k(2) by (metis div_mult2_eq mult.commute nonzero_mult_div_cancel_right power_add power_not_zero zero_neq_numeral)
  have "?D div 2 ^ 32 * 2 ^ s \<le> ?D * 2 ^ s div 2 ^ 32"
    using mult_le_mono1 [OF div_times_less_eq_dividend [of ?D "2 ^ 32"], of "2 ^ s"]
    by (simp add: less_eq_div_iff_mult_less_eq mult_ac)
  then have V31: "2 ^ 31 \<le> ?D div 2 ^ k" using z(2) V by linarith
  let ?v = "ucast (drop_bit 32 (push_bit s d)) :: u32"
  have v: "unat ?v = ?D div 2 ^ k"
  proof -
    have "?D * 2 ^ s div 2 ^ 32 < 2 ^ 32" using shift by (simp add: less_mult_imp_div_less)
    then show ?thesis using V by (simp add: unat_ucast32 unat_drop_bit64 unat_push_bit64 [OF shift])
  qed
  have vnz: "?v \<noteq> 0" using v V31 by (auto simp: word_unat_eq_iff)
  have "?N div 2 div (?D div 2 ^ k) < 2 ^ 32"
  proof (rule less_mult_imp_div_less)
    have "?N div 2 < 2 ^ 63" using Nlt by simp
    also have "\<dots> = 2 ^ 32 * 2 ^ 31" by simp
    also have "\<dots> \<le> 2 ^ 32 * (?D div 2 ^ k)" using V31 by (intro mult_left_mono) simp_all
    finally show "?N div 2 < 2 ^ 32 * (?D div 2 ^ k)" .
  qed
  then obtain q32 where q32: "divl (drop_bit 1 n) ?v = Some q32" "unat q32 = ?N div 2 div (?D div 2 ^ k)"
    using divl_ok [OF vnz, of "drop_bit 1 n"] by (auto simp: v unat_drop_bit64)
  let ?q = "ucast (drop_bit (31 - s) q32) :: u64"
  have "unat ?q = ?N div 2 div (?D div 2 ^ k) div 2 ^ (31 - s)"
    by (simp add: unat_ucast64 unat_drop_bit32 q32(2))
  also have "\<dots> = ?N div (?D div 2 ^ k * (2 * 2 ^ (31 - s)))" by (simp add: div_mult2_eq mult_ac flip: div_mult2_eq)
  also have "2 * 2 ^ (31 - s) = (2 :: nat) ^ k" using z(1) by (simp add: k_def Suc_diff_le flip: power_Suc)
  finally have q: "unat ?q = ?N div (?D div 2 ^ k * 2 ^ k)" .
  note est = estimate [OF Nlt k(1) V31, folded q]
  have Qpos: "0 < ?N div ?D" using ND assms by (simp add: div_greater_zero_iff)
  have q1: "unat (?q - 1) = unat ?q - 1"
    using est(1) Qpos by (intro unat_minus_one) (auto simp: word_unat_eq_iff)
  have le: "(unat ?q - 1) * ?D \<le> ?N"
    using est(2) mult_le_mono1 [of "unat ?q - 1" "?N div ?D" ?D] div_times_less_eq_dividend [of ?N ?D]
    by linarith
  then have m: "unat ((?q - 1) * d) = (unat ?q - 1) * ?D" using Nlt by (simp add: unat_word_ariths(2) q1)
  then have sub: "unat (n - (?q - 1) * d) = ?N - (unat ?q - 1) * ?D"
    using le by (simp add: unat_sub word_le_nat_alt)
  have "(if n - (?q - 1) * d < d then ?q - 1 else ?q) = n div d"
    using est Qpos final_step [of ?N ?D "unat ?q"] assms
    by (auto simp: word_unat_eq_iff unat_div word_less_nat_alt sub q1)
  then show ?thesis using nz False q32(1) by (auto simp: udiv64_def Let_def simp flip: s_def split: if_splits)
qed


lemma udiv64_ok: "d \<noteq> 0 \<Longrightarrow> udiv64 n d = Some (n div d)"
  using udiv64_small [of d n] udiv64_large [of d n] by (cases "unat d < 2 ^ 32") simp_all

lemma udiv64_zero: "udiv64 n 0 = None"
  by (simp add: udiv64_def)

lemma umod64_ok: "d \<noteq> 0 \<Longrightarrow> umod64 n d = Some (ucast (n mod d))"
  by (simp add: umod64_def udiv64_ok minus_mult_div_eq_mod)

section \<open>Signed division\<close>

lemma abs_word:
  fixes n :: u64
  shows "uint (if 0 \<le> sint n then n else - n) = \<bar>sint n\<bar>"
proof -
  have n: "(if 0 \<le> sint n then n else - n) = word_of_int \<bar>sint n\<bar>" by simp
  have "\<bar>sint n\<bar> < 2 ^ 64" using sint_greater_eq [of n] sint_less [of n] by simp
  then show ?thesis unfolding n by (simp add: uint_word_of_int)
qed

lemma sdiv64_ok:
  assumes "d \<noteq> 0"
  shows "sdiv64 n d = Some (word_of_int (sint n sdiv sint d))"
proof -
  let ?n = "if 0 \<le> sint n then n else - n" and ?d = "if 0 \<le> sint d then d else - d"
  have "?d \<noteq> 0" using assms by simp
  then have u: "udiv64 ?n ?d = Some (?n div ?d)" by (rule udiv64_ok)
  have q: "?n div ?d = word_of_int (\<bar>sint n\<bar> div \<bar>sint d\<bar>)"
    by (simp only: word_div_def abs_word)
  have d0: "sint d \<noteq> 0" using assms by (simp add: signed_eq_0_iff)
  have "(if (sint n < 0) = (sint d < 0) then ?n div ?d else - (?n div ?d)) =
      word_of_int (sint n sdiv sint d)"
    unfolding q using d0 by (auto simp: signed_divide_int_def sgn_if)
  then show ?thesis using u by (simp add: sdiv64_def Let_def)
qed

lemma smod64_ok:
  assumes "d \<noteq> 0"
  shows "smod64 n d = Some (word_of_int (sint n smod sint d))"
proof -
  have "n - d * word_of_int (sint n sdiv sint d) = word_of_int (sint n - sint d * (sint n sdiv sint d))"
    by simp
  also have "sint n - sint d * (sint n sdiv sint d) = sint n smod sint d"
    by (rule minus_mult_sdiv_eq_smod)
  finally have r: "n - d * word_of_int (sint n sdiv sint d) = word_of_int (sint n smod sint d)" .
  have "ucast (word_of_int k :: u64) = (word_of_int k :: u32)" for k
    by (rule bit_word_eqI) (auto simp: bit_ucast_iff bit_word_of_int_iff)
  then show ?thesis
    using sdiv64_ok [OF assms, of n] r by (simp add: smod64_def)
qed

section \<open>Properties\<close>

text \<open>
  C24. Unsigned 64-bit division is exact: for every dividend and every non-zero
  divisor \<open>udiv64\<close> raises no divide error and returns the quotient, in
  particular through the estimate with one correction for divisors of more than
  32 bits; a zero divisor is a divide error.
\<close>

theorem udivdi3_correct: "udivdi3 n d = (if d = 0 then None else Some (n div d))"
  by (simp add: udivdi3_def udiv64_ok udiv64_zero)

text \<open>
  C25. Signed 64-bit division is C's division truncating towards zero, for every
  dividend and every non-zero divisor.
\<close>

theorem divdi3_correct:
  assumes "d \<noteq> 0"
  shows "divdi3 n d = Some (word_of_int (sint n sdiv sint d))"
  using sdiv64_ok [OF assms] by (simp add: divdi3_def)

theorem divdi3_correct_witness: "divdi3 (word_of_int (- 7)) 2 = Some (word_of_int (- 3))"
  using divdi3_correct [of 2 "word_of_int (- 7)"] by (simp add: signed_divide_int_def)

text \<open>
  C26. The 64-bit remainder routine \<open>__umoddi3\<close> returns the remainder reduced modulo
  \<open>2 ^ 32\<close>, because \<open>umod64\<close> has a 32-bit return type: it is right exactly when the
  remainder is below \<open>2 ^ 32\<close>.
\<close>

theorem umoddi3_truncates:
  assumes "d \<noteq> 0"
  shows "umoddi3 n d = Some (take_bit 32 (n mod d)) \<and>
    (umoddi3 n d = Some (n mod d) \<longleftrightarrow> n mod d < 2 ^ 32)"
proof -
  have "ucast (ucast (n mod d) :: u32) = take_bit 32 (n mod d)"
    by (rule bit_word_eqI) (auto simp: bit_ucast_iff bit_take_bit_iff)
  moreover have "take_bit 32 (n mod d) = n mod d \<longleftrightarrow> n mod d < 2 ^ 32"
    by (simp add: take_bit_eq_mod word_unat_eq_iff word_less_nat_alt unat_mod)
       (metis mod_less mod_less_divisor zero_less_numeral)
  ultimately show ?thesis using umod64_ok [OF assms, of n] by (simp add: umoddi3_def)
qed

theorem umoddi3_truncates_witness:
  "umoddi3 (2 ^ 33 + 5) (2 ^ 34) = Some 5 \<and> umoddi3 (2 ^ 33 + 5) (2 ^ 34) \<noteq> Some ((2 ^ 33 + 5) mod 2 ^ 34)"
  using umoddi3_truncates [of "2 ^ 34" "2 ^ 33 + 5"] by (simp add: take_bit_eq_mod)

end
