(* ===== verification/Hash_Table.thy ===== *)
theory Hash_Table
  imports Prelude
begin

text \<open>
  The chained hash tables of \<^verbatim>\<open>lib/kernel/hash.c\<close>. A bucket is the sequence of
  the elements of its linked list (the list operations used on it are those of
  \<open>Linked_List\<close>, which act on sequences this way), counts are 32-bit words, the
  hash and comparison functions are members of the table as in \<open>struct hash\<close>. An
  access outside the bucket array and a loop that never ends are \<open>None\<close>; whether
  \<open>malloc\<close> succeeds is an argument of the operations that call it.

  Every operation keeps the invariant \<open>hash_ok\<close> and returns what a table without
  buckets would (\<open>spec_op\<close>), whatever \<open>malloc\<close> does during resizing. The
  contract between a table and the functions stored in it is the locale
  \<open>hash_keys\<close>; the supplemental page table provides it.
\<close>

section \<open>The code\<close>

record 'e hash =
  helem_cnt :: u32
  bucket_cnt :: u32
  buckets :: "'e list list"
  hashf :: "'e \<Rightarrow> u32"
  lessf :: "'e \<Rightarrow> 'e \<Rightarrow> bool"

definition find_bucket :: "'e hash \<Rightarrow> 'e \<Rightarrow> nat" where
  "find_bucket h e = unat (hashf h e AND (bucket_cnt h - 1))"

definition find_elem :: "'e hash \<Rightarrow> 'e list \<Rightarrow> 'e \<Rightarrow> 'e option" where
  "find_elem h bucket e = List.find (\<lambda>hi. \<not> lessf h hi e \<and> \<not> lessf h e hi) bucket"

text \<open>The bucket at an index of the array, and \<open>list_push_front\<close> on it.\<close>

definition bucket_at :: "'e hash \<Rightarrow> nat \<Rightarrow> 'e list option" where
  "bucket_at h b = (if b < length (buckets h) then Some (buckets h ! b) else None)"

definition push_bucket :: "'e hash \<Rightarrow> nat \<Rightarrow> 'e \<Rightarrow> 'e hash option" where
  "push_bucket h b e =
     (if b < length (buckets h) then Some (h\<lparr>buckets := (buckets h)[b := e # buckets h ! b]\<rparr>) else None)"

definition turn_off_least_1bit :: "u32 \<Rightarrow> u32" where
  "turn_off_least_1bit x = x AND (x - 1)"

definition is_power_of_2 :: "u32 \<Rightarrow> bool" where
  "is_power_of_2 x \<longleftrightarrow> x \<noteq> 0 \<and> turn_off_least_1bit x = 0"

partial_function (option) round_to_power_of_2 :: "u32 \<Rightarrow> u32 option" where
  "round_to_power_of_2 x =
     (if is_power_of_2 x then Some x else round_to_power_of_2 (turn_off_least_1bit x))"

primrec move_elems :: "'e hash \<Rightarrow> 'e list \<Rightarrow> 'e hash option" where
  "move_elems h [] = Some h"
| "move_elems h (e # es) = do { h \<leftarrow> push_bucket h (find_bucket h e) e; move_elems h es }"

definition rehash :: "bool \<Rightarrow> 'e hash \<Rightarrow> 'e hash option" where
  "rehash malloc_ok h = do {
     let old_buckets = buckets h;
     let old_bucket_cnt = bucket_cnt h;
     let n = helem_cnt h div 2;
     let n = (if n < 4 then 4 else n);
     new_bucket_cnt \<leftarrow> round_to_power_of_2 n;
     if new_bucket_cnt = old_bucket_cnt then Some h
     else if \<not> malloc_ok then Some h
     else
       move_elems (h\<lparr>buckets := replicate (unat new_bucket_cnt) [], bucket_cnt := new_bucket_cnt\<rparr>)
         (concat (take (unat old_bucket_cnt) old_buckets)) }"

definition insert_elem :: "'e hash \<Rightarrow> nat \<Rightarrow> 'e \<Rightarrow> 'e hash option" where
  "insert_elem h b e = push_bucket (h\<lparr>helem_cnt := helem_cnt h + 1\<rparr>) b e"

text \<open>\<open>list_remove\<close> unlinks the element from the bucket that holds it.\<close>

definition remove_elem :: "'e hash \<Rightarrow> 'e \<Rightarrow> 'e hash" where
  "remove_elem h e =
     h\<lparr>helem_cnt := helem_cnt h - 1, buckets := map (removeAll e) (buckets h)\<rparr>"

definition hash_clear :: "'e hash \<Rightarrow> 'e hash" where
  "hash_clear h = h\<lparr>helem_cnt := 0, buckets := map (\<lambda>_. []) (buckets h)\<rparr>"

text \<open>
  The elements on which \<open>hash_clear\<close> and \<open>hash_destroy\<close> call the destructor, and
  \<open>hash_apply\<close> the action, in the order of the calls.
\<close>

definition hash_apply :: "'e hash \<Rightarrow> 'e list" where
  "hash_apply h = concat (take (unat (bucket_cnt h)) (buckets h))"

definition hash_init :: "bool \<Rightarrow> ('e \<Rightarrow> u32) \<Rightarrow> ('e \<Rightarrow> 'e \<Rightarrow> bool) \<Rightarrow> 'e hash option" where
  "hash_init malloc_ok hf lf =
     (if malloc_ok
      then Some (hash_clear \<lparr>helem_cnt = 0, bucket_cnt = 4, buckets = replicate 4 [], hashf = hf, lessf = lf\<rparr>)
      else None)"

definition hash_insert :: "bool \<Rightarrow> 'e hash \<Rightarrow> 'e \<Rightarrow> ('e option \<times> 'e hash) option" where
  "hash_insert m h new = do {
     let b = find_bucket h new;
     bucket \<leftarrow> bucket_at h b;
     let old = find_elem h bucket new;
     h \<leftarrow> (if old = None then insert_elem h b new else Some h);
     h \<leftarrow> rehash m h;
     Some (old, h) }"

definition hash_replace :: "bool \<Rightarrow> 'e hash \<Rightarrow> 'e \<Rightarrow> ('e option \<times> 'e hash) option" where
  "hash_replace m h new = do {
     let b = find_bucket h new;
     bucket \<leftarrow> bucket_at h b;
     let old = find_elem h bucket new;
     let h = (case old of None \<Rightarrow> h | Some e \<Rightarrow> remove_elem h e);
     h \<leftarrow> insert_elem h b new;
     h \<leftarrow> rehash m h;
     Some (old, h) }"

definition hash_find :: "'e hash \<Rightarrow> 'e \<Rightarrow> 'e option option" where
  "hash_find h e = do { bucket \<leftarrow> bucket_at h (find_bucket h e); Some (find_elem h bucket e) }"

definition hash_delete :: "bool \<Rightarrow> 'e hash \<Rightarrow> 'e \<Rightarrow> ('e option \<times> 'e hash) option" where
  "hash_delete m h e = do {
     bucket \<leftarrow> bucket_at h (find_bucket h e);
     case find_elem h bucket e of
       None \<Rightarrow> Some (None, h)
     | Some found \<Rightarrow> do { h \<leftarrow> rehash m (remove_elem h found); Some (Some found, h) } }"

definition hash_size :: "'e hash \<Rightarrow> u32" where
  "hash_size h = helem_cnt h"

definition hash_empty :: "'e hash \<Rightarrow> bool" where
  "hash_empty h \<longleftrightarrow> helem_cnt h = 0"

text \<open>
  Iterators. \<open>elem\<close> is a position in the current bucket's list: 0 is its head
  element, \<open>j\<close> its \<open>j\<close>-th element, one more than the length its tail; \<open>None\<close> is
  the null pointer.
\<close>

record hash_iterator =
  it_bucket :: nat
  it_elem :: "nat option"

definition hash_first :: "'e hash \<Rightarrow> hash_iterator" where
  "hash_first h = \<lparr>it_bucket = 0, it_elem = Some 0\<rparr>"

function hash_next_loop :: "'e hash \<Rightarrow> nat \<Rightarrow> nat \<Rightarrow> hash_iterator" where
  "hash_next_loop h b j =
     (if j = length (buckets h ! b) + 1 then
        (if unat (bucket_cnt h) \<le> b + 1 then \<lparr>it_bucket = b + 1, it_elem = None\<rparr>
         else hash_next_loop h (b + 1) 1)
      else \<lparr>it_bucket = b, it_elem = Some j\<rparr>)"
  by pat_completeness auto
termination by (relation "measure (\<lambda>(h, b, j). unat (bucket_cnt h) - b)") auto

definition hash_cur :: "'e hash \<Rightarrow> hash_iterator \<Rightarrow> 'e option" where
  "hash_cur h i =
     (case it_elem i of None \<Rightarrow> None | Some j \<Rightarrow> Some (buckets h ! it_bucket i ! (j - 1)))"

text \<open>The outer option is \<open>None\<close> when the iterator is already past the end.\<close>

definition hash_next :: "'e hash \<Rightarrow> hash_iterator \<Rightarrow> ('e option \<times> hash_iterator) option" where
  "hash_next h i = do {
     j \<leftarrow> it_elem i;
     let i = hash_next_loop h (it_bucket i) (j + 1);
     Some (hash_cur h i, i) }"

text \<open>The iteration idiom of the comment of \<open>hash_first\<close>, collecting the elements.\<close>

partial_function (option) hash_walk :: "'e hash \<Rightarrow> hash_iterator \<Rightarrow> 'e list option" where
  "hash_walk h i = do {
     (r, i) \<leftarrow> hash_next h i;
     case r of None \<Rightarrow> Some [] | Some e \<Rightarrow> do { es \<leftarrow> hash_walk h i; Some (e # es) } }"

text \<open>Fowler-Noll-Vo hashes. \<open>hash_string\<close> reads up to the terminating null byte.\<close>

definition fnv_step :: "u32 \<Rightarrow> u8 \<Rightarrow> u32" where
  "fnv_step h c = (h * 16777619) XOR ucast c"

definition hash_bytes :: "u8 list \<Rightarrow> u32" where
  "hash_bytes buf = foldl fnv_step 2166136261 buf"

fun hash_string_loop :: "u32 \<Rightarrow> u8 list \<Rightarrow> u32 option" where
  "hash_string_loop h [] = None"
| "hash_string_loop h (c # cs) = (if c = 0 then Some h else hash_string_loop (fnv_step h c) cs)"

definition hash_string :: "u8 list \<Rightarrow> u32 option" where
  "hash_string s = hash_string_loop 2166136261 s"

definition hash_int :: "u32 \<Rightarrow> u32" where
  "hash_int i = hash_bytes (u32_bytes i)"

section \<open>The invariant and the specification\<close>

definition table_ok :: "'e hash \<Rightarrow> bool" where
  "table_ok h \<longleftrightarrow> (\<exists>k. k < 32 \<and> bucket_cnt h = 2 ^ k) \<and> length (buckets h) = unat (bucket_cnt h) \<and>
     (\<forall>b < length (buckets h). \<forall>x \<in> set (buckets h ! b). find_bucket h x = b)"

definition helems :: "'e hash \<Rightarrow> 'e set" where
  "helems h = set (concat (buckets h))"

definition hash_ok :: "'e hash \<Rightarrow> bool" where
  "hash_ok h \<longleftrightarrow> table_ok h \<and> distinct (concat (buckets h)) \<and>
     (\<forall>x \<in> helems h. \<forall>y \<in> helems h. eqv (lessf h) x y \<longrightarrow> x = y) \<and>
     unat (helem_cnt h) = length (concat (buckets h))"

text \<open>A table as a set of pairwise inequivalent elements.\<close>

datatype 'e hash_op = Insert 'e | Replace 'e | Delete 'e | Find 'e

definition lookup_in :: "('e \<Rightarrow> 'e \<Rightarrow> bool) \<Rightarrow> 'e set \<Rightarrow> 'e \<Rightarrow> 'e option \<Rightarrow> bool" where
  "lookup_in lt S e r \<longleftrightarrow>
     (case r of None \<Rightarrow> \<forall>x \<in> S. \<not> eqv lt e x | Some x \<Rightarrow> x \<in> S \<and> eqv lt e x)"

fun spec_op :: "'e set \<Rightarrow> 'e hash_op \<Rightarrow> 'e option \<Rightarrow> 'e set" where
  "spec_op S (Insert e) r = (if r = None then insert e S else S)"
| "spec_op S (Replace e) r = insert e (S - set_option r)"
| "spec_op S (Delete e) r = S - set_option r"
| "spec_op S (Find e) r = S"

fun op_elem :: "'e hash_op \<Rightarrow> 'e" where
  "op_elem (Insert e) = e" | "op_elem (Replace e) = e" | "op_elem (Delete e) = e" | "op_elem (Find e) = e"

fun hash_step :: "bool \<Rightarrow> 'e hash \<Rightarrow> 'e hash_op \<Rightarrow> ('e option \<times> 'e hash) option" where
  "hash_step m h (Insert e) = hash_insert m h e"
| "hash_step m h (Replace e) = hash_replace m h e"
| "hash_step m h (Delete e) = hash_delete m h e"
| "hash_step m h (Find e) = do { r \<leftarrow> hash_find h e; Some (r, h) }"

text \<open>A sequence of operations, each with the outcome of \<open>malloc\<close> if it resizes the table.\<close>

fun hash_run :: "'e hash \<Rightarrow> (bool \<times> 'e hash_op) list \<Rightarrow> ('e option list \<times> 'e hash) option" where
  "hash_run h [] = Some ([], h)"
| "hash_run h ((m, p) # ps) = do {
     (r, h) \<leftarrow> hash_step m h p;
     (rs, h) \<leftarrow> hash_run h ps;
     Some (r # rs, h) }"

fun spec_run :: "('e \<Rightarrow> 'e \<Rightarrow> bool) \<Rightarrow> 'e set \<Rightarrow> 'e hash_op list \<Rightarrow> 'e option list \<Rightarrow> 'e set \<Rightarrow> bool" where
  "spec_run lt S [] [] S' \<longleftrightarrow> S' = S"
| "spec_run lt S (p # ps) (r # rs) S' \<longleftrightarrow>
     lookup_in lt S (op_elem p) r \<and> spec_run lt (spec_op S p r) ps rs S'"
| "spec_run lt S _ _ S' \<longleftrightarrow> False"

declare hash_next_loop.simps [simp del]

section \<open>Powers of two\<close>

lemma bit_top:
  fixes x :: u32
  assumes "2 ^ k \<le> unat x" and "unat x < 2 ^ Suc k"
  shows "bit x k"
proof -
  have "unat x div 2 ^ k = 1"
    using assms by (intro div_nat_eqI) simp_all
  then have "bit (unat x) k" by (simp add: bit_iff_odd)
  then show ?thesis by (simp add: bit_unsigned_iff)
qed

lemma bit_le_unat: "bit (x :: u32) k \<Longrightarrow> 2 ^ k \<le> unat x"
proof -
  assume "bit x k"
  then have "bit (unat x) k" by (simp add: bit_unsigned_iff bit_imp_le_length)
  then have "0 < unat x div 2 ^ k" by (simp add: bit_iff_odd odd_pos)
  then show ?thesis by (simp add: div_greater_zero_iff)
qed

lemma unat_pow2: "k < 32 \<Longrightarrow> unat (2 ^ k :: u32) = 2 ^ k"
proof -
  assume "k < 32"
  then have "(2 :: nat) ^ k < 2 ^ 32" by (intro power_strict_increasing) simp_all
  moreover have "(2 :: u32) ^ k = of_nat (2 ^ k)" by simp
  ultimately show ?thesis by (simp only: unat_of_nat) simp
qed

lemma turn_off_less: "x \<noteq> 0 \<Longrightarrow> unat (turn_off_least_1bit x) < unat x"
proof -
  assume x: "x \<noteq> 0"
  have "turn_off_least_1bit x \<le> x - 1" unfolding turn_off_least_1bit_def by (rule word_and_le1)
  then have "unat (turn_off_least_1bit x) \<le> unat x - 1"
    using unat_minus_one [OF x] by (simp add: word_le_nat_alt)
  moreover have "0 < unat x" using x by (simp add: unat_gt_0)
  ultimately show ?thesis by linarith
qed

lemma turn_off_keeps_top:
  assumes "2 ^ k < unat x" and "unat x < 2 ^ Suc k"
  shows "2 ^ k \<le> unat (turn_off_least_1bit x)"
proof -
  have "x \<noteq> 0" using assms by auto
  then have "unat (x - 1) = unat x - 1" by (rule unat_minus_one)
  then have "bit (x - 1) k" "bit x k" using assms by (auto intro!: bit_top)
  then have "bit (turn_off_least_1bit x) k" by (simp add: turn_off_least_1bit_def bit_and_iff)
  then show ?thesis by (rule bit_le_unat)
qed

lemma top_bit_exists:
  assumes "(x :: u32) \<noteq> 0"
  shows "\<exists>k < 32. 2 ^ k \<le> unat x \<and> unat x < 2 ^ Suc k"
proof -
  have pos: "0 < unat x" and lt: "unat x < 2 ^ 32"
    using assms unsigned_less [of x, where 'a = nat] by (simp_all add: unat_gt_0)
  obtain k where k: "2 ^ k \<le> unat x" "unat x < 2 ^ (k + 1)" using ex_power_ivl1 [of 2 "unat x"] pos by auto
  then have "(2 :: nat) ^ k < 2 ^ 32" using lt by linarith
  then have "k < 32" by (rule power_less_imp_less_exp [rotated]) simp
  then show ?thesis using k by auto
qed

lemma is_power_of_2_iff: "is_power_of_2 x \<longleftrightarrow> (\<exists>k < 32. unat x = 2 ^ k)"
proof
  assume p: "is_power_of_2 x"
  then obtain k where k: "k < 32" "2 ^ k \<le> unat x" "unat x < 2 ^ Suc k"
    using top_bit_exists [of x] by (auto simp: is_power_of_2_def)
  then have "unat x = 2 ^ k"
    using turn_off_keeps_top [of k x] p by (fastforce simp: is_power_of_2_def)
  then show "\<exists>k < 32. unat x = 2 ^ k" using k(1) by blast
next
  assume "\<exists>k < 32. unat x = 2 ^ k"
  then obtain k where k: "k < 32" "unat x = 2 ^ k" by blast
  then have x: "x = 2 ^ k" by (simp add: word_unat_eq_iff unat_pow2)
  then have "turn_off_least_1bit x = x AND mask k" by (simp add: turn_off_least_1bit_def mask_eq_decr_exp)
  also have "\<dots> = 0" by (rule bit_word_eqI) (auto simp: x bit_and_iff bit_mask_iff bit_exp_iff)
  finally show "is_power_of_2 x" using k(2) by (auto simp: is_power_of_2_def)
qed

lemma round_to_power_of_2_ok:
  assumes "2 ^ k \<le> unat x" and "unat x < 2 ^ Suc k" and "k < 32"
  shows "round_to_power_of_2 x = Some (2 ^ k)"
  using assms(1,2)
proof (induction "unat x" arbitrary: x rule: less_induct)
  case less
  have nz: "x \<noteq> 0" using less.prems(1) by auto
  show ?case
  proof (cases "unat x = 2 ^ k")
    case True
    then have "x = 2 ^ k" using assms(3) by (simp add: word_unat_eq_iff unat_pow2)
    moreover have "is_power_of_2 x" using True assms(3) is_power_of_2_iff by blast
    ultimately show ?thesis by (subst round_to_power_of_2.simps) simp
  next
    case False
    have "\<not> is_power_of_2 x"
    proof
      assume "is_power_of_2 x"
      then obtain j where j: "unat x = 2 ^ j" using is_power_of_2_iff by blast
      then have "k \<le> j" "j < Suc k"
        using less.prems by (auto intro: power_less_imp_less_exp [of 2])
      then show False using False j by auto
    qed
    then show ?thesis
      using less.hyps [OF turn_off_less [OF nz]] turn_off_keeps_top [of k x] turn_off_less [OF nz]
        less.prems False by (simp add: round_to_power_of_2.simps [of x])
  qed
qed

section \<open>Buckets\<close>

lemma find_bucket_mod: "bucket_cnt h = 2 ^ k \<Longrightarrow> k < 32 \<Longrightarrow> find_bucket h e = unat (hashf h e) mod 2 ^ k"
proof -
  assume k: "bucket_cnt h = 2 ^ k" "k < 32"
  have "hashf h e AND (2 ^ k - 1) = take_bit k (hashf h e)"
    by (simp add: take_bit_eq_mask mask_eq_decr_exp)
  then show ?thesis using k by (simp add: find_bucket_def take_bit_eq_mod unat_mod unat_pow2)
qed

lemma find_bucket_bound: "table_ok h \<Longrightarrow> find_bucket h e < length (buckets h)"
  by (auto simp: table_ok_def find_bucket_mod unat_pow2)

lemma find_bucket_cong:
  "hashf h' = hashf h \<Longrightarrow> bucket_cnt h' = bucket_cnt h \<Longrightarrow> find_bucket h' e = find_bucket h e"
  by (simp add: find_bucket_def)

lemma mset_concat_push:
  "b < length bs \<Longrightarrow> mset (concat (bs[b := e # bs ! b])) = add_mset e (mset (concat bs))"
proof -
  assume b: "b < length bs"
  have "mset (concat bs) = mset (concat (take b bs @ bs ! b # drop (Suc b) bs))"
    using id_take_nth_drop [OF b] by simp
  then show ?thesis using b by (simp add: upd_conv_take_nth_drop)
qed

lemma push_bucket_ok:
  assumes "table_ok h" and "find_bucket h e = b"
  shows "\<exists>h'. push_bucket h b e = Some h' \<and> table_ok h' \<and> helem_cnt h' = helem_cnt h \<and>
    hashf h' = hashf h \<and> lessf h' = lessf h \<and> bucket_cnt h' = bucket_cnt h \<and>
    mset (concat (buckets h')) = add_mset e (mset (concat (buckets h)))"
proof -
  let ?h = "h\<lparr>buckets := (buckets h)[b := e # buckets h ! b]\<rparr>"
  have b: "b < length (buckets h)" using find_bucket_bound [OF assms(1), of e] assms(2) by simp
  have fb: "find_bucket ?h x = find_bucket h x" for x by (simp add: find_bucket_def)
  have "table_ok ?h"
    using assms b by (auto simp: table_ok_def fb nth_list_update split: if_splits)
  then show ?thesis using b mset_concat_push [OF b] by (simp add: push_bucket_def)
qed

lemma move_elems_ok:
  assumes "table_ok h"
  shows "\<exists>h'. move_elems h es = Some h' \<and> table_ok h' \<and> helem_cnt h' = helem_cnt h \<and>
    hashf h' = hashf h \<and> lessf h' = lessf h \<and> bucket_cnt h' = bucket_cnt h \<and>
    mset (concat (buckets h')) = mset es + mset (concat (buckets h))"
  using assms
proof (induction es arbitrary: h)
  case (Cons e es)
  obtain h1 where h1: "push_bucket h (find_bucket h e) e = Some h1" "table_ok h1"
      "helem_cnt h1 = helem_cnt h" "hashf h1 = hashf h" "lessf h1 = lessf h" "bucket_cnt h1 = bucket_cnt h"
      "mset (concat (buckets h1)) = add_mset e (mset (concat (buckets h)))"
    using push_bucket_ok [OF Cons.prems refl] by blast
  then show ?case using Cons.IH [OF h1(2)] by auto
qed simp

text \<open>The number of buckets \<open>rehash\<close> aims at.\<close>

definition best_buckets :: "nat \<Rightarrow> nat \<Rightarrow> bool" where
  "best_buckets n k \<longleftrightarrow> 2 ^ k \<le> max 4 (n div 2) \<and> max 4 (n div 2) < 2 ^ Suc k"

lemma rehash_ok:
  assumes "table_ok h"
  shows "\<exists>h'. rehash m h = Some h' \<and> table_ok h' \<and> helem_cnt h' = helem_cnt h \<and>
    hashf h' = hashf h \<and> lessf h' = lessf h \<and> mset (concat (buckets h')) = mset (concat (buckets h)) \<and>
    (m \<longrightarrow> (\<exists>k. bucket_cnt h' = 2 ^ k \<and> best_buckets (unat (helem_cnt h)) k))"
proof -
  define n :: u32 where "n = (if helem_cnt h div 2 < 4 then 4 else helem_cnt h div 2)"
  have un: "unat n = max 4 (unat (helem_cnt h) div 2)"
    by (simp add: n_def word_less_nat_alt unat_div max_def)
  then have "n \<noteq> 0" by auto
  then obtain k where k: "k < 32" "2 ^ k \<le> unat n" "unat n < 2 ^ Suc k" using top_bit_exists by blast
  note r = round_to_power_of_2_ok [OF k(2,3,1)]
  have best: "best_buckets (unat (helem_cnt h)) k" using k un by (simp add: best_buckets_def)
  let ?h = "h\<lparr>buckets := replicate (unat (2 ^ k :: u32)) [], bucket_cnt := 2 ^ k\<rparr>"
  have "\<exists>j. j < 32 \<and> bucket_cnt ?h = 2 ^ j" using k(1) by (intro exI [of _ k]) simp
  then have t: "table_ok ?h" unfolding table_ok_def by simp
  have all: "take (unat (bucket_cnt h)) (buckets h) = buckets h" using assms by (simp add: table_ok_def)
  obtain h' where h': "move_elems ?h (concat (buckets h)) = Some h'" "table_ok h'"
      "helem_cnt h' = helem_cnt h" "hashf h' = hashf h" "lessf h' = lessf h"
      "bucket_cnt h' = 2 ^ k" "mset (concat (buckets h')) = mset (concat (buckets h))"
    using move_elems_ok [OF t, of "concat (buckets h)"] by (elim exE conjE) simp
  have r: "rehash m h = (if 2 ^ k = bucket_cnt h then Some h else if \<not> m then Some h else Some h')"
    using r h'(1) by (simp add: rehash_def n_def Let_def all)
  show ?thesis
  proof (cases "2 ^ k = bucket_cnt h \<or> \<not> m")
    case True
    then have "rehash m h = Some h" "m \<longrightarrow> bucket_cnt h = 2 ^ k" using r by auto
    then show ?thesis using best assms by (intro exI [of _ h]) auto
  next
    case False
    then show ?thesis using r h' best by (intro exI [of _ h']) auto
  qed
qed

section \<open>The operations\<close>

lemma hash_ok_mset:
  assumes "table_ok h'" and "mset (concat (buckets h')) = mset xs" and "distinct xs"
    and "\<forall>x \<in> set xs. \<forall>y \<in> set xs. eqv (lessf h') x y \<longrightarrow> x = y" and "unat (helem_cnt h') = length xs"
  shows "hash_ok h'" and "helems h' = set xs"
proof -
  have "set (concat (buckets h')) = set xs" "length (concat (buckets h')) = length xs"
      "distinct (concat (buckets h'))"
    using mset_eq_setD [OF assms(2)] mset_eq_length [OF assms(2)]
      mset_eq_imp_distinct_iff [OF assms(2)] assms(3) by blast+
  then show "hash_ok h'" "helems h' = set xs" using assms by (simp_all add: hash_ok_def helems_def)
qed

lemma insert_rehash_ok:
  assumes ok: "hash_ok h" and new: "\<forall>x \<in> helems h. \<not> eqv (lessf h) e x" "eqv (lessf h) e e"
    and cnt: "card (helems h) + 1 < 2 ^ 32"
  shows "\<exists>h1 h'. insert_elem h (find_bucket h e) e = Some h1 \<and> rehash m h1 = Some h' \<and> hash_ok h' \<and>
    hashf h' = hashf h \<and> lessf h' = lessf h \<and> helems h' = insert e (helems h)"
proof -
  let ?xs = "concat (buckets h)"
  let ?h = "h\<lparr>helem_cnt := helem_cnt h + 1\<rparr>"
  have d: "distinct ?xs" "set ?xs = helems h" "unat (helem_cnt h) = length ?xs"
    using ok by (simp_all add: hash_ok_def helems_def)
  have c: "unat (helem_cnt h + 1) = length ?xs + 1"
    using cnt distinct_card [OF d(1)] d by (simp add: unat_word_ariths)
  have "table_ok ?h" using ok by (simp add: hash_ok_def table_ok_def find_bucket_def)
  moreover have "find_bucket ?h e = find_bucket h e" by (simp add: find_bucket_def)
  ultimately obtain h1 where h1: "push_bucket ?h (find_bucket h e) e = Some h1" "table_ok h1"
      "helem_cnt h1 = helem_cnt h + 1" "hashf h1 = hashf h" "lessf h1 = lessf h"
      "mset (concat (buckets h1)) = add_mset e (mset ?xs)"
    using push_bucket_ok [of ?h e "find_bucket h e"] by auto
  obtain h' where h': "rehash m h1 = Some h'" "table_ok h'" "helem_cnt h' = helem_cnt h + 1"
      "hashf h' = hashf h" "lessf h' = lessf h" "mset (concat (buckets h')) = mset (e # ?xs)"
    using rehash_ok [OF h1(2), of m] h1 by auto
  have "e \<notin> set ?xs" using new d(2) by auto
  moreover have "\<forall>x \<in> set (e # ?xs). \<forall>y \<in> set (e # ?xs). eqv (lessf h') x y \<longrightarrow> x = y"
    using ok new(1) d(2) eqv_sym [of "lessf h"] by (auto simp: hash_ok_def h'(5))
  ultimately have "hash_ok h'" "helems h' = set (e # ?xs)"
    using hash_ok_mset [OF h'(2,6)] d(1) c h'(3) by simp_all
  then show ?thesis using h1 h' d(2) by (simp add: insert_elem_def)
qed

lemma remove_elem_ok:
  assumes ok: "hash_ok h" and e: "e \<in> helems h"
  shows "hash_ok (remove_elem h e)" and "helems (remove_elem h e) = helems h - {e}"
    and "hashf (remove_elem h e) = hashf h" and "lessf (remove_elem h e) = lessf h"
    and "find_bucket (remove_elem h e) x = find_bucket h x"
proof -
  let ?xs = "concat (buckets h)" and ?h = "remove_elem h e"
  have d: "distinct ?xs" "set ?xs = helems h" "unat (helem_cnt h) = length ?xs"
    using ok by (simp_all add: hash_ok_def helems_def)
  have b: "concat (buckets ?h) = removeAll e ?xs"
    by (simp add: remove_elem_def removeAll_filter_not_eq filter_concat)
  have len: "length (removeAll e ?xs) = length ?xs - 1"
    using d(1,2) e by (simp only: distinct_remove1_removeAll [symmetric] length_remove1) simp
  have "0 < length ?xs" using e d(2) by (metis length_pos_if_in_set)
  then have "helem_cnt h \<noteq> 0" using d(3) by (metis less_irrefl unsigned_0)
  then have c: "unat (helem_cnt ?h) = length ?xs - 1"
    using unat_minus_one [of "helem_cnt h"] d(3) by (simp add: remove_elem_def)
  have t: "table_ok ?h" using ok by (auto simp: hash_ok_def table_ok_def remove_elem_def find_bucket_def)
  have he: "helems ?h = helems h - {e}" using b d(2) by (simp add: helems_def [of ?h] del: set_concat)
  have "\<forall>x \<in> helems h. \<forall>y \<in> helems h. eqv (lessf h) x y \<longrightarrow> x = y" using ok by (simp add: hash_ok_def)
  then have "\<forall>x \<in> helems ?h. \<forall>y \<in> helems ?h. eqv (lessf ?h) x y \<longrightarrow> x = y"
    unfolding he by (simp add: remove_elem_def)
  then show "hash_ok ?h" using t c len d(1) unfolding hash_ok_def b by (simp add: distinct_removeAll)
  show "helems ?h = helems h - {e}" by (rule he)
qed (simp_all add: remove_elem_def find_bucket_def)

section \<open>The contract of the hash and comparison functions\<close>

text \<open>
  The comparison is a strict weak order and equivalent elements have the same hash
  value.
\<close>

locale hash_keys =
  fixes hf :: "'e \<Rightarrow> u32" and lf :: "'e \<Rightarrow> 'e \<Rightarrow> bool"
  assumes lf_weak: "weak_order lf"
    and hf_eqv: "eqv lf x y \<Longrightarrow> hf x = hf y"
begin

definition tab :: "'e hash \<Rightarrow> bool" where
  "tab h \<longleftrightarrow> hash_ok h \<and> hashf h = hf \<and> lessf h = lf"

lemma find_elem_ok:
  assumes t: "tab h"
  shows "lookup_in lf (helems h) e (find_elem h (buckets h ! find_bucket h e) e)"
proof -
  let ?b = "find_bucket h e"
  have b: "?b < length (buckets h)" using t find_bucket_bound by (auto simp: tab_def hash_ok_def)
  have inb: "x \<in> set (buckets h ! ?b)" if x: "x \<in> helems h" and ex: "eqv lf e x" for x
  proof -
    obtain ys where "ys \<in> set (buckets h)" "x \<in> set ys" using x by (auto simp: helems_def)
    then obtain c where c: "c < length (buckets h)" "x \<in> set (buckets h ! c)" by (metis in_set_conv_nth)
    then have "find_bucket h x = c" using t by (auto simp: tab_def hash_ok_def table_ok_def)
    moreover have "find_bucket h x = ?b" using t hf_eqv [OF ex] by (simp add: tab_def find_bucket_def)
    ultimately show ?thesis using c by simp
  qed
  have sub: "set (buckets h ! ?b) \<subseteq> helems h" using nth_mem [OF b] by (auto simp: helems_def)
  have eq: "(\<lambda>hi. \<not> lessf h hi e \<and> \<not> lessf h e hi) = eqv lf e" using t by (auto simp: tab_def eqv_def)
  show ?thesis
    using inb sub by (auto simp: find_elem_def eq lookup_in_def find_None_iff find_Some_iff split: option.split)
qed

lemma bucket_at_ok: "tab h \<Longrightarrow> bucket_at h (find_bucket h e) = Some (buckets h ! find_bucket h e)"
  using find_bucket_bound by (auto simp: tab_def hash_ok_def bucket_at_def)

lemma insert_step:
  assumes t: "tab h" and cnt: "card (helems h) + 1 < 2 ^ 32"
  shows "\<exists>r h'. hash_insert m h e = Some (r, h') \<and> tab h' \<and> lookup_in lf (helems h) e r \<and>
    helems h' = spec_op (helems h) (Insert e) r"
proof -
  let ?r = "find_elem h (buckets h ! find_bucket h e) e"
  note l = find_elem_ok [OF t, of e]
  show ?thesis
  proof (cases ?r)
    case None
    then have "\<forall>x \<in> helems h. \<not> eqv (lessf h) e x" using l t by (simp add: lookup_in_def tab_def)
    from insert_rehash_ok [OF _ this _ cnt, of m] obtain h1 h' where
      "insert_elem h (find_bucket h e) e = Some h1" "rehash m h1 = Some h'" "hash_ok h'"
      "hashf h' = hashf h" "lessf h' = lessf h" "helems h' = insert e (helems h)"
      using t lf_weak by (auto simp: tab_def)
    then show ?thesis using None l t bucket_at_ok [OF t, of e] by (simp add: hash_insert_def tab_def)
  next
    case (Some x)
    obtain h' where "rehash m h = Some h'" "table_ok h'" "helem_cnt h' = helem_cnt h"
        "hashf h' = hashf h" "lessf h' = lessf h" "mset (concat (buckets h')) = mset (concat (buckets h))"
      using rehash_ok [of h m] t by (auto simp: tab_def hash_ok_def)
    moreover from this have "hash_ok h'" "helems h' = helems h"
      using hash_ok_mset [of h' "concat (buckets h)"] t by (simp_all add: tab_def hash_ok_def helems_def)
    ultimately show ?thesis
      using Some l t bucket_at_ok [OF t, of e] by (simp add: hash_insert_def tab_def)
  qed
qed

lemma replace_step:
  assumes t: "tab h" and cnt: "card (helems h) + 1 < 2 ^ 32"
  shows "\<exists>r h'. hash_replace m h e = Some (r, h') \<and> tab h' \<and> lookup_in lf (helems h) e r \<and>
    helems h' = spec_op (helems h) (Replace e) r"
proof -
  let ?r = "find_elem h (buckets h ! find_bucket h e) e"
  let ?h = "case ?r of None \<Rightarrow> h | Some x \<Rightarrow> remove_elem h x"
  note l = find_elem_ok [OF t, of e]
  have fin: "finite (helems h)" by (simp add: helems_def)
  have h1: "hash_ok ?h" "hashf ?h = hf" "lessf ?h = lf" "helems ?h = helems h - set_option ?r"
      "find_bucket ?h e = find_bucket h e"
    using t l remove_elem_ok [of h "the ?r"] by (auto simp: tab_def lookup_in_def split: option.splits)
  have "\<not> eqv lf e x" if x: "x \<in> helems ?h" for x
  proof
    assume ex: "eqv lf e x"
    have xh: "x \<in> helems h" "Some x \<noteq> ?r" using x h1(4) by auto
    then obtain y where y: "?r = Some y" "y \<in> helems h" "eqv lf e y"
      using l ex by (auto simp: lookup_in_def split: option.splits)
    then have "eqv lf x y" using ex eqv_trans [OF lf_weak, of x e y] eqv_sym [of lf] by blast
    then show False using t xh y by (auto simp: tab_def hash_ok_def)
  qed
  then have new: "\<forall>x \<in> helems ?h. \<not> eqv (lessf ?h) e x" using h1(3) by simp
  have "card (helems ?h) + 1 < 2 ^ 32"
    using cnt h1(4) card_mono [OF fin, of "helems ?h"] by auto
  from insert_rehash_ok [OF h1(1) new _ this, of m] obtain h2 h' where
    "insert_elem ?h (find_bucket h e) e = Some h2" "rehash m h2 = Some h'" "hash_ok h'"
    "hashf h' = hf" "lessf h' = lf" "helems h' = insert e (helems ?h)"
    using h1 lf_weak by auto
  then show ?thesis using l h1(4) bucket_at_ok [OF t, of e] by (simp add: hash_replace_def tab_def Let_def)
qed

lemma delete_step:
  assumes t: "tab h"
  shows "\<exists>r h'. hash_delete m h e = Some (r, h') \<and> tab h' \<and> lookup_in lf (helems h) e r \<and>
    helems h' = spec_op (helems h) (Delete e) r"
proof -
  let ?r = "find_elem h (buckets h ! find_bucket h e) e"
  note l = find_elem_ok [OF t, of e]
  show ?thesis
  proof (cases ?r)
    case None
    then show ?thesis using l t bucket_at_ok [OF t, of e] by (simp add: hash_delete_def)
  next
    case (Some x)
    then have "x \<in> helems h" using l by (simp add: lookup_in_def)
    moreover have "hash_ok h" using t by (simp add: tab_def)
    ultimately have rm: "hash_ok (remove_elem h x)" "helems (remove_elem h x) = helems h - {x}"
        "hashf (remove_elem h x) = hf" "lessf (remove_elem h x) = lf"
      using remove_elem_ok [of h x] t by (simp_all add: tab_def)
    then have "table_ok (remove_elem h x)" by (simp add: hash_ok_def)
    from rehash_ok [OF this, of m] obtain h' where h': "rehash m (remove_elem h x) = Some h'" "table_ok h'"
        "helem_cnt h' = helem_cnt (remove_elem h x)" "hashf h' = hf" "lessf h' = lf"
        "mset (concat (buckets h')) = mset (concat (buckets (remove_elem h x)))"
      by (elim exE conjE) (simp add: rm)
    have "hash_ok h'" "helems h' = helems (remove_elem h x)"
      using hash_ok_mset [OF h'(2,6)] rm(1,4) h'(3,5) by (simp_all add: hash_ok_def helems_def)
    then show ?thesis
      using Some l h' rm(2) bucket_at_ok [OF t, of e] by (simp add: hash_delete_def tab_def)
  qed
qed

lemma find_step:
  "tab h \<Longrightarrow> \<exists>r. hash_find h e = Some r \<and> lookup_in lf (helems h) e r"
  using find_elem_ok [of h e] bucket_at_ok [of h e] by (simp add: hash_find_def)

lemma step_ok:
  assumes "tab h" and "card (helems h) + 1 < 2 ^ 32"
  shows "\<exists>r h'. hash_step m h p = Some (r, h') \<and> tab h' \<and> lookup_in lf (helems h) (op_elem p) r \<and>
    helems h' = spec_op (helems h) p r"
proof (cases p)
  case (Find e)
  then show ?thesis using find_step [OF assms(1), of e] assms(1) by auto
qed (use insert_step [OF assms] replace_step [OF assms] delete_step [OF assms(1)] in simp_all)

lemma card_spec_op: "finite S \<Longrightarrow> card (spec_op S p r) \<le> card S + 1"
proof -
  assume fin: "finite S"
  have "spec_op S p r \<subseteq> insert (op_elem p) S" by (cases p) auto
  then have "card (spec_op S p r) \<le> card (insert (op_elem p) S)" using fin by (intro card_mono) simp_all
  also have "\<dots> \<le> card S + 1" using fin by (simp add: card_insert_if)
  finally show ?thesis .
qed

lemma run_ok:
  assumes "tab h" and "card (helems h) + length ps < 2 ^ 32"
  shows "\<exists>rs h'. hash_run h ps = Some (rs, h') \<and> tab h' \<and> spec_run lf (helems h) (map snd ps) rs (helems h')"
  using assms
proof (induction ps arbitrary: h)
  case (Cons mp ps)
  obtain m p where mp: "mp = (m, p)" by fastforce
  obtain r h1 where h1: "hash_step m h p = Some (r, h1)" "tab h1" "lookup_in lf (helems h) (op_elem p) r"
      "helems h1 = spec_op (helems h) p r"
    using step_ok [OF Cons.prems(1), of m p] Cons.prems(2) by auto
  have "card (helems h1) \<le> card (helems h) + 1"
    using card_spec_op [of "helems h" p r] h1(4) by (simp add: helems_def)
  then show ?case using Cons.IH [OF h1(2)] Cons.prems(2) h1 mp by auto
qed simp

lemma init_tab: "hash_init True hf lf = Some h \<Longrightarrow> tab h \<and> helems h = {}"
proof -
  assume "hash_init True hf lf = Some h"
  then have h: "h = \<lparr>helem_cnt = 0, bucket_cnt = 4, buckets = replicate 4 [], hashf = hf, lessf = lf\<rparr>"
    by (simp add: hash_init_def hash_clear_def)
  have "\<exists>k. k < 32 \<and> (4 :: u32) = 2 ^ k" by (intro exI [of _ 2]) simp
  then show ?thesis by (simp add: h tab_def hash_ok_def table_ok_def helems_def)
qed

end

section \<open>Iteration\<close>

text \<open>What an iterator has not yet passed: the rest of its bucket and the later buckets.\<close>

definition rest :: "'e hash \<Rightarrow> nat \<Rightarrow> nat \<Rightarrow> 'e list" where
  "rest h b j = drop j (buckets h ! b) @ concat (drop (Suc b) (buckets h))"

lemma hash_next_loop_ok:
  assumes "length (buckets h) = unat (bucket_cnt h)" and "b < length (buckets h)"
    and "0 < j" and "j \<le> length (buckets h ! b) + 1"
  shows "(it_elem (hash_next_loop h b j) = None \<and> rest h b (j - 1) = []) \<or>
    (\<exists>c k. hash_next_loop h b j = \<lparr>it_bucket = c, it_elem = Some k\<rparr> \<and> c < length (buckets h) \<and>
      0 < k \<and> k \<le> length (buckets h ! c) \<and>
      rest h b (j - 1) = buckets h ! c ! (k - 1) # rest h c k)"
  using assms
proof (induction h b j rule: hash_next_loop.induct)
  case (1 h b j)
  show ?case
  proof (cases "j = length (buckets h ! b) + 1")
    case False
    then have j: "j - 1 < length (buckets h ! b)" "Suc (j - 1) = j" using "1.prems" by auto
    then have "rest h b (j - 1) = buckets h ! b ! (j - 1) # rest h b j"
      using Cons_nth_drop_Suc [OF j(1)] by (simp add: rest_def)
    then show ?thesis using False "1.prems" by (simp add: hash_next_loop.simps [of h b j])
  next
    case True
    show ?thesis
    proof (cases "unat (bucket_cnt h) \<le> b + 1")
      case last: True
      then have "it_elem (hash_next_loop h b j) = None" using True by (subst hash_next_loop.simps) simp
      then show ?thesis using True last "1.prems"(1) by (simp add: rest_def)
    next
      case False
      then have b: "Suc b < length (buckets h)" using "1.prems"(1) by simp
      have "rest h b (j - 1) = rest h (b + 1) 0"
        using True arg_cong [OF Cons_nth_drop_Suc [OF b], of concat] by (simp add: rest_def)
      moreover have "hash_next_loop h b j = hash_next_loop h (b + 1) 1"
        using True False by (subst hash_next_loop.simps) simp
      ultimately show ?thesis using "1.IH" [OF True False] b "1.prems"(1) by simp
    qed
  qed
qed

lemma hash_walk_ok:
  assumes "length (buckets h) = unat (bucket_cnt h)" and "b < length (buckets h)" and "j \<le> length (buckets h ! b)"
  shows "hash_walk h \<lparr>it_bucket = b, it_elem = Some j\<rparr> = Some (rest h b j)"
  using assms(2,3)
proof (induction "length (rest h b j)" arbitrary: b j rule: less_induct)
  case less
  from hash_next_loop_ok [OF assms(1) less.prems(1), of "j + 1"] less.prems(2)
  consider "it_elem (hash_next_loop h b (j + 1)) = None" "rest h b j = []"
    | c k where "hash_next_loop h b (j + 1) = \<lparr>it_bucket = c, it_elem = Some k\<rparr>"
        "c < length (buckets h)" "0 < k" "k \<le> length (buckets h ! c)"
        "rest h b j = buckets h ! c ! (k - 1) # rest h c k"
    by auto
  then show ?case
  proof cases
    case 1
    then show ?thesis by (subst hash_walk.simps) (simp add: hash_next_def hash_cur_def)
  next
    case (2 c k)
    then show ?thesis
      using less.hyps [of c k] by (subst hash_walk.simps) (simp add: hash_next_def hash_cur_def)
  qed
qed

section \<open>Properties\<close>

text \<open>
  C11. A hash table behaves like a set of pairwise inequivalent elements: from
  \<open>hash_init\<close>, every sequence of \<open>hash_insert\<close>, \<open>hash_replace\<close>, \<open>hash_delete\<close> and
  \<open>hash_find\<close> runs without a fault, each call returns the element equivalent to
  its argument if there is one and a null pointer otherwise, and changes the set
  of elements as specified, whether or not the allocations made to resize the
  table succeed. The comparison has to be a strict weak order and the hash of
  equivalent elements has to agree.
\<close>

theorem hash_table_refines_set:
  assumes "weak_order lf" and "\<forall>x y. eqv lf x y \<longrightarrow> hf x = hf y"
    and "hash_init True hf lf = Some h" and "length ps < 2 ^ 32"
  shows "\<exists>rs h'. hash_run h ps = Some (rs, h') \<and> hash_ok h' \<and> spec_run lf {} (map snd ps) rs (helems h')"
proof -
  have k: "hash_keys hf lf" using assms(1,2) by unfold_locales auto
  show ?thesis
    using hash_keys.run_ok [OF k, of h ps] hash_keys.init_tab [OF k assms(3)] assms(4)
    by (auto simp: hash_keys.tab_def [OF k])
qed

theorem hash_table_refines_set_witness:
  "\<exists>h rs h'. hash_init True (\<lambda>n :: nat. of_nat (n div 10)) (\<lambda>a b. a div 10 < b div 10) = Some h \<and>
    hash_run h [(True, Insert 15), (False, Insert 17), (True, Replace 12), (True, Find 19)] = Some (rs, h') \<and>
    spec_run (\<lambda>a b. a div 10 < b div 10) {} [Insert 15, Insert 17, Replace 12, Find 19] rs (helems h')"
proof -
  have "weak_order (\<lambda>a b :: nat. a div 10 < b div 10)"
    "\<forall>x y :: nat. eqv (\<lambda>a b. a div 10 < b div 10) x y \<longrightarrow> (of_nat (x div 10) :: u32) = of_nat (y div 10)"
    by (auto simp: weak_order_def eqv_def)
  from hash_table_refines_set [OF this, of _ "[(True, Insert 15), (False, Insert 17), (True, Replace 12), (True, Find 19)]"]
  show ?thesis by (simp add: hash_init_def del: hash_run.simps spec_run.simps) blast
qed

text \<open>
  C20. Iterating over a table with \<open>hash_first\<close> and \<open>hash_next\<close> ends and yields
  every element exactly once, bucket by bucket; \<open>hash_apply\<close> visits the elements
  in the same order.
\<close>

theorem hash_iteration_complete:
  assumes "hash_ok h"
  shows "hash_walk h (hash_first h) = Some (hash_apply h) \<and> distinct (hash_apply h) \<and>
    set (hash_apply h) = helems h"
proof -
  have len: "length (buckets h) = unat (bucket_cnt h)" using assms by (simp add: hash_ok_def table_ok_def)
  have pos: "0 < length (buckets h)" using assms find_bucket_bound [of h] by (auto simp: hash_ok_def)
  have "concat (buckets h) = rest h 0 0" using Cons_nth_drop_Suc [OF pos] by (simp add: rest_def flip: concat.simps(2))
  moreover have "hash_apply h = concat (buckets h)" using len by (simp add: hash_apply_def)
  ultimately show ?thesis
    using hash_walk_ok [OF len pos, of 0] assms by (simp add: hash_first_def hash_ok_def helems_def)
qed

theorem hash_iteration_complete_witness:
  "let h = \<lparr>helem_cnt = 3, bucket_cnt = 4, buckets = [[4], [], [2, 6], []],
            hashf = of_nat, lessf = (<)\<rparr> :: nat hash
   in hash_walk h (hash_first h) = Some [4, 2, 6]"
proof -
  let ?h = "\<lparr>helem_cnt = 3, bucket_cnt = 4, buckets = [[4], [], [2, 6], []],
             hashf = of_nat, lessf = (<)\<rparr> :: nat hash"
  have "\<exists>k. k < 32 \<and> (4 :: u32) = 2 ^ k" by (intro exI [of _ 2]) simp
  moreover have "find_bucket ?h 4 = 0" "find_bucket ?h 2 = Suc (Suc 0)" "find_bucket ?h 6 = Suc (Suc 0)"
    by (simp_all add: find_bucket_def)
  then have "\<forall>b < length (buckets ?h). \<forall>x \<in> set (buckets ?h ! b). find_bucket ?h x = b"
    by (simp add: All_less_Suc)
  moreover have "length (buckets ?h) = unat (bucket_cnt ?h)" by simp
  ultimately have "table_ok ?h" unfolding table_ok_def by simp
  then have "hash_ok ?h" by (simp add: hash_ok_def helems_def eqv_def)
  from hash_iteration_complete [OF this] show ?thesis by (simp add: hash_apply_def)
qed

end
