(* ===== verification/Machine.thy ===== *)
theory Machine
  imports Prelude
begin

text \<open>
  State machines whose steps can fail. A component with its own life (the kernel
  with its threads, the interrupt queue of a device) is given by the events that
  are enabled in a state and by what an event does; an event that fails an
  assertion has no successor. The locale \<open>safe_machine\<close> is the contract of an
  invariant that every enabled event keeps; its lemmas are the consequences for
  reachable states and for whole runs.
\<close>

inductive reachable :: "('s \<Rightarrow> 'e \<Rightarrow> bool) \<Rightarrow> ('e \<Rightarrow> 's \<Rightarrow> 's option) \<Rightarrow> 's \<Rightarrow> 's \<Rightarrow> bool" for en run s0 where
  start: "reachable en run s0 s0"
| step: "reachable en run s0 s \<Longrightarrow> en s e \<Longrightarrow> run e s = Some s' \<Longrightarrow> reachable en run s0 s'"

text \<open>The states a sequence of events passes through, the first one excluded.\<close>

fun trace :: "('s \<Rightarrow> 'e \<Rightarrow> bool) \<Rightarrow> ('e \<Rightarrow> 's \<Rightarrow> 's option) \<Rightarrow> 's \<Rightarrow> 'e list \<Rightarrow> 's list option" where
  "trace en run s [] = Some []"
| "trace en run s (e # es) =
     (if en s e then do { s' \<leftarrow> run e s; ss \<leftarrow> trace en run s' es; Some (s' # ss) } else None)"

lemma trace_Cons_Some:
  "trace en run s (e # es) = Some ss \<longleftrightarrow>
     (\<exists>s' ss'. en s e \<and> run e s = Some s' \<and> trace en run s' es = Some ss' \<and> ss = s' # ss')"
  by (auto split: Option.bind_splits)

lemma trace_reachable:
  "reachable en run s0 s \<Longrightarrow> trace en run s es = Some ss \<Longrightarrow> s' \<in> set ss \<Longrightarrow> reachable en run s0 s'"
proof (induction es arbitrary: s ss)
  case (Cons e es)
  then obtain t ts where t: "en s e" "run e s = Some t" "trace en run t es = Some ts" "ss = t # ts"
    by (auto simp only: trace_Cons_Some)
  have "reachable en run s0 t" using Cons.prems(1) t(1,2) by (rule reachable.step)
  then show ?case using Cons.IH [OF _ t(3)] Cons.prems(3) t(4) by auto
qed simp

locale safe_machine =
  fixes en :: "'s \<Rightarrow> 'e \<Rightarrow> bool" and run :: "'e \<Rightarrow> 's \<Rightarrow> 's option" and I :: "'s \<Rightarrow> bool"
  assumes keeps: "I s \<Longrightarrow> en s e \<Longrightarrow> \<exists>s'. run e s = Some s' \<and> I s'"
begin

lemma reachable_inv: "reachable en run s0 s \<Longrightarrow> I s0 \<Longrightarrow> I s"
proof (induction rule: reachable.induct)
  case (step s e s')
  then show ?case using keeps [of s e] by auto
qed

lemma never_fails: "reachable en run s0 s \<Longrightarrow> I s0 \<Longrightarrow> en s e \<Longrightarrow> \<exists>s'. run e s = Some s'"
  using reachable_inv keeps by blast

end

end
