(* ===== verification/Threads.thy ===== *)
theory Threads
  imports Machine
begin

text \<open>
  Threads, scheduling, semaphores, locks, condition variables and the alarm clock:
  \<^verbatim>\<open>threads/thread.c\<close>, \<^verbatim>\<open>threads/synch.c\<close>, the sleeping part of
  \<^verbatim>\<open>devices/timer.c\<close> and the interrupt levels of \<^verbatim>\<open>threads/interrupt.c\<close>.

  The kernel has one processor. A thread that is not running has called
  \<open>schedule\<close>, directly or through a blocking operation, and will go on with the
  rest of that operation when it is switched to. The model keeps this rest
  explicitly: the member \<open>pending\<close> of a thread is the sequence of statements it
  still has to execute before the operation it called returns. A statement runs
  without interruption; a timer interrupt can occur between any two statements
  while interrupts are on. The member lists \<open>ready_list\<close>, \<open>all_list\<close>, \<open>waiters\<close>,
  \<open>wait_list\<close> are the sequences of the corresponding linked lists. A failed
  assertion is \<open>None\<close>.
\<close>

section \<open>State\<close>

datatype thread_status = THREAD_RUNNING | THREAD_READY | THREAD_BLOCKED | THREAD_DYING

text \<open>
  A lock is \<open>thread.c\<close>'s own \<open>tid_lock\<close> or a lock of a client. A semaphore is a
  client's, or the member of a lock, the \<open>timer_sema\<close> member of a thread, or the
  semaphore in the stack frame of a thread's call of \<open>cond_wait\<close>.
\<close>

datatype lock_id = Tid_lock | Lk nat

datatype sema_id = Usr nat | Of_lock lock_id | Of_timer ptr | Of_waiter ptr

text \<open>The statements: calls of operations, and the rests of operations.\<close>

datatype stmt =
    Sema_down sema_id | Sema_loop sema_id bool | Sema_try_down sema_id | Sema_up sema_id
  | Lock_acquire lock_id | Lock_try_acquire lock_id | Set_holder lock_id | Lock_release lock_id
  | Cond_wait nat lock_id | Cond_signal nat lock_id | Cond_broadcast nat lock_id
  | Thread_yield | Thread_exit | Thread_create ptr string int | Alloc_tid
  | Init_thread ptr string int | Setup_stack ptr | Unblock_thread ptr
  | Set_priority int | Timer_sleep int | Timer_wait
  | Set_level bool | Iret | Idle_loop

record thread =
  tid :: int
  status :: thread_status
  name :: string
  priority :: int
  wakeup_time :: int
  pagedir :: ptr
  pending :: "stmt list"
  retval :: int

record semaphore =
  sval :: nat
  waiters :: "ptr list"

record kstate =
  threads :: "ptr \<Rightarrow> thread option"
  cur :: ptr
  ready_list :: "ptr list"
  all_list :: "ptr list"
  idle_thread :: ptr
  initial_thread :: ptr
  next_tid :: int
  semas :: "sema_id \<Rightarrow> semaphore"
  holder :: "lock_id \<Rightarrow> ptr"
  conds :: "nat \<Rightarrow> ptr list"
  intr_on :: bool
  in_external_intr :: bool
  yield_on_return :: bool
  thread_ticks :: nat
  idle_ticks :: nat
  kernel_ticks :: nat
  user_ticks :: nat
  ticks :: int
  wait_list :: "ptr list"

definition upd_thread :: "ptr \<Rightarrow> (thread \<Rightarrow> thread) \<Rightarrow> kstate \<Rightarrow> kstate" where
  "upd_thread t f k = k\<lparr>threads := (threads k)(t := map_option f (threads k t))\<rparr>"

definition set_status :: "ptr \<Rightarrow> thread_status \<Rightarrow> kstate \<Rightarrow> kstate" where
  "set_status t st = upd_thread t (\<lambda>x. x\<lparr>status := st\<rparr>)"

text \<open>The running thread has to execute \<open>ss\<close> before what it had to execute so far.\<close>

definition push_pending :: "stmt list \<Rightarrow> kstate \<Rightarrow> kstate" where
  "push_pending ss k = upd_thread (cur k) (\<lambda>x. x\<lparr>pending := ss @ pending x\<rparr>) k"

definition set_retval :: "int \<Rightarrow> kstate \<Rightarrow> kstate" where
  "set_retval v k = upd_thread (cur k) (\<lambda>x. x\<lparr>retval := v\<rparr>) k"

definition upd_sema :: "sema_id \<Rightarrow> (semaphore \<Rightarrow> semaphore) \<Rightarrow> kstate \<Rightarrow> kstate" where
  "upd_sema s f k = k\<lparr>semas := (semas k)(s := f (semas k s))\<rparr>"

definition status_of :: "kstate \<Rightarrow> ptr \<Rightarrow> thread_status option" where
  "status_of k t = map_option status (threads k t)"

section \<open>Interrupt levels\<close>

definition intr_disable :: "kstate \<Rightarrow> kstate" where
  "intr_disable k = k\<lparr>intr_on := False\<rparr>"

definition intr_enable :: "kstate \<Rightarrow> kstate option" where
  "intr_enable k = do { ASSERT (\<not> in_external_intr k); Some (k\<lparr>intr_on := True\<rparr>) }"

definition intr_set_level :: "bool \<Rightarrow> kstate \<Rightarrow> kstate option" where
  "intr_set_level level k = (if level then intr_enable k else Some (intr_disable k))"

section \<open>Scheduling\<close>

text \<open>\<open>is_thread\<close> tests the magic number: a thread that exists has it.\<close>

definition is_thread :: "kstate \<Rightarrow> ptr \<Rightarrow> bool" where
  "is_thread k t \<longleftrightarrow> t \<noteq> NULL \<and> threads k t \<noteq> None"

definition thread_current :: "kstate \<Rightarrow> ptr option" where
  "thread_current k = do {
     ASSERT (is_thread k (cur k));
     ASSERT (status_of k (cur k) = Some THREAD_RUNNING);
     Some (cur k) }"

definition next_thread_to_run :: "kstate \<Rightarrow> ptr \<times> kstate" where
  "next_thread_to_run k =
     (case ready_list k of [] \<Rightarrow> (idle_thread k, k) | t # ts \<Rightarrow> (t, k\<lparr>ready_list := ts\<rparr>))"

text \<open>The end of a thread switch, in the new thread; \<open>prev\<close> is the thread switched from.\<close>

definition thread_schedule_tail :: "ptr \<Rightarrow> kstate \<Rightarrow> kstate option" where
  "thread_schedule_tail prev k = do {
     ASSERT (\<not> intr_on k);
     let k = set_status (cur k) THREAD_RUNNING k;
     let k = k\<lparr>thread_ticks := 0\<rparr>;
     if prev \<noteq> NULL \<and> status_of k prev = Some THREAD_DYING \<and> prev \<noteq> initial_thread k then do {
       ASSERT (prev \<noteq> cur k);
       Some (k\<lparr>threads := (threads k)(prev := None)\<rparr>) }
     else Some k }"

definition schedule :: "kstate \<Rightarrow> kstate option" where
  "schedule k = do {
     let c = cur k;
     let (next, k) = next_thread_to_run k;
     ASSERT (\<not> intr_on k);
     ASSERT (status_of k c \<noteq> Some THREAD_RUNNING);
     ASSERT (is_thread k next);
     if c \<noteq> next then thread_schedule_tail c (k\<lparr>cur := next\<rparr>)
     else thread_schedule_tail NULL k }"

definition thread_block :: "kstate \<Rightarrow> kstate option" where
  "thread_block k = do {
     ASSERT (\<not> in_external_intr k);
     ASSERT (\<not> intr_on k);
     c \<leftarrow> thread_current k;
     schedule (set_status c THREAD_BLOCKED k) }"

definition thread_unblock :: "ptr \<Rightarrow> kstate \<Rightarrow> kstate option" where
  "thread_unblock t k = do {
     ASSERT (is_thread k t);
     let old_level = intr_on k;
     let k = intr_disable k;
     ASSERT (status_of k t = Some THREAD_BLOCKED);
     let k = k\<lparr>ready_list := ready_list k @ [t]\<rparr>;
     intr_set_level old_level (set_status t THREAD_READY k) }"

text \<open>
  \<open>thread_yield\<close>. The statements \<open>rest\<close> are what the caller does after the return;
  first comes the restoration of the interrupt level.
\<close>

definition thread_yield :: "kstate \<Rightarrow> kstate option" where
  "thread_yield k = do {
     c \<leftarrow> thread_current k;
     ASSERT (\<not> in_external_intr k);
     let old_level = intr_on k;
     let k = intr_disable k;
     let k = (if c \<noteq> idle_thread k then k\<lparr>ready_list := ready_list k @ [c]\<rparr> else k);
     let k = set_status c THREAD_READY k;
     schedule (push_pending [Set_level old_level] k) }"

text \<open>
  \<open>thread_exit\<close>, after \<open>syscall_exit\<close> and \<open>process_exit\<close> have released what the
  process owned.
\<close>

definition thread_exit :: "kstate \<Rightarrow> kstate option" where
  "thread_exit k = do {
     ASSERT (\<not> in_external_intr k);
     let k = intr_disable k;
     c \<leftarrow> thread_current k;
     let k = k\<lparr>all_list := remove1 c (all_list k)\<rparr>;
     schedule (set_status c THREAD_DYING k) }"

section \<open>Semaphores\<close>

definition sema_init :: "sema_id \<Rightarrow> nat \<Rightarrow> kstate \<Rightarrow> kstate" where
  [simp]: "sema_init s value = upd_sema s (\<lambda>_. \<lparr>sval = value, waiters = []\<rparr>)"

definition sema_try_down :: "sema_id \<Rightarrow> kstate \<Rightarrow> (bool \<times> kstate) option" where
  "sema_try_down s k = do {
     let old_level = intr_on k;
     let k = intr_disable k;
     let (success, k) =
       (if 0 < sval (semas k s) then (True, upd_sema s (\<lambda>x. x\<lparr>sval := sval x - 1\<rparr>) k) else (False, k));
     k \<leftarrow> intr_set_level old_level k;
     Some (success, k) }"

definition sema_up :: "sema_id \<Rightarrow> kstate \<Rightarrow> kstate option" where
  "sema_up s k = do {
     let old_level = intr_on k;
     let k = intr_disable k;
     k \<leftarrow> (case waiters (semas k s) of
             [] \<Rightarrow> Some k
           | t # ts \<Rightarrow> thread_unblock t (upd_sema s (\<lambda>x. x\<lparr>waiters := ts\<rparr>) k));
     let k = upd_sema s (\<lambda>x. x\<lparr>sval := size_add (sval x) 1\<rparr>) k;
     intr_set_level old_level k }"

text \<open>
  \<open>sema_down\<close> disables interrupts and enters its loop; \<open>Sema_loop s old_level\<close> is one
  evaluation of the loop condition with what follows it: either the thread joins
  the waiters and blocks, to evaluate the condition again when it is resumed, or
  it decrements the value and restores the interrupt level.
\<close>

definition sema_down :: "sema_id \<Rightarrow> kstate \<Rightarrow> kstate option" where
  "sema_down s k = do {
     ASSERT (\<not> in_external_intr k);
     Some (push_pending [Sema_loop s (intr_on k)] (intr_disable k)) }"

definition sema_down_loop :: "sema_id \<Rightarrow> bool \<Rightarrow> kstate \<Rightarrow> kstate option" where
  "sema_down_loop s old_level k =
     (if sval (semas k s) = 0 then do {
        c \<leftarrow> thread_current k;
        let k = upd_sema s (\<lambda>x. x\<lparr>waiters := waiters x @ [c]\<rparr>) k;
        thread_block (push_pending [Sema_loop s old_level] k) }
      else intr_set_level old_level (upd_sema s (\<lambda>x. x\<lparr>sval := sval x - 1\<rparr>) k))"

section \<open>Locks\<close>

definition lock_init :: "lock_id \<Rightarrow> kstate \<Rightarrow> kstate" where
  "lock_init l k = sema_init (Of_lock l) 1 (k\<lparr>holder := (holder k)(l := NULL)\<rparr>)"

definition lock_held_by_current_thread :: "lock_id \<Rightarrow> kstate \<Rightarrow> bool option" where
  "lock_held_by_current_thread l k = do { c \<leftarrow> thread_current k; Some (holder k l = c) }"

definition lock_acquire :: "lock_id \<Rightarrow> kstate \<Rightarrow> kstate option" where
  "lock_acquire l k = do {
     ASSERT (\<not> in_external_intr k);
     h \<leftarrow> lock_held_by_current_thread l k;
     ASSERT (\<not> h);
     Some (push_pending [Sema_down (Of_lock l), Set_holder l] k) }"

definition set_holder :: "lock_id \<Rightarrow> kstate \<Rightarrow> kstate option" where
  "set_holder l k = do { c \<leftarrow> thread_current k; Some (k\<lparr>holder := (holder k)(l := c)\<rparr>) }"

definition lock_try_acquire :: "lock_id \<Rightarrow> kstate \<Rightarrow> kstate option" where
  "lock_try_acquire l k = do {
     h \<leftarrow> lock_held_by_current_thread l k;
     ASSERT (\<not> h);
     (success, k) \<leftarrow> sema_try_down (Of_lock l) k;
     Some (set_retval (if success then 1 else 0)
             (if success then push_pending [Set_holder l] k else k)) }"

definition lock_release :: "lock_id \<Rightarrow> kstate \<Rightarrow> kstate option" where
  "lock_release l k = do {
     h \<leftarrow> lock_held_by_current_thread l k;
     ASSERT h;
     Some (push_pending [Sema_up (Of_lock l)] (k\<lparr>holder := (holder k)(l := NULL)\<rparr>)) }"

section \<open>Condition variables\<close>

definition cond_init :: "nat \<Rightarrow> kstate \<Rightarrow> kstate" where
  "cond_init c k = k\<lparr>conds := (conds k)(c := [])\<rparr>"

definition cond_wait :: "nat \<Rightarrow> lock_id \<Rightarrow> kstate \<Rightarrow> kstate option" where
  "cond_wait c l k = do {
     ASSERT (\<not> in_external_intr k);
     h \<leftarrow> lock_held_by_current_thread l k;
     ASSERT h;
     let w = cur k;
     let k = sema_init (Of_waiter w) 0 k;
     let k = k\<lparr>conds := (conds k)(c := conds k c @ [w])\<rparr>;
     Some (push_pending [Lock_release l, Sema_down (Of_waiter w), Lock_acquire l] k) }"

definition cond_signal :: "nat \<Rightarrow> lock_id \<Rightarrow> kstate \<Rightarrow> kstate option" where
  "cond_signal c l k = do {
     ASSERT (\<not> in_external_intr k);
     h \<leftarrow> lock_held_by_current_thread l k;
     ASSERT h;
     case conds k c of
       [] \<Rightarrow> Some k
     | w # ws \<Rightarrow> Some (push_pending [Sema_up (Of_waiter w)] (k\<lparr>conds := (conds k)(c := ws)\<rparr>)) }"

definition cond_broadcast :: "nat \<Rightarrow> lock_id \<Rightarrow> kstate \<Rightarrow> kstate option" where
  "cond_broadcast c l k =
     Some (if conds k c = [] then k else push_pending [Cond_signal c l, Cond_broadcast c l] k)"

section \<open>Thread creation\<close>

definition PRI_MIN :: int where "PRI_MIN = 0"
definition PRI_DEFAULT :: int where "PRI_DEFAULT = 31"
definition PRI_MAX :: int where "PRI_MAX = 63"

text \<open>
  A new thread, blocked, with an empty stack and an empty semaphore for sleeping. The
  insertion in \<open>all_list\<close> is part of the statement, although the code does not turn
  interrupts off for it.
\<close>

definition init_thread :: "ptr \<Rightarrow> string \<Rightarrow> int \<Rightarrow> int \<Rightarrow> kstate \<Rightarrow> kstate option" where
  "init_thread t nm prio i k = do {
     ASSERT (t \<noteq> NULL);
     ASSERT (PRI_MIN \<le> prio \<and> prio \<le> PRI_MAX);
     let k = k\<lparr>threads := (threads k)(t \<mapsto> \<lparr>tid = i, status = THREAD_BLOCKED, name = take 15 nm,
               priority = prio, wakeup_time = 0, pagedir = NULL, pending = [], retval = 0\<rparr>)\<rparr>;
     let k = sema_init (Of_timer t) 0 k;
     Some (k\<lparr>all_list := all_list k @ [t]\<rparr>) }"

text \<open>
  \<open>thread_create\<close> on the page \<open>t\<close> that \<open>palloc_get_page\<close> returned. The tid is
  allocated under \<open>tid_lock\<close>. Interrupts are on during the call, except while the
  stack of the new thread is prepared, so another thread can run between the
  initialisation of the new thread, the preparation of its stack and its release to
  the run queue.
\<close>

definition thread_create :: "ptr \<Rightarrow> string \<Rightarrow> int \<Rightarrow> kstate \<Rightarrow> kstate option" where
  "thread_create t nm prio k =
     Some (if t = NULL then set_retval (- 1) k
           else push_pending [Lock_acquire Tid_lock, Alloc_tid, Lock_release Tid_lock,
                              Init_thread t nm prio, Setup_stack t, Unblock_thread t] k)"

definition allocate_tid :: "kstate \<Rightarrow> kstate option" where
  "allocate_tid k = Some (set_retval (next_tid k) (k\<lparr>next_tid := next_tid k + 1\<rparr>))"

text \<open>The call of \<open>init_thread\<close>, with the tid that \<open>allocate_tid\<close> returned.\<close>

definition init_created :: "ptr \<Rightarrow> string \<Rightarrow> int \<Rightarrow> kstate \<Rightarrow> kstate option" where
  "init_created t nm prio k = do {
     c \<leftarrow> threads k (cur k);
     init_thread t nm prio (retval c) k }"

text \<open>
  The stack frames of a new thread, written with interrupts off: a switch to it enters
  \<open>switch_entry\<close>, then \<open>kernel_thread\<close>, whose first statement is \<open>intr_enable\<close>.
\<close>

definition setup_stack :: "ptr \<Rightarrow> kstate \<Rightarrow> kstate option" where
  "setup_stack t k = do {
     let old_level = intr_on k;
     let k = intr_disable k;
     ASSERT (is_thread k t);
     let k = upd_thread t (\<lambda>x. x\<lparr>pending := [Set_level True]\<rparr>) k;
     intr_set_level old_level k }"

definition thread_set_priority :: "int \<Rightarrow> kstate \<Rightarrow> kstate option" where
  "thread_set_priority p k = do { c \<leftarrow> thread_current k; Some (upd_thread c (\<lambda>x. x\<lparr>priority := p\<rparr>) k) }"

text \<open>The loop of the idle thread: block, and when resumed enable interrupts and halt.\<close>

definition idle :: "kstate \<Rightarrow> kstate option" where
  "idle k = thread_block (push_pending [Iret, Idle_loop] (intr_disable k))"

section \<open>The alarm clock\<close>

definition wakeup_of :: "kstate \<Rightarrow> ptr \<Rightarrow> int" where
  "wakeup_of k t = (case threads k t of Some x \<Rightarrow> wakeup_time x | None \<Rightarrow> 0)"

definition compare_threads_by_wakeup_time :: "kstate \<Rightarrow> ptr \<Rightarrow> ptr \<Rightarrow> bool" where
  "compare_threads_by_wakeup_time k a b \<longleftrightarrow> wakeup_of k a < wakeup_of k b"

text \<open>\<open>list_insert_ordered\<close> on the sequence of a list: before the first greater element.\<close>

definition insert_ordered :: "('a \<Rightarrow> 'a \<Rightarrow> bool) \<Rightarrow> 'a \<Rightarrow> 'a list \<Rightarrow> 'a list" where
  "insert_ordered lt e xs = takeWhile (\<lambda>x. \<not> lt e x) xs @ e # dropWhile (\<lambda>x. \<not> lt e x) xs"

text \<open>
  \<open>timer_sleep\<close>: an interrupt can come after the wake-up time has been computed and
  before interrupts are turned off, so the insertion is a statement of its own.
\<close>

definition timer_sleep :: "int \<Rightarrow> kstate \<Rightarrow> kstate option" where
  "timer_sleep n k = do {
     t \<leftarrow> thread_current k;
     Some (push_pending [Timer_wait] (upd_thread t (\<lambda>x. x\<lparr>wakeup_time := ticks k + n\<rparr>) k)) }"

definition timer_wait :: "kstate \<Rightarrow> kstate option" where
  "timer_wait k = do {
     t \<leftarrow> thread_current k;
     ASSERT (intr_on k);
     let k = intr_disable k;
     let k = k\<lparr>wait_list := insert_ordered (compare_threads_by_wakeup_time k) t (wait_list k)\<rparr>;
     k \<leftarrow> intr_enable k;
     Some (push_pending [Sema_down (Of_timer t)] k) }"

text \<open>The loop of the timer interrupt handler over the sleeping threads.\<close>

primrec wake_loop :: "ptr list \<Rightarrow> kstate \<Rightarrow> kstate option" where
  "wake_loop [] k = Some k"
| "wake_loop (t # ts) k = do {
     x \<leftarrow> threads k t;
     if ticks k < wakeup_time x then Some k
     else do {
       k \<leftarrow> sema_up (Of_timer t) k;
       wake_loop ts (k\<lparr>wait_list := ts\<rparr>) } }"

definition intr_yield_on_return :: "kstate \<Rightarrow> kstate option" where
  "intr_yield_on_return k = do { ASSERT (in_external_intr k); Some (k\<lparr>yield_on_return := True\<rparr>) }"

abbreviation (input) TIME_SLICE :: nat where "TIME_SLICE \<equiv> 4"

definition thread_tick :: "kstate \<Rightarrow> kstate option" where
  "thread_tick k = do {
     t \<leftarrow> thread_current k;
     x \<leftarrow> threads k t;
     let k = (if t = idle_thread k then k\<lparr>idle_ticks := idle_ticks k + 1\<rparr>
              else if pagedir x \<noteq> NULL then k\<lparr>user_ticks := user_ticks k + 1\<rparr>
              else k\<lparr>kernel_ticks := kernel_ticks k + 1\<rparr>);
     let k = k\<lparr>thread_ticks := thread_ticks k + 1\<rparr>;
     if TIME_SLICE \<le> thread_ticks k then intr_yield_on_return k else Some k }"

definition timer_interrupt :: "kstate \<Rightarrow> kstate option" where
  "timer_interrupt k = do {
     let k = k\<lparr>ticks := ticks k + 1\<rparr>;
     k \<leftarrow> thread_tick k;
     wake_loop (wait_list k) k }"

text \<open>
  \<open>intr_handler\<close> for the timer: the processor has turned interrupts off; the return
  from the interrupt turns them on again.
\<close>

definition timer_intr_handler :: "kstate \<Rightarrow> kstate option" where
  "timer_intr_handler k = do {
     let k = intr_disable k;
     ASSERT (\<not> in_external_intr k);
     let k = k\<lparr>in_external_intr := True, yield_on_return := False\<rparr>;
     k \<leftarrow> timer_interrupt k;
     ASSERT (\<not> intr_on k);
     ASSERT (in_external_intr k);
     let k = push_pending [Iret] (k\<lparr>in_external_intr := False\<rparr>);
     if yield_on_return k then thread_yield k else Some k }"

section \<open>Executions\<close>

fun exec :: "stmt \<Rightarrow> kstate \<Rightarrow> kstate option" where
  "exec (Sema_down s) k = sema_down s k"
| "exec (Sema_loop s old_level) k = sema_down_loop s old_level k"
| "exec (Sema_try_down s) k = do { (r, k) \<leftarrow> sema_try_down s k; Some (set_retval (if r then 1 else 0) k) }"
| "exec (Sema_up s) k = sema_up s k"
| "exec (Lock_acquire l) k = lock_acquire l k"
| "exec (Lock_try_acquire l) k = lock_try_acquire l k"
| "exec (Set_holder l) k = set_holder l k"
| "exec (Lock_release l) k = lock_release l k"
| "exec (Cond_wait c l) k = cond_wait c l k"
| "exec (Cond_signal c l) k = cond_signal c l k"
| "exec (Cond_broadcast c l) k = cond_broadcast c l k"
| "exec Thread_yield k = thread_yield k"
| "exec Thread_exit k = thread_exit k"
| "exec (Thread_create t nm prio) k = thread_create t nm prio k"
| "exec Alloc_tid k = allocate_tid k"
| "exec (Init_thread t nm prio) k = init_created t nm prio k"
| "exec (Setup_stack t) k = setup_stack t k"
| "exec (Unblock_thread t) k = thread_unblock t k"
| "exec (Set_priority p) k = thread_set_priority p k"
| "exec (Timer_sleep n) k = timer_sleep n k"
| "exec Timer_wait k = timer_wait k"
| "exec (Set_level b) k = intr_set_level b k"
| "exec Iret k = Some (k\<lparr>intr_on := True\<rparr>)"
| "exec Idle_loop k = idle k"

definition pending_of :: "kstate \<Rightarrow> ptr \<Rightarrow> stmt list" where
  "pending_of k t = (case threads k t of Some x \<Rightarrow> pending x | None \<Rightarrow> [])"

text \<open>The running thread goes on with the operation it is in.\<close>

definition run_pending :: "kstate \<Rightarrow> kstate option" where
  "run_pending k =
     (case pending_of k (cur k) of
        [] \<Rightarrow> None
      | s # ss \<Rightarrow> exec s (upd_thread (cur k) (\<lambda>x. x\<lparr>pending := ss\<rparr>) k))"

text \<open>
  The calls a client thread may make when it is in no operation, with the conditions
  the comments of the operations ask for.
\<close>

fun may_call :: "kstate \<Rightarrow> stmt \<Rightarrow> bool" where
  "may_call k (Sema_down s) \<longleftrightarrow> (\<exists>n. s = Usr n)"
| "may_call k (Sema_try_down s) \<longleftrightarrow> (\<exists>n. s = Usr n)"
| "may_call k (Sema_up s) \<longleftrightarrow> (\<exists>n. s = Usr n)"
| "may_call k (Lock_acquire l) \<longleftrightarrow> l \<noteq> Tid_lock \<and> holder k l \<noteq> cur k"
| "may_call k (Lock_try_acquire l) \<longleftrightarrow> l \<noteq> Tid_lock \<and> holder k l \<noteq> cur k"
| "may_call k (Lock_release l) \<longleftrightarrow> l \<noteq> Tid_lock \<and> holder k l = cur k"
| "may_call k (Cond_wait c l) \<longleftrightarrow> l \<noteq> Tid_lock \<and> holder k l = cur k"
| "may_call k (Cond_signal c l) \<longleftrightarrow> l \<noteq> Tid_lock \<and> holder k l = cur k"
| "may_call k (Cond_broadcast c l) \<longleftrightarrow> l \<noteq> Tid_lock \<and> holder k l = cur k"
| "may_call k Thread_yield \<longleftrightarrow> True"
| "may_call k Thread_exit \<longleftrightarrow> (\<forall>l. holder k l \<noteq> cur k)"
| "may_call k (Thread_create t nm prio) \<longleftrightarrow>
     (t \<noteq> NULL \<longrightarrow> threads k t = None \<and> (\<forall>u nm prio. Init_thread t nm prio \<notin> set (pending_of k u))) \<and>
     PRI_MIN \<le> prio \<and> prio \<le> PRI_MAX"
| "may_call k (Set_priority p) \<longleftrightarrow> PRI_MIN \<le> p \<and> p \<le> PRI_MAX"
| "may_call k (Timer_sleep n) \<longleftrightarrow> True"
| "may_call k _ \<longleftrightarrow> False"

datatype event = Run | Call stmt | Tick

fun enabled :: "kstate \<Rightarrow> event \<Rightarrow> bool" where
  "enabled k Run \<longleftrightarrow> pending_of k (cur k) \<noteq> []"
| "enabled k (Call s) \<longleftrightarrow> pending_of k (cur k) = [] \<and> may_call k s"
| "enabled k Tick \<longleftrightarrow> intr_on k"

fun happen :: "event \<Rightarrow> kstate \<Rightarrow> kstate option" where
  "happen Run k = run_pending k"
| "happen (Call s) k = exec s k"
| "happen Tick k = timer_intr_handler k"

text \<open>
  The state after \<open>thread_start\<close>: the initial thread \<open>m\<close> runs, the idle thread \<open>i\<close>
  has set \<open>idle_thread\<close> and is blocked in its loop, no client has called anything
  yet; \<open>v\<close> are the initial values of the clients' semaphores.
\<close>

definition booted :: "ptr \<Rightarrow> ptr \<Rightarrow> (nat \<Rightarrow> nat) \<Rightarrow> kstate" where
  "booted m i v = \<lparr>
     threads = [m \<mapsto> \<lparr>tid = 0, status = THREAD_RUNNING, name = ''main'', priority = PRI_DEFAULT,
                      wakeup_time = 0, pagedir = NULL, pending = [], retval = 0\<rparr>,
                i \<mapsto> \<lparr>tid = 1, status = THREAD_BLOCKED, name = ''idle'', priority = PRI_MIN,
                      wakeup_time = 0, pagedir = NULL, pending = [Iret, Idle_loop], retval = 0\<rparr>],
     cur = m, ready_list = [], all_list = [m, i], idle_thread = i, initial_thread = m, next_tid = 2,
     semas = (\<lambda>s. case s of Usr n \<Rightarrow> \<lparr>sval = v n, waiters = []\<rparr>
                         | Of_lock l \<Rightarrow> \<lparr>sval = 1, waiters = []\<rparr>
                         | _ \<Rightarrow> \<lparr>sval = 0, waiters = []\<rparr>),
     holder = (\<lambda>_. NULL), conds = (\<lambda>_. []), intr_on = True, in_external_intr = False,
     yield_on_return = False, thread_ticks = 0, idle_ticks = 0, kernel_ticks = 0, user_ticks = 0,
     ticks = 0, wait_list = []\<rparr>"

end
