(* ===== verification/Threads_Inv.thy ===== *)
theory Threads_Inv
  imports Threads
begin

text \<open>
  The invariant of the kernel of \<open>Threads\<close>, by parts: the lists of the scheduler
  (\<open>inv_sched\<close>), the statements each thread still has to execute (\<open>inv_pend\<close>,
  \<open>inv_new\<close>), the units of the locks (\<open>inv_locks\<close>), the interrupt level
  (\<open>inv_level\<close>), the alarm clock (\<open>inv_timer\<close>) and the wake-ups (\<open>inv_wake\<close>). It holds
  in the booted state; a thread switch restores the first part; a step that does not
  schedule keeps each part under local conditions.
\<close>

section \<open>The invariants\<close>

text \<open>
  The statements a thread still has to execute: first what an interrupt or
  \<open>thread_yield\<close> left (\<open>is_frame\<close>), then the rest of one operation.
\<close>

fun is_frame :: "stmt \<Rightarrow> bool" where
  "is_frame (Set_level b) \<longleftrightarrow> True"
| "is_frame Iret \<longleftrightarrow> True"
| "is_frame _ \<longleftrightarrow> False"

definition strip :: "stmt list \<Rightarrow> stmt list" where
  "strip ps = dropWhile is_frame ps"

text \<open>
  Scheduling. Only the running thread has the status running; the run queue holds
  exactly the other ready threads except the idle thread; a thread on the wait
  list of a semaphore is blocked, and evaluates the loop condition of
  \<open>sema_down\<close> on that semaphore when it is resumed; every blocked thread other than
  the idle thread is on such a list, or is still being created and has nothing to
  execute yet.
\<close>

definition inv_lists :: "kstate \<Rightarrow> bool" where
  "inv_lists k \<longleftrightarrow>
     distinct (ready_list k) \<and> idle_thread k \<notin> set (ready_list k) \<and>
     (\<forall>t \<in> set (ready_list k). status_of k t = Some THREAD_READY) \<and>
     (\<forall>t. status_of k t = Some THREAD_READY \<longrightarrow> t \<in> set (ready_list k) \<or> t = idle_thread k) \<and>
     (\<forall>s. distinct (waiters (semas k s))) \<and>
     (\<forall>s. \<forall>t \<in> set (waiters (semas k s)). status_of k t = Some THREAD_BLOCKED \<and>
        (\<exists>b ps. pending_of k t = Sema_loop s b # ps)) \<and>
     (\<forall>t. status_of k t = Some THREAD_BLOCKED \<longrightarrow> (\<exists>s. t \<in> set (waiters (semas k s))) \<or> t = idle_thread k \<or>
        strip (pending_of k t) = []) \<and>
     status_of k (idle_thread k) \<noteq> None \<and> status_of k (idle_thread k) \<noteq> Some THREAD_DYING \<and>
     threads k NULL = None \<and> finite (dom (threads k)) \<and> (\<forall>s. idle_thread k \<notin> set (waiters (semas k s)))"

definition inv_sched :: "kstate \<Rightarrow> bool" where
  "inv_sched k \<longleftrightarrow> inv_lists k \<and> status_of k (cur k) = Some THREAD_RUNNING \<and>
     (\<forall>t. status_of k t = Some THREAD_RUNNING \<longrightarrow> t = cur k) \<and>
     (\<forall>t. status_of k t = Some THREAD_DYING \<longrightarrow> t = initial_thread k)"

text \<open>Just before \<open>schedule\<close>: no thread has the status running.\<close>

definition inv_pre :: "kstate \<Rightarrow> bool" where
  "inv_pre k \<longleftrightarrow> inv_lists k \<and> (\<forall>t. status_of k t \<noteq> Some THREAD_RUNNING) \<and>
     (\<forall>t. status_of k t = Some THREAD_DYING \<longrightarrow> t = initial_thread k \<or> t = cur k)"

text \<open>
  \<open>rest_ok t H ps\<close> says that \<open>ps\<close> is such a rest, not yet begun, for thread \<open>t\<close> holding the locks
  \<open>H\<close>; \<open>begun_ok\<close> the same for a rest whose first statement may be in the middle of
  \<open>sema_down\<close>, \<open>lock_acquire\<close> or \<open>lock_release\<close>.
\<close>

fun rest_ok :: "ptr \<Rightarrow> lock_id set \<Rightarrow> stmt list \<Rightarrow> bool" where
  "rest_ok t H [] \<longleftrightarrow> Tid_lock \<notin> H"
| "rest_ok t H (Lock_acquire l # ps) \<longleftrightarrow> l \<notin> H \<and> rest_ok t (insert l H) ps"
| "rest_ok t H (Lock_release l # ps) \<longleftrightarrow> l \<in> H \<and> rest_ok t (H - {l}) ps"
| "rest_ok t H (Sema_down s # ps) \<longleftrightarrow> s = Of_waiter t \<and> rest_ok t H ps"
| "rest_ok t H (Cond_signal c l # ps) \<longleftrightarrow> l \<in> H \<and> rest_ok t H ps"
| "rest_ok t H (Cond_broadcast c l # ps) \<longleftrightarrow> l \<in> H \<and> rest_ok t H ps"
| "rest_ok t H (Alloc_tid # ps) \<longleftrightarrow> rest_ok t H ps"
| "rest_ok t H (Init_thread u nm p # ps) \<longleftrightarrow>
     ps = [Setup_stack u, Unblock_thread u] \<and> Tid_lock \<notin> H \<and> PRI_MIN \<le> p \<and> p \<le> PRI_MAX"
| "rest_ok t H _ \<longleftrightarrow> False"

fun down_ok :: "ptr \<Rightarrow> lock_id set \<Rightarrow> sema_id \<Rightarrow> stmt list \<Rightarrow> bool" where
  "down_ok t H (Of_lock l) ps \<longleftrightarrow> ps \<noteq> [] \<and> hd ps = Set_holder l \<and> l \<notin> H \<and> rest_ok t (insert l H) (tl ps)"
| "down_ok t H (Of_waiter w) ps \<longleftrightarrow> w = t \<and> rest_ok t H ps"
| "down_ok t H (Of_timer w) ps \<longleftrightarrow> w = t \<and> rest_ok t H ps"
| "down_ok t H (Usr n) ps \<longleftrightarrow> rest_ok t H ps"

fun begun_ok :: "ptr \<Rightarrow> lock_id set \<Rightarrow> stmt list \<Rightarrow> bool" where
  "begun_ok t H (Set_holder l # ps) \<longleftrightarrow> l \<notin> H \<and> rest_ok t (insert l H) ps"
| "begun_ok t H (Sema_up (Of_lock l) # ps) \<longleftrightarrow> l \<notin> H \<and> rest_ok t H ps"
| "begun_ok t H (Sema_up (Of_waiter w) # ps) \<longleftrightarrow> rest_ok t H ps"
| "begun_ok t H (Sema_down s # ps) \<longleftrightarrow> down_ok t H s ps"
| "begun_ok t H (Sema_loop s b # ps) \<longleftrightarrow> down_ok t H s ps"
| "begun_ok t H (Timer_wait # ps) \<longleftrightarrow> rest_ok t H ps"
| "begun_ok t H (Setup_stack u # ps) \<longleftrightarrow> ps = [Unblock_thread u] \<and> Tid_lock \<notin> H"
| "begun_ok t H (Unblock_thread u # ps) \<longleftrightarrow> ps = [] \<and> Tid_lock \<notin> H"
| "begun_ok t H ps \<longleftrightarrow> rest_ok t H ps"

definition locks_of :: "kstate \<Rightarrow> ptr \<Rightarrow> lock_id set" where
  "locks_of k t = {l. holder k l = t}"

definition in_loop :: "sema_id \<Rightarrow> stmt list \<Rightarrow> bool" where
  "in_loop s ps \<longleftrightarrow> (\<exists>b qs. ps = Sema_loop s b # qs)"

definition inv_pend :: "kstate \<Rightarrow> bool" where
  "inv_pend k \<longleftrightarrow>
     (\<forall>t. t \<noteq> NULL \<longrightarrow> t \<noteq> idle_thread k \<longrightarrow> begun_ok t (locks_of k t) (strip (pending_of k t))) \<and>
     strip (pending_of k (idle_thread k)) = [Idle_loop] \<and> locks_of k (idle_thread k) = {} \<and>
     (\<forall>t s. in_loop s (strip (pending_of k t)) \<longrightarrow> strip (pending_of k t) = pending_of k t) \<and>
     (\<forall>l. holder k l \<noteq> NULL \<longrightarrow> threads k (holder k l) \<noteq> None)"

text \<open>
  Threads being created. \<open>makes ps\<close> is the thread that the statements \<open>ps\<close> create, with
  what has been done of it: nothing (\<open>Page\<close>), \<open>init_thread\<close>, or also its stack. Each
  such thread has one creator; until it is unblocked, nothing but \<open>intr_enable\<close> is on
  its stack; and a blocked thread with nothing else to execute has a creator.
\<close>

datatype phase = Page | Initialised | Framed

fun makes :: "stmt list \<Rightarrow> (ptr \<times> phase) option" where
  "makes [] = None"
| "makes (Init_thread u nm p # ps) = Some (u, Page)"
| "makes (Setup_stack u # ps) = Some (u, Initialised)"
| "makes (Unblock_thread u # ps) = Some (u, Framed)"
| "makes (_ # ps) = makes ps"

fun phase_ok :: "kstate \<Rightarrow> ptr \<Rightarrow> phase \<Rightarrow> bool" where
  "phase_ok k u Page \<longleftrightarrow> threads k u = None"
| "phase_ok k u Initialised \<longleftrightarrow> status_of k u = Some THREAD_BLOCKED \<and> pending_of k u = []"
| "phase_ok k u Framed \<longleftrightarrow> status_of k u = Some THREAD_BLOCKED \<and> pending_of k u = [Set_level True]"

definition inv_new :: "kstate \<Rightarrow> bool" where
  "inv_new k \<longleftrightarrow>
     (\<forall>t u n. makes (pending_of k t) = Some (u, n) \<longrightarrow> u \<noteq> NULL \<and> phase_ok k u n \<and>
       (\<forall>t' n'. makes (pending_of k t') = Some (u, n') \<longrightarrow> t' = t)) \<and>
     (\<forall>u. status_of k u = Some THREAD_BLOCKED \<longrightarrow> strip (pending_of k u) = [] \<longrightarrow>
       (\<exists>t n. makes (pending_of k t) = Some (u, n)))"

text \<open>
  Locks. The unit of a lock's semaphore is either in the semaphore or with exactly
  one thread: the holder, a thread that has taken it and is about to become the
  holder, or a thread that was the holder and is about to give it back.
\<close>

definition claims :: "lock_id \<Rightarrow> stmt list \<Rightarrow> bool" where
  "claims l ps \<longleftrightarrow> (\<exists>qs. strip ps = Set_holder l # qs \<or> strip ps = Sema_up (Of_lock l) # qs)"

definition owns :: "kstate \<Rightarrow> ptr \<Rightarrow> lock_id \<Rightarrow> bool" where
  "owns k t l \<longleftrightarrow> t \<noteq> NULL \<and> holder k l = t \<or> claims l (pending_of k t)"

definition inv_locks :: "kstate \<Rightarrow> bool" where
  "inv_locks k \<longleftrightarrow> (\<forall>l. (sval (semas k (Of_lock l)) = 1 \<and> (\<forall>t. \<not> owns k t l)) \<or>
     (sval (semas k (Of_lock l)) = 0 \<and> (\<exists>!t. owns k t l)))"

text \<open>
  Interrupt levels: every operation leaves interrupts on when it returns. A thread
  without a stack frame is dying or has just been initialised.
\<close>

fun final_level :: "bool \<Rightarrow> stmt list \<Rightarrow> bool" where
  "final_level l [] = l"
| "final_level l (Set_level b # ps) = final_level b ps"
| "final_level l (Iret # ps) = final_level True ps"
| "final_level l (Sema_loop s b # ps) = final_level b ps"
| "final_level l (Idle_loop # ps) = True"
| "final_level l (_ # ps) = final_level l ps"

definition has_frame :: "kstate \<Rightarrow> ptr \<Rightarrow> bool" where
  "has_frame k t \<longleftrightarrow> status_of k t \<noteq> None \<and> status_of k t \<noteq> Some THREAD_DYING \<and>
     (status_of k t = Some THREAD_BLOCKED \<longrightarrow> pending_of k t \<noteq> [])"

definition inv_level :: "kstate \<Rightarrow> bool" where
  "inv_level k \<longleftrightarrow> \<not> in_external_intr k \<and> final_level (intr_on k) (pending_of k (cur k)) \<and>
     (\<forall>t. t \<noteq> cur k \<longrightarrow> has_frame k t \<longrightarrow> final_level False (pending_of k t)) \<and>
     (\<forall>s. in_loop s (pending_of k (cur k)) \<longrightarrow> \<not> intr_on k)"

text \<open>
  The alarm clock: a thread in \<open>timer_sleep\<close> is in the wait list, or has been woken
  up after its wake-up time; the wait list is ordered by wake-up time.
\<close>

definition sleeps :: "ptr \<Rightarrow> stmt list \<Rightarrow> bool" where
  "sleeps t ps \<longleftrightarrow> (\<exists>b qs. strip ps = Sema_down (Of_timer t) # qs \<or> strip ps = Sema_loop (Of_timer t) b # qs)"

definition inv_timer :: "kstate \<Rightarrow> bool" where
  "inv_timer k \<longleftrightarrow> distinct (wait_list k) \<and> sorted (map (wakeup_of k) (wait_list k)) \<and>
     (\<forall>t. sval (semas k (Of_timer t)) + (if t \<in> set (wait_list k) then 1 else 0) =
        (if sleeps t (pending_of k t) then 1 else 0)) \<and>
     (\<forall>t. 0 < sval (semas k (Of_timer t)) \<longrightarrow> wakeup_of k t \<le> ticks k)"

text \<open>No wake-up is lost: as long as threads wait, every unit of the semaphore is
  matched by a runnable thread about to take it.\<close>

definition woken :: "kstate \<Rightarrow> sema_id \<Rightarrow> ptr set" where
  "woken k s = {t. (status_of k t = Some THREAD_READY \<or> status_of k t = Some THREAD_RUNNING) \<and> in_loop s (pending_of k t)}"

definition inv_wake :: "kstate \<Rightarrow> bool" where
  "inv_wake k \<longleftrightarrow> (\<forall>s. waiters (semas k s) \<noteq> [] \<longrightarrow> sval (semas k s) \<le> card (woken k s))"

definition kinv :: "kstate \<Rightarrow> bool" where
  "kinv k \<longleftrightarrow> inv_sched k \<and> inv_pend k \<and> inv_new k \<and> inv_locks k \<and> inv_level k \<and> inv_timer k \<and> inv_wake k"

section \<open>Reading the state after an update\<close>

lemma status_of_upd_thread:
  "status_of (upd_thread t f k) u = (if u = t then map_option (\<lambda>x. status (f x)) (threads k t) else status_of k u)"
  by (simp add: status_of_def upd_thread_def option.map_comp comp_def)

lemma pending_of_upd_thread:
  "pending_of (upd_thread t f k) u =
     (if u = t then (case threads k t of Some x \<Rightarrow> pending (f x) | None \<Rightarrow> []) else pending_of k u)"
  by (simp add: pending_of_def upd_thread_def split: option.split)

lemma status_of_simps [simp]:
  "status_of (set_status t st k) u = (if u = t then map_option (\<lambda>_. st) (status_of k t) else status_of k u)"
  "status_of (push_pending ss k) = status_of k"
  "status_of (set_retval v k) = status_of k"
  "status_of (upd_sema s g k) = status_of k"
  "status_of (intr_disable k) = status_of k"
  "status_of (upd_thread t (pending_update p) k) = status_of k"
  "status_of (upd_thread t (wakeup_time_update w) k) = status_of k"
  "status_of (upd_thread t (priority_update q) k) = status_of k"
  by (auto simp: set_status_def push_pending_def set_retval_def upd_sema_def intr_disable_def
      status_of_upd_thread fun_eq_iff)
     (auto simp: status_of_def option.map_comp comp_def)

lemma status_of_record [simp]:
  "status_of (k\<lparr>cur := c\<rparr>) = status_of k" "status_of (k\<lparr>ready_list := r\<rparr>) = status_of k"
  "status_of (k\<lparr>all_list := r\<rparr>) = status_of k" "status_of (k\<lparr>next_tid := n\<rparr>) = status_of k"
  "status_of (k\<lparr>holder := h\<rparr>) = status_of k" "status_of (k\<lparr>conds := cs\<rparr>) = status_of k"
  "status_of (k\<lparr>intr_on := b\<rparr>) = status_of k" "status_of (k\<lparr>in_external_intr := b\<rparr>) = status_of k"
  "status_of (k\<lparr>yield_on_return := b\<rparr>) = status_of k" "status_of (k\<lparr>thread_ticks := n'\<rparr>) = status_of k"
  "status_of (k\<lparr>idle_ticks := n'\<rparr>) = status_of k" "status_of (k\<lparr>kernel_ticks := n'\<rparr>) = status_of k"
  "status_of (k\<lparr>user_ticks := n'\<rparr>) = status_of k" "status_of (k\<lparr>ticks := i\<rparr>) = status_of k"
  "status_of (k\<lparr>wait_list := r\<rparr>) = status_of k" "status_of (k\<lparr>semas := sm\<rparr>) = status_of k"
  by (simp_all add: status_of_def fun_eq_iff)

lemma pending_of_simps [simp]:
  "pending_of (set_status t st k) = pending_of k"
  "pending_of (set_retval v k) = pending_of k"
  "pending_of (upd_sema s g k) = pending_of k"
  "pending_of (intr_disable k) = pending_of k"
  "pending_of (upd_thread t (wakeup_time_update w) k) = pending_of k"
  "pending_of (upd_thread t (priority_update q) k) = pending_of k"
  by (auto simp: set_status_def set_retval_def upd_sema_def intr_disable_def
      pending_of_upd_thread fun_eq_iff)
     (auto simp: pending_of_def split: option.splits)

lemma pending_of_push:
  "pending_of (push_pending ss k) u =
     (if u = cur k \<and> threads k (cur k) \<noteq> None then ss @ pending_of k u else pending_of k u)"
  by (auto simp: push_pending_def pending_of_upd_thread split: option.split) (auto simp: pending_of_def)

lemma pending_of_record [simp]:
  "pending_of (k\<lparr>cur := c\<rparr>) = pending_of k" "pending_of (k\<lparr>ready_list := r\<rparr>) = pending_of k"
  "pending_of (k\<lparr>all_list := r\<rparr>) = pending_of k" "pending_of (k\<lparr>next_tid := n\<rparr>) = pending_of k"
  "pending_of (k\<lparr>holder := h\<rparr>) = pending_of k" "pending_of (k\<lparr>conds := cs\<rparr>) = pending_of k"
  "pending_of (k\<lparr>intr_on := b\<rparr>) = pending_of k" "pending_of (k\<lparr>in_external_intr := b\<rparr>) = pending_of k"
  "pending_of (k\<lparr>yield_on_return := b\<rparr>) = pending_of k" "pending_of (k\<lparr>thread_ticks := n'\<rparr>) = pending_of k"
  "pending_of (k\<lparr>idle_ticks := n'\<rparr>) = pending_of k" "pending_of (k\<lparr>kernel_ticks := n'\<rparr>) = pending_of k"
  "pending_of (k\<lparr>user_ticks := n'\<rparr>) = pending_of k" "pending_of (k\<lparr>ticks := i\<rparr>) = pending_of k"
  "pending_of (k\<lparr>wait_list := r\<rparr>) = pending_of k" "pending_of (k\<lparr>semas := sm\<rparr>) = pending_of k"
  by (simp_all add: pending_of_def fun_eq_iff)

lemma other_simps [simp]:
  "cur (upd_thread t f k) = cur k" "ready_list (upd_thread t f k) = ready_list k"
  "idle_thread (upd_thread t f k) = idle_thread k" "initial_thread (upd_thread t f k) = initial_thread k"
  "semas (upd_thread t f k) = semas k" "holder (upd_thread t f k) = holder k"
  "conds (upd_thread t f k) = conds k" "intr_on (upd_thread t f k) = intr_on k"
  "in_external_intr (upd_thread t f k) = in_external_intr k" "ticks (upd_thread t f k) = ticks k"
  "wait_list (upd_thread t f k) = wait_list k" "yield_on_return (upd_thread t f k) = yield_on_return k"
  "dom (threads (upd_thread t f k)) = dom (threads k)"
  by (auto simp: upd_thread_def split: if_splits)

lemmas to_upd_thread = set_status_def push_pending_def set_retval_def

lemma other_simps2 [simp]:
  "cur (upd_sema s g k) = cur k" "ready_list (upd_sema s g k) = ready_list k"
  "idle_thread (upd_sema s g k) = idle_thread k" "initial_thread (upd_sema s g k) = initial_thread k"
  "semas (upd_sema s g k) = (semas k)(s := g (semas k s))" "holder (upd_sema s g k) = holder k"
  "conds (upd_sema s g k) = conds k" "intr_on (upd_sema s g k) = intr_on k"
  "in_external_intr (upd_sema s g k) = in_external_intr k" "ticks (upd_sema s g k) = ticks k"
  "wait_list (upd_sema s g k) = wait_list k" "yield_on_return (upd_sema s g k) = yield_on_return k"
  "threads (upd_sema s g k) = threads k"
  by (simp_all add: upd_sema_def)

lemma other_simps3 [simp]:
  "cur (intr_disable k) = cur k" "ready_list (intr_disable k) = ready_list k"
  "idle_thread (intr_disable k) = idle_thread k" "initial_thread (intr_disable k) = initial_thread k"
  "semas (intr_disable k) = semas k" "holder (intr_disable k) = holder k"
  "conds (intr_disable k) = conds k" "intr_on (intr_disable k) = False"
  "in_external_intr (intr_disable k) = in_external_intr k" "ticks (intr_disable k) = ticks k"
  "wait_list (intr_disable k) = wait_list k" "yield_on_return (intr_disable k) = yield_on_return k"
  "threads (intr_disable k) = threads k"
  by (simp_all add: intr_disable_def)

lemma status_of_None: "status_of k t = None \<longleftrightarrow> threads k t = None"
  by (simp add: status_of_def)

lemma pending_Nil: "threads k t = None \<Longrightarrow> pending_of k t = []"
  by (simp add: pending_of_def)

lemma inv_listsD:
  assumes "inv_lists k"
  shows "distinct (ready_list k)" and "idle_thread k \<notin> set (ready_list k)"
    and "\<And>t. t \<in> set (ready_list k) \<Longrightarrow> status_of k t = Some THREAD_READY"
    and "\<And>t. status_of k t = Some THREAD_READY \<Longrightarrow> t \<in> set (ready_list k) \<or> t = idle_thread k"
    and "\<And>s. distinct (waiters (semas k s))"
    and "\<And>s t. t \<in> set (waiters (semas k s)) \<Longrightarrow> status_of k t = Some THREAD_BLOCKED"
    and "\<And>s t. t \<in> set (waiters (semas k s)) \<Longrightarrow> \<exists>b ps. pending_of k t = Sema_loop s b # ps"
    and "\<And>t. status_of k t = Some THREAD_BLOCKED \<Longrightarrow> (\<exists>s. t \<in> set (waiters (semas k s))) \<or> t = idle_thread k \<or>
      strip (pending_of k t) = []"
    and "status_of k (idle_thread k) \<noteq> None" and "status_of k (idle_thread k) \<noteq> Some THREAD_DYING"
    and "threads k NULL = None" and "finite (dom (threads k))"
    and "\<And>s. idle_thread k \<notin> set (waiters (semas k s))"
  using assms unfolding inv_lists_def by blast+

lemma inv_schedD:
  assumes "inv_sched k"
  shows "inv_lists k" and "status_of k (cur k) = Some THREAD_RUNNING"
    and "\<And>t. status_of k t = Some THREAD_RUNNING \<Longrightarrow> t = cur k"
    and "\<And>t. status_of k t = Some THREAD_DYING \<Longrightarrow> t = initial_thread k"
  using assms unfolding inv_sched_def by blast+

lemma NULL_no_thread: "inv_lists k \<Longrightarrow> status_of k t = Some x \<Longrightarrow> t \<noteq> NULL"
  using inv_listsD(11) [of k] by (auto simp: status_of_def intro!: gr0I)

section \<open>Switching threads\<close>

definition freed :: "kstate \<Rightarrow> ptr \<Rightarrow> bool" where
  "freed k t \<longleftrightarrow> t = cur k \<and> status_of k t = Some THREAD_DYING \<and> t \<noteq> initial_thread k"

definition next_of :: "kstate \<Rightarrow> ptr" where
  "next_of k = (case ready_list k of [] \<Rightarrow> idle_thread k | t # ts \<Rightarrow> t)"

definition switched :: "kstate \<Rightarrow> kstate" where
  "switched k = (let k1 = (set_status (next_of k) THREAD_RUNNING
       (k\<lparr>ready_list := tl (ready_list k), cur := next_of k\<rparr>))\<lparr>thread_ticks := 0\<rparr>
     in if freed k (cur k) then k1\<lparr>threads := (threads k1)(cur k := None)\<rparr> else k1)"

lemma next_of_cases:
  assumes "inv_lists k"
  obtains "ready_list k = []" "next_of k = idle_thread k"
  | ts where "ready_list k = next_of k # ts" "status_of k (next_of k) = Some THREAD_READY"
      "next_of k \<notin> set ts" "next_of k \<noteq> idle_thread k"
  using assms by (cases "ready_list k") (auto simp: inv_lists_def next_of_def)

lemma next_of_exists:
  assumes "inv_lists k"
  shows "is_thread k (next_of k)" and "status_of k (next_of k) \<noteq> Some THREAD_DYING"
    and "status_of k (next_of k) \<noteq> None"
proof -
  have "status_of k (next_of k) \<noteq> None \<and> status_of k (next_of k) \<noteq> Some THREAD_DYING"
    using assms by (rule next_of_cases) (use assms in \<open>auto simp: inv_lists_def\<close>)
  then show "status_of k (next_of k) \<noteq> Some THREAD_DYING" "status_of k (next_of k) \<noteq> None" by blast+
  then show "is_thread k (next_of k)"
    using assms by (auto simp: is_thread_def status_of_None inv_lists_def intro!: gr0I)
qed

lemma next_thread_to_run_eq:
  "next_thread_to_run k = (next_of k, k\<lparr>ready_list := tl (ready_list k)\<rparr>)"
  by (cases "ready_list k") (simp_all add: next_thread_to_run_def next_of_def)

lemma is_thread_cong: "threads k' = threads k \<Longrightarrow> is_thread k' t = is_thread k t"
  by (simp add: is_thread_def)

lemma schedule_eq:
  assumes "inv_pre k" and "\<not> intr_on k"
  shows "schedule k = Some (switched k)"
proof -
  have l: "inv_lists k" using assms(1) by (simp add: inv_pre_def)
  have n: "is_thread (k\<lparr>ready_list := tl (ready_list k)\<rparr>) (next_of k)"
    using next_of_exists(1) [OF l] by (simp add: is_thread_def)
  have c: "cur k \<noteq> NULL" if "status_of k (cur k) = Some THREAD_DYING"
    using NULL_no_thread [OF l that] .
  show ?thesis
  proof (cases "cur k = next_of k")
    case True
    then have "\<not> freed k (cur k)" using next_of_exists(2) [OF l] by (simp add: freed_def)
    then show ?thesis
      using True n assms
      by (auto simp: schedule_def next_thread_to_run_eq thread_schedule_tail_def switched_def inv_pre_def
          set_status_def upd_thread_def Let_def)
  next
    case False
    then show ?thesis
      using n assms c
      by (auto simp: schedule_def next_thread_to_run_eq thread_schedule_tail_def switched_def inv_pre_def
          freed_def set_status_def Let_def status_of_upd_thread)
  qed
qed

lemma switched_fields [simp]:
  "cur (switched k) = next_of k" "ready_list (switched k) = tl (ready_list k)"
  "idle_thread (switched k) = idle_thread k" "initial_thread (switched k) = initial_thread k"
  "semas (switched k) = semas k" "holder (switched k) = holder k" "conds (switched k) = conds k"
  "intr_on (switched k) = intr_on k" "in_external_intr (switched k) = in_external_intr k"
  "ticks (switched k) = ticks k" "wait_list (switched k) = wait_list k"
  by (simp_all add: switched_def Let_def set_status_def)

lemma switched_status:
  assumes "inv_lists k"
  shows "status_of (switched k) t =
    (if freed k t then None else if t = next_of k then Some THREAD_RUNNING else status_of k t)"
proof -
  have "\<exists>x. threads k (next_of k) = Some x" using next_of_exists(3) [OF assms] by (auto simp: status_of_def)
  then show ?thesis
    using next_of_exists(2) [OF assms]
    by (auto simp: switched_def Let_def freed_def status_of_def set_status_def upd_thread_def)
qed

lemma switched_pending: "pending_of (switched k) t = (if freed k t then [] else pending_of k t)"
  by (auto simp: switched_def Let_def freed_def pending_of_def set_status_def upd_thread_def split: option.split)

lemma switched_wakeup: "\<not> freed k t \<Longrightarrow> wakeup_of (switched k) t = wakeup_of k t"
  by (auto simp: switched_def Let_def freed_def wakeup_of_def set_status_def upd_thread_def split: option.split)

lemma switched_dom: "dom (threads (switched k)) \<subseteq> dom (threads k)"
  by (auto simp: switched_def Let_def set_status_def upd_thread_def split: if_splits)

lemma switched_inv:
  assumes pre: "inv_pre k"
  shows "inv_sched (switched k)"
proof -
  have l: "inv_lists k" using pre by (simp add: inv_pre_def)
  note st = switched_status [OF l]
  have nf: "\<not> freed k t" if "status_of k t \<noteq> Some THREAD_DYING" for t using that by (simp add: freed_def)
  have nn: "\<not> freed k (next_of k)" using next_of_exists(2) [OF l] nf by blast
  have ready: "distinct (tl (ready_list k))" "idle_thread k \<notin> set (tl (ready_list k))"
    "\<And>t. t \<in> set (tl (ready_list k)) \<Longrightarrow> t \<noteq> next_of k \<and> status_of k t = Some THREAD_READY"
    "\<And>t. t \<in> set (ready_list k) \<Longrightarrow> t = next_of k \<or> t \<in> set (tl (ready_list k))"
    using inv_listsD(1-3) [OF l] by (cases "ready_list k"; auto simp: next_of_def)+
  have nw: "t \<noteq> next_of k" if "t \<in> set (waiters (semas k s))" for s t
    using l by (rule next_of_cases) (use that inv_listsD(6,13) [OF l] in fastforce)+
  have dm: "threads (switched k) NULL = None" "finite (dom (threads (switched k)))"
    using switched_dom [of k] inv_listsD(11,12) [OF l] finite_subset by auto
  have "inv_lists (switched k)"
    unfolding inv_lists_def switched_fields
  proof (intro conjI allI ballI impI)
    show "distinct (tl (ready_list k))" "idle_thread k \<notin> set (tl (ready_list k))" by (rule ready)+
    show "status_of (switched k) t = Some THREAD_READY" if "t \<in> set (tl (ready_list k))" for t
      using ready(3) [OF that] nf st by simp
    show "t \<in> set (tl (ready_list k)) \<or> t = idle_thread k" if "status_of (switched k) t = Some THREAD_READY" for t
      using that inv_listsD(4) [OF l, of t] ready(4) st by (auto split: if_splits)
    show "distinct (waiters (semas k s))" for s using inv_listsD(5) [OF l] .
    show "status_of (switched k) t = Some THREAD_BLOCKED" "\<exists>b ps. pending_of (switched k) t = Sema_loop s b # ps"
      if "t \<in> set (waiters (semas k s))" for s t
      using inv_listsD(6,7) [OF l that] nf nw [OF that] st by (simp_all add: switched_pending)
    show "(\<exists>s. t \<in> set (waiters (semas k s))) \<or> t = idle_thread k \<or> strip (pending_of (switched k) t) = []"
      if "status_of (switched k) t = Some THREAD_BLOCKED" for t
      using that inv_listsD(8) [OF l, of t] st by (auto simp: switched_pending split: if_splits)
  qed (use inv_listsD(9,10,13) [OF l] dm in \<open>auto simp: st nf nn\<close>)
  moreover have "status_of (switched k) (next_of k) = Some THREAD_RUNNING" using st nn by simp
  ultimately show ?thesis
    using pre st by (auto simp: inv_sched_def inv_pre_def freed_def split: if_splits)
qed

section \<open>The initial state\<close>

lemma booted_kinv:
  assumes "m \<noteq> NULL" and "i \<noteq> NULL" and "m \<noteq> i"
  shows "kinv (booted m i v)"
proof -
  let ?k = "booted m i v"
  have st: "status_of ?k t = (if t = m then Some THREAD_RUNNING else if t = i then Some THREAD_BLOCKED else None)" for t
    using assms by (simp add: status_of_def booted_def)
  have pd: "pending_of ?k t = (if t = i then [Iret, Idle_loop] else [])" for t
    using assms by (simp add: pending_of_def booted_def)
  have f: "ready_list ?k = []" "cur ?k = m" "idle_thread ?k = i" "wait_list ?k = []" "holder ?k = (\<lambda>_. NULL)"
    "intr_on ?k" "\<not> in_external_intr ?k" "waiters (semas ?k s) = []" "sval (semas ?k (Of_lock l)) = 1"
    "sval (semas ?k (Of_timer t)) = 0" for s l t
    by (simp_all add: booted_def split: sema_id.split)
  have th: "threads ?k NULL = None" "finite (dom (threads ?k))" using assms by (simp_all add: booted_def)
  have "inv_sched ?k" using assms th by (auto simp: inv_sched_def inv_lists_def st f split: if_splits)
  moreover have "inv_pend ?k" "inv_new ?k" "inv_locks ?k"
    using assms by (auto simp: inv_pend_def inv_new_def inv_locks_def pd st f locks_of_def strip_def in_loop_def owns_def claims_def
        split: if_splits)
  moreover have "inv_level ?k"
    using assms by (auto simp: inv_level_def has_frame_def pd f in_loop_def st)
  moreover have "inv_timer ?k" "inv_wake ?k"
    by (auto simp: inv_timer_def inv_wake_def pd f sleeps_def strip_def)
  ultimately show ?thesis by (simp add: kinv_def)
qed

section \<open>Steps that do not schedule\<close>

text \<open>
  The running thread changes its own pending statements and data, but no thread
  changes its status or moves between lists.
\<close>

definition same_sched :: "kstate \<Rightarrow> kstate \<Rightarrow> bool" where
  "same_sched k k' \<longleftrightarrow> status_of k' = status_of k \<and> ready_list k' = ready_list k \<and> cur k' = cur k \<and>
     idle_thread k' = idle_thread k \<and> initial_thread k' = initial_thread k \<and>
     (\<forall>s. waiters (semas k' s) = waiters (semas k s)) \<and>
     (\<forall>t. t \<noteq> cur k \<longrightarrow> pending_of k' t = pending_of k t)"

lemma dom_status_of: "dom (threads k) = {t. status_of k t \<noteq> None}"
  by (auto simp: status_of_def)

lemma inv_sched_local:
  assumes i: "inv_sched k" and s: "same_sched k k'"
  shows "inv_sched k'"
proof -
  have l: "inv_lists k" using i by (simp add: inv_sched_def)
  have nc: "t \<noteq> cur k" if "t \<in> set (waiters (semas k x))" for t x
    using inv_listsD(6) [OF l that] inv_schedD(2) [OF i] by auto
  have e: "status_of k' = status_of k" "ready_list k' = ready_list k" "cur k' = cur k"
    "idle_thread k' = idle_thread k" "initial_thread k' = initial_thread k"
    "\<And>s. waiters (semas k' s) = waiters (semas k s)"
    using s by (simp_all add: same_sched_def)
  have p: "pending_of k' t = pending_of k t" if "t \<in> set (waiters (semas k x))" for t x
    using s nc [OF that] by (simp add: same_sched_def)
  have d: "dom (threads k') = dom (threads k)" by (simp add: dom_status_of e)
  then have t: "threads k' NULL = None" "finite (dom (threads k'))"
    using inv_listsD(11,12) [OF l] by (metis domIff, simp)
  have "inv_lists k'"
    unfolding inv_lists_def e
  proof (intro conjI allI ballI impI)
    show "\<exists>b ps. pending_of k' u = Sema_loop x b # ps" if "u \<in> set (waiters (semas k x))" for x u
      using inv_listsD(7) [OF l that] p [OF that] by simp
    show "(\<exists>x. u \<in> set (waiters (semas k x))) \<or> u = idle_thread k \<or> strip (pending_of k' u) = []"
      if b: "status_of k u = Some THREAD_BLOCKED" for u
    proof -
      have "u \<noteq> cur k" using b inv_schedD(2) [OF i] by auto
      then show ?thesis using inv_listsD(8) [OF l b] s by (simp add: same_sched_def)
    qed
  qed (use inv_listsD [OF l] t in \<open>blast+\<close>)
  then show ?thesis using i unfolding inv_sched_def e by blast
qed


lemma same_sched_threads: "same_sched k k' \<Longrightarrow> threads k' t = None \<longleftrightarrow> threads k t = None"
  by (simp add: same_sched_def flip: status_of_None)

lemma cur_exists: "inv_sched k \<Longrightarrow> \<exists>x. threads k (cur k) = Some x \<and> status x = THREAD_RUNNING"
  using inv_schedD(2) [of k] by (auto simp: status_of_def)

lemma cur_not_NULL: "inv_sched k \<Longrightarrow> cur k \<noteq> NULL"
  using NULL_no_thread [OF inv_schedD(1,2)] .

text \<open>Only the running thread's locks and statements change.\<close>

definition same_holders :: "kstate \<Rightarrow> kstate \<Rightarrow> bool" where
  "same_holders k k' \<longleftrightarrow> (\<forall>t l. t \<noteq> NULL \<longrightarrow> t \<noteq> cur k \<longrightarrow> (holder k' l = t \<longleftrightarrow> holder k l = t))"

lemma same_holdersI:
  "(\<And>l. holder k' l \<noteq> holder k l \<Longrightarrow> holder k' l \<in> {NULL, cur k} \<and> holder k l \<in> {NULL, cur k}) \<Longrightarrow> same_holders k k'"
  unfolding same_holders_def by (metis insertE singletonD)

lemma inv_pend_local:
  assumes sch: "inv_sched k" and i: "inv_pend k" and s: "same_sched k k'" and h: "same_holders k k'"
    and c: "cur k \<noteq> idle_thread k \<Longrightarrow> begun_ok (cur k) (locks_of k' (cur k)) (strip (pending_of k' (cur k)))"
    and d: "cur k = idle_thread k \<Longrightarrow> strip (pending_of k' (cur k)) = [Idle_loop] \<and> locks_of k' (cur k) = {}"
    and e: "\<And>x. in_loop x (strip (pending_of k' (cur k))) \<Longrightarrow> strip (pending_of k' (cur k)) = pending_of k' (cur k)"
  shows "inv_pend k'"
proof -
  have eq: "idle_thread k' = idle_thread k" and p: "\<And>t. t \<noteq> cur k \<Longrightarrow> pending_of k' t = pending_of k t"
    using s by (simp_all add: same_sched_def)
  have lk: "locks_of k' t = locks_of k t" if "t \<noteq> NULL" "t \<noteq> cur k" for t
    using h that by (simp add: same_holders_def locks_of_def)
  have idle: "idle_thread k \<noteq> NULL"
    using inv_listsD(9,11) [OF inv_schedD(1) [OF sch]] by (metis status_of_None)
  have old: "t \<noteq> NULL \<Longrightarrow> t \<noteq> idle_thread k \<Longrightarrow> begun_ok t (locks_of k t) (strip (pending_of k t))"
      "strip (pending_of k (idle_thread k)) = [Idle_loop]" "locks_of k (idle_thread k) = {}"
      "in_loop x (strip (pending_of k t)) \<Longrightarrow> strip (pending_of k t) = pending_of k t"
      "holder k l \<noteq> NULL \<Longrightarrow> threads k (holder k l) \<noteq> None" for t x l
    using i unfolding inv_pend_def by blast+
  show ?thesis
    unfolding inv_pend_def eq
  proof (intro conjI allI impI)
    show "begun_ok t (locks_of k' t) (strip (pending_of k' t))" if "t \<noteq> NULL" "t \<noteq> idle_thread k" for t
      using c old(1) [OF that] that lk p by (cases "t = cur k") simp_all
    show "strip (pending_of k' (idle_thread k)) = [Idle_loop]" "locks_of k' (idle_thread k) = {}"
      using d old(2,3) idle lk p by (cases "idle_thread k = cur k"; simp)+
    show "strip (pending_of k' t) = pending_of k' t" if "in_loop x (strip (pending_of k' t))" for t x
      using that e old(4) p by (cases "t = cur k") auto
    show "threads k' (holder k' l) \<noteq> None" if "holder k' l \<noteq> NULL" for l
    proof (cases "holder k' l = cur k")
      case True
      then show ?thesis using cur_exists [OF sch] same_sched_threads [OF s] by auto
    next
      case False
      then have "holder k l = holder k' l" using h that by (auto simp: same_holders_def)
      then show ?thesis using old(5) [of l] that same_sched_threads [OF s] by simp
    qed
  qed
qed

lemma inv_locks_change:
  assumes i: "inv_locks k" and o: "\<And>t l. t \<noteq> c \<Longrightarrow> owns k' t l = owns k t l"
    and v: "\<And>l. sval (semas k' (Of_lock l)) + (if owns k' c l then 1 else 0) =
              sval (semas k (Of_lock l)) + (if owns k c l then 1 else 0)"
  shows "inv_locks k'"
  unfolding inv_locks_def
proof
  fix l
  from i consider "sval (semas k (Of_lock l)) = 1" "\<forall>t. \<not> owns k t l"
    | u where "sval (semas k (Of_lock l)) = 0" "owns k u l" "\<forall>t. owns k t l \<longrightarrow> t = u"
    unfolding inv_locks_def by metis
  then show "(sval (semas k' (Of_lock l)) = 1 \<and> (\<forall>t. \<not> owns k' t l)) \<or>
      (sval (semas k' (Of_lock l)) = 0 \<and> (\<exists>!t. owns k' t l))"
  proof cases
    case 1
    then have n: "\<not> owns k' t l" if "t \<noteq> c" for t using o [OF that] by simp
    show ?thesis
    proof (cases "owns k' c l")
      case True
      then have "sval (semas k' (Of_lock l)) = 0" using v [of l] 1 by simp
      moreover have "\<exists>!t. owns k' t l" using True n by (intro ex1I [of _ c]) auto
      ultimately show ?thesis by simp
    next
      case False
      then have "sval (semas k' (Of_lock l)) = 1" using v [of l] 1 by simp
      moreover have "\<forall>t. \<not> owns k' t l" using False n by metis
      ultimately show ?thesis by blast
    qed
  next
    case (2 u)
    have n: "t = u" if "t \<noteq> c" "owns k' t l" for t using o [OF that(1), of l] that(2) 2(3) by blast
    show ?thesis
    proof (cases "u = c")
      case True
      show ?thesis
      proof (cases "owns k' c l")
        case own: True
        then have "sval (semas k' (Of_lock l)) = 0" using v [of l] 2(1,2) True by simp
        moreover have "\<exists>!t. owns k' t l" using own n True by (intro ex1I [of _ c]) auto
        ultimately show ?thesis by simp
      next
        case own: False
        then have "sval (semas k' (Of_lock l)) = 1" using v [of l] 2(1,2) True by simp
        moreover have "\<forall>t. \<not> owns k' t l" using own n True by metis
        ultimately show ?thesis by blast
      qed
    next
      case False
      then have "\<not> owns k c l" using 2(3) by blast
      then have "sval (semas k' (Of_lock l)) = 0" "\<not> owns k' c l" using v [of l] 2(1) by (auto split: if_splits)
      moreover have "owns k' u l" using o [OF False, of l] 2(2) by simp
      moreover have "t = u" if "owns k' t l" for t
        using n [of t] that \<open>\<not> owns k' c l\<close> by (cases "t = c") simp_all
      ultimately have "\<exists>!t. owns k' t l" by (intro ex1I [of _ u])
      then show ?thesis using \<open>sval (semas k' (Of_lock l)) = 0\<close> by simp
    qed
  qed
qed

lemma owns_local:
  assumes "inv_sched k" and "same_sched k k'" and "same_holders k k'" and "t \<noteq> cur k"
  shows "owns k' t l = owns k t l"
  using assms by (auto simp: owns_def same_sched_def same_holders_def)

lemma inv_level_local:
  assumes "inv_level k" and "same_sched k k'" and "\<not> in_external_intr k'"
    and "final_level (intr_on k') (pending_of k' (cur k))"
    and "\<And>s. in_loop s (pending_of k' (cur k)) \<Longrightarrow> \<not> intr_on k'"
  shows "inv_level k'"
  using assms unfolding inv_level_def same_sched_def has_frame_def by auto

lemma inv_timer_local:
  assumes "inv_timer k" and "same_sched k k'" and "wait_list k' = wait_list k" and "ticks k' = ticks k"
    and "\<And>t. wakeup_of k' t = wakeup_of k t"
    and "\<And>t. t \<noteq> cur k \<Longrightarrow> sval (semas k' (Of_timer t)) = sval (semas k (Of_timer t))"
    and "sval (semas k' (Of_timer (cur k))) + (if sleeps (cur k) (pending_of k (cur k)) then 1 else 0) =
         sval (semas k (Of_timer (cur k))) + (if sleeps (cur k) (pending_of k' (cur k)) then 1 else 0)"
    and "sval (semas k' (Of_timer (cur k))) \<le> sval (semas k (Of_timer (cur k)))"
  shows "inv_timer k'"
proof -
  have w: "wakeup_of k' = wakeup_of k" using assms(5) by auto
  have "sval (semas k' (Of_timer t)) + (if t \<in> set (wait_list k) then 1 else 0) =
      (if sleeps t (pending_of k' t) then 1 else 0)" for t
  proof -
    have "sval (semas k (Of_timer t)) + (if t \<in> set (wait_list k) then 1 else 0) =
        (if sleeps t (pending_of k t) then 1 else 0)"
      using assms(1) by (simp add: inv_timer_def)
    then show ?thesis
      using assms(2,6,7) by (cases "t = cur k") (auto simp: same_sched_def split: if_splits)
  qed
  moreover have "0 < sval (semas k' (Of_timer t)) \<longrightarrow> wakeup_of k t \<le> ticks k" for t
    using assms(1,6,8) by (cases "t = cur k") (auto simp: inv_timer_def)
  ultimately show ?thesis using assms(1,3,4) w by (simp add: inv_timer_def)
qed

lemma woken_local:
  assumes "inv_sched k" and "same_sched k k'"
  shows "woken k' s - {cur k} = woken k s - {cur k}"
    and "cur k \<in> woken k s \<longleftrightarrow> in_loop s (pending_of k (cur k))"
    and "cur k \<in> woken k' s \<longleftrightarrow> in_loop s (pending_of k' (cur k))"
    and "finite (woken k s)"
proof -
  show "woken k' s - {cur k} = woken k s - {cur k}"
    using assms(2) by (auto simp: woken_def same_sched_def)
  show "cur k \<in> woken k s \<longleftrightarrow> in_loop s (pending_of k (cur k))"
    "cur k \<in> woken k' s \<longleftrightarrow> in_loop s (pending_of k' (cur k))"
    using assms(2) inv_schedD(2) [OF assms(1)] by (auto simp: woken_def same_sched_def)
  have "woken k s \<subseteq> dom (threads k)" by (auto simp: woken_def status_of_def)
  then show "finite (woken k s)"
    using inv_listsD(12) [OF inv_schedD(1) [OF assms(1)]] finite_subset by blast
qed

lemma card_diff1: "finite A \<Longrightarrow> card A = card (A - {c}) + (if c \<in> A then 1 else 0)"
  using card_Suc_Diff1 [of A c] by auto

lemma inv_wake_local:
  assumes sch: "inv_sched k" and i: "inv_wake k" and s: "same_sched k k'"
    and v: "\<And>s. waiters (semas k s) \<noteq> [] \<Longrightarrow>
       sval (semas k' s) + (if in_loop s (pending_of k (cur k)) then 1 else 0) \<le>
       sval (semas k s) + (if in_loop s (pending_of k' (cur k)) then 1 else 0)"
  shows "inv_wake k'"
  unfolding inv_wake_def
proof (intro allI impI)
  fix x assume w: "waiters (semas k' x) \<noteq> []"
  then have wk: "waiters (semas k x) \<noteq> []" using s by (simp add: same_sched_def)
  note wl = woken_local [OF sch s, of x]
  have "finite (woken k' x)" using wl(1,4) by (metis finite.emptyI finite_Diff2 finite.insertI)
  then have "card (woken k' x) = card (woken k x - {cur k}) + (if in_loop x (pending_of k' (cur k)) then 1 else 0)"
    using card_diff1 [of "woken k' x" "cur k"] wl(1,3) by simp
  moreover have "card (woken k x) = card (woken k x - {cur k}) + (if in_loop x (pending_of k (cur k)) then 1 else 0)"
    using card_diff1 [of "woken k x" "cur k"] wl(2,4) by simp
  moreover have "sval (semas k x) \<le> card (woken k x)" using i wk by (simp add: inv_wake_def)
  ultimately show "sval (semas k' x) \<le> card (woken k' x)" using v [OF wk] by linarith
qed

end
