(* ===== verification/Threads_Steps.thy ===== *)
theory Threads_Steps
  imports Threads_Inv
begin

text \<open>
  Steps of the running thread that do not schedule, one lemma per statement: the
  operation succeeds and keeps the invariant. Here: the parts of \<open>sema_down\<close>, of
  \<open>lock_acquire\<close>, and the restoration of interrupt levels.
\<close>

section \<open>Rests of operations\<close>

lemma strip_simps [simp]:
  "strip [] = []" "strip (Set_level b # ps) = strip ps" "strip (Iret # ps) = strip ps"
  "\<not> is_frame s \<Longrightarrow> strip (s # ps) = s # ps"
  by (simp_all add: strip_def)

lemma strip_strip [simp]: "strip (strip ps) = strip ps"
  by (simp add: strip_def)

lemma rest_ok_strip: "rest_ok t H ps \<Longrightarrow> strip ps = ps"
  by (cases "(t, H, ps)" rule: rest_ok.cases) auto

lemma rest_ok_begun: "rest_ok t H ps \<Longrightarrow> begun_ok t H ps"
  by (cases "(t, H, ps)" rule: rest_ok.cases) auto

lemma rest_ok_quiet:
  assumes "rest_ok t H ps"
  shows "\<not> claims l ps" and "\<not> sleeps t ps" and "\<not> in_loop s ps"
  using assms rest_ok_strip [OF assms]
  by (cases "(t, H, ps)" rule: rest_ok.cases; auto simp: claims_def sleeps_def in_loop_def)+

lemma rest_ok_level: "rest_ok t H ps \<Longrightarrow> final_level b ps = b"
  by (induction t H ps rule: rest_ok.induct) auto

lemma strip_nonframe: "strip ps = q # qs \<Longrightarrow> \<not> is_frame q"
  unfolding strip_def by (metis hd_dropWhile list.distinct(1) list.sel(1))

lemma claims_simps [simp]:
  "\<not> claims l []" "claims l (Set_level b # ps) = claims l ps" "claims l (Iret # ps) = claims l ps"
  "claims l (Set_holder l' # ps) = (l = l')" "claims l (Sema_up s # ps) = (s = Of_lock l)"
  "\<not> claims l (Sema_down s # ps)" "\<not> claims l (Sema_loop s b # ps)" "\<not> claims l (Lock_acquire l' # ps)"
  "\<not> claims l (Lock_release l' # ps)" "\<not> claims l (Cond_signal c l' # ps)" "\<not> claims l (Cond_broadcast c l' # ps)"
  "\<not> claims l (Timer_wait # ps)" "\<not> claims l (Alloc_tid # ps)" "\<not> claims l (Init_thread u nm p # ps)"
  "\<not> claims l (Setup_stack u # ps)" "\<not> claims l (Unblock_thread u # ps)" "\<not> claims l (Idle_loop # ps)"
  by (auto simp: claims_def)

lemma sleeps_simps [simp]:
  "\<not> sleeps t []" "sleeps t (Set_level b # ps) = sleeps t ps" "sleeps t (Iret # ps) = sleeps t ps"
  "sleeps t (Sema_down s # ps) = (s = Of_timer t)" "sleeps t (Sema_loop s b # ps) = (s = Of_timer t)"
  "\<not> sleeps t (Set_holder l # ps)" "\<not> sleeps t (Sema_up s # ps)" "\<not> sleeps t (Lock_acquire l # ps)"
  "\<not> sleeps t (Lock_release l # ps)" "\<not> sleeps t (Cond_signal c l # ps)" "\<not> sleeps t (Cond_broadcast c l # ps)"
  "\<not> sleeps t (Timer_wait # ps)" "\<not> sleeps t (Alloc_tid # ps)" "\<not> sleeps t (Init_thread u nm p # ps)"
  "\<not> sleeps t (Setup_stack u # ps)" "\<not> sleeps t (Unblock_thread u # ps)" "\<not> sleeps t (Idle_loop # ps)"
  by (auto simp: sleeps_def)

lemma in_loop_simps [simp]:
  "\<not> in_loop s []" "in_loop s (Sema_loop s' b # ps) = (s = s')"
  "\<not> in_loop s (Set_level b # ps)" "\<not> in_loop s (Iret # ps)" "\<not> in_loop s (Sema_down s' # ps)"
  "\<not> in_loop s (Set_holder l # ps)" "\<not> in_loop s (Sema_up s' # ps)" "\<not> in_loop s (Lock_acquire l # ps)"
  "\<not> in_loop s (Lock_release l # ps)" "\<not> in_loop s (Cond_signal c l # ps)" "\<not> in_loop s (Cond_broadcast c l # ps)"
  "\<not> in_loop s (Timer_wait # ps)" "\<not> in_loop s (Alloc_tid # ps)" "\<not> in_loop s (Init_thread u nm p # ps)"
  "\<not> in_loop s (Setup_stack u # ps)" "\<not> in_loop s (Unblock_thread u # ps)" "\<not> in_loop s (Idle_loop # ps)"
  by (auto simp: in_loop_def)

section \<open>One statement of the running thread\<close>

definition popped :: "stmt list \<Rightarrow> kstate \<Rightarrow> kstate" where
  "popped ss k = upd_thread (cur k) (pending_update (\<lambda>_. ss)) k"

definition at_stmt :: "kstate \<Rightarrow> stmt \<Rightarrow> stmt list \<Rightarrow> bool" where
  "at_stmt k st ss \<longleftrightarrow> kinv k \<and>
     (pending_of k (cur k) = st # ss \<or> (pending_of k (cur k) = [] \<and> ss = [] \<and> may_call k st))"

lemma kinvD:
  assumes "kinv k"
  shows "inv_sched k" "inv_pend k" "inv_new k" "inv_locks k" "inv_level k" "inv_timer k" "inv_wake k"
  using assms by (simp_all add: kinv_def)

lemma popped_id: "pending_of k (cur k) = [] \<Longrightarrow> popped [] k = k"
  by (cases "threads k (cur k)") (auto simp: popped_def upd_thread_def pending_of_def fun_upd_idem)

lemma popped_fields [simp]:
  "cur (popped ss k) = cur k" "ready_list (popped ss k) = ready_list k"
  "idle_thread (popped ss k) = idle_thread k" "initial_thread (popped ss k) = initial_thread k"
  "semas (popped ss k) = semas k" "holder (popped ss k) = holder k" "conds (popped ss k) = conds k"
  "intr_on (popped ss k) = intr_on k" "in_external_intr (popped ss k) = in_external_intr k"
  "ticks (popped ss k) = ticks k" "wait_list (popped ss k) = wait_list k" "status_of (popped ss k) = status_of k"
  by (simp_all add: popped_def)

lemma popped_pending:
  "inv_sched k \<Longrightarrow> pending_of (popped ss k) t = (if t = cur k then ss else pending_of k t)"
  using cur_exists [of k] by (auto simp: popped_def pending_of_upd_thread)

lemma threads_None: "threads (upd_thread t f k) u = None \<longleftrightarrow> threads k u = None"
  by (simp add: upd_thread_def)

lemma thread_current_eq:
  assumes "inv_sched k" and "cur k' = cur k" and "status_of k' (cur k) = status_of k (cur k)"
  shows "thread_current k' = Some (cur k)"
proof -
  have "threads k' (cur k) \<noteq> None" using assms(3) inv_schedD(2) [OF assms(1)] by (auto simp: status_of_def)
  then show ?thesis
    using assms inv_schedD(2) [OF assms(1)] cur_not_NULL [OF assms(1)]
    by (simp add: thread_current_def is_thread_def)
qed

lemma push_pending_cur:
  assumes "inv_sched k" and "cur k' = cur k" and "status_of k' (cur k) = status_of k (cur k)"
  shows "pending_of (push_pending ps k') t = (if t = cur k then ps @ pending_of k' t else pending_of k' t)"
proof -
  have "threads k' (cur k) \<noteq> None" using assms(3) inv_schedD(2) [OF assms(1)] by (auto simp: status_of_def)
  then show ?thesis using assms(2) by (simp add: pending_of_push)
qed

lemma push_fields [simp]:
  "cur (push_pending ps k) = cur k" "ready_list (push_pending ps k) = ready_list k"
  "idle_thread (push_pending ps k) = idle_thread k" "initial_thread (push_pending ps k) = initial_thread k"
  "semas (push_pending ps k) = semas k" "holder (push_pending ps k) = holder k" "conds (push_pending ps k) = conds k"
  "intr_on (push_pending ps k) = intr_on k" "in_external_intr (push_pending ps k) = in_external_intr k"
  "ticks (push_pending ps k) = ticks k" "wait_list (push_pending ps k) = wait_list k"
  "cur (set_retval v k) = cur k" "ready_list (set_retval v k) = ready_list k"
  "idle_thread (set_retval v k) = idle_thread k" "initial_thread (set_retval v k) = initial_thread k"
  "semas (set_retval v k) = semas k" "holder (set_retval v k) = holder k" "conds (set_retval v k) = conds k"
  "intr_on (set_retval v k) = intr_on k" "in_external_intr (set_retval v k) = in_external_intr k"
  "ticks (set_retval v k) = ticks k" "wait_list (set_retval v k) = wait_list k"
  "cur (set_status t x k) = cur k" "ready_list (set_status t x k) = ready_list k"
  "idle_thread (set_status t x k) = idle_thread k" "initial_thread (set_status t x k) = initial_thread k"
  "semas (set_status t x k) = semas k" "holder (set_status t x k) = holder k" "conds (set_status t x k) = conds k"
  "intr_on (set_status t x k) = intr_on k" "in_external_intr (set_status t x k) = in_external_intr k"
  "ticks (set_status t x k) = ticks k" "wait_list (set_status t x k) = wait_list k"
  by (simp_all add: to_upd_thread)

lemma wakeup_simps [simp]:
  "wakeup_of (popped ss k) = wakeup_of k" "wakeup_of (push_pending ps k) = wakeup_of k"
  "wakeup_of (set_retval v k) = wakeup_of k" "wakeup_of (set_status t x k) = wakeup_of k"
  "wakeup_of (upd_sema s g k) = wakeup_of k" "wakeup_of (intr_disable k) = wakeup_of k"
  "wakeup_of (k\<lparr>intr_on := b\<rparr>) = wakeup_of k" "wakeup_of (k\<lparr>holder := h\<rparr>) = wakeup_of k"
  "wakeup_of (k\<lparr>conds := cs\<rparr>) = wakeup_of k" "wakeup_of (k\<lparr>next_tid := n\<rparr>) = wakeup_of k"
  "wakeup_of (k\<lparr>ready_list := r\<rparr>) = wakeup_of k" "wakeup_of (k\<lparr>wait_list := r\<rparr>) = wakeup_of k"
  "wakeup_of (k\<lparr>all_list := r\<rparr>) = wakeup_of k"
  "wakeup_of (upd_thread t (priority_update q) k) = wakeup_of k"
  by (auto simp: wakeup_of_def popped_def to_upd_thread upd_thread_def upd_sema_def intr_disable_def
      fun_eq_iff split: option.split)

lemma inv_newD:
  assumes "inv_new k" and "makes (pending_of k t) = Some (u, n)"
  shows "u \<noteq> NULL" "phase_ok k u n" "makes (pending_of k t') = Some (u, n') \<Longrightarrow> t' = t"
  using assms unfolding inv_new_def by blast+

lemma inv_new_creator:
  "inv_new k \<Longrightarrow> status_of k u = Some THREAD_BLOCKED \<Longrightarrow> strip (pending_of k u) = [] \<Longrightarrow>
   \<exists>t n. makes (pending_of k t) = Some (u, n)"
  unfolding inv_new_def by blast

lemma phase_ok_new: "phase_ok k u n \<Longrightarrow> status_of k u \<in> {None, Some THREAD_BLOCKED} \<and> strip (pending_of k u) = []"
  by (cases n) (simp_all add: status_of_None pending_Nil)

text \<open>
  No thread starts or goes on with the creation of a thread, and the new threads do
  not change.
\<close>

lemma inv_new_same:
  assumes i: "inv_new k" and m: "\<And>t. makes (pending_of k' t) = makes (pending_of k t)"
    and o: "\<And>t n. phase_ok k t n \<Longrightarrow> status_of k' t = status_of k t \<and> pending_of k' t = pending_of k t"
    and b: "\<And>t. status_of k' t = Some THREAD_BLOCKED \<Longrightarrow> strip (pending_of k' t) = [] \<Longrightarrow>
      status_of k t = Some THREAD_BLOCKED \<and> strip (pending_of k t) = []"
  shows "inv_new k'"
proof -
  have "phase_ok k' t n" if "phase_ok k t n" for t n
    using that o [OF that] by (cases n) (simp_all flip: status_of_None)
  then show ?thesis using i b unfolding inv_new_def m by blast
qed

lemma inv_new_local:
  assumes r: "inv_sched k" and i: "inv_new k" and s: "same_sched k k'"
    and n: "makes (pending_of k' (cur k)) = makes (pending_of k (cur k))"
  shows "inv_new k'"
proof (rule inv_new_same [OF i])
  have c: "t \<noteq> cur k" if "status_of k t \<noteq> Some THREAD_RUNNING" for t using that inv_schedD(2) [OF r] by blast
  have f: "status_of k' = status_of k" "t \<noteq> cur k \<Longrightarrow> pending_of k' t = pending_of k t" for t
    using s by (simp_all add: same_sched_def)
  show "makes (pending_of k' t) = makes (pending_of k t)" for t using n f by (cases "t = cur k") simp_all
  show "status_of k' t = status_of k t \<and> pending_of k' t = pending_of k t" if "phase_ok k t n" for t n
  proof -
    have "t \<noteq> cur k" using phase_ok_new [OF that] by (intro c) auto
    then show ?thesis using f by simp
  qed
  show "status_of k t = Some THREAD_BLOCKED \<and> strip (pending_of k t) = []"
    if "status_of k' t = Some THREAD_BLOCKED" "strip (pending_of k' t) = []" for t
  proof -
    have "t \<noteq> cur k" by (rule c) (use that(1) f(1) in simp)
    then show ?thesis using that f by simp
  qed
qed

text \<open>The invariant without the interrupt level, as it holds while an interrupt is handled.\<close>

definition core :: "kstate \<Rightarrow> bool" where
  "core k \<longleftrightarrow> inv_sched k \<and> inv_pend k \<and> inv_new k \<and> inv_locks k \<and> inv_timer k \<and> inv_wake k"

lemma coreD:
  assumes "core k"
  shows "inv_sched k" "inv_pend k" "inv_new k" "inv_locks k" "inv_timer k" "inv_wake k"
  using assms by (simp_all add: core_def)

lemma kinv_core: "kinv k \<longleftrightarrow> core k \<and> inv_level k"
  unfolding kinv_def core_def by blast

lemma core_local:
  assumes k: "core k" and s: "same_sched k k'" and h: "same_holders k k'"
    and b: "cur k \<noteq> idle_thread k \<Longrightarrow> begun_ok (cur k) (locks_of k' (cur k)) (strip (pending_of k' (cur k)))"
    and d: "cur k = idle_thread k \<Longrightarrow> strip (pending_of k' (cur k)) = [Idle_loop] \<and> locks_of k' (cur k) = {}"
    and e: "\<And>y. in_loop y (strip (pending_of k' (cur k))) \<Longrightarrow> strip (pending_of k' (cur k)) = pending_of k' (cur k)"
    and n: "inv_new k'"
    and v: "\<And>l. sval (semas k' (Of_lock l)) + (if owns k' (cur k) l then 1 else 0) =
      sval (semas k (Of_lock l)) + (if owns k (cur k) l then 1 else 0)"
    and t: "inv_timer k'" and w: "inv_wake k'"
  shows "core k'"
proof -
  note i = coreD [OF k]
  have "inv_pend k'" by (rule inv_pend_local [OF i(1,2) s h]) (use b d e in blast)+
  moreover have "inv_locks k'" by (rule inv_locks_change [OF i(4)]) (use owns_local [OF i(1) s h] v in blast)+
  ultimately show ?thesis using inv_sched_local [OF i(1) s] n t w unfolding core_def by blast
qed

lemma kinv_local:
  assumes k: "kinv k" and s: "same_sched k k'" and h: "same_holders k k'" and x: "\<not> in_external_intr k'"
    and b: "cur k \<noteq> idle_thread k \<Longrightarrow> begun_ok (cur k) (locks_of k' (cur k)) (strip (pending_of k' (cur k)))"
    and d: "cur k = idle_thread k \<Longrightarrow> strip (pending_of k' (cur k)) = [Idle_loop] \<and> locks_of k' (cur k) = {}"
    and e: "\<And>y. in_loop y (strip (pending_of k' (cur k))) \<Longrightarrow>
      strip (pending_of k' (cur k)) = pending_of k' (cur k) \<and> \<not> intr_on k'"
    and n: "makes (pending_of k' (cur k)) = makes (pending_of k (cur k))"
    and v: "\<And>l. sval (semas k' (Of_lock l)) + (if owns k' (cur k) l then 1 else 0) =
      sval (semas k (Of_lock l)) + (if owns k (cur k) l then 1 else 0)"
    and f: "final_level (intr_on k') (pending_of k' (cur k))"
    and t: "inv_timer k'"
    and w: "\<And>s. waiters (semas k s) \<noteq> [] \<Longrightarrow>
       sval (semas k' s) + (if in_loop s (pending_of k (cur k)) then 1 else 0) \<le>
       sval (semas k s) + (if in_loop s (pending_of k' (cur k)) then 1 else 0)"
  shows "kinv k'"
proof -
  note i = kinvD [OF k]
  have "in_loop y (strip P)" if "in_loop y P" for y P using that by (auto simp: in_loop_def)
  then have e': "\<not> intr_on k'" if "in_loop y (pending_of k' (cur k))" for y using that e by blast
  have "inv_level k'" by (rule inv_level_local [OF i(5) s x f]) (use e' in blast)
  moreover have "inv_wake k'" by (rule inv_wake_local [OF i(1,7) s]) (use w in blast)
  moreover have "inv_new k'" by (rule inv_new_local [OF i(1,3) s n])
  ultimately show ?thesis
    using core_local [OF _ s h b d _ _ v t] k e unfolding kinv_core by blast
qed

lemma kinv_pendingD:
  assumes "kinv k"
  shows "cur k \<noteq> idle_thread k \<Longrightarrow> begun_ok (cur k) (locks_of k (cur k)) (strip (pending_of k (cur k)))"
    and "cur k = idle_thread k \<Longrightarrow> strip (pending_of k (cur k)) = [Idle_loop]"
    and "locks_of k (idle_thread k) = {}"
    and "in_loop y (strip (pending_of k t)) \<Longrightarrow> strip (pending_of k t) = pending_of k t"
    and "final_level (intr_on k) (pending_of k (cur k))"
    and "in_loop y (pending_of k (cur k)) \<Longrightarrow> \<not> intr_on k"
    and "\<not> in_external_intr k"
proof -
  note i = kinvD [OF assms]
  show "begun_ok (cur k) (locks_of k (cur k)) (strip (pending_of k (cur k)))" if "cur k \<noteq> idle_thread k"
    using i(2) that cur_not_NULL [OF i(1)] unfolding inv_pend_def by blast
  show "cur k = idle_thread k \<Longrightarrow> strip (pending_of k (cur k)) = [Idle_loop]"
    "locks_of k (idle_thread k) = {}"
    "in_loop y (strip (pending_of k t)) \<Longrightarrow> strip (pending_of k t) = pending_of k t"
    using i(2) unfolding inv_pend_def by metis+
  show "final_level (intr_on k) (pending_of k (cur k))" "in_loop y (pending_of k (cur k)) \<Longrightarrow> \<not> intr_on k"
    "\<not> in_external_intr k"
    using i(5) unfolding inv_level_def by blast+
qed

text \<open>A statement that is not part of the idle loop or of a return from an interrupt is a client's.\<close>

lemma at_stmt_client:
  assumes "at_stmt k st ss" and "\<not> is_frame st" and "st \<noteq> Idle_loop"
  shows "cur k \<noteq> idle_thread k"
    and "begun_ok (cur k) (locks_of k (cur k)) (st # ss) \<and> pending_of k (cur k) = st # ss \<or>
      pending_of k (cur k) = [] \<and> ss = [] \<and> may_call k st \<and> Tid_lock \<notin> locks_of k (cur k) \<and> intr_on k"
proof -
  have k: "kinv k" using assms(1) by (simp add: at_stmt_def)
  note p = kinv_pendingD [OF k]
  show c: "cur k \<noteq> idle_thread k"
  proof
    assume "cur k = idle_thread k"
    then have "strip (pending_of k (cur k)) = [Idle_loop]" by (rule p(2))
    then show False using assms by (auto simp: at_stmt_def)
  qed
  show "begun_ok (cur k) (locks_of k (cur k)) (st # ss) \<and> pending_of k (cur k) = st # ss \<or>
      pending_of k (cur k) = [] \<and> ss = [] \<and> may_call k st \<and> Tid_lock \<notin> locks_of k (cur k) \<and> intr_on k"
    using p(1) [OF c] p(5) assms by (auto simp: at_stmt_def)
qed

lemma timer_same:
  assumes "kinv k" and "same_sched k k'" and "wait_list k' = wait_list k" and "ticks k' = ticks k"
    and "wakeup_of k' = wakeup_of k" and "\<And>t. sval (semas k' (Of_timer t)) = sval (semas k (Of_timer t))"
    and "sleeps (cur k) (pending_of k' (cur k)) = sleeps (cur k) (pending_of k (cur k))"
  shows "inv_timer k'"
  by (rule inv_timer_local [OF kinvD(6) [OF assms(1)] assms(2-4)]) (simp_all only: assms(5-7) order_refl)

lemma sema_down_step:
  assumes a: "at_stmt k (Sema_down s) ss"
  shows "\<exists>k'. exec (Sema_down s) (popped ss k) = Some k' \<and> kinv k'"
proof -
  have k: "kinv k" using a by (simp add: at_stmt_def)
  note i = kinvD [OF k] and p = kinv_pendingD [OF k]
  note c = at_stmt_client [OF a]
  let ?k = "push_pending [Sema_loop s (intr_on k)] (intr_disable (popped ss k))"
  have pd: "pending_of ?k t = (if t = cur k then Sema_loop s (intr_on k) # ss else pending_of k t)" for t
    using push_pending_cur [OF i(1), of "intr_disable (popped ss k)"] popped_pending [OF i(1)] by simp
  have sm: "same_sched k ?k" by (simp add: same_sched_def pd)
  have ok: "begun_ok (cur k) (locks_of k (cur k)) (Sema_loop s (intr_on k) # ss)"
    and lv: "final_level (intr_on k) ss"
    and no: "\<And>l. \<not> claims l (pending_of k (cur k))" "\<And>y. \<not> in_loop y (pending_of k (cur k))"
      "\<And>t. t = cur k \<Longrightarrow> sleeps t (pending_of k (cur k)) = (s = Of_timer t)"
    and st: "makes ss = makes (pending_of k (cur k))"
    using c(2) p(5) by (auto simp: at_stmt_client [OF a])
  have "kinv ?k"
  proof (rule kinv_local [OF k sm])
    show "inv_timer ?k" by (rule timer_same [OF k sm]) (simp_all add: pd no)
    show "makes (pending_of ?k (cur k)) = makes (pending_of k (cur k))" using st by (simp add: pd)
  qed (use ok lv no c in \<open>auto simp: pd same_holders_def p(7) locks_of_def owns_def\<close>)
  then show ?thesis using p(7) by (simp add: sema_down_def)
qed


lemma intr_set_level_eq: "\<not> in_external_intr k \<Longrightarrow> intr_set_level b k = Some (k\<lparr>intr_on := b\<rparr>)"
  by (simp add: intr_set_level_def intr_enable_def intr_disable_def)

text \<open>After the semaphore has been taken.\<close>

lemma down_ok_facts:
  assumes d: "down_ok t H s ss"
  shows "begun_ok t H ss" "strip ss = ss" "\<not> in_loop y ss" "\<not> sleeps t ss" "claims l ss = (s = Of_lock l)"
    "s = Of_lock l \<Longrightarrow> l \<notin> H" "s = Of_timer u \<Longrightarrow> u = t"
proof -
  have "begun_ok t H ss \<and> strip ss = ss \<and> \<not> in_loop y ss \<and> \<not> sleeps t ss \<and> (claims l ss = (s = Of_lock l)) \<and>
    (s = Of_lock l \<longrightarrow> l \<notin> H) \<and> (s = Of_timer u \<longrightarrow> u = t)"
  proof (cases s)
    case (Of_lock l')
    then show ?thesis using d by (cases ss) auto
  qed (use d in \<open>auto simp: rest_ok_strip rest_ok_begun rest_ok_quiet\<close>)
  then show "begun_ok t H ss" "strip ss = ss" "\<not> in_loop y ss" "\<not> sleeps t ss" "claims l ss = (s = Of_lock l)"
    "s = Of_lock l \<Longrightarrow> l \<notin> H" "s = Of_timer u \<Longrightarrow> u = t" by blast+
qed

lemma sema_loop_take_step:
  assumes a: "at_stmt k (Sema_loop s b) ss" and v: "0 < sval (semas k s)"
  shows "\<exists>k'. exec (Sema_loop s b) (popped ss k) = Some k' \<and> kinv k'"
proof -
  have k: "kinv k" using a by (simp add: at_stmt_def)
  note i = kinvD [OF k] and p = kinv_pendingD [OF k]
  have c: "cur k \<noteq> idle_thread k" and P: "pending_of k (cur k) = Sema_loop s b # ss"
    and d: "down_ok (cur k) (locks_of k (cur k)) s ss"
    using at_stmt_client [OF a] by auto
  let ?k = "(upd_sema s (\<lambda>x. x\<lparr>sval := sval x - 1\<rparr>) (popped ss k))\<lparr>intr_on := b\<rparr>"
  note pd = popped_pending [OF i(1), of ss]
  have sm: "same_sched k ?k" by (simp add: same_sched_def pd)
  have ok: "begun_ok (cur k) (locks_of k (cur k)) (strip ss)" "strip ss = ss"
    and q: "\<not> in_loop y ss" "\<not> sleeps (cur k) ss" "claims l ss = (s = Of_lock l)"
      "s = Of_lock l \<Longrightarrow> holder k l \<noteq> cur k" "s = Of_timer t \<Longrightarrow> t = cur k" for y l t
    using down_ok_facts [OF d] by (auto simp: locks_of_def)
  have "kinv ?k"
  proof (rule kinv_local [OF k sm])
    show "inv_timer ?k"
    proof (rule inv_timer_local [OF i(6) sm])
      show "sval (semas ?k (Of_timer t)) = sval (semas k (Of_timer t))" if "t \<noteq> cur k" for t
        using q(5) [of t] that by auto
    qed (use v q(2) in \<open>auto simp: pd P\<close>)
    show "final_level (intr_on ?k) (pending_of ?k (cur k))" using p(5) by (simp add: pd P)
    show "sval (semas ?k (Of_lock l)) + (if owns ?k (cur k) l then 1 else 0) =
        sval (semas k (Of_lock l)) + (if owns k (cur k) l then 1 else 0)" for l
      using q(3,4) [of l] v by (cases "s = Of_lock l") (auto simp: owns_def pd P)
  qed (use ok q(1) c v in \<open>auto simp: pd P same_holders_def p(7) locks_of_def\<close>)
  then show ?thesis using v p(7) by (simp add: sema_down_loop_def intr_set_level_eq)
qed

lemma set_level_step:
  assumes a: "at_stmt k (Set_level b) ss"
  shows "\<exists>k'. exec (Set_level b) (popped ss k) = Some k' \<and> kinv k'"
proof -
  have k: "kinv k" using a by (simp add: at_stmt_def)
  note i = kinvD [OF k] and p = kinv_pendingD [OF k]
  have P: "pending_of k (cur k) = Set_level b # ss" using a by (auto simp: at_stmt_def)
  let ?k = "(popped ss k)\<lparr>intr_on := b\<rparr>"
  note pd = popped_pending [OF i(1), of ss]
  have sm: "same_sched k ?k" by (simp add: same_sched_def pd)
  have q: "\<not> in_loop y (strip ss)" "\<not> in_loop y ss" for y
    using p(4) [of y "cur k"] P length_dropWhile_le [of is_frame ss]
    by (auto simp: strip_def in_loop_def)
  have "kinv ?k"
  proof (rule kinv_local [OF k sm])
    show "inv_timer ?k" by (rule timer_same [OF k sm]) (simp_all add: pd P)
    show "final_level (intr_on ?k) (pending_of ?k (cur k))" using p(5) by (simp add: pd P)
  qed (use p(1-3) q P in \<open>auto simp: pd P same_holders_def p(7) locks_of_def owns_def\<close>)
  then show ?thesis using p(7) by (simp add: intr_set_level_eq)
qed

lemma iret_step:
  assumes a: "at_stmt k Iret ss"
  shows "\<exists>k'. exec Iret (popped ss k) = Some k' \<and> kinv k'"
proof -
  have k: "kinv k" using a by (simp add: at_stmt_def)
  note i = kinvD [OF k] and p = kinv_pendingD [OF k]
  have P: "pending_of k (cur k) = Iret # ss" using a by (auto simp: at_stmt_def)
  let ?k = "(popped ss k)\<lparr>intr_on := True\<rparr>"
  note pd = popped_pending [OF i(1), of ss]
  have sm: "same_sched k ?k" by (simp add: same_sched_def pd)
  have q: "\<not> in_loop y (strip ss)" "\<not> in_loop y ss" for y
    using p(4) [of y "cur k"] P length_dropWhile_le [of is_frame ss]
    by (auto simp: strip_def in_loop_def)
  have "kinv ?k"
  proof (rule kinv_local [OF k sm])
    show "inv_timer ?k" by (rule timer_same [OF k sm]) (simp_all add: pd P)
    show "final_level (intr_on ?k) (pending_of ?k (cur k))" using p(5) by (simp add: pd P)
  qed (use p(1-3) q P in \<open>auto simp: pd P same_holders_def p(7) locks_of_def owns_def\<close>)
  then show ?thesis by simp
qed

lemma thread_current_popped: "inv_sched k \<Longrightarrow> thread_current (popped ss k) = Some (cur k)"
  by (rule thread_current_eq) simp_all

lemma lock_acquire_step:
  assumes a: "at_stmt k (Lock_acquire l) ss"
  shows "\<exists>k'. exec (Lock_acquire l) (popped ss k) = Some k' \<and> kinv k'"
proof -
  have k: "kinv k" using a by (simp add: at_stmt_def)
  note i = kinvD [OF k] and p = kinv_pendingD [OF k]
  note c = at_stmt_client [OF a]
  let ?k = "push_pending [Sema_down (Of_lock l), Set_holder l] (popped ss k)"
  have pd: "pending_of ?k t = (if t = cur k then Sema_down (Of_lock l) # Set_holder l # ss else pending_of k t)" for t
    using push_pending_cur [OF i(1), of "popped ss k"] popped_pending [OF i(1)] by simp
  have sm: "same_sched k ?k" by (simp add: same_sched_def pd)
  have ok: "l \<notin> locks_of k (cur k)" "rest_ok (cur k) (insert l (locks_of k (cur k))) ss"
    using c(2) by (auto simp: at_stmt_client [OF a] locks_of_def)
  have P: "\<not> claims l' (pending_of k (cur k))" "\<not> in_loop y (pending_of k (cur k))" "\<not> sleeps t (pending_of k (cur k))"
    "makes ss = makes (pending_of k (cur k))" "final_level (intr_on k) ss" for l' y t
    using c(2) p(5) by auto
  have "kinv ?k"
  proof (rule kinv_local [OF k sm])
    show "inv_timer ?k" by (rule timer_same [OF k sm]) (simp_all add: pd P)
    show "makes (pending_of ?k (cur k)) = makes (pending_of k (cur k))" using P(4) by (simp add: pd)
  qed (use ok P c(1) in \<open>auto simp: pd same_holders_def p(7) locks_of_def owns_def\<close>)
  then show ?thesis
    using p(7) ok(1) thread_current_popped [OF i(1)]
    by (simp add: lock_acquire_def lock_held_by_current_thread_def locks_of_def)
qed

lemma set_holder_step:
  assumes a: "at_stmt k (Set_holder l) ss"
  shows "\<exists>k'. exec (Set_holder l) (popped ss k) = Some k' \<and> kinv k'"
proof -
  have k: "kinv k" using a by (simp add: at_stmt_def)
  note i = kinvD [OF k] and p = kinv_pendingD [OF k]
  have c: "cur k \<noteq> idle_thread k" and P: "pending_of k (cur k) = Set_holder l # ss"
    and d: "l \<notin> locks_of k (cur k)" "rest_ok (cur k) (insert l (locks_of k (cur k))) ss"
    using at_stmt_client [OF a] by auto
  let ?k = "(popped ss k)\<lparr>holder := (holder k)(l := cur k)\<rparr>"
  note pd = popped_pending [OF i(1), of ss]
  have sm: "same_sched k ?k" by (simp add: same_sched_def pd)
  have own: "owns k (cur k) l" by (simp add: owns_def P)
  have nul: "holder k l = NULL"
  proof (rule ccontr)
    assume "holder k l \<noteq> NULL"
    then have "owns k (holder k l) l" by (simp add: owns_def)
    then have "holder k l = cur k" using own i(4) unfolding inv_locks_def by blast
    then show False using d(1) by (simp add: locks_of_def)
  qed
  have lk: "locks_of ?k (cur k) = insert l (locks_of k (cur k))" by (auto simp: locks_of_def)
  note q = rest_ok_quiet [OF d(2)]
  have "kinv ?k"
  proof (rule kinv_local [OF k sm])
    show "inv_timer ?k" by (rule timer_same [OF k sm]) (simp_all add: pd P q)
    show "same_holders k ?k" by (rule same_holdersI) (auto simp: nul split: if_splits)
    show "begun_ok (cur k) (locks_of ?k (cur k)) (strip (pending_of ?k (cur k)))"
      using d(2) by (simp add: lk pd rest_ok_strip rest_ok_begun)
    show "final_level (intr_on ?k) (pending_of ?k (cur k))" using p(5) by (simp add: pd P)
    show "sval (semas ?k (Of_lock l')) + (if owns ?k (cur k) l' then 1 else 0) =
        sval (semas k (Of_lock l')) + (if owns k (cur k) l' then 1 else 0)" for l'
      using cur_not_NULL [OF i(1)] by (cases "l' = l") (auto simp: owns_def pd P q)
  qed (use c q d in \<open>auto simp: pd P p(7) rest_ok_strip\<close>)
  then show ?thesis using thread_current_popped [OF i(1)] by (simp add: set_holder_def)
qed

end
