(* ===== verification/Threads_Calls.thy ===== *)
theory Threads_Calls
  imports Threads_Steps
begin

text \<open>
  Further statements that do not schedule: \<open>sema_try_down\<close>, \<open>lock_try_acquire\<close>,
  \<open>lock_release\<close>, the condition variables, the first half of \<open>thread_create\<close>,
  \<open>thread_set_priority\<close> and \<open>timer_sleep\<close> up to its \<open>sema_down\<close>.
\<close>

section \<open>Steps that keep the values of the semaphores\<close>

text \<open>
  The running thread is a client that is not in the loop of \<open>sema_down\<close> and does not
  sleep, before and after the step.
\<close>

lemma kinv_client:
  assumes k: "kinv k" and c: "cur k \<noteq> idle_thread k" and s: "same_sched k k'" and h: "same_holders k k'"
    and x: "\<not> in_external_intr k'" and io: "intr_on k' = intr_on k"
    and old: "\<And>y. \<not> in_loop y (pending_of k (cur k))" "\<not> sleeps (cur k) (pending_of k (cur k))"
    and ps: "pending_of k' (cur k) = ps"
    and new: "begun_ok (cur k) (locks_of k' (cur k)) ps" "strip ps = ps" "\<And>y. \<not> in_loop y ps"
      "\<not> sleeps (cur k) ps" "final_level (intr_on k) ps"
    and n: "inv_new k'"
    and v: "\<And>l. sval (semas k' (Of_lock l)) + (if owns k' (cur k) l then 1 else 0) =
      sval (semas k (Of_lock l)) + (if owns k (cur k) l then 1 else 0)"
    and t: "wait_list k' = wait_list k" "ticks k' = ticks k" "wakeup_of k' = wakeup_of k"
      "\<And>t. sval (semas k' (Of_timer t)) = sval (semas k (Of_timer t))"
    and w: "\<And>s. waiters (semas k s) \<noteq> [] \<Longrightarrow> sval (semas k' s) \<le> sval (semas k s)"
  shows "kinv k'"
proof -
  note i = kinvD [OF k]
  have "core k" using k by (simp add: kinv_core)
  then have "core k'"
  proof (rule core_local [OF _ s h])
    show "inv_timer k'" by (rule timer_same [OF k s t]) (simp add: ps new old)
    show "inv_wake k'" by (rule inv_wake_local [OF i(1,7) s]) (simp add: ps new old w)
  qed (use new c v n in \<open>auto simp: ps\<close>)
  moreover have "inv_level k'"
    by (rule inv_level_local [OF i(5) s x]) (simp_all add: ps new io)
  ultimately show ?thesis by (simp add: kinv_core)
qed

text \<open>A statement that only a client's call executes.\<close>

lemma at_call:
  assumes a: "at_stmt k st ss" and n: "\<not> is_frame st" "st \<noteq> Idle_loop"
    and b: "\<And>t H ps. \<not> begun_ok t H (st # ps)"
  shows "kinv k" "cur k \<noteq> idle_thread k" "pending_of k (cur k) = []" "ss = []" "popped ss k = k"
    "may_call k st" "Tid_lock \<notin> locks_of k (cur k)" "intr_on k" "\<not> in_external_intr k"
    "thread_current k = Some (cur k)"
proof -
  show k: "kinv k" using a by (simp add: at_stmt_def)
  show "cur k \<noteq> idle_thread k" "pending_of k (cur k) = []" "ss = []" "may_call k st"
    "Tid_lock \<notin> locks_of k (cur k)" "intr_on k"
    using at_stmt_client [OF a n] b by auto
  then show "popped ss k = k" using popped_id by blast
  show "\<not> in_external_intr k" using kinv_pendingD(7) [OF k] .
  show "thread_current k = Some (cur k)" by (rule thread_current_eq [OF kinvD(1) [OF k]]) simp_all
qed

lemma intr_on_disable: "(intr_disable k)\<lparr>intr_on := b\<rparr> = k\<lparr>intr_on := b\<rparr>"
  by (simp add: intr_disable_def)

lemma same_sched_refl: "same_sched k k" by (simp add: same_sched_def)

lemma same_holders_eq: "holder k' = holder k \<Longrightarrow> same_holders k k'"
  by (simp add: same_holders_def)

lemma sema_try_down_step:
  assumes a: "at_stmt k (Sema_try_down s) ss"
  shows "\<exists>k'. exec (Sema_try_down s) (popped ss k) = Some k' \<and> kinv k'"
proof -
  have c: "kinv k" "cur k \<noteq> idle_thread k" "pending_of k (cur k) = []" "ss = []" "popped ss k = k"
    "may_call k (Sema_try_down s)" "Tid_lock \<notin> locks_of k (cur k)" "intr_on k" "\<not> in_external_intr k"
    using at_call [OF a] by simp_all
  obtain n where s: "s = Usr n" using c(6) by auto
  define kr where "kr r = set_retval r ((if 0 < sval (semas k s) then upd_sema s (\<lambda>x. x\<lparr>sval := sval x - 1\<rparr>) (intr_disable k)
    else intr_disable k)\<lparr>intr_on := True\<rparr>)" for r
  have sm: "same_sched k (kr r)" for r by (simp add: kr_def same_sched_def)
  have f: "pending_of (kr r) = pending_of k" "holder (kr r) = holder k" "intr_on (kr r)" "\<not> in_external_intr (kr r)"
    "wait_list (kr r) = wait_list k" "ticks (kr r) = ticks k" "wakeup_of (kr r) = wakeup_of k"
    "sval (semas (kr r) y) \<le> sval (semas k y)" "y \<noteq> s \<Longrightarrow> semas (kr r) y = semas k y" for r y
    using c(9) by (simp_all add: kr_def)
  have "inv_new (kr r)" for r by (rule inv_new_local [OF kinvD(1,3) [OF c(1)] sm]) (simp add: f)
  then have "kinv (kr r)" for r
    by (intro kinv_client [OF c(1,2) sm, where ps = "[]"])
      (use c(3,7,8) in \<open>simp_all add: f s same_holders_eq locks_of_def owns_def\<close>)
  moreover have "exec (Sema_try_down s) (popped ss k) = Some (kr (if 0 < sval (semas k s) then 1 else 0))"
    using c(5,8,9) by (simp add: kr_def sema_try_down_def intr_set_level_eq Let_def)
  ultimately show ?thesis by blast
qed

lemma set_priority_step:
  assumes a: "at_stmt k (Set_priority q) ss"
  shows "\<exists>k'. exec (Set_priority q) (popped ss k) = Some k' \<and> kinv k'"
proof -
  have c: "kinv k" "cur k \<noteq> idle_thread k" "pending_of k (cur k) = []" "popped ss k = k"
    "Tid_lock \<notin> locks_of k (cur k)" "intr_on k" "\<not> in_external_intr k" "thread_current k = Some (cur k)"
    using at_call [OF a] by simp_all
  let ?k = "upd_thread (cur k) (\<lambda>x. x\<lparr>priority := q\<rparr>) k"
  have sm: "same_sched k ?k" by (simp add: same_sched_def)
  have "inv_new ?k" by (rule inv_new_local [OF kinvD(1,3) [OF c(1)] sm]) simp
  then have "kinv ?k"
    by (intro kinv_client [OF c(1,2) sm, where ps = "[]"])
      (use c(3,5-7) in \<open>simp_all add: same_holders_eq locks_of_def owns_def\<close>)
  then show ?thesis using c by (simp add: thread_set_priority_def)
qed

lemma alloc_tid_step:
  assumes a: "at_stmt k Alloc_tid ss"
  shows "\<exists>k'. exec Alloc_tid (popped ss k) = Some k' \<and> kinv k'"
proof -
  have k: "kinv k" using a by (simp add: at_stmt_def)
  have c: "cur k \<noteq> idle_thread k" "pending_of k (cur k) = Alloc_tid # ss" "rest_ok (cur k) (locks_of k (cur k)) ss"
    using at_stmt_client [OF a] by auto
  note q = rest_ok_quiet [OF c(3)] rest_ok_strip [OF c(3)] rest_ok_begun [OF c(3)]
  note i = kinvD [OF k] and pd = popped_pending [OF kinvD(1) [OF k], of ss]
  let ?k = "set_retval (next_tid (popped ss k)) ((popped ss k)\<lparr>next_tid := next_tid (popped ss k) + 1\<rparr>)"
  have sm: "same_sched k ?k" by (simp add: same_sched_def pd)
  have "inv_new ?k" by (rule inv_new_local [OF i(1,3) sm]) (simp add: pd c)
  then have "kinv ?k"
    by (intro kinv_client [OF k c(1) sm, where ps = ss])
      (use c q kinv_pendingD(5,7) [OF k] in \<open>simp_all add: same_holders_eq locks_of_def owns_def pd\<close>)
  then show ?thesis by (simp add: allocate_tid_def)
qed

lemma inv_new_mono:
  assumes "kinv k" and "same_sched k k'"
    and "makes (pending_of k' (cur k)) = makes (pending_of k (cur k))"
  shows "inv_new k'"
  by (rule inv_new_local [OF kinvD(1,3) [OF assms(1)] assms(2,3)])

lemma lock_try_acquire_step:
  assumes a: "at_stmt k (Lock_try_acquire l) ss"
  shows "\<exists>k'. exec (Lock_try_acquire l) (popped ss k) = Some k' \<and> kinv k'"
proof -
  have c: "kinv k" "cur k \<noteq> idle_thread k" "pending_of k (cur k) = []" "popped ss k = k"
    "l \<noteq> Tid_lock" "holder k l \<noteq> cur k" "Tid_lock \<notin> locks_of k (cur k)" "intr_on k" "\<not> in_external_intr k"
    "thread_current k = Some (cur k)"
    using at_call [OF a] by simp_all
  note i = kinvD [OF c(1)]
  let ?on = "(intr_disable k)\<lparr>intr_on := True\<rparr>"
  show ?thesis
  proof (cases "0 < sval (semas k (Of_lock l))")
    case True
    define k' where "k' = set_retval 1 (push_pending [Set_holder l]
      ((upd_sema (Of_lock l) (\<lambda>x. x\<lparr>sval := sval x - 1\<rparr>) (intr_disable k))\<lparr>intr_on := True\<rparr>))"
    have pd: "pending_of k' t = (if t = cur k then [Set_holder l] else pending_of k t)" for t
      unfolding k'_def using push_pending_cur [OF i(1), where k' = "(upd_sema (Of_lock l) (\<lambda>x. x\<lparr>sval := sval x - 1\<rparr>) (intr_disable k))\<lparr>intr_on := True\<rparr>"] c(3)
      by simp
    have sm: "same_sched k k'" unfolding same_sched_def by (simp add: pd) (simp add: k'_def)
    have f: "holder k' = holder k" "intr_on k'" "\<not> in_external_intr k'" "wait_list k' = wait_list k" "ticks k' = ticks k"
      "wakeup_of k' = wakeup_of k"
      "semas k' y = (if y = Of_lock l then (semas k y)\<lparr>sval := sval (semas k y) - 1\<rparr> else semas k y)" for y
      using c(9) by (simp_all add: k'_def)
    have "inv_new k'" by (rule inv_new_mono [OF c(1) sm]) (simp add: pd c(3))
    then have "kinv k'"
      by (intro kinv_client [OF c(1,2) sm, where ps = "[Set_holder l]"])
        (use c True in \<open>auto simp: pd f same_holders_eq locks_of_def owns_def\<close>)
    moreover have "exec (Lock_try_acquire l) (popped ss k) = Some k'"
      using c True by (simp add: lock_try_acquire_def lock_held_by_current_thread_def sema_try_down_def
          intr_set_level_eq Let_def k'_def)
    ultimately show ?thesis by blast
  next
    case False
    define k' where "k' = set_retval 0 ?on"
    have f: "pending_of k' = pending_of k" "holder k' = holder k" "intr_on k'" "\<not> in_external_intr k'"
      "wait_list k' = wait_list k" "ticks k' = ticks k" "wakeup_of k' = wakeup_of k" "semas k' = semas k"
      using c(9) by (simp_all add: k'_def)
    have sm: "same_sched k k'" by (simp add: same_sched_def f) (simp add: k'_def)
    have "inv_new k'" by (rule inv_new_mono [OF c(1) sm]) (simp add: f)
    then have "kinv k'"
      by (intro kinv_client [OF c(1,2) sm, where ps = "[]"])
        (use c in \<open>simp_all add: f same_holders_eq locks_of_def owns_def\<close>)
    moreover have "exec (Lock_try_acquire l) (popped ss k) = Some k'"
      using c False by (simp add: lock_try_acquire_def lock_held_by_current_thread_def sema_try_down_def
          intr_set_level_eq Let_def k'_def)
    ultimately show ?thesis by blast
  qed
qed

lemma lock_release_step:
  assumes a: "at_stmt k (Lock_release l) ss"
  shows "\<exists>k'. exec (Lock_release l) (popped ss k) = Some k' \<and> kinv k'"
proof -
  have k: "kinv k" using a by (simp add: at_stmt_def)
  note i = kinvD [OF k] and p = kinv_pendingD [OF k]
  note c = at_stmt_client [OF a]
  let ?H = "locks_of k (cur k)"
  have l: "holder k l = cur k" and r: "rest_ok (cur k) (?H - {l}) ss"
    and P: "\<not> claims l' (pending_of k (cur k))" "\<not> in_loop y (pending_of k (cur k))" "\<not> sleeps t (pending_of k (cur k))"
    "makes ss = makes (pending_of k (cur k))" "final_level (intr_on k) ss" for l' y t
    using c(2) p(5) by (auto simp: at_stmt_client [OF a] locks_of_def)
  define k' where "k' = push_pending [Sema_up (Of_lock l)] ((popped ss k)\<lparr>holder := (holder k)(l := NULL)\<rparr>)"
  have pd: "pending_of k' t = (if t = cur k then Sema_up (Of_lock l) # ss else pending_of k t)" for t
    unfolding k'_def
    using push_pending_cur [OF i(1), where k' = "(popped ss k)\<lparr>holder := (holder k)(l := NULL)\<rparr>"] popped_pending [OF i(1)]
    by simp
  have sm: "same_sched k k'" unfolding same_sched_def by (simp add: pd) (simp add: k'_def)
  have n: "cur k \<noteq> NULL" using cur_not_NULL [OF i(1)] .
  have lk: "locks_of k' (cur k) = ?H - {l}" using n by (auto simp: locks_of_def k'_def)
  have "inv_new k'" by (rule inv_new_mono [OF k sm]) (use P(4) in \<open>auto simp: pd\<close>)
  then have "kinv k'"
  proof (intro kinv_client [OF k _ sm, where ps = "Sema_up (Of_lock l) # ss"])
    show "same_holders k k'" by (rule same_holdersI) (auto simp: k'_def l)
    show "sval (semas k' (Of_lock l')) + (if owns k' (cur k) l' then 1 else 0) =
        sval (semas k (Of_lock l')) + (if owns k (cur k) l' then 1 else 0)" for l'
      using n l P(1) by (auto simp: owns_def pd) (auto simp: k'_def split: if_splits)
  qed (use c P r p(7) in \<open>simp_all add: pd lk\<close>, simp_all add: k'_def)
  moreover have "exec (Lock_release l) (popped ss k) = Some k'"
    using l thread_current_popped [OF i(1)] by (simp add: lock_release_def lock_held_by_current_thread_def k'_def)
  ultimately show ?thesis by blast
qed

text \<open>Only its owner waits on the semaphore of a sleeping thread or of a call of \<open>cond_wait\<close>.\<close>

lemma waiter_own:
  assumes k: "core k" and t: "t \<in> set (waiters (semas k s))" and s: "s = Of_waiter w \<or> s = Of_timer w"
  shows "t = w"
proof -
  note l = inv_listsD [OF inv_schedD(1) [OF coreD(1) [OF k]]]
  have "t \<noteq> idle_thread k" using l(13) [of s] t by metis
  moreover have "t \<noteq> NULL" using NULL_no_thread [OF inv_schedD(1) [OF coreD(1) [OF k]] l(6) [OF t]] .
  ultimately have "begun_ok t (locks_of k t) (strip (pending_of k t))"
    using coreD(2) [OF k] unfolding inv_pend_def by blast
  then show ?thesis using l(7) [OF t] s by auto
qed

lemma waiters_cur:
  assumes "core k" and "s = Of_waiter (cur k) \<or> s = Of_timer (cur k)"
  shows "waiters (semas k s) = []"
proof (rule ccontr)
  note sch = coreD(1) [OF assms(1)]
  assume "waiters (semas k s) \<noteq> []"
  then obtain t where t: "t \<in> set (waiters (semas k s))" by (meson last_in_set)
  then have "t = cur k" using waiter_own [OF assms(1) t assms(2)] by simp
  then show False using inv_listsD(6) [OF inv_schedD(1) [OF sch] t] inv_schedD(2) [OF sch] by simp
qed

lemma cond_wait_step:
  assumes a: "at_stmt k (Cond_wait cv l) ss"
  shows "\<exists>k'. exec (Cond_wait cv l) (popped ss k) = Some k' \<and> kinv k'"
proof -
  have c: "kinv k" "cur k \<noteq> idle_thread k" "pending_of k (cur k) = []" "popped ss k = k"
    "l \<noteq> Tid_lock" "holder k l = cur k" "Tid_lock \<notin> locks_of k (cur k)" "intr_on k" "\<not> in_external_intr k"
    "thread_current k = Some (cur k)"
    using at_call [OF a] by simp_all
  note i = kinvD [OF c(1)]
  let ?ps = "[Lock_release l, Sema_down (Of_waiter (cur k)), Lock_acquire l]"
  let ?k0 = "upd_sema (Of_waiter (cur k)) (\<lambda>_. \<lparr>sval = 0, waiters = []\<rparr>) k"
  define k' where "k' = push_pending ?ps (?k0\<lparr>conds := (conds k)(cv := conds k cv @ [cur k])\<rparr>)"
  have pd: "pending_of k' t = (if t = cur k then ?ps else pending_of k t)" for t
    unfolding k'_def using push_pending_cur [OF i(1), where k' = "?k0\<lparr>conds := (conds k)(cv := conds k cv @ [cur k])\<rparr>"] c(3)
    by simp
  have f: "holder k' = holder k" "intr_on k'" "\<not> in_external_intr k'" "wait_list k' = wait_list k" "ticks k' = ticks k"
    "wakeup_of k' = wakeup_of k" "semas k' y = (if y = Of_waiter (cur k) then \<lparr>sval = 0, waiters = []\<rparr> else semas k y)" for y
    using c(8,9) by (simp_all add: k'_def)
  have "waiters (semas k (Of_waiter (cur k))) = []" using waiters_cur c(1) by (simp add: kinv_core)
  then have sm: "same_sched k k'" unfolding same_sched_def by (simp add: pd f) (simp add: k'_def)
  have "inv_new k'" by (rule inv_new_mono [OF c(1) sm]) (simp add: pd c(3))
  then have "kinv k'"
    by (intro kinv_client [OF c(1,2) sm, where ps = ?ps])
      (use c in \<open>auto simp: pd f same_holders_eq locks_of_def owns_def\<close>)
  moreover have "exec (Cond_wait cv l) (popped ss k) = Some k'"
    using c by (simp add: cond_wait_def lock_held_by_current_thread_def Let_def k'_def)
  ultimately show ?thesis by blast
qed

lemma push_step:
  assumes k: "kinv k" and c: "cur k \<noteq> idle_thread k"
    and old: "\<And>y. \<not> in_loop y (pending_of k (cur k))" "\<not> sleeps (cur k) (pending_of k (cur k))" "\<And>l. \<not> claims l (pending_of k (cur k))"
    and ps: "begun_ok (cur k) (locks_of k (cur k)) (ps @ ss)" "strip (ps @ ss) = ps @ ss" "\<And>y. \<not> in_loop y (ps @ ss)"
      "\<not> sleeps (cur k) (ps @ ss)" "\<And>l. \<not> claims l (ps @ ss)" "final_level (intr_on k) (ps @ ss)"
    and new: "inv_new (push_pending ps ((popped ss k)\<lparr>conds := cs\<rparr>))"
  shows "kinv (push_pending ps ((popped ss k)\<lparr>conds := cs\<rparr>))"
proof -
  note i = kinvD [OF k]
  have pd: "pending_of (push_pending ps ((popped ss k)\<lparr>conds := cs\<rparr>)) t = (if t = cur k then ps @ ss else pending_of k t)" for t
    using push_pending_cur [OF i(1), where k' = "(popped ss k)\<lparr>conds := cs\<rparr>"] popped_pending [OF i(1)] by simp
  have sm: "same_sched k (push_pending ps ((popped ss k)\<lparr>conds := cs\<rparr>))" by (simp add: same_sched_def pd)
  show ?thesis
  proof (rule kinv_client [OF k c sm _ _ _ old(1,2) _ _ ps(2-4,6) new])
    show "pending_of (push_pending ps ((popped ss k)\<lparr>conds := cs\<rparr>)) (cur k) = ps @ ss" by (simp add: pd)
    show "sval (semas (push_pending ps ((popped ss k)\<lparr>conds := cs\<rparr>)) (Of_lock l)) + (if owns (push_pending ps ((popped ss k)\<lparr>conds := cs\<rparr>)) (cur k) l then 1 else 0) =
        sval (semas k (Of_lock l)) + (if owns k (cur k) l then 1 else 0)" for l
      by (simp add: owns_def pd old ps)
  qed (use ps(1) kinv_pendingD(7) [OF k] in \<open>simp_all add: same_holders_eq locks_of_def\<close>)
qed

text \<open>The calls of \<open>cond_signal\<close> and \<open>cond_broadcast\<close>, by a client or from \<open>cond_broadcast\<close>.\<close>

lemma cond_stmt:
  assumes a: "at_stmt k st ss" and st: "st = Cond_signal cv l \<or> st = Cond_broadcast cv l"
  shows "kinv k" "cur k \<noteq> idle_thread k" "holder k l = cur k" "rest_ok (cur k) (locks_of k (cur k)) ss"
    "\<And>y. \<not> in_loop y (pending_of k (cur k))" "\<not> sleeps (cur k) (pending_of k (cur k))" "\<And>l. \<not> claims l (pending_of k (cur k))"
    "makes ss = makes (pending_of k (cur k))" "final_level (intr_on k) ss"
    "\<not> in_external_intr k" "thread_current (popped ss k) = Some (cur k)"
proof -
  show k: "kinv k" using a by (simp add: at_stmt_def)
  have n: "\<not> is_frame st" "st \<noteq> Idle_loop" using st by auto
  note c = at_stmt_client [OF a n]
  show "cur k \<noteq> idle_thread k" by (rule c(1))
  show "holder k l = cur k" "rest_ok (cur k) (locks_of k (cur k)) ss"
    "\<And>y. \<not> in_loop y (pending_of k (cur k))" "\<not> sleeps (cur k) (pending_of k (cur k))" "\<And>l. \<not> claims l (pending_of k (cur k))"
    "makes ss = makes (pending_of k (cur k))" "final_level (intr_on k) ss"
    using c(2) st kinv_pendingD(5) [OF k] by (auto simp: locks_of_def)
  show "\<not> in_external_intr k" by (rule kinv_pendingD(7) [OF k])
  show "thread_current (popped ss k) = Some (cur k)" by (rule thread_current_popped [OF kinvD(1) [OF k]])
qed

lemma push_new:
  assumes k: "kinv k" and s: "makes ss = makes (pending_of k (cur k))"
    and n: "makes (ps @ ss) = makes ss"
  shows "inv_new (push_pending ps ((popped ss k)\<lparr>conds := cs\<rparr>))"
proof -
  note i = kinvD [OF k]
  have pd: "pending_of (push_pending ps ((popped ss k)\<lparr>conds := cs\<rparr>)) t = (if t = cur k then ps @ ss else pending_of k t)" for t
    using push_pending_cur [OF i(1), where k' = "(popped ss k)\<lparr>conds := cs\<rparr>"] popped_pending [OF i(1)] by simp
  have sm: "same_sched k (push_pending ps ((popped ss k)\<lparr>conds := cs\<rparr>))" by (simp add: same_sched_def pd)
  show ?thesis by (rule inv_new_mono [OF k sm]) (use s n in \<open>auto simp: pd\<close>)
qed

lemma push_Nil: "push_pending [] k = k"
  by (cases "threads k (cur k)") (simp_all add: push_pending_def upd_thread_def fun_upd_idem)

lemma conds_id: "k\<lparr>conds := conds k\<rparr> = k"
  by simp

lemma cond_signal_step:
  assumes a: "at_stmt k (Cond_signal cv l) ss"
  shows "\<exists>k'. exec (Cond_signal cv l) (popped ss k) = Some k' \<and> kinv k'"
proof -
  note c = cond_stmt [OF a disjI1 [OF refl]]
  note q = rest_ok_strip [OF c(4)] rest_ok_quiet [OF c(4)] rest_ok_begun [OF c(4)]
  show ?thesis
  proof (cases "conds k cv")
    case Nil
    have "kinv (push_pending [] ((popped ss k)\<lparr>conds := conds (popped ss k)\<rparr>))"
      by (rule push_step [OF c(1,2,5-7)]) (use q c(9) push_new [OF c(1,8), of "[]"] in simp_all)
    then have "kinv (popped ss k)" by (simp only: conds_id push_Nil)
    then show ?thesis
      using Nil c(3,10,11) by (simp add: cond_signal_def lock_held_by_current_thread_def)
  next
    case (Cons w ws)
    have "kinv (push_pending [Sema_up (Of_waiter w)] ((popped ss k)\<lparr>conds := (conds k)(cv := ws)\<rparr>))"
      by (rule push_step [OF c(1,2,5-7)])
        (use q c(4,9) push_new [OF c(1,8), of "[Sema_up (Of_waiter w)]"] in simp_all)
    then show ?thesis
      using Cons c(3,10,11) by (simp add: cond_signal_def lock_held_by_current_thread_def)
  qed
qed

lemma cond_broadcast_step:
  assumes a: "at_stmt k (Cond_broadcast cv l) ss"
  shows "\<exists>k'. exec (Cond_broadcast cv l) (popped ss k) = Some k' \<and> kinv k'"
proof -
  note c = cond_stmt [OF a disjI2 [OF refl]]
  note q = rest_ok_strip [OF c(4)] rest_ok_quiet [OF c(4)] rest_ok_begun [OF c(4)]
  have "kinv (push_pending [] ((popped ss k)\<lparr>conds := conds (popped ss k)\<rparr>))"
    by (rule push_step [OF c(1,2,5-7)]) (use q c(9) push_new [OF c(1,8), of "[]"] in simp_all)
  moreover have "kinv (push_pending [Cond_signal cv l, Cond_broadcast cv l] ((popped ss k)\<lparr>conds := conds (popped ss k)\<rparr>))"
    by (rule push_step [OF c(1,2,5-7)])
      (use c(3,4,9) push_new [OF c(1,8), of "[Cond_signal cv l, Cond_broadcast cv l]"] in \<open>simp_all add: locks_of_def\<close>)
  ultimately have "kinv (popped ss k)" "kinv (push_pending [Cond_signal cv l, Cond_broadcast cv l] (popped ss k))"
    by (simp_all only: conds_id push_Nil)
  then show ?thesis by (simp add: cond_broadcast_def)
qed

lemma makes_Page: "makes ps = Some (u, Page) \<Longrightarrow> \<exists>nm p. Init_thread u nm p \<in> set ps"
  by (induction ps rule: makes.induct) auto

text \<open>The running thread begins to create a thread on the page \<open>u\<close>.\<close>

lemma inv_new_create:
  assumes r: "inv_sched k" and i: "inv_new k" and P: "pending_of k (cur k) = []" and u: "u \<noteq> NULL" "threads k u = None"
    and old: "\<And>t nm p. Init_thread u nm p \<notin> set (pending_of k t)"
    and st: "status_of k' = status_of k" and pd: "\<And>t. pending_of k' t = (if t = cur k then ps else pending_of k t)"
    and ps: "makes ps = Some (u, Page)"
  shows "inv_new k'"
proof -
  have run: "status_of k (cur k) = Some THREAD_RUNNING" by (rule inv_schedD(2) [OF r])
  have th: "threads k' t = None \<longleftrightarrow> threads k t = None" for t by (simp add: st flip: status_of_None)
  have nu: "makes (pending_of k t) \<noteq> Some (u, n)" for t n
    using makes_Page [of "pending_of k t" u] old [of _ _ t] inv_newD(2) [OF i, of t u n] u(2)
    by (cases n) (auto simp flip: status_of_None)
  have ph: "phase_ok k' v n" if "phase_ok k v n" for v n
  proof -
    have "v \<noteq> cur k" using phase_ok_new [OF that] run by auto
    then show ?thesis using that by (cases n) (simp_all add: th st pd)
  qed
  have mk: "makes (pending_of k' t) = Some (v, n) \<longleftrightarrow>
      (if t = cur k then v = u \<and> n = Page else makes (pending_of k t) = Some (v, n))" for t v n
    using ps by (auto simp: pd)
  have mc: "t \<noteq> cur k" if "makes (pending_of k t) = Some (v, n)" for t v n using that P by auto
  have cr: "\<exists>t n. makes (pending_of k' t) = Some (v, n)"
    if b: "status_of k' v = Some THREAD_BLOCKED" "strip (pending_of k' v) = []" for v
  proof -
    have "v \<noteq> cur k" using b(1) run by (auto simp: st)
    then obtain t n where t: "makes (pending_of k t) = Some (v, n)" using inv_new_creator [OF i, of v] b by (auto simp: st pd)
    then show ?thesis using mc [OF t] mk by metis
  qed
  have "v \<noteq> NULL \<and> phase_ok k' v n \<and> (\<forall>t' n'. makes (pending_of k' t') = Some (v, n') \<longrightarrow> t' = t)"
    if a: "makes (pending_of k' t) = Some (v, n)" for t v n
  proof (cases "t = cur k")
    case True
    then have "v = u" "n = Page" using a mk by metis+
    then show ?thesis using True u th nu mk by auto
  next
    case False
    then have b: "makes (pending_of k t) = Some (v, n)" using a mk by metis
    then have "v \<noteq> u" using nu by metis
    then show ?thesis using inv_newD [OF i b] ph mk by (metis (full_types))
  qed
  then show ?thesis using cr unfolding inv_new_def by blast
qed

lemma thread_create_step:
  assumes a: "at_stmt k (Thread_create u nm prio) ss"
  shows "\<exists>k'. exec (Thread_create u nm prio) (popped ss k) = Some k' \<and> kinv k'"
proof -
  have c: "kinv k" "cur k \<noteq> idle_thread k" "pending_of k (cur k) = []" "ss = []" "popped ss k = k"
    "Tid_lock \<notin> locks_of k (cur k)" "intr_on k" "\<not> in_external_intr k" "PRI_MIN \<le> prio" "prio \<le> PRI_MAX"
    and m: "may_call k (Thread_create u nm prio)"
    using at_call [OF a] by simp_all
  note i = kinvD [OF c(1)]
  show ?thesis
  proof (cases "u = NULL")
    case True
    define k' where "k' = set_retval (- 1) k"
    have f: "pending_of k' = pending_of k" "holder k' = holder k" "intr_on k'" "\<not> in_external_intr k'"
      "wait_list k' = wait_list k" "ticks k' = ticks k" "wakeup_of k' = wakeup_of k" "semas k' = semas k"
      using c(7,8) by (simp_all add: k'_def)
    have sm: "same_sched k k'" by (simp add: same_sched_def f) (simp add: k'_def)
    have "inv_new k'" by (rule inv_new_mono [OF c(1) sm]) (simp add: f)
    then have "kinv k'"
      by (intro kinv_client [OF c(1,2) sm, where ps = "[]"])
        (use c in \<open>simp_all add: f same_holders_eq locks_of_def owns_def\<close>)
    then show ?thesis using True c(5) by (simp add: thread_create_def k'_def)
  next
    case False
    let ?ps = "[Lock_acquire Tid_lock, Alloc_tid, Lock_release Tid_lock, Init_thread u nm prio, Setup_stack u, Unblock_thread u]"
    have u: "threads k u = None" and old: "Init_thread u nm' p' \<notin> set (pending_of k t)" for t nm' p'
      using m False by auto
    have pd: "pending_of (push_pending ?ps k) t = (if t = cur k then ?ps else pending_of k t)" for t
      using push_pending_cur [OF i(1), where k' = k and ps = ?ps] c(3) by simp
    have new: "inv_new (push_pending ?ps k)"
      by (rule inv_new_create [OF i(1,3) c(3) False u old, where ps = ?ps]) (simp_all add: pd)
    have "kinv (push_pending ?ps ((popped ss k)\<lparr>conds := conds (popped ss k)\<rparr>))"
    proof (rule push_step [OF c(1,2)])
      show "inv_new (push_pending ?ps ((popped ss k)\<lparr>conds := conds (popped ss k)\<rparr>))"
        using new c(5) by (simp only: conds_id)
    qed (use c in simp_all)
    then show ?thesis using False c(5) by (simp add: thread_create_def)
  qed
qed

lemma sorted_insert_ordered:
  fixes f :: "'a \<Rightarrow> int"
  assumes "sorted (map f xs)"
  shows "sorted (map f (insert_ordered (\<lambda>a b. f a < f b) e xs))"
proof -
  let ?P = "\<lambda>x. \<not> f e < f x"
  have "sorted (map f (takeWhile ?P xs @ dropWhile ?P xs))" using assms by simp
  then have s: "sorted (map f (takeWhile ?P xs))" "sorted (map f (dropWhile ?P xs))"
    unfolding map_append sorted_append by blast+
  have lo: "f x \<le> f e" if "x \<in> set (takeWhile ?P xs)" for x
    using set_takeWhileD [OF that] by simp
  have hi: "f e \<le> f x" if "x \<in> set (dropWhile ?P xs)" for x
    using assms that by (induction xs) (auto split: if_splits)
  show ?thesis
    using s lo hi order_trans [OF lo hi] by (simp add: insert_ordered_def sorted_append)
qed

lemma set_insert_ordered: "set (insert_ordered lt e xs) = insert e (set xs)"
proof -
  have "set (takeWhile P xs @ dropWhile P xs) = set xs" for P by simp
  then show ?thesis by (simp add: insert_ordered_def del: takeWhile_dropWhile_id)
qed

lemma distinct_insert_ordered:
  "distinct xs \<Longrightarrow> e \<notin> set xs \<Longrightarrow> distinct (insert_ordered lt e xs)"
proof -
  assume "distinct xs" "e \<notin> set xs"
  then have "distinct (takeWhile P xs @ dropWhile P xs)" "e \<notin> set (takeWhile P xs @ dropWhile P xs)" for P
    by simp_all
  then show ?thesis
    unfolding insert_ordered_def by (simp del: takeWhile_dropWhile_id)
qed

lemma inv_timerD:
  assumes "inv_timer k"
  shows "distinct (wait_list k)" "sorted (map (wakeup_of k) (wait_list k))"
    "sval (semas k (Of_timer t)) + (if t \<in> set (wait_list k) then 1 else 0) =
       (if sleeps t (pending_of k t) then 1 else 0)"
    "0 < sval (semas k (Of_timer t)) \<Longrightarrow> wakeup_of k t \<le> ticks k"
  using assms unfolding inv_timer_def by blast+

lemma timer_sleep_step:
  assumes a: "at_stmt k (Timer_sleep n) ss"
  shows "\<exists>k'. exec (Timer_sleep n) (popped ss k) = Some k' \<and> kinv k'"
proof -
  have c: "kinv k" "cur k \<noteq> idle_thread k" "pending_of k (cur k) = []" "popped ss k = k"
    "Tid_lock \<notin> locks_of k (cur k)" "intr_on k" "\<not> in_external_intr k" "thread_current k = Some (cur k)"
    using at_call [OF a] by simp_all
  note i = kinvD [OF c(1)]
  note T = inv_timerD [OF i(6)]
  let ?k1 = "upd_thread (cur k) (\<lambda>x. x\<lparr>wakeup_time := ticks k + n\<rparr>) k"
  define k' where "k' = push_pending [Timer_wait] ?k1"
  have w: "wakeup_of k' t = wakeup_of k t" if "t \<noteq> cur k" for t
    using that by (simp add: k'_def) (simp add: wakeup_of_def upd_thread_def)
  have pd: "pending_of k' t = (if t = cur k then [Timer_wait] else pending_of k t)" for t
    unfolding k'_def using push_pending_cur [OF i(1), where k' = ?k1] c(3) by simp
  have f: "holder k' = holder k" "intr_on k'" "\<not> in_external_intr k'" "wait_list k' = wait_list k" "ticks k' = ticks k"
    "semas k' = semas k"
    using c(6,7) by (simp_all add: k'_def)
  have sm: "same_sched k k'" by (simp add: same_sched_def pd f) (simp add: k'_def)
  have z: "sval (semas k (Of_timer (cur k))) = 0" "cur k \<notin> set (wait_list k)"
    using T(3) [of "cur k"] c(3) by (auto split: if_splits)
  then have m: "map (wakeup_of k') (wait_list k) = map (wakeup_of k) (wait_list k)"
    by (intro map_cong refl w) auto
  have "wakeup_of k' t \<le> ticks k" if "0 < sval (semas k (Of_timer t))" for t
    using T(4) [OF that] w [of t] that z(1) by (cases "t = cur k") simp_all
  then have "inv_timer k'"
    unfolding inv_timer_def f m using T(1-3) c(3) by (simp add: pd)
  then have "kinv k'"
    by (intro kinv_local [OF c(1) sm]) (use c in \<open>auto simp: pd f same_holders_eq locks_of_def owns_def\<close>)
  moreover have "exec (Timer_sleep n) (popped ss k) = Some k'"
    using c by (simp add: timer_sleep_def k'_def)
  ultimately show ?thesis by blast
qed

lemma timer_wait_step:
  assumes a: "at_stmt k Timer_wait ss"
  shows "\<exists>k'. exec Timer_wait (popped ss k) = Some k' \<and> kinv k'"
proof -
  have k: "kinv k" using a by (simp add: at_stmt_def)
  note i = kinvD [OF k] and p = kinv_pendingD [OF k]
  note T = inv_timerD [OF i(6)]
  have c: "cur k \<noteq> idle_thread k" and P: "pending_of k (cur k) = Timer_wait # ss" and r: "rest_ok (cur k) (locks_of k (cur k)) ss"
    using at_stmt_client [OF a] by auto
  have on: "intr_on k" using p(5) P rest_ok_level [OF r] by simp
  let ?q = "insert_ordered (\<lambda>a b. wakeup_of k a < wakeup_of k b) (cur k) (wait_list k)"
  let ?k2 = "(intr_disable (popped ss k))\<lparr>wait_list := ?q, intr_on := True\<rparr>"
  define k' where "k' = push_pending [Sema_down (Of_timer (cur k))] ?k2"
  have pd: "pending_of k' t = (if t = cur k then Sema_down (Of_timer t) # ss else pending_of k t)" for t
    unfolding k'_def using push_pending_cur [OF i(1), where k' = ?k2] popped_pending [OF i(1)] by simp
  have f: "holder k' = holder k" "intr_on k'" "\<not> in_external_intr k'" "wait_list k' = ?q"
    "ticks k' = ticks k" "wakeup_of k' = wakeup_of k" "semas k' = semas k"
    using p(7) by (simp_all add: k'_def)
  have sm: "same_sched k k'" by (simp add: same_sched_def pd f) (simp add: k'_def)
  have v0: "sval (semas k (Of_timer (cur k))) = 0" and nw: "cur k \<notin> set (wait_list k)"
    using T(3) [of "cur k"] P by (auto split: if_splits)
  have "inv_timer k'"
    unfolding inv_timer_def f
  proof (intro conjI allI impI)
    show "distinct ?q" by (rule distinct_insert_ordered [OF T(1) nw])
    show "sorted (map (wakeup_of k) ?q)" by (rule sorted_insert_ordered [OF T(2)])
    show "sval (semas k (Of_timer t)) + (if t \<in> set ?q then 1 else 0) = (if sleeps t (pending_of k' t) then 1 else 0)" for t
      using T(3) [of t] v0 by (cases "t = cur k") (simp_all add: set_insert_ordered pd)
  qed (rule T(4))
  then have "kinv k'"
    by (intro kinv_local [OF k sm])
      (use c r P p(5) on in \<open>auto simp: pd f P same_holders_eq locks_of_def owns_def rest_ok_level\<close>)
  moreover have "exec Timer_wait (popped ss k) = Some k'"
    using on p(7) thread_current_popped [OF i(1), of ss]
    by (simp add: timer_wait_def Let_def intr_enable_def k'_def compare_threads_by_wakeup_time_def [abs_def])
  ultimately show ?thesis by blast
qed

end
