(* ===== verification/Threads_Switch.thy ===== *)
theory Threads_Switch
  imports Threads_Calls
begin

text \<open>
  Statements that wake up a thread or switch to another one: \<open>sema_up\<close>, the blocking
  branch of \<open>sema_down\<close>, \<open>thread_yield\<close>, \<open>thread_exit\<close>, the idle loop, and the state
  with a new thread.
\<close>

section \<open>Waking up a thread\<close>

lemma inv_pend_cong:
  "pending_of k' = pending_of k \<Longrightarrow> holder k' = holder k \<Longrightarrow> idle_thread k' = idle_thread k \<Longrightarrow>
   (\<And>t. threads k' t = None \<longleftrightarrow> threads k t = None) \<Longrightarrow> inv_pend k' = inv_pend k"
  by (simp add: inv_pend_def locks_of_def)

lemma inv_new_cong: "pending_of k' = pending_of k \<Longrightarrow> status_of k' = status_of k \<Longrightarrow> inv_new k \<Longrightarrow> inv_new k'"
  by (rule inv_new_same) simp_all

lemma has_frame_cong:
  "status_of k' t = status_of k t \<Longrightarrow> pending_of k' t = pending_of k t \<Longrightarrow> has_frame k' t = has_frame k t"
  by (simp add: has_frame_def)

lemma inv_locks_cong:
  "pending_of k' = pending_of k \<Longrightarrow> holder k' = holder k \<Longrightarrow> (\<And>s. sval (semas k' s) = sval (semas k s)) \<Longrightarrow>
   inv_locks k' = inv_locks k"
  by (simp add: inv_locks_def owns_def)

lemma inv_timer_cong:
  "pending_of k' = pending_of k \<Longrightarrow> wait_list k' = wait_list k \<Longrightarrow> ticks k' = ticks k \<Longrightarrow> wakeup_of k' = wakeup_of k \<Longrightarrow>
   (\<And>s. sval (semas k' s) = sval (semas k s)) \<Longrightarrow> inv_timer k' = inv_timer k"
  by (simp add: inv_timer_def)

definition woke_up :: "sema_id \<Rightarrow> kstate \<Rightarrow> kstate" where
  "woke_up s k = (case waiters (semas k s) of [] \<Rightarrow> k
     | t # ts \<Rightarrow> set_status t THREAD_READY
         ((upd_sema s (\<lambda>x. x\<lparr>waiters := ts\<rparr>) k)\<lparr>ready_list := ready_list k @ [t]\<rparr>))"

lemma yield_on_return_set_status [simp]: "yield_on_return (set_status t x k) = yield_on_return k"
  by (simp add: set_status_def)

lemma threads_set_status: "threads (set_status t x k) u = None \<longleftrightarrow> threads k u = None"
  by (simp add: set_status_def threads_None)

lemma woke_up_fields [simp]:
  "cur (woke_up s k) = cur k" "idle_thread (woke_up s k) = idle_thread k" "initial_thread (woke_up s k) = initial_thread k"
  "holder (woke_up s k) = holder k" "conds (woke_up s k) = conds k" "intr_on (woke_up s k) = intr_on k"
  "in_external_intr (woke_up s k) = in_external_intr k" "ticks (woke_up s k) = ticks k"
  "wait_list (woke_up s k) = wait_list k" "wakeup_of (woke_up s k) = wakeup_of k" "pending_of (woke_up s k) = pending_of k"
  "yield_on_return (woke_up s k) = yield_on_return k"
  "sval (semas (woke_up s k) y) = sval (semas k y)"
  "waiters (semas (woke_up s k) y) = (if y = s then tl (waiters (semas k s)) else waiters (semas k y))"
  "ready_list (woke_up s k) = ready_list k @ take 1 (waiters (semas k s))"
  "threads (woke_up s k) u = None \<longleftrightarrow> threads k u = None"
  by (auto simp: woke_up_def threads_set_status split: list.split)

lemma woke_up_status:
  assumes "inv_lists k"
  shows "status_of (woke_up s k) u = (if u \<in> set (take 1 (waiters (semas k s))) then Some THREAD_READY else status_of k u)"
  using inv_listsD(6) [OF assms, of _ s] by (auto simp: woke_up_def split: list.split)

lemma woke_up_lists:
  assumes l: "inv_lists k"
  shows "inv_lists (woke_up s k)"
proof (cases "waiters (semas k s)")
  case Nil
  then show ?thesis using l by (simp add: woke_up_def)
next
  case (Cons t ts)
  note L = inv_listsD [OF l]
  have t: "t \<in> set (waiters (semas k s))" using Cons by simp
  have bt: "status_of k t = Some THREAD_BLOCKED" "t \<noteq> idle_thread k" "t \<notin> set (ready_list k)" "t \<notin> set ts"
    using L(6) [OF t] L(13) [of s] L(3) [of t] L(5) [of s] Cons by auto
  have ow: "t \<notin> set (waiters (semas k y))" if "y \<noteq> s" for y
    using L(7) [OF t] L(7) [of t y] that by auto
  have st: "status_of (woke_up s k) u = (if u = t then Some THREAD_READY else status_of k u)" for u
    using woke_up_status [OF l, of s] Cons by simp
  have dm: "threads (woke_up s k) NULL = None" "finite (dom (threads (woke_up s k)))"
    using L(11,12) dom_status_of [of "woke_up s k"] dom_status_of [of k]
    by (simp, auto simp: status_of_None dom_def)
  show ?thesis
    unfolding inv_lists_def woke_up_fields st Cons
  proof (intro conjI allI ballI impI)
    show "distinct (ready_list k @ take 1 (t # ts))" using L(1) bt by simp
    show "idle_thread k \<notin> set (ready_list k @ take 1 (t # ts))" using L(2) bt by auto
    show "(if u = t then Some THREAD_READY else status_of k u) = Some THREAD_READY"
      if "u \<in> set (ready_list k @ take 1 (t # ts))" for u using that L(3) by auto
    show "u \<in> set (ready_list k @ take 1 (t # ts)) \<or> u = idle_thread k"
      if "(if u = t then Some THREAD_READY else status_of k u) = Some THREAD_READY" for u
      using that L(4) [of u] by (auto split: if_splits)
    show "distinct (if y = s then tl (t # ts) else waiters (semas k y))" for y using L(5) [of y] L(5) [of s] Cons by simp
    show "(if u = t then Some THREAD_READY else status_of k u) = Some THREAD_BLOCKED"
      "\<exists>b ps. pending_of k u = Sema_loop y b # ps"
      if "u \<in> set (if y = s then tl (t # ts) else waiters (semas k y))" for y u
    proof -
      have m: "u \<in> set (waiters (semas k y))" "u \<noteq> t" using that Cons bt(4) ow by (auto split: if_splits)
      then show "(if u = t then Some THREAD_READY else status_of k u) = Some THREAD_BLOCKED" using L(6) by simp
      show "\<exists>b ps. pending_of k u = Sema_loop y b # ps" by (rule L(7) [OF m(1)])
    qed
    show "(\<exists>y. u \<in> set (if y = s then tl (t # ts) else waiters (semas k y))) \<or> u = idle_thread k \<or> strip (pending_of k u) = []"
      if "(if u = t then Some THREAD_READY else status_of k u) = Some THREAD_BLOCKED" for u
    proof -
      have u: "u \<noteq> t" "status_of k u = Some THREAD_BLOCKED" using that by (auto split: if_splits)
      from L(8) [OF u(2)] show ?thesis using u(1) Cons by (metis list.sel(3) set_ConsD)
    qed
    show "idle_thread k \<notin> set (if y = s then tl (t # ts) else waiters (semas k y))" for y
      using L(13) [of y] Cons by auto
  qed (use L(9,10) bt dm in auto)
qed

lemma woke_up_new:
  assumes l: "inv_lists k" and i: "inv_new k"
  shows "inv_new (woke_up s k)"
proof (rule inv_new_same [OF i])
  note st = woke_up_status [OF l, of s]
  show "status_of (woke_up s k) t = status_of k t \<and> pending_of (woke_up s k) t = pending_of k t"
    if "phase_ok k t n" for t n
    using phase_ok_new [OF that] inv_listsD(7) [OF l in_set_takeD, of t 1 s] by (auto simp: st)
qed (simp_all add: woke_up_status [OF l, of s] split: if_splits)

lemma finite_woken: "inv_lists k \<Longrightarrow> finite (woken k s)"
  using finite_subset [OF _ inv_listsD(12), of "woken k s" k] by (auto simp: woken_def status_of_def)

lemma woken_woke_up:
  assumes l: "inv_lists k"
  shows "woken k y \<subseteq> woken (woke_up s k) y" "finite (woken (woke_up s k) y)"
    "waiters (semas k s) \<noteq> [] \<Longrightarrow> card (woken k s) < card (woken (woke_up s k) s)"
proof -
  note L = inv_listsD [OF l] and st = woke_up_status [OF l]
  show sub: "woken k y \<subseteq> woken (woke_up s k) y" for y by (auto simp: woken_def st)
  show fin: "finite (woken (woke_up s k) y)" for y
    by (rule finite_woken [OF woke_up_lists [OF l]])
  assume "waiters (semas k s) \<noteq> []"
  then obtain t ts where t: "waiters (semas k s) = t # ts" by (cases "waiters (semas k s)") auto
  then have tm: "t \<in> set (waiters (semas k s))" by simp
  have "t \<in> woken (woke_up s k) s" "t \<notin> woken k s"
    using L(6,7) [OF tm] t by (auto simp: woken_def st in_loop_def)
  then show "card (woken k s) < card (woken (woke_up s k) s)"
    using psubset_card_mono [OF fin] sub by blast
qed

lemma woke_up_core:
  assumes k: "core k"
  shows "core (woke_up s k)"
proof -
  note i = coreD [OF k]
  have l: "inv_lists k" by (rule inv_schedD(1) [OF i(1)])
  note st = woke_up_status [OF l, of s]
  let ?T = "set (take 1 (waiters (semas k s)))"
  have w: "t \<noteq> cur k" if "t \<in> ?T" for t
    using inv_listsD(6) [OF l in_set_takeD [OF that]] inv_schedD(2) [OF i(1)] by auto
  have "inv_sched (woke_up s k)"
    unfolding inv_sched_def woke_up_fields st
  proof (intro conjI allI impI)
    show "inv_lists (woke_up s k)" by (rule woke_up_lists [OF l])
    show "(if cur k \<in> ?T then Some THREAD_READY else status_of k (cur k)) = Some THREAD_RUNNING"
      using w inv_schedD(2) [OF i(1)] by auto
    show "t = cur k" if "(if t \<in> ?T then Some THREAD_READY else status_of k t) = Some THREAD_RUNNING" for t
      using that inv_schedD(3) [OF i(1), of t] by (simp split: if_splits)
    show "t = initial_thread k" if "(if t \<in> ?T then Some THREAD_READY else status_of k t) = Some THREAD_DYING" for t
      using that inv_schedD(4) [OF i(1), of t] by (simp split: if_splits)
  qed
  moreover have "inv_pend (woke_up s k)" "inv_new (woke_up s k)" "inv_locks (woke_up s k)" "inv_timer (woke_up s k)"
    using i by (simp_all add: inv_pend_cong [of "woke_up s k" k] woke_up_new [OF l]
        inv_locks_cong [of "woke_up s k" k] inv_timer_cong [of "woke_up s k" k])
  moreover have "inv_wake (woke_up s k)"
    unfolding inv_wake_def woke_up_fields
  proof (intro allI impI)
    fix y assume "(if y = s then tl (waiters (semas k s)) else waiters (semas k y)) \<noteq> []"
    then have "waiters (semas k y) \<noteq> []" by (auto split: if_splits)
    then have "sval (semas k y) \<le> card (woken k y)" using i(6) by (simp add: inv_wake_def)
    also have "\<dots> \<le> card (woken (woke_up s k) y)" by (rule card_mono) (use woken_woke_up [OF l] in blast)+
    finally show "sval (semas k y) \<le> card (woken (woke_up s k) y)" .
  qed
  ultimately show ?thesis by (simp add: core_def)
qed

lemma is_thread_status: "inv_lists k \<Longrightarrow> status_of k t = Some x \<Longrightarrow> is_thread k t"
  using NULL_no_thread [of k t x] by (auto simp: is_thread_def status_of_def)

definition raised :: "sema_id \<Rightarrow> kstate \<Rightarrow> kstate" where
  "raised s k = (upd_sema s (\<lambda>x. x\<lparr>sval := size_add (sval x) 1\<rparr>) (woke_up s (intr_disable k)))\<lparr>intr_on := intr_on k\<rparr>"

lemma inv_lists_disable: "inv_lists (intr_disable k) = inv_lists k"
  by (simp add: inv_lists_def)

lemma intr_set_level_any: "(b \<Longrightarrow> \<not> in_external_intr k) \<Longrightarrow> intr_set_level b k = Some (k\<lparr>intr_on := b\<rparr>)"
  by (cases b) (simp_all add: intr_set_level_def intr_enable_def intr_disable_def)

lemma thread_unblock_off:
  assumes "is_thread k t" "status_of k t = Some THREAD_BLOCKED" "\<not> intr_on k"
  shows "thread_unblock t k = Some (set_status t THREAD_READY (k\<lparr>ready_list := ready_list k @ [t]\<rparr>))"
  using assms by (simp add: thread_unblock_def intr_set_level_def intr_disable_def set_status_def upd_thread_def
      status_of_def)

lemma sema_up_eq:
  assumes l: "inv_lists k" and x: "intr_on k \<Longrightarrow> \<not> in_external_intr k"
  shows "sema_up s k = Some (raised s k)"
proof (cases "waiters (semas k s)")
  case Nil
  then show ?thesis
    using x by (simp add: sema_up_def raised_def woke_up_def Let_def intr_set_level_any)
next
  case (Cons t ts)
  then have t: "t \<in> set (waiters (semas k s))" by simp
  have "is_thread (upd_sema s (\<lambda>x. x\<lparr>waiters := ts\<rparr>) (intr_disable k)) t" "status_of k t = Some THREAD_BLOCKED"
    using is_thread_status [OF l inv_listsD(6) [OF l t]] inv_listsD(6) [OF l t] by (simp_all add: is_thread_def)
  then show ?thesis
    using x Cons by (simp add: sema_up_def raised_def woke_up_def thread_unblock_off Let_def intr_set_level_any)
qed

lemma raised_fields [simp]:
  "cur (raised s k) = cur k" "idle_thread (raised s k) = idle_thread k" "initial_thread (raised s k) = initial_thread k"
  "holder (raised s k) = holder k" "conds (raised s k) = conds k" "intr_on (raised s k) = intr_on k"
  "in_external_intr (raised s k) = in_external_intr k" "ticks (raised s k) = ticks k"
  "wait_list (raised s k) = wait_list k" "wakeup_of (raised s k) = wakeup_of k" "pending_of (raised s k) = pending_of k"
  "yield_on_return (raised s k) = yield_on_return k" "ready_list (raised s k) = ready_list (woke_up s k)"
  "waiters (semas (raised s k) y) = waiters (semas (woke_up s k) y)"
  "sval (semas (raised s k) y) = (if y = s then size_add (sval (semas k s)) 1 else sval (semas k y))"
  "threads (raised s k) u = None \<longleftrightarrow> threads k u = None"
  by (simp_all add: raised_def)

lemma raised_status: "inv_lists k \<Longrightarrow> status_of (raised s k) = status_of (woke_up s k)"
  using woke_up_status [of k s] woke_up_status [of "intr_disable k" s]
  by (auto simp: raised_def fun_eq_iff inv_lists_disable)

text \<open>After \<open>sema_up\<close> the added unit is covered by the thread that was woken up.\<close>

lemma size_add_1_le: "size_add v 1 \<le> v + 1"
  by (simp add: size_add_def)

lemma raised_wake:
  assumes k: "core k" and st: "status_of k' = status_of (woke_up s k)" and th: "\<And>t. threads k' t = None \<longleftrightarrow> threads k t = None"
    and w: "\<And>y. waiters (semas k' y) = waiters (semas (woke_up s k) y)"
    and v: "\<And>y. sval (semas k' y) \<le> sval (semas k y) + (if y = s then 1 else 0)"
    and p: "\<And>t y. in_loop y (pending_of k' t) = in_loop y (pending_of k t)"
  shows "inv_wake k'"
  unfolding inv_wake_def
proof (intro allI impI)
  fix y assume "waiters (semas k' y) \<noteq> []"
  then have w': "waiters (semas (woke_up s k) y) \<noteq> []" by (simp add: w)
  have l: "inv_lists k" by (rule inv_schedD(1) [OF coreD(1) [OF k]])
  have eq: "woken k' y = woken (woke_up s k) y" by (simp add: woken_def st th p)
  have old: "sval (semas k y) \<le> card (woken (woke_up s k) y)"
    using coreD(6) [OF woke_up_core [OF k, of s]] w' by (auto simp: inv_wake_def simp del: woke_up_fields(14))
  show "sval (semas k' y) \<le> card (woken k' y)"
  proof (cases "y = s")
    case True
    then have ne: "waiters (semas k s) \<noteq> []" using w' by auto
    then have "sval (semas k s) \<le> card (woken k s)" using coreD(6) [OF k] by (simp add: inv_wake_def)
    then show ?thesis using woken_woke_up(3) [OF l ne] v [of y] True eq by simp
  next
    case False
    then show ?thesis using old v [of y] by (simp add: eq)
  qed
qed

lemma same_sched_woke:
  assumes "status_of k' = status_of (woke_up s k)" "ready_list k' = ready_list (woke_up s k)" "cur k' = cur k"
    "idle_thread k' = idle_thread k" "initial_thread k' = initial_thread k"
    "\<And>y. waiters (semas k' y) = waiters (semas (woke_up s k) y)"
    "\<And>t. t \<noteq> cur k \<Longrightarrow> pending_of k' t = pending_of k t"
  shows "same_sched (woke_up s k) k'"
  using assms by (simp add: same_sched_def)

lemma popped_same: "inv_sched k \<Longrightarrow> same_sched k (popped ss k)"
  by (simp add: same_sched_def popped_pending)

lemma popped_lists: "inv_sched k \<Longrightarrow> inv_lists (popped ss k)"
  by (rule inv_schedD(1) [OF inv_sched_local [OF _ popped_same]])

lemma woke_up_level:
  assumes l: "inv_lists k" and i: "inv_level k"
  shows "inv_level (woke_up s k)"
proof -
  have "has_frame k t" if "has_frame (woke_up s k) t" for t
    using that woke_up_status [OF l, of s t] inv_listsD(6,7) [OF l in_set_takeD, of t 1 s]
    by (auto simp: has_frame_def split: if_splits)
  then show ?thesis using i unfolding inv_level_def woke_up_fields by blast
qed

lemma sema_up_step:
  assumes a: "at_stmt k (Sema_up s) ss"
  shows "\<exists>k'. exec (Sema_up s) (popped ss k) = Some k' \<and> kinv k'"
proof -
  have k: "kinv k" using a by (simp add: at_stmt_def)
  then have co: "core k" by (simp add: kinv_core)
  note i = kinvD [OF k] and p = kinv_pendingD [OF k]
  note c = at_stmt_client [OF a]
  let ?H = "locks_of k (cur k)" and ?P = "pending_of k (cur k)"
  have l: "inv_lists k" by (rule inv_schedD(1) [OF i(1)])
  have r: "rest_ok (cur k) ?H ss" and nt: "s \<noteq> Of_timer t" and lk: "s = Of_lock l \<Longrightarrow> l \<notin> ?H"
    and P: "claims l ?P \<longleftrightarrow> s = Of_lock l" "\<not> in_loop y ?P" "\<not> sleeps (cur k) ?P" "makes ss = makes ?P"
      "final_level (intr_on k) ss" for t l y
    using c(2) p(5) by (cases s; auto simp: at_stmt_client [OF a])+
  note q = rest_ok_quiet [OF r] rest_ok_strip [OF r] rest_ok_begun [OF r]
  define k' where "k' = raised s (popped ss k)"
  note pl = popped_lists [OF i(1), of ss] and pp = popped_pending [OF i(1), of ss]
  have pd: "pending_of k' t = (if t = cur k then ss else pending_of k t)" for t by (simp add: k'_def pp)
  have st: "status_of k' = status_of (woke_up s k)"
    using woke_up_status [OF l, of s] woke_up_status [OF pl, of s] raised_status [OF pl, of s]
    by (auto simp: k'_def fun_eq_iff)
  have th: "threads k' t = None \<longleftrightarrow> threads k t = None" for t by (simp add: k'_def popped_def threads_None)
  have sm: "same_sched (woke_up s k) k'" by (rule same_sched_woke) (simp_all add: st pd, simp_all add: k'_def)
  have f: "holder k' = holder k" "intr_on k' = intr_on k" "\<not> in_external_intr k'"
    "sval (semas k' y) = (if y = s then size_add (sval (semas k s)) 1 else sval (semas k y))" for y
    using p(7) by (simp_all add: k'_def)
  have one: "sval (semas k (Of_lock l)) = 0" if "s = Of_lock l" for l
  proof -
    have "owns k (cur k) l" using P(1) [of l] that by (simp add: owns_def)
    then show ?thesis using i(4) unfolding inv_locks_def by blast
  qed
  have "core k'"
  proof (rule core_local [OF woke_up_core [OF co] sm])
    show "inv_new k'"
      by (rule inv_new_local [OF coreD(1,3) [OF woke_up_core [OF co]] sm]) (use P(4) in \<open>simp add: pd\<close>)
    show "inv_timer k'"
      by (rule inv_timer_local [OF coreD(5) [OF woke_up_core [OF co]] sm])
        (simp_all add: pd P q, simp_all add: k'_def nt nt [symmetric])
    show "inv_wake k'"
      by (rule raised_wake [OF co st th]) (use P(2) q in \<open>simp_all add: pd\<close>, simp_all add: k'_def size_add_def)
    show "sval (semas k' (Of_lock l)) + (if owns k' (cur (woke_up s k)) l then 1 else 0) =
        sval (semas (woke_up s k) (Of_lock l)) + (if owns (woke_up s k) (cur (woke_up s k)) l then 1 else 0)" for l
      using one lk [of l] by (cases "s = Of_lock l") (simp_all add: owns_def pd P(1) q(1) f locks_of_def size_add_def)
  qed (use c(1) q in \<open>simp_all add: pd same_holders_def locks_of_def f\<close>)
  moreover have "inv_level k'"
    by (rule inv_level_local [OF woke_up_level [OF l i(5)] sm]) (use P(5) q in \<open>simp_all add: pd f\<close>)
  moreover have "exec (Sema_up s) (popped ss k) = Some k'"
    using sema_up_eq [OF pl, of s] p(7) by (simp add: k'_def)
  ultimately show ?thesis by (auto simp: kinv_core)
qed

section \<open>Switching to another thread\<close>

lemma switched_threads:
  assumes "inv_lists k"
  shows "threads (switched k) t = None \<longleftrightarrow> threads k t = None \<or> freed k t"
  using switched_status [OF assms, of t] next_of_exists(3) [OF assms]
  by (auto simp: status_of_None [symmetric])

lemma freed_cur: "freed k t \<Longrightarrow> t = cur k"
  by (simp add: freed_def)

lemma inv_timer_switched:
  assumes i: "inv_timer k" and fr: "freed k (cur k) \<Longrightarrow> pending_of k (cur k) = []"
  shows "inv_timer (switched k)"
proof -
  note T = inv_timerD [OF i]
  have fr': "pending_of k t = []" if "freed k t" for t using fr freed_cur [OF that] that by simp
  then have pd: "pending_of (switched k) = pending_of k" by (auto simp: switched_pending)
  have sl: "\<not> freed k t" if "sleeps t (pending_of k t)" for t using that fr' by auto
  have wl: "sleeps t (pending_of k t)" if "t \<in> set (wait_list k) \<or> 0 < sval (semas k (Of_timer t))" for t
    using T(3) [of t] that by (auto split: if_splits)
  have w: "wakeup_of (switched k) t = wakeup_of k t" if "t \<in> set (wait_list k) \<or> 0 < sval (semas k (Of_timer t))" for t
    using sl [OF wl [OF that]] by (rule switched_wakeup)
  then have m: "map (wakeup_of (switched k)) (wait_list k) = map (wakeup_of k) (wait_list k)" by simp
  show ?thesis
    unfolding inv_timer_def switched_fields pd m using T w by simp
qed

lemma next_of_frame:
  assumes l: "inv_lists k" and i: "inv_pend k"
  shows "has_frame k (next_of k)" "\<not> phase_ok k (next_of k) n"
proof -
  have idle: "strip (pending_of k (idle_thread k)) = [Idle_loop]" using i unfolding inv_pend_def by blast
  have "status_of k (next_of k) = Some THREAD_READY \<or> next_of k = idle_thread k"
    by (rule next_of_cases [OF l]) simp_all
  then show "has_frame k (next_of k)" "\<not> phase_ok k (next_of k) n"
    using idle inv_listsD(9,10) [OF l] phase_ok_new [of k "next_of k" n] by (auto simp: has_frame_def)
qed

lemma switched_kinv:
  assumes pre: "inv_pre k" and off: "\<not> intr_on k" and ext: "\<not> in_external_intr k"
    and i: "inv_pend k" "inv_new k" "inv_locks k" "inv_timer k" "inv_wake k"
    and lvl: "\<And>t. has_frame k t \<Longrightarrow> final_level False (pending_of k t)"
    and fr: "freed k (cur k) \<Longrightarrow> pending_of k (cur k) = [] \<and> locks_of k (cur k) = {}"
  shows "\<exists>k'. schedule k = Some k' \<and> kinv k'"
proof -
  have l: "inv_lists k" using pre by (simp add: inv_pre_def)
  note st = switched_status [OF l] and th = switched_threads [OF l]
  have fr': "pending_of k t = []" "locks_of k t = {}" if "freed k t" for t using fr freed_cur [OF that] that by simp_all
  then have pd: "pending_of (switched k) = pending_of k" by (auto simp: switched_pending)
  note next_frame = next_of_frame [OF l i(1)]
  have "inv_pend (switched k)"
  proof -
    have "threads (switched k) (holder k l) \<noteq> None" if "holder k l \<noteq> NULL" for l
      using that i(1) fr'(2) [of "holder k l"] th unfolding inv_pend_def by (auto simp: locks_of_def)
    then show ?thesis using i(1) unfolding inv_pend_def switched_fields pd locks_of_def by blast
  qed
  moreover have "inv_new (switched k)"
  proof (rule inv_new_same [OF i(2)])
    show "status_of (switched k) t = status_of k t \<and> pending_of (switched k) t = pending_of k t" if "phase_ok k t n" for t n
    proof -
      have "t \<noteq> next_of k" using next_frame(2) that by blast
      moreover have "\<not> freed k t" using phase_ok_new [OF that] by (auto simp: freed_def)
      ultimately show ?thesis by (simp add: st pd)
    qed
  qed (simp_all add: st pd split: if_splits)
  moreover have "inv_locks (switched k)" using i(3) inv_locks_cong [of "switched k" k] pd by simp
  moreover have "inv_timer (switched k)" using inv_timer_switched [OF i(4)] fr by blast
  moreover have "inv_wake (switched k)"
    unfolding inv_wake_def switched_fields
  proof (intro allI impI)
    fix s assume w: "waiters (semas k s) \<noteq> []"
    have "woken k s \<subseteq> woken (switched k) s"
    proof
      fix t assume t: "t \<in> woken k s"
      then have "\<not> freed k t" using fr'(1) by (auto simp: woken_def)
      then show "t \<in> woken (switched k) s" using t th st by (simp add: woken_def pd)
    qed
    then have "card (woken k s) \<le> card (woken (switched k) s)"
      using finite_woken [OF inv_schedD(1) [OF switched_inv [OF pre]]] by (rule card_mono [rotated])
    then show "sval (semas k s) \<le> card (woken (switched k) s)" using i(5) w unfolding inv_wake_def by force
  qed
  moreover have "inv_level (switched k)"
    unfolding inv_level_def switched_fields pd
  proof (intro conjI allI impI)
    show "final_level (intr_on k) (pending_of k (next_of k))"
      using off lvl [OF next_frame(1)] by simp
    show "final_level False (pending_of k t)"
      if "has_frame (switched k) t" "t \<noteq> next_of k" for t
      using lvl [of t] that by (auto simp: has_frame_def st pd split: if_splits)
  qed (use off ext in auto)
  ultimately have "kinv (switched k)" using switched_inv [OF pre] by (simp add: kinv_def)
  then show ?thesis using schedule_eq [OF pre off] by blast
qed

text \<open>The running thread \<open>cur k\<close> gives up the processor with status \<open>x\<close>; blocked, it waits on \<open>s\<close>.\<close>

lemma give_up:
  assumes sch: "inv_sched k"
    and st: "\<And>t. status_of k1 t = (if t = cur k then Some x else status_of k t)"
    and f: "cur k1 = cur k" "idle_thread k1 = idle_thread k" "initial_thread k1 = initial_thread k"
    and pd: "\<And>t. t \<noteq> cur k \<Longrightarrow> pending_of k1 t = pending_of k t"
    and rd: "ready_list k1 = ready_list k @ (if x = THREAD_READY \<and> cur k \<noteq> idle_thread k then [cur k] else [])"
    and wt: "\<And>y. waiters (semas k1 y) = waiters (semas k y) @
       (if x = THREAD_BLOCKED \<and> cur k \<noteq> idle_thread k \<and> y = s then [cur k] else [])"
    and lp: "x = THREAD_BLOCKED \<Longrightarrow> cur k \<noteq> idle_thread k \<Longrightarrow> in_loop s (pending_of k1 (cur k))"
    and x: "x \<noteq> THREAD_RUNNING" "x = THREAD_DYING \<Longrightarrow> cur k \<noteq> idle_thread k"
  shows "inv_pre k1"
proof -
  note L = inv_listsD [OF inv_schedD(1) [OF sch]] and run = inv_schedD(2) [OF sch]
  have cr: "cur k \<notin> set (ready_list k)" using L(3) [of "cur k"] run by auto
  have cw: "cur k \<notin> set (waiters (semas k y))" for y using L(6) [of "cur k" y] run by auto
  have dm: "dom (threads k1) = dom (threads k)" using run by (auto simp: dom_status_of st)
  have nul: "threads k1 NULL = None" using L(11) dm by (metis domIff)
  have "inv_lists k1"
    unfolding inv_lists_def f st rd wt
  proof (intro conjI allI ballI impI)
    show "distinct (ready_list k @ (if x = THREAD_READY \<and> cur k \<noteq> idle_thread k then [cur k] else []))"
      using L(1) cr by auto
    show "idle_thread k \<notin> set (ready_list k @ (if x = THREAD_READY \<and> cur k \<noteq> idle_thread k then [cur k] else []))"
      using L(2) by auto
    show "(if t = cur k then Some x else status_of k t) = Some THREAD_READY"
      if "t \<in> set (ready_list k @ (if x = THREAD_READY \<and> cur k \<noteq> idle_thread k then [cur k] else []))" for t
      using that L(3) [of t] cr by (auto split: if_splits)
    show "t \<in> set (ready_list k @ (if x = THREAD_READY \<and> cur k \<noteq> idle_thread k then [cur k] else [])) \<or> t = idle_thread k"
      if "(if t = cur k then Some x else status_of k t) = Some THREAD_READY" for t
      using that L(4) [of t] by (auto split: if_splits)
    show "distinct (waiters (semas k y) @ (if x = THREAD_BLOCKED \<and> cur k \<noteq> idle_thread k \<and> y = s then [cur k] else []))" for y
      using L(5) [of y] cw [of y] by auto
    show "(if t = cur k then Some x else status_of k t) = Some THREAD_BLOCKED" "\<exists>b ps. pending_of k1 t = Sema_loop y b # ps"
      if "t \<in> set (waiters (semas k y) @ (if x = THREAD_BLOCKED \<and> cur k \<noteq> idle_thread k \<and> y = s then [cur k] else []))" for y t
      using that L(6,7) [of t y] cw [of y] pd [of t] lp
      by (cases "t = cur k"; auto simp: in_loop_def split: if_splits)+
    show "(\<exists>y. t \<in> set (waiters (semas k y) @ (if x = THREAD_BLOCKED \<and> cur k \<noteq> idle_thread k \<and> y = s then [cur k] else []))) \<or> t = idle_thread k \<or>
        strip (pending_of k1 t) = []"
      if "(if t = cur k then Some x else status_of k t) = Some THREAD_BLOCKED" for t
      using that L(8) [of t] pd [of t] by (auto split: if_splits)
    show "idle_thread k \<notin> set (waiters (semas k y) @ (if x = THREAD_BLOCKED \<and> cur k \<noteq> idle_thread k \<and> y = s then [cur k] else []))" for y
      using L(13) [of y] by auto
  qed (use L(9,10,12) x(2) dm nul in auto)
  moreover have "status_of k1 t \<noteq> Some THREAD_RUNNING" for t
    using inv_schedD(3) [OF sch, of t] x(1) st [of t] by auto
  moreover have "t = initial_thread k \<or> t = cur k" if "status_of k1 t = Some THREAD_DYING" for t
    using inv_schedD(4) [OF sch, of t] that st [of t] by (auto split: if_splits)
  ultimately show ?thesis by (simp add: inv_pre_def f)
qed

lemma makes_strip: "makes (strip ps) = makes ps"
proof (induction ps)
  case (Cons s ps)
  then show ?case by (cases s) simp_all
qed simp

lemma in_loop_strip: "in_loop y ps \<Longrightarrow> in_loop y (strip ps)"
  by (auto simp: in_loop_def)

lemma give_up_rest:
  assumes k: "core k"
    and st: "\<And>t. status_of k1 t = (if t = cur k then Some x else status_of k t)"
    and id: "idle_thread k1 = idle_thread k"
    and pd: "\<And>t. t \<noteq> cur k \<Longrightarrow> pending_of k1 t = pending_of k t"
    and f: "holder k1 = holder k" "ticks k1 = ticks k" "wait_list k1 = wait_list k" "wakeup_of k1 = wakeup_of k"
      "\<And>y. sval (semas k1 y) = sval (semas k y)"
    and ps: "strip (pending_of k1 (cur k)) = strip (pending_of k (cur k))"
      "\<And>y. in_loop y (strip (pending_of k (cur k))) \<Longrightarrow> strip (pending_of k1 (cur k)) = pending_of k1 (cur k) \<and> sval (semas k y) = 0"
    and wt: "\<And>y. 0 < sval (semas k y) \<Longrightarrow> waiters (semas k1 y) = waiters (semas k y)"
    and bl: "x = THREAD_BLOCKED \<Longrightarrow> strip (pending_of k (cur k)) \<noteq> []"
  shows "inv_pend k1" "inv_new k1" "inv_locks k1" "inv_timer k1" "inv_wake k1"
proof -
  note i = coreD [OF k]
  have run: "status_of k (cur k) = Some THREAD_RUNNING" by (rule inv_schedD(2) [OF i(1)])
  have th: "threads k1 t = None \<longleftrightarrow> threads k t = None" for t
    using st [of t] run by (auto simp: status_of_None [symmetric])
  have sp: "strip (pending_of k1 t) = strip (pending_of k t)" for t using pd ps(1) by (cases "t = cur k") simp_all
  have lp: "strip (pending_of k1 t) = pending_of k1 t" if "in_loop y (strip (pending_of k t))" for t y
    using that ps(2) pd i(2) unfolding inv_pend_def by (cases "t = cur k") auto
  show "inv_pend k1"
    using i(2) lp unfolding inv_pend_def id sp th f locks_of_def by blast
  show "inv_new k1"
  proof (rule inv_new_same [OF i(3)])
    show "makes (pending_of k1 t) = makes (pending_of k t)" for t
      using makes_strip [of "pending_of k1 t"] makes_strip [of "pending_of k t"] sp [of t] by simp
    show "status_of k1 t = status_of k t \<and> pending_of k1 t = pending_of k t" if "phase_ok k t n" for t n
      using phase_ok_new [OF that] run st [of t] pd [of t] by (cases "t = cur k") auto
    show "status_of k t = Some THREAD_BLOCKED \<and> strip (pending_of k t) = []"
      if "status_of k1 t = Some THREAD_BLOCKED" "strip (pending_of k1 t) = []" for t
      using that st [of t] sp [of t] bl by (auto split: if_splits)
  qed
  show "inv_locks k1" using i(4) by (simp add: inv_locks_def owns_def claims_def sp f)
  show "inv_timer k1" using i(5) by (simp add: inv_timer_def sleeps_def sp f)
  show "inv_wake k1"
    unfolding inv_wake_def
  proof (intro allI impI)
    fix y assume w: "waiters (semas k1 y) \<noteq> []"
    show "sval (semas k1 y) \<le> card (woken k1 y)"
    proof (cases "sval (semas k y) = 0")
      case True
      then show ?thesis by (simp add: f)
    next
      case False
      then have n: "\<not> in_loop y (strip (pending_of k (cur k)))" using ps(2) [of y] by auto
      then have "\<not> in_loop y (pending_of k1 (cur k))" "\<not> in_loop y (pending_of k (cur k))"
        using in_loop_strip [of y "pending_of k1 (cur k)"] in_loop_strip [of y "pending_of k (cur k)"] sp by auto
      then have "t \<in> woken k1 y \<longleftrightarrow> t \<in> woken k y" for t
        using th [of t] st [of t] pd [of t] by (cases "t = cur k") (simp_all add: woken_def)
      then have "woken k1 y = woken k y" by blast
      then show ?thesis using i(6) w wt [of y] False by (simp add: inv_wake_def f)
    qed
  qed
qed

lemma thread_yield_ok:
  assumes k: "core k" and ext: "\<not> in_external_intr k" and n: "\<And>y. \<not> in_loop y (strip (pending_of k (cur k)))"
    and fl: "final_level (intr_on k) (pending_of k (cur k))"
    and lvl: "\<And>t. t \<noteq> cur k \<Longrightarrow> has_frame k t \<Longrightarrow> final_level False (pending_of k t)"
  shows "\<exists>k'. thread_yield k = Some k' \<and> kinv k'"
proof -
  note i = coreD [OF k] and run = inv_schedD(2) [OF coreD(1) [OF k]]
  define k1 where "k1 = push_pending [Set_level (intr_on k)] (set_status (cur k) THREAD_READY
    (if cur k \<noteq> idle_thread k then (intr_disable k)\<lparr>ready_list := ready_list k @ [cur k]\<rparr> else intr_disable k))"
  have st: "status_of k1 t = (if t = cur k then Some THREAD_READY else status_of k t)" for t
    using run by (auto simp: k1_def)
  have f: "cur k1 = cur k" "idle_thread k1 = idle_thread k" "initial_thread k1 = initial_thread k" "holder k1 = holder k"
    "ticks k1 = ticks k" "wait_list k1 = wait_list k" "wakeup_of k1 = wakeup_of k" "semas k1 = semas k"
    "\<not> intr_on k1" "\<not> in_external_intr k1"
    "ready_list k1 = ready_list k @ (if THREAD_READY = THREAD_READY \<and> cur k \<noteq> idle_thread k then [cur k] else [])"
    using ext by (simp_all add: k1_def)
  have ex: "threads k (cur k) \<noteq> None" using run by (auto simp: status_of_def)
  have pd: "pending_of k1 t = (if t = cur k then Set_level (intr_on k) # pending_of k t else pending_of k t)" for t
    using ex unfolding k1_def by (auto simp: pending_of_push threads_set_status simp del: not_None_eq)
  have sch: "\<exists>k'. schedule k1 = Some k' \<and> kinv k'"
  proof (rule switched_kinv)
    show "inv_pre k1" by (rule give_up [OF i(1) st]) (simp_all add: f pd)
    show "inv_pend k1" "inv_new k1" "inv_locks k1" "inv_timer k1" "inv_wake k1"
      by (rule give_up_rest [OF k st]; simp add: f pd n)+
    show "final_level False (pending_of k1 t)" if "has_frame k1 t" for t
      using that fl lvl [of t] st [of t] by (auto simp: pd has_frame_def split: if_splits)
    show "freed k1 (cur k1) \<Longrightarrow> pending_of k1 (cur k1) = [] \<and> locks_of k1 (cur k1) = {}"
      by (simp add: freed_def st f)
  qed (use f in simp_all)
  have "thread_current k = Some (cur k)" by (rule thread_current_eq [OF i(1)]) simp_all
  then have "thread_yield k = schedule k1" using ext by (simp add: thread_yield_def k1_def Let_def)
  then show ?thesis using sch by simp
qed

lemma kinv_lvl: "kinv k \<Longrightarrow> t \<noteq> cur k \<Longrightarrow> has_frame k t \<Longrightarrow> final_level False (pending_of k t)"
  using kinvD(5) [of k] unfolding inv_level_def by blast

lemma thread_yield_step:
  assumes a: "at_stmt k Thread_yield ss"
  shows "\<exists>k'. exec Thread_yield (popped ss k) = Some k' \<and> kinv k'"
proof -
  have c: "kinv k" "pending_of k (cur k) = []" "popped ss k = k" "intr_on k" "\<not> in_external_intr k"
    using at_call [OF a] by simp_all
  have "\<exists>k'. thread_yield k = Some k' \<and> kinv k'"
    by (rule thread_yield_ok) (use c kinv_lvl [OF c(1)] kinv_core in simp_all)
  then show ?thesis using c by simp
qed

lemma thread_block_eq:
  assumes "thread_current k = Some (cur k)" "\<not> in_external_intr k" "\<not> intr_on k"
  shows "thread_block k = schedule (set_status (cur k) THREAD_BLOCKED k)"
  using assms by (simp add: thread_block_def)

lemma sema_loop_wait_step:
  assumes a: "at_stmt k (Sema_loop s b) ss" and v: "sval (semas k s) = 0"
  shows "\<exists>k'. exec (Sema_loop s b) (popped ss k) = Some k' \<and> kinv k'"
proof -
  have k: "kinv k" using a by (simp add: at_stmt_def)
  then have co: "core k" by (simp add: kinv_core)
  note i = kinvD [OF k] and p = kinv_pendingD [OF k] and run = inv_schedD(2) [OF kinvD(1) [OF k]]
  have c: "cur k \<noteq> idle_thread k" and P: "pending_of k (cur k) = Sema_loop s b # ss"
    using at_stmt_client [OF a] by auto
  have off: "\<not> intr_on k" using p(6) [of s] P by simp
  define k0 where "k0 = push_pending [Sema_loop s b] (upd_sema s (\<lambda>x. x\<lparr>waiters := waiters x @ [cur k]\<rparr>) (popped ss k))"
  define k1 where "k1 = set_status (cur k) THREAD_BLOCKED k0"
  have st: "status_of k1 t = (if t = cur k then Some THREAD_BLOCKED else status_of k t)" for t
    using run by (auto simp: k1_def k0_def)
  have f: "cur k1 = cur k" "idle_thread k1 = idle_thread k" "initial_thread k1 = initial_thread k" "holder k1 = holder k"
    "ticks k1 = ticks k" "wait_list k1 = wait_list k" "wakeup_of k1 = wakeup_of k" "ready_list k1 = ready_list k"
    "\<not> intr_on k1" "\<not> in_external_intr k1" "sval (semas k1 y) = sval (semas k y)"
    "waiters (semas k1 y) = waiters (semas k y) @ (if THREAD_BLOCKED = THREAD_BLOCKED \<and> cur k \<noteq> idle_thread k \<and> y = s then [cur k] else [])" for y
    using off p(7) c by (simp_all add: k1_def k0_def)
  have pd: "pending_of k1 t = pending_of k t" for t
    unfolding k1_def k0_def
    using push_pending_cur [OF i(1), where k' = "upd_sema s (\<lambda>x. x\<lparr>waiters := waiters x @ [cur k]\<rparr>) (popped ss k)"] P
      popped_pending [OF i(1), of ss] by auto
  have sch: "\<exists>k'. schedule k1 = Some k' \<and> kinv k'"
  proof (rule switched_kinv)
    show "inv_pre k1" by (rule give_up [OF i(1) st]) (use f pd P in simp_all)
    show "inv_pend k1" "inv_new k1" "inv_locks k1" "inv_timer k1" "inv_wake k1"
      by (rule give_up_rest [OF co st]; use v in \<open>auto simp: f pd P\<close>)+
    show "final_level False (pending_of k1 t)" if "has_frame k1 t" for t
    proof (cases "t = cur k")
      case True
      then show ?thesis using p(5) off by (simp add: pd)
    next
      case False
      then show ?thesis using that kinv_lvl [OF k, of t] st [of t] by (simp add: pd has_frame_def)
    qed
    show "freed k1 (cur k1) \<Longrightarrow> pending_of k1 (cur k1) = [] \<and> locks_of k1 (cur k1) = {}"
      by (simp add: freed_def st f)
  qed (use f in simp_all)
  have "thread_current k0 = Some (cur k)" by (rule thread_current_eq [OF i(1)]) (simp_all add: k0_def)
  moreover have "cur k0 = cur k" "\<not> in_external_intr k0" "\<not> intr_on k0" using off p(7) by (simp_all add: k0_def)
  ultimately have "thread_block k0 = schedule k1" using thread_block_eq [of k0] by (simp add: k1_def)
  then show ?thesis
    using v sch thread_current_popped [OF i(1)] by (simp add: sema_down_loop_def k0_def)
qed

lemma thread_exit_step:
  assumes a: "at_stmt k Thread_exit ss"
  shows "\<exists>k'. exec Thread_exit (popped ss k) = Some k' \<and> kinv k'"
proof -
  have c: "kinv k" "cur k \<noteq> idle_thread k" "pending_of k (cur k) = []" "popped ss k = k"
    "\<And>l. holder k l \<noteq> cur k" "intr_on k" "\<not> in_external_intr k"
    using at_call [OF a] by simp_all
  have co: "core k" using c(1) by (simp add: kinv_core)
  note i = kinvD [OF c(1)] and run = inv_schedD(2) [OF kinvD(1) [OF c(1)]]
  define k1 where "k1 = set_status (cur k) THREAD_DYING ((intr_disable k)\<lparr>all_list := remove1 (cur k) (all_list (intr_disable k))\<rparr>)"
  have st: "status_of k1 t = (if t = cur k then Some THREAD_DYING else status_of k t)" for t
    using run by (auto simp: k1_def)
  have f: "cur k1 = cur k" "idle_thread k1 = idle_thread k" "initial_thread k1 = initial_thread k" "holder k1 = holder k"
    "ticks k1 = ticks k" "wait_list k1 = wait_list k" "wakeup_of k1 = wakeup_of k" "ready_list k1 = ready_list k"
    "\<not> intr_on k1" "\<not> in_external_intr k1" "semas k1 = semas k" "pending_of k1 = pending_of k"
    using c(7) by (simp_all add: k1_def)
  have sch: "\<exists>k'. schedule k1 = Some k' \<and> kinv k'"
  proof (rule switched_kinv)
    show "inv_pre k1" by (rule give_up [OF i(1) st]) (use c(2) in \<open>simp_all add: f\<close>)
    show "inv_pend k1" "inv_new k1" "inv_locks k1" "inv_timer k1" "inv_wake k1"
      by (rule give_up_rest [OF co st]; use c(3) in \<open>simp add: f\<close>)+
    show "final_level False (pending_of k1 t)" if "has_frame k1 t" for t
      using that kinv_lvl [OF c(1), of t] st [of t] by (auto simp: f has_frame_def split: if_splits)
    show "pending_of k1 (cur k1) = [] \<and> locks_of k1 (cur k1) = {}" using c(3,5) by (simp add: f locks_of_def)
  qed (use f in simp_all)
  have "thread_current (intr_disable k) = Some (cur k)" by (rule thread_current_eq [OF i(1)]) simp_all
  then have "thread_exit k = schedule k1" using c(7) by (simp add: thread_exit_def k1_def Let_def)
  then show ?thesis using sch c(4) by simp
qed

lemma idle_step:
  assumes a: "at_stmt k Idle_loop ss"
  shows "\<exists>k'. exec Idle_loop (popped ss k) = Some k' \<and> kinv k'"
proof -
  have k: "kinv k" using a by (simp add: at_stmt_def)
  then have co: "core k" by (simp add: kinv_core)
  note i = kinvD [OF k] and p = kinv_pendingD [OF k] and run = inv_schedD(2) [OF kinvD(1) [OF k]]
  have P: "pending_of k (cur k) = Idle_loop # ss" using a by (auto simp: at_stmt_def)
  then have c: "cur k = idle_thread k" using p(1) by (cases "cur k = idle_thread k") simp_all
  then have ss: "ss = []" using p(2) P by simp
  define k0 where "k0 = push_pending [Iret, Idle_loop] (intr_disable (popped ss k))"
  define k1 where "k1 = set_status (cur k) THREAD_BLOCKED k0"
  have st: "status_of k1 t = (if t = cur k then Some THREAD_BLOCKED else status_of k t)" for t
    using run by (auto simp: k1_def k0_def)
  have f: "cur k1 = cur k" "idle_thread k1 = idle_thread k" "initial_thread k1 = initial_thread k" "holder k1 = holder k"
    "ticks k1 = ticks k" "wait_list k1 = wait_list k" "wakeup_of k1 = wakeup_of k" "ready_list k1 = ready_list k"
    "\<not> intr_on k1" "\<not> in_external_intr k1" "semas k1 = semas k"
    using p(7) by (simp_all add: k1_def k0_def)
  have pd: "pending_of k1 t = (if t = cur k then [Iret, Idle_loop] else pending_of k t)" for t
    unfolding k1_def k0_def
    using push_pending_cur [OF i(1), where k' = "intr_disable (popped ss k)"] ss popped_pending [OF i(1), of ss] by auto
  have sch: "\<exists>k'. schedule k1 = Some k' \<and> kinv k'"
  proof (rule switched_kinv)
    show "inv_pre k1" by (rule give_up [OF i(1) st]) (use c in \<open>simp_all add: f pd\<close>)
    show "inv_pend k1" "inv_new k1" "inv_locks k1" "inv_timer k1" "inv_wake k1"
      by (rule give_up_rest [OF co st]; simp add: f pd P ss)+
    show "final_level False (pending_of k1 t)" if "has_frame k1 t" for t
      using that kinv_lvl [OF k, of t] st [of t] by (auto simp: pd has_frame_def split: if_splits)
    show "freed k1 (cur k1) \<Longrightarrow> pending_of k1 (cur k1) = [] \<and> locks_of k1 (cur k1) = {}"
      by (simp add: freed_def st f)
  qed (use f in simp_all)
  have "thread_current k0 = Some (cur k)" by (rule thread_current_eq [OF i(1)]) (simp_all add: k0_def)
  moreover have "cur k0 = cur k" "\<not> in_external_intr k0" "\<not> intr_on k0" using p(7) by (simp_all add: k0_def)
  ultimately have "thread_block k0 = schedule k1" using thread_block_eq [of k0] by (simp add: k1_def)
  then show ?thesis using sch by (simp add: idle_def k0_def)
qed

section \<open>A new thread\<close>

text \<open>
  \<open>k'\<close> is \<open>k\<close> after one of the three statements by which the running thread creates the
  thread \<open>u\<close>: afterwards \<open>u\<close> has the status \<open>x\<close> and the statements \<open>pu\<close> to execute, and
  the running thread goes on with \<open>ps\<close>.
\<close>

definition creating :: "stmt \<Rightarrow> ptr \<Rightarrow> thread_status \<Rightarrow> stmt list \<Rightarrow> stmt list \<Rightarrow> bool" where
  "creating st u x pu ps \<longleftrightarrow>
     (\<exists>nm q. st = Init_thread u nm q) \<and> x = THREAD_BLOCKED \<and> pu = [] \<and> ps = [Setup_stack u, Unblock_thread u] \<or>
     st = Setup_stack u \<and> x = THREAD_BLOCKED \<and> pu = [Set_level True] \<and> ps = [Unblock_thread u] \<or>
     st = Unblock_thread u \<and> x = THREAD_READY \<and> pu = [Set_level True] \<and> ps = []"

lemma creatingD:
  assumes "creating st u x pu ps"
  shows "\<exists>n. makes (st # ps) = Some (u, n)" "makes ps = None \<or> (\<exists>n. makes ps = Some (u, n))" "makes pu = None"
    "strip pu = []" "strip ps = ps" "\<not> in_loop y ps" "\<not> in_loop y pu" "\<not> sleeps t ps" "\<not> sleeps t pu" "\<not> claims l ps" "\<not> claims l pu"
    "\<not> in_loop y (st # ps)" "\<not> sleeps t (st # ps)" "\<not> claims l (st # ps)"
    "final_level b (st # ps) = final_level b ps" "Tid_lock \<notin> H \<Longrightarrow> begun_ok t H ps"
    "x = THREAD_READY \<or> x = THREAD_BLOCKED" "pu \<noteq> [] \<Longrightarrow> final_level False pu" "x = THREAD_READY \<Longrightarrow> pu \<noteq> []"
    "x = THREAD_BLOCKED \<Longrightarrow> \<exists>n. makes ps = Some (u, n)"
  using assms by (auto simp: creating_def)

lemma new_thread_lists:
  assumes l: "inv_lists k" and u: "u \<noteq> NULL" "status_of k u \<in> {None, Some THREAD_BLOCKED}" "u \<noteq> idle_thread k"
      "\<And>s. u \<notin> set (waiters (semas k s))"
    and st: "\<And>t. status_of k' t = (if t = u then Some x else status_of k t)"
    and x: "x = THREAD_READY \<or> x = THREAD_BLOCKED"
    and f: "idle_thread k' = idle_thread k" "semas k' = semas k"
      "ready_list k' = ready_list k @ (if x = THREAD_READY then [u] else [])"
    and pd: "\<And>t. status_of k t = Some THREAD_BLOCKED \<Longrightarrow> t \<noteq> u \<Longrightarrow> pending_of k' t = pending_of k t"
    and pu: "strip (pending_of k' u) = []"
  shows "inv_lists k'"
proof -
  note L = inv_listsD [OF l]
  have ur: "u \<notin> set (ready_list k)" using L(3) [of u] u(2) by auto
  have wu: "t \<noteq> u" if "t \<in> set (waiters (semas k s))" for s t using that u(4) by auto
  have "dom (threads k') = insert u (dom (threads k))" by (auto simp: dom_status_of st)
  then have dm: "threads k' NULL = None" "finite (dom (threads k'))"
    using L(11,12) u(1) by (auto simp: domIff [symmetric] simp del: domIff)
  show ?thesis
    unfolding inv_lists_def f st
  proof (intro conjI allI ballI impI)
    show "(if t = u then Some x else status_of k t) = Some THREAD_READY"
      if "t \<in> set (ready_list k @ (if x = THREAD_READY then [u] else []))" for t
      using that L(3) ur by (auto split: if_splits)
    show "t \<in> set (ready_list k @ (if x = THREAD_READY then [u] else [])) \<or> t = idle_thread k"
      if "(if t = u then Some x else status_of k t) = Some THREAD_READY" for t
      using that L(4) [of t] by (auto split: if_splits)
    show "(if t = u then Some x else status_of k t) = Some THREAD_BLOCKED" "\<exists>b ps. pending_of k' t = Sema_loop s b # ps"
      if "t \<in> set (waiters (semas k s))" for s t
      using L(6,7) [OF that] wu [OF that] pd [of t] by auto
    show "(\<exists>s. t \<in> set (waiters (semas k s))) \<or> t = idle_thread k \<or> strip (pending_of k' t) = []"
      if "(if t = u then Some x else status_of k t) = Some THREAD_BLOCKED" for t
      using that L(8) [of t] pd [of t] pu by (auto split: if_splits)
  qed (use L(1,2,5,9,10,13) ur u x dm in auto)
qed

lemma new_thread_new:
  assumes r: "inv_sched k" and i: "inv_new k" and P: "pending_of k (cur k) = st # ps" and cr: "creating st u x pu ps"
    and st: "\<And>t. status_of k' t = (if t = u then Some x else status_of k t)"
    and pd: "\<And>t. pending_of k' t = (if t = u then pu else if t = cur k then ps else pending_of k t)"
  shows "inv_new k'"
proof -
  note run = inv_schedD(2) [OF r] and C = creatingD [OF cr]
  obtain n0 where n0: "makes (pending_of k (cur k)) = Some (u, n0)" using C(1) P by auto
  note D = inv_newD [OF i n0]
  have uc: "u \<noteq> cur k" using phase_ok_new [OF D(2)] run by auto
  have mk: "t = cur k \<or> t \<noteq> u \<and> v \<noteq> u \<and> makes (pending_of k t) = Some (v, n)"
    if a: "makes (pending_of k' t) = Some (v, n)" for t v n
    using a C(3) D(3) [of t n] by (cases "t = cur k") (auto simp: pd split: if_splits)
  have ph: "phase_ok k' v n" if "phase_ok k v n" "v \<noteq> u" for v n
  proof -
    have "v \<noteq> cur k" using phase_ok_new [OF that(1)] run by auto
    then show ?thesis using that by (cases n) (simp_all add: st pd flip: status_of_None)
  qed
  have me: "v = u \<and> phase_ok k' u n" if "makes (pending_of k' (cur k)) = Some (v, n)" for v n
    using that cr uc by (auto simp: creating_def pd st)
  have one: "t' = t" if a: "makes (pending_of k' t) = Some (v, n)" "makes (pending_of k' t') = Some (v, n')" for t t' v n n'
    using mk [OF a(1)] mk [OF a(2)] me a inv_newD(3) [OF i] by metis
  have "v \<noteq> NULL \<and> phase_ok k' v n" if a: "makes (pending_of k' t) = Some (v, n)" for t v n
    using mk [OF a] me a D(1) inv_newD(1,2) [OF i] ph by (metis (full_types))
  moreover have "\<exists>t n. makes (pending_of k' t) = Some (v, n)"
    if b: "status_of k' v = Some THREAD_BLOCKED" "strip (pending_of k' v) = []" for v
  proof (cases "v = u")
    case True
    then show ?thesis using C(20) b(1) uc by (intro exI [of _ "cur k"]) (simp add: st pd)
  next
    case False
    then have "v \<noteq> cur k" using b(1) run by (auto simp: st)
    then obtain t n where t: "makes (pending_of k t) = Some (v, n)"
      using inv_new_creator [OF i, of v] b False by (auto simp: st pd)
    then have "t \<noteq> cur k" "t \<noteq> u" using False n0 phase_ok_new [OF D(2)] makes_strip [of "pending_of k u"] by auto
    then show ?thesis using t by (intro exI [of _ t]) (simp add: pd)
  qed
  ultimately show ?thesis using one unfolding inv_new_def by metis
qed

lemma new_thread_pend:
  assumes k: "kinv k" and u: "u \<noteq> NULL" "strip (pending_of k u) = []" "u \<noteq> cur k" "u \<noteq> idle_thread k"
    and c: "cur k \<noteq> idle_thread k" "Tid_lock \<notin> locks_of k (cur k)" and cr: "creating st u x pu ps"
    and pd: "\<And>t. pending_of k' t = (if t = u then pu else if t = cur k then ps else pending_of k t)"
    and f: "idle_thread k' = idle_thread k" "holder k' = holder k"
    and th: "\<And>t. threads k t \<noteq> None \<Longrightarrow> threads k' t \<noteq> None"
  shows "inv_pend k'"
  unfolding inv_pend_def f
proof (intro conjI allI impI)
  note i = kinvD(2) [OF k] and C = creatingD [OF cr] and p = kinv_pendingD [OF k]
  show "begun_ok t (locks_of k' t) (strip (pending_of k' t))" if "t \<noteq> NULL" "t \<noteq> idle_thread k" for t
  proof -
    have "begun_ok t (locks_of k t) (strip (pending_of k t))" using i that unfolding inv_pend_def by blast
    then show ?thesis using u c C(4,5) C(16) [of "locks_of k (cur k)" "cur k"] by (auto simp: pd locks_of_def f)
  qed
  show "strip (pending_of k' t) = pending_of k' t" if "in_loop y (strip (pending_of k' t))" for t y
    using that p(4) [of y t] C(4-6) by (auto simp: pd split: if_splits)
  show "threads k' (holder k l) \<noteq> None" if "holder k l \<noteq> NULL" for l
    using that i th unfolding inv_pend_def by blast
  show "strip (pending_of k' (idle_thread k)) = [Idle_loop]" "locks_of k' (idle_thread k) = {}"
    using i u(4) c(1) unfolding inv_pend_def by (simp_all add: pd locks_of_def f)
qed

lemma new_thread_kinv:
  assumes k: "kinv k" and P: "pending_of k (cur k) = st # ps" and cr: "creating st u x pu ps"
    and c: "cur k \<noteq> idle_thread k" "Tid_lock \<notin> locks_of k (cur k)"
    and st: "\<And>t. status_of k' t = (if t = u then Some x else status_of k t)"
    and pd: "\<And>t. pending_of k' t = (if t = u then pu else if t = cur k then ps else pending_of k t)"
    and f: "idle_thread k' = idle_thread k" "initial_thread k' = initial_thread k" "cur k' = cur k" "semas k' = semas k"
      "ready_list k' = ready_list k @ (if x = THREAD_READY then [u] else [])" "holder k' = holder k" "ticks k' = ticks k"
      "wait_list k' = wait_list k" "intr_on k' = intr_on k" "\<not> in_external_intr k'"
    and wk: "\<And>t. t \<noteq> u \<Longrightarrow> wakeup_of k' t = wakeup_of k t"
  shows "kinv k'"
proof -
  note i = kinvD [OF k] and p = kinv_pendingD [OF k] and T = inv_timerD [OF kinvD(6) [OF k]] and C = creatingD [OF cr]
  note l = inv_schedD(1) [OF i(1)] and run = inv_schedD(2) [OF i(1)]
  obtain n0 where n0: "makes (pending_of k (cur k)) = Some (u, n0)" using C(1) P by auto
  note D = inv_newD [OF i(3) n0] and E = phase_ok_new [OF inv_newD(2) [OF i(3) n0]]
  have idle: "strip (pending_of k (idle_thread k)) = [Idle_loop]" using i(2) unfolding inv_pend_def by blast
  have nu: "u \<noteq> cur k" "u \<noteq> idle_thread k" using E run idle by auto
  have qu: "\<not> in_loop y (pending_of k u)" "\<not> sleeps t (pending_of k u)" "\<not> claims l (pending_of k u)" for y t l
    using E by (auto simp: in_loop_def sleeps_def claims_def)
  have nw: "u \<notin> set (waiters (semas k s))" for s using inv_listsD(7) [OF l, of u s] E by auto
  have "inv_lists k'"
  proof (rule new_thread_lists [OF l D(1) _ nu(2) nw st C(17) f(1,4,5)])
    show "pending_of k' t = pending_of k t" if "status_of k t = Some THREAD_BLOCKED" "t \<noteq> u" for t
      using that run by (auto simp: pd)
  qed (use E C(4) in \<open>auto simp: pd\<close>)
  moreover have "t = cur k" if "status_of k' t = Some THREAD_RUNNING" for t
    using that inv_schedD(3) [OF i(1), of t] st [of t] C(17) by (cases "t = u") auto
  moreover have "t = initial_thread k" if "status_of k' t = Some THREAD_DYING" for t
    using that inv_schedD(4) [OF i(1), of t] st [of t] C(17) by (cases "t = u") auto
  ultimately have "inv_sched k'" using run nu(1) st [of "cur k"] unfolding inv_sched_def f by metis
  moreover have "inv_pend k'" by (rule new_thread_pend [OF k D(1) _ nu c cr pd f(1,6)])
    (use E in \<open>simp_all add: st flip: status_of_None\<close>)
  moreover have "inv_new k'" by (rule new_thread_new [OF i(1,3) P cr st pd])
  moreover have "owns k' t = owns k t" for t
    by (rule ext) (simp add: owns_def pd f P C(10,11) C(14) qu)
  then have "inv_locks k'" using i(4) by (simp add: inv_locks_def f)
  moreover have "inv_timer k'"
  proof -
    have u: "sval (semas k (Of_timer u)) = 0 \<and> u \<notin> set (wait_list k)" using T(3) [of u] qu(2) by (auto split: if_splits)
    then have m: "map (wakeup_of k') (wait_list k) = map (wakeup_of k) (wait_list k)"
      by (intro map_cong refl wk) auto
    have "sleeps t (pending_of k' t) = sleeps t (pending_of k t)" for t by (simp add: pd P C(8,9) C(13) qu)
    moreover have "wakeup_of k' t \<le> ticks k" if "0 < sval (semas k (Of_timer t))" for t
      using T(4) [OF that] wk [of t] that u by (cases "t = u") auto
    ultimately show ?thesis using T(1-3) unfolding inv_timer_def f m by simp
  qed
  moreover have "woken k' s = woken k s" for s
    using P nu C(6,7) C(12) qu(1) by (auto simp: woken_def pd st)
  then have "inv_wake k'" using i(7) by (simp add: inv_wake_def f)
  moreover have "inv_level k'"
    unfolding inv_level_def f
  proof (intro conjI allI impI)
    show "final_level (intr_on k) (pending_of k' (cur k))" using p(5) nu(1) C(15) by (simp add: pd P)
    show "final_level False (pending_of k' t)" if "has_frame k' t" "t \<noteq> cur k" for t
      using that kinv_lvl [OF k, of t] C(17-19) by (cases "t = u") (auto simp: has_frame_def pd st)
  qed (use f(10) nu C(6) in \<open>auto simp: pd\<close>)
  ultimately show ?thesis by (simp add: kinv_def)
qed

end
