(* ===== verification/Threads_Run.thy ===== *)
theory Threads_Run
  imports Threads_Switch
begin

text \<open>
  The second half of \<open>thread_create\<close>, the timer interrupt, and the conclusions: every
  enabled event succeeds and keeps the invariant, so the locale \<open>safe_machine\<close> has the
  kernel as an interpretation, and its reachable states have the properties stated at
  the end.
\<close>

text \<open>The running thread is creating the thread \<open>u\<close>.\<close>

lemma at_creating:
  assumes a: "at_stmt k st ss" and m: "makes (st # ss) = Some (u, n)" and b: "begun_ok t H (st # ss) \<Longrightarrow> Tid_lock \<notin> H"
    and n: "\<not> is_frame st" "st \<noteq> Idle_loop" "\<not> may_call k st"
  shows "kinv k" "pending_of k (cur k) = st # ss" "cur k \<noteq> idle_thread k" "begun_ok (cur k) (locks_of k (cur k)) (st # ss)"
    "u \<noteq> NULL" "phase_ok k u n" "u \<noteq> cur k" "\<not> in_external_intr k"
proof -
  show k: "kinv k" using a by (simp add: at_stmt_def)
  show P: "pending_of k (cur k) = st # ss" "cur k \<noteq> idle_thread k" "begun_ok (cur k) (locks_of k (cur k)) (st # ss)"
    using at_stmt_client [OF a n(1,2)] n(3) by auto
  show "u \<noteq> NULL" "phase_ok k u n" using inv_newD(1,2) [OF kinvD(3) [OF k], of "cur k"] P m by simp_all
  then show "u \<noteq> cur k" using phase_ok_new [of k u n] inv_schedD(2) [OF kinvD(1) [OF k]] by auto
  show "\<not> in_external_intr k" by (rule kinv_pendingD(7) [OF k])
qed

lemma timer_sema_new:
  assumes k: "kinv k" and u: "threads k u = None"
  shows "semas k (Of_timer u) = \<lparr>sval = 0, waiters = []\<rparr>"
proof -
  have co: "core k" using k by (simp add: kinv_core)
  note i = kinvD [OF k]
  have "waiters (semas k (Of_timer u)) = []"
  proof (rule ccontr)
    assume "waiters (semas k (Of_timer u)) \<noteq> []"
    then have t: "hd (waiters (semas k (Of_timer u))) \<in> set (waiters (semas k (Of_timer u)))" by simp
    then have "hd (waiters (semas k (Of_timer u))) = u" using waiter_own [OF co t] by blast
    then show False using inv_listsD(6) [OF inv_schedD(1) [OF i(1)] t] u by (simp add: status_of_def)
  qed
  moreover have "sval (semas k (Of_timer u)) = 0"
    using inv_timerD(3) [OF i(6), of u] pending_Nil [OF u] by simp
  ultimately show ?thesis by (simp add: semaphore.equality)
qed

lemma init_thread_step:
  assumes a: "at_stmt k (Init_thread u nm q) ss"
  shows "\<exists>k'. exec (Init_thread u nm q) (popped ss k) = Some k' \<and> kinv k'"
proof -
  note c = at_creating [OF a]
  have ss: "ss = [Setup_stack u, Unblock_thread u]" and pr: "PRI_MIN \<le> q" "q \<le> PRI_MAX" and tl: "Tid_lock \<notin> locks_of k (cur k)"
    using c(4) by auto
  have k: "kinv k" and u: "threads k u = None" "u \<noteq> NULL" using c(1,5,6) by auto
  note i = kinvD [OF k] and s0 = timer_sema_new [OF k u(1)]
  let ?K = "popped ss k"
  obtain x where x: "threads ?K (cur k) = Some x" using cur_exists [OF i(1)] by (auto simp: popped_def upd_thread_def)
  define T where "T = \<lparr>tid = retval x, status = THREAD_BLOCKED, name = take 15 nm, priority = q, wakeup_time = 0,
    pagedir = NULL, pending = [], retval = 0\<rparr>"
  define k' where "k' = (upd_sema (Of_timer u) (\<lambda>_. \<lparr>sval = 0, waiters = []\<rparr>) (?K\<lparr>threads := (threads ?K)(u \<mapsto> T)\<rparr>))\<lparr>
    all_list := all_list ?K @ [u]\<rparr>"
  have t1: "threads k' = (threads ?K)(u \<mapsto> T)" by (simp add: k'_def)
  have "kinv k'"
  proof (rule new_thread_kinv [OF k c(2) _ c(3) tl, where x = THREAD_BLOCKED and pu = "[]"])
    show "creating (Init_thread u nm q) u THREAD_BLOCKED [] ss" using ss by (simp add: creating_def)
    have "status_of k' t = (if t = u then Some THREAD_BLOCKED else status_of ?K t)" for t
      unfolding status_of_def t1 by (simp add: T_def)
    then show "status_of k' t = (if t = u then Some THREAD_BLOCKED else status_of k t)" for t by simp
    have "pending_of k' t = (if t = u then [] else pending_of ?K t)" for t
      unfolding pending_of_def t1 by (simp add: T_def)
    then show "pending_of k' t = (if t = u then [] else if t = cur k then ss else pending_of k t)" for t
      using popped_pending [OF i(1), of ss] by simp
    have "wakeup_of k' t = wakeup_of ?K t" if "t \<noteq> u" for t unfolding wakeup_of_def t1 using that by simp
    then show "wakeup_of k' t = wakeup_of k t" if "t \<noteq> u" for t using that wakeup_simps(1) [of ss k] by simp
  qed (use c(8) s0 in \<open>auto simp: k'_def\<close>)
  moreover have "init_thread u nm q (retval x) ?K = Some k'"
    using u(2) pr by (simp add: init_thread_def k'_def T_def Let_def upd_sema_def)
  ultimately show ?thesis using x by (simp add: init_created_def)
qed

lemma wakeup_upd_other: "t \<noteq> u \<Longrightarrow> wakeup_of (upd_thread u f k) t = wakeup_of k t"
  by (simp add: wakeup_of_def upd_thread_def)

lemma setup_stack_step:
  assumes a: "at_stmt k (Setup_stack u) ss"
  shows "\<exists>k'. exec (Setup_stack u) (popped ss k) = Some k' \<and> kinv k'"
proof -
  note c = at_creating [OF a]
  have ss: "ss = [Unblock_thread u]" and tl: "Tid_lock \<notin> locks_of k (cur k)" using c(4) by auto
  have k: "kinv k" and u: "status_of k u = Some THREAD_BLOCKED" "u \<noteq> NULL" "u \<noteq> cur k" using c(1,5,6,7) by auto
  note i = kinvD [OF k]
  let ?K = "popped ss k"
  define k' where "k' = (upd_thread u (\<lambda>x. x\<lparr>pending := [Set_level True]\<rparr>) (intr_disable ?K))\<lparr>intr_on := intr_on k\<rparr>"
  obtain y where y: "threads ?K u = Some y" using u(1,3) by (auto simp: status_of_def popped_def upd_thread_def)
  have "kinv k'"
  proof (rule new_thread_kinv [OF k c(2) _ c(3) tl, where x = THREAD_BLOCKED and pu = "[Set_level True]"])
    show "creating (Setup_stack u) u THREAD_BLOCKED [Set_level True] ss" using ss by (simp add: creating_def)
    show "status_of k' t = (if t = u then Some THREAD_BLOCKED else status_of k t)" for t using u(1) by (simp add: k'_def)
    show "pending_of k' t = (if t = u then [Set_level True] else if t = cur k then ss else pending_of k t)" for t
      using popped_pending [OF i(1), of ss] y by (simp add: k'_def pending_of_upd_thread)
    show "wakeup_of k' t = wakeup_of k t" if "t \<noteq> u" for t
      using that by (simp add: k'_def wakeup_upd_other)
  qed (use c(8) in \<open>auto simp: k'_def\<close>)
  moreover have "setup_stack u ?K = Some k'"
    using u(2) y c(8) by (simp add: setup_stack_def k'_def is_thread_def intr_set_level_any Let_def)
  ultimately show ?thesis by simp
qed

lemma unblock_thread_step:
  assumes a: "at_stmt k (Unblock_thread u) ss"
  shows "\<exists>k'. exec (Unblock_thread u) (popped ss k) = Some k' \<and> kinv k'"
proof -
  note c = at_creating [OF a]
  have ss: "ss = []" and tl: "Tid_lock \<notin> locks_of k (cur k)" using c(4) by auto
  have k: "kinv k" and u: "status_of k u = Some THREAD_BLOCKED" "pending_of k u = [Set_level True]" "u \<noteq> cur k"
    using c(1,6,7) by auto
  note i = kinvD [OF k]
  let ?K = "popped ss k"
  define k' where "k' = (set_status u THREAD_READY ((intr_disable ?K)\<lparr>ready_list := ready_list k @ [u]\<rparr>))\<lparr>intr_on := intr_on k\<rparr>"
  have "kinv k'"
  proof (rule new_thread_kinv [OF k c(2) _ c(3) tl, where x = THREAD_READY and pu = "[Set_level True]"])
    show "creating (Unblock_thread u) u THREAD_READY [Set_level True] ss" using ss by (simp add: creating_def)
    show "status_of k' t = (if t = u then Some THREAD_READY else status_of k t)" for t using u(1) by (simp add: k'_def)
    show "pending_of k' t = (if t = u then [Set_level True] else if t = cur k then ss else pending_of k t)" for t
      using popped_pending [OF i(1), of ss] u(2,3) by (simp add: k'_def)
    show "wakeup_of k' t = wakeup_of k t" for t by (simp add: k'_def)
  qed (use c(8) in \<open>auto simp: k'_def\<close>)
  moreover have "is_thread ?K u" by (rule is_thread_status [OF popped_lists [OF i(1)]]) (use u(1) in simp)
  then have "thread_unblock u ?K = Some k'"
    using u(1) c(8) by (simp add: thread_unblock_def k'_def is_thread_def intr_set_level_any Let_def)
  ultimately show ?thesis by simp
qed

section \<open>The timer interrupt\<close>

text \<open>A state reached from \<open>k\<close> while the timer interrupt is handled.\<close>

definition in_tick :: "kstate \<Rightarrow> kstate \<Rightarrow> bool" where
  "in_tick k k' \<longleftrightarrow> core k' \<and> pending_of k' = pending_of k \<and> cur k' = cur k \<and> in_external_intr k' \<and> \<not> intr_on k' \<and>
     (\<forall>t. threads k' t = None \<longleftrightarrow> threads k t = None) \<and>
     (\<forall>t. has_frame k' t \<longrightarrow> has_frame k t)"

lemma raised_frame:
  assumes "inv_lists k" and "has_frame (raised s k) t"
  shows "has_frame k t"
  using assms(2) inv_listsD(6,7) [OF assms(1) in_set_takeD, of t 1 s]
  by (auto simp: has_frame_def raised_status [OF assms(1)] woke_up_status [OF assms(1)] split: if_splits)

lemma wake_one:
  assumes k: "core k" and w: "wait_list k = t # ts" and tk: "wakeup_of k t \<le> ticks k"
  shows "core ((raised (Of_timer t) k)\<lparr>wait_list := ts\<rparr>)"
proof -
  let ?s = "Of_timer t" and ?k = "(raised (Of_timer t) k)\<lparr>wait_list := ts\<rparr>"
  note i = coreD [OF k] and T = inv_timerD [OF coreD(5) [OF k]]
  note l = inv_schedD(1) [OF i(1)]
  have sm: "same_sched (woke_up ?s k) ?k" by (rule same_sched_woke) (simp_all add: raised_status [OF l])
  have th: "threads ?k u = None \<longleftrightarrow> threads k u = None" for u by simp
  note wc = coreD [OF woke_up_core [OF k, of ?s]]
  have one: "sval (semas k ?s) = 0" "sleeps t (pending_of k t)" using T(3) [of t] w by (auto split: if_splits)
  have old: "begun_ok (cur k) (locks_of k (cur k)) (strip (pending_of k (cur k)))" if "cur k \<noteq> idle_thread k"
    using i(2) that cur_not_NULL [OF i(1)] unfolding inv_pend_def by blast
  have idle: "strip (pending_of k (idle_thread k)) = [Idle_loop]" "locks_of k (idle_thread k) = {}"
    "in_loop y (strip (pending_of k u)) \<Longrightarrow> strip (pending_of k u) = pending_of k u" for y u
    using i(2) unfolding inv_pend_def by metis+
  show ?thesis
  proof (rule core_local [OF woke_up_core [OF k] sm])
    show "inv_new ?k" by (rule inv_new_cong [OF _ _ wc(3)]) (simp_all add: raised_status [OF l])
    show "inv_wake ?k"
      by (rule raised_wake [OF k, where s = ?s]) (simp_all add: raised_status [OF l] size_add_def)
    show "inv_timer ?k"
      unfolding inv_timer_def
    proof (intro conjI allI impI)
      show "distinct (wait_list ?k)" "sorted (map (wakeup_of ?k) (wait_list ?k))" using T(1,2) w by simp_all
      show "sval (semas ?k (Of_timer u)) + (if u \<in> set (wait_list ?k) then 1 else 0) =
          (if sleeps u (pending_of ?k u) then 1 else 0)" for u
        using T(1) T(3) [of u] w one by (cases "u = t") (auto simp: size_add_def split: if_splits)
      show "wakeup_of ?k u \<le> ticks ?k" if "0 < sval (semas ?k (Of_timer u))" for u
        using that T(4) [of u] tk by (cases "u = t") simp_all
    qed
  qed (use old idle in \<open>simp_all add: same_holders_def locks_of_def owns_def\<close>)
qed

lemma wake_loop_ok:
  assumes "in_tick k0 k" and "wait_list k = ws"
  shows "\<exists>k'. wake_loop ws k = Some k' \<and> in_tick k0 k' \<and> ticks k' = ticks k \<and>
    (\<forall>t \<in> set (wait_list k'). ticks k < wakeup_of k' t)"
  using assms
proof (induction ws arbitrary: k)
  case Nil
  then show ?case by simp
next
  case (Cons t ts)
  have k: "core k" "in_external_intr k" "\<not> intr_on k" using Cons.prems(1) by (simp_all add: in_tick_def)
  note T = inv_timerD [OF coreD(5) [OF k(1)]] and l = inv_schedD(1) [OF coreD(1) [OF k(1)]]
  have "sleeps t (pending_of k t)" using T(3) [of t] Cons.prems(2) by (auto split: if_splits)
  then obtain x where x: "threads k t = Some x" using pending_Nil [of k t] by (cases "threads k t") auto
  show ?case
  proof (cases "ticks k < wakeup_time x")
    case True
    moreover have "wakeup_of k t \<le> wakeup_of k u" if "u \<in> set (wait_list k)" for u
      using T(2) that Cons.prems(2) by auto
    moreover have "wakeup_of k t = wakeup_time x" using x by (simp add: wakeup_of_def)
    ultimately have "\<forall>u \<in> set (wait_list k). ticks k < wakeup_of k u" by fastforce
    then show ?thesis using x True Cons.prems(1) by simp
  next
    case False
    let ?k = "(raised (Of_timer t) k)\<lparr>wait_list := ts\<rparr>"
    have "wakeup_of k t \<le> ticks k" using False x by (simp add: wakeup_of_def)
    then have "core ?k" by (rule wake_one [OF k(1) Cons.prems(2)])
    moreover have "has_frame ?k u \<Longrightarrow> has_frame (raised (Of_timer t) k) u" for u by (simp add: has_frame_def)
    ultimately have "in_tick k0 ?k" using Cons.prems(1) raised_frame [OF l] unfolding in_tick_def by simp blast
    then have "\<exists>k'. wake_loop ts ?k = Some k' \<and> in_tick k0 k' \<and> ticks k' = ticks ?k \<and>
        (\<forall>t \<in> set (wait_list k'). ticks ?k < wakeup_of k' t)"
      by (rule Cons.IH) simp
    moreover have "sema_up (Of_timer t) k = Some (raised (Of_timer t) k)"
      by (rule sema_up_eq [OF l]) (use k(3) in simp)
    ultimately show ?thesis using x False by simp
  qed
qed

text \<open>The state apart from the clocks, the interrupt flags and the list of all threads.\<close>

lemma core_cong:
  assumes "threads k' = threads k" "ready_list k' = ready_list k" "cur k' = cur k" "idle_thread k' = idle_thread k"
    "initial_thread k' = initial_thread k" "semas k' = semas k" "holder k' = holder k" "wait_list k' = wait_list k"
    and tk: "ticks k \<le> ticks k'" and k: "core k"
  shows "core k'"
proof -
  have e: "status_of k' = status_of k" "pending_of k' = pending_of k" "wakeup_of k' = wakeup_of k"
    by (simp_all add: status_of_def pending_of_def wakeup_of_def assms fun_eq_iff)
  note i = coreD [OF k] and T = inv_timerD [OF coreD(5) [OF k]]
  have "inv_sched k'" using i(1) by (simp add: inv_sched_def inv_lists_def assms(1-8) e)
  moreover have "inv_pend k'" "inv_new k'" "inv_locks k'"
    using i by (simp_all add: inv_pend_cong [of k' k] inv_new_cong [of k' k] inv_locks_cong [of k' k] assms(1-8) e)
  moreover have "inv_timer k'"
    unfolding inv_timer_def assms(6,8) e using T(1-3) order_trans [OF T(4) tk] by blast
  moreover have "woken k' s = woken k s" for s by (simp add: woken_def e assms)
  then have "inv_wake k'" using i(6) by (simp add: inv_wake_def assms)
  ultimately show ?thesis by (simp add: core_def)
qed

lemma thread_tick_ok:
  assumes k: "core k" and x: "in_external_intr k"
  shows "\<exists>a b c n y. thread_tick k = Some (k\<lparr>idle_ticks := a, kernel_ticks := b, user_ticks := c, thread_ticks := n, yield_on_return := y\<rparr>)"
proof -
  obtain t where t: "threads k (cur k) = Some t" using cur_exists [OF coreD(1) [OF k]] by blast
  have c: "thread_current k = Some (cur k)" by (rule thread_current_eq [OF coreD(1) [OF k]]) simp_all
  let ?a = "if cur k = idle_thread k then idle_ticks k + 1 else idle_ticks k"
  let ?b = "if cur k = idle_thread k \<or> pagedir t \<noteq> NULL then kernel_ticks k else kernel_ticks k + 1"
  let ?c = "if cur k \<noteq> idle_thread k \<and> pagedir t \<noteq> NULL then user_ticks k + 1 else user_ticks k"
  let ?y = "TIME_SLICE \<le> thread_ticks k + 1 \<or> yield_on_return k"
  have "thread_tick k = Some (k\<lparr>idle_ticks := ?a, kernel_ticks := ?b, user_ticks := ?c, thread_ticks := thread_ticks k + 1,
      yield_on_return := ?y\<rparr>)"
    using t c x by (auto simp: thread_tick_def intr_yield_on_return_def Let_def)
  then show ?thesis by blast
qed

lemma timer_interrupt_ok:
  assumes k: "kinv k"
  shows "\<exists>k'. timer_interrupt ((intr_disable k)\<lparr>in_external_intr := True, yield_on_return := False\<rparr>) = Some k' \<and> in_tick k k' \<and>
    ticks k' = ticks k + 1 \<and> (\<forall>t \<in> set (wait_list k'). ticks k' < wakeup_of k' t)"
proof -
  let ?k = "(intr_disable k)\<lparr>in_external_intr := True, yield_on_return := False, ticks := ticks k + 1\<rparr>"
  have co: "core ?k" by (rule core_cong [of _ k]) (use k in \<open>simp_all add: kinv_core\<close>)
  obtain a b c n y where t: "thread_tick ?k = Some (?k\<lparr>idle_ticks := a, kernel_ticks := b, user_ticks := c, thread_ticks := n, yield_on_return := y\<rparr>)"
    (is "_ = Some ?k3") using thread_tick_ok [OF co] by auto
  have "core ?k3" by (rule core_cong [OF _ _ _ _ _ _ _ _ _ co]) simp_all
  then have "in_tick k ?k3" by (simp add: in_tick_def has_frame_def)
  then obtain k' where "wake_loop (wait_list ?k3) ?k3 = Some k'" "in_tick k k'" "ticks k' = ticks ?k3"
    "\<forall>t \<in> set (wait_list k'). ticks ?k3 < wakeup_of k' t" using wake_loop_ok [OF _ refl] by blast
  then show ?thesis using t by (simp add: timer_interrupt_def Let_def)
qed

lemma thread_yield_wait:
  assumes y: "thread_yield k = Some k'"
  shows "wait_list k' = wait_list k" "ticks k' = ticks k" "wakeup_of k' = wakeup_of k"
proof -
  define k1 where "k1 = push_pending [Set_level (intr_on k)] (set_status (cur k) THREAD_READY
    (if cur k \<noteq> idle_thread k then (intr_disable k)\<lparr>ready_list := ready_list k @ [cur k]\<rparr> else intr_disable k))"
  have c: "thread_current k = Some (cur k)" "\<not> in_external_intr k"
    using y by (auto simp: thread_yield_def thread_current_def ASSERT_def split: Option.bind_splits if_splits)
  then have "thread_yield k = schedule k1" by (simp add: thread_yield_def k1_def Let_def)
  then have k1: "schedule k1 = Some k'" "wait_list k1 = wait_list k" "ticks k1 = ticks k"
      "wakeup_of k1 = wakeup_of k" "status_of k1 (cur k1) \<noteq> Some THREAD_DYING"
    using y by (simp_all add: k1_def)
  have "wait_list k' = wait_list k1 \<and> ticks k' = ticks k1 \<and> wakeup_of k' = wakeup_of k1"
    using k1(1,5)
    by (auto simp: schedule_def next_thread_to_run_eq thread_schedule_tail_def Let_def ASSERT_def wakeup_of_def
        set_status_def upd_thread_def status_of_def fun_eq_iff split: Option.bind_splits if_splits option.split)
  then show "wait_list k' = wait_list k" "ticks k' = ticks k" "wakeup_of k' = wakeup_of k" using k1 by simp_all
qed

lemma tick_step:
  assumes k: "kinv k" and on: "intr_on k"
  shows "\<exists>k'. timer_intr_handler k = Some k' \<and> kinv k' \<and> ticks k' = ticks k + 1 \<and>
    (\<forall>t \<in> set (wait_list k'). ticks k' < wakeup_of k' t)"
proof -
  note p = kinv_pendingD [OF k]
  obtain k4 where t: "timer_interrupt ((intr_disable k)\<lparr>in_external_intr := True, yield_on_return := False\<rparr>) = Some k4"
    and i4: "in_tick k k4" and tk: "ticks k4 = ticks k + 1" "\<forall>t \<in> set (wait_list k4). ticks k4 < wakeup_of k4 t"
    using timer_interrupt_ok [OF k] by blast
  have f: "core k4" "pending_of k4 = pending_of k" "cur k4 = cur k" "in_external_intr k4" "\<not> intr_on k4"
    "threads k4 t = None \<longleftrightarrow> threads k t = None" "has_frame k4 t \<Longrightarrow> has_frame k t" for t
    using i4 by (simp_all add: in_tick_def)
  have nl: "\<not> in_loop y (pending_of k (cur k))" for y using p(6) [of y] on by blast
  then have nl': "\<not> in_loop y (strip (pending_of k (cur k)))" for y using p(4) [of y "cur k"] by (cases "in_loop y (strip (pending_of k (cur k)))") auto
  let ?k4 = "k4\<lparr>in_external_intr := False\<rparr>"
  have c4: "core ?k4" by (rule core_cong [OF _ _ _ _ _ _ _ _ _ f(1)]) simp_all
  define k5 where "k5 = push_pending [Iret] ?k4"
  have pd: "pending_of k5 t = (if t = cur k then Iret # pending_of k t else pending_of k t)" for t
    unfolding k5_def using push_pending_cur [OF coreD(1) [OF c4], of ?k4 "[Iret]" t] f(2,3) by simp
  have h: "holder k5 = holder k4" "idle_thread k5 = idle_thread k4" "semas k5 = semas k4" by (simp_all add: k5_def)
  have g: "cur k5 = cur k" "\<not> in_external_intr k5" "\<not> intr_on k5" using f(3,5) by (simp_all add: k5_def)
  have th: "threads k5 t = None \<longleftrightarrow> threads k t = None" for t by (simp add: k5_def push_pending_def threads_None f(6))
  have sm: "same_sched ?k4 k5" using f(2,3) pd by (simp add: same_sched_def k5_def)
  have c5: "core k5"
  proof (rule core_local [OF c4 sm])
    show "inv_new k5" by (rule inv_new_local [OF coreD(1,3) [OF c4] sm]) (simp add: pd f)
    show "inv_timer k5" by (rule inv_timer_local [OF coreD(5) [OF c4] sm]) (simp_all add: pd f, simp_all add: k5_def)
    show "inv_wake k5" by (rule inv_wake_local [OF coreD(1,6) [OF c4] sm]) (simp_all add: pd f nl, simp add: k5_def)
    show "begun_ok (cur ?k4) (locks_of k5 (cur ?k4)) (strip (pending_of k5 (cur ?k4)))" if "cur ?k4 \<noteq> idle_thread ?k4"
      using coreD(2) [OF c4] that cur_not_NULL [OF coreD(1) [OF c4]] f(2,3) unfolding inv_pend_def
      by (simp add: pd h locks_of_def)
    show "strip (pending_of k5 (cur ?k4)) = [Idle_loop] \<and> locks_of k5 (cur ?k4) = {}" if "cur ?k4 = idle_thread ?k4"
      using coreD(2) [OF c4] that f(2,3) unfolding inv_pend_def by (simp add: pd h locks_of_def)
  qed (use nl' f in \<open>simp_all add: pd same_holders_def owns_def h\<close>)
  have lv: "final_level (intr_on k5) (pending_of k5 (cur k))" using p(5) on g(3) by (simp add: pd)
  have lv': "final_level False (pending_of k5 t)"
    if "t \<noteq> cur k" "has_frame k5 t" for t
  proof -
    have "pending_of k5 t = pending_of k4 t" "status_of k5 t = status_of k4 t" using that(1) by (simp add: pd f(2), simp add: k5_def)
    then have "has_frame k t" using that(2) f(7) [of t] by (simp add: has_frame_def)
    then show ?thesis using that(1) kinv_lvl [OF k, of t] by (simp add: pd)
  qed
  have e5: "wait_list k5 = wait_list k4" "ticks k5 = ticks k4" "wakeup_of k5 = wakeup_of k4"
    by (simp_all add: k5_def wakeup_of_def fun_eq_iff push_pending_def upd_thread_def split: option.split)
  show ?thesis
  proof (cases "yield_on_return k5")
    case True
    have "\<exists>k'. thread_yield k5 = Some k' \<and> kinv k'"
      by (rule thread_yield_ok [OF c5 g(2)]) (use nl' lv lv' in \<open>simp_all add: g pd\<close>)
    then obtain k' where k': "thread_yield k5 = Some k'" "kinv k'" by blast
    have "timer_intr_handler k = Some k'" using t f p(7) True k'(1) by (simp add: timer_intr_handler_def Let_def k5_def)
    then show ?thesis using k'(2) thread_yield_wait [OF k'(1)] e5 tk by simp
  next
    case False
    have "inv_level k5" unfolding inv_level_def g(1) using g lv lv' nl by (auto simp: pd)
    then have "kinv k5" using c5 by (simp add: kinv_core)
    moreover have "timer_intr_handler k = Some k5" using t f p(7) False by (simp add: timer_intr_handler_def Let_def k5_def)
    ultimately show ?thesis using e5 tk by simp
  qed
qed

section \<open>Every event keeps the invariant\<close>

lemma exec_step:
  assumes a: "at_stmt k st ss"
  shows "\<exists>k'. exec st (popped ss k) = Some k' \<and> kinv k'"
proof (cases st)
  case (Sema_loop s b)
  then show ?thesis
    using sema_loop_wait_step [of k s b ss] sema_loop_take_step [of k s b ss] a by (cases "sval (semas k s) = 0") simp_all
qed (use a in \<open>simp_all only: sema_down_step sema_try_down_step sema_up_step lock_acquire_step lock_try_acquire_step
    set_holder_step lock_release_step cond_wait_step cond_signal_step cond_broadcast_step thread_yield_step
    thread_exit_step thread_create_step alloc_tid_step init_thread_step setup_stack_step unblock_thread_step set_priority_step timer_sleep_step timer_wait_step
    set_level_step iret_step idle_step\<close>)

lemma happen_ok:
  assumes k: "kinv k" and e: "enabled k e"
  shows "\<exists>k'. happen e k = Some k' \<and> kinv k'"
proof (cases e)
  case Run
  then obtain st ss where p: "pending_of k (cur k) = st # ss" using e by (auto simp: neq_Nil_conv)
  then have "at_stmt k st ss" using k by (simp add: at_stmt_def)
  then show ?thesis using exec_step p Run by (simp add: run_pending_def popped_def)
next
  case (Call st)
  then have "at_stmt k st []" "popped [] k = k" using k e popped_id by (simp_all add: at_stmt_def)
  then show ?thesis using exec_step [of k st "[]"] Call by simp
next
  case Tick
  then show ?thesis using tick_step [OF k] e by auto
qed

interpretation kernel: safe_machine enabled happen kinv
  by unfold_locales (rule happen_ok)

lemmas kernel_inv = kernel.reachable_inv [OF _ booted_kinv]

section \<open>Executions\<close>

text \<open>Four short executions from a booted kernel, evaluated by the simplifier.\<close>

lemmas run_defs = run_pending_def pending_of_def push_pending_def set_retval_def set_status_def status_of_def upd_thread_def upd_sema_def
  intr_disable_def intr_enable_def intr_set_level_def thread_current_def is_thread_def sema_down_def sema_down_loop_def sema_up_def
  lock_acquire_def lock_held_by_current_thread_def set_holder_def lock_release_def thread_create_def allocate_tid_def init_created_def setup_stack_def
  init_thread_def thread_unblock_def thread_block_def schedule_def next_thread_to_run_def thread_schedule_tail_def thread_yield_def
  timer_sleep_def timer_wait_def timer_intr_handler_def timer_interrupt_def thread_tick_def intr_yield_on_return_def booted_def ASSERT_def Let_def
  PRI_MIN_def PRI_MAX_def PRI_DEFAULT_def size_add_def insert_ordered_def

lemma reach_last:
  assumes "\<exists>ks. trace enabled happen k0 es = Some ks \<and> ks \<noteq> [] \<and> P (last ks)"
  shows "\<exists>k. reachable enabled happen k0 k \<and> P k"
proof -
  obtain ks where ks: "trace enabled happen k0 es = Some ks" "ks \<noteq> []" "P (last ks)" using assms by blast
  have "reachable enabled happen k0 (last ks)"
    by (rule trace_reachable [OF reachable.start ks(1) last_in_set [OF ks(2)]])
  then show ?thesis using ks(3) by blast
qed

lemma demo_lock:
  "\<exists>k. reachable enabled happen (booted 1 2 (\<lambda>_. 0)) k \<and> holder k (Lk 0) = 1"
  by (rule reach_last [where es = "[Call (Lock_acquire (Lk 0)), Run, Run, Run]"]) (simp add: run_defs)

lemma demo_sema:
  "\<exists>k. reachable enabled happen (booted 1 2 (\<lambda>_. 0)) k \<and> waiters (semas k (Usr 0)) = [1]"
  by (rule reach_last [where es = "[Call (Sema_down (Usr 0)), Run]"]) (simp add: run_defs)

lemma demo_sleep:
  "\<exists>k. reachable enabled happen (booted 1 2 (\<lambda>_. 0)) k \<and> pending_of k 1 = [Sema_down (Of_timer 1)]"
  by (rule reach_last [where es = "[Call (Timer_sleep 5), Run]"]) (simp add: run_defs)

lemma demo_create:
  "\<exists>k. reachable enabled happen (booted 1 2 (\<lambda>_. 0)) k \<and> ready_list k = [3] \<and> status_of k 3 = Some THREAD_READY \<and>
     idle_thread k = 2 \<and> trace enabled happen k [Tick, Run, Tick, Run, Tick, Run, Tick] \<noteq> None"
  by (rule reach_last [where es = "[Call (Thread_create 3 ''a'' 31), Run, Run, Run, Run, Run, Run, Run, Run, Run, Run]"])
     (simp add: run_defs)

section \<open>The properties\<close>

lemma rest_ok_makes: "rest_ok t H ps \<Longrightarrow> makes ps = None \<or> (\<exists>u. makes ps = Some (u, Page))"
  by (induction t H ps rule: rest_ok.induct) auto

text \<open>A thread about to unblock the thread it has created and initialised.\<close>

definition unblocks :: "kstate \<Rightarrow> ptr \<Rightarrow> ptr \<Rightarrow> bool" where
  "unblocks k c t \<longleftrightarrow> strip (pending_of k c) \<in> {[Setup_stack t, Unblock_thread t], [Unblock_thread t]}"

lemma down_ok_makes: "down_ok t H s ps \<Longrightarrow> makes ps = None \<or> (\<exists>u. makes ps = Some (u, Page))"
  using rest_ok_makes by (cases s; cases ps) auto

lemma begun_ok_makes:
  assumes "begun_ok t H ps" and "makes ps = Some (u, n)" and "n \<noteq> Page"
  shows "ps \<in> {[Setup_stack u, Unblock_thread u], [Unblock_thread u]}"
  using assms by (cases "(t, H, ps)" rule: begun_ok.cases) (auto dest!: rest_ok_makes down_ok_makes)

lemma unblocks_iff:
  assumes k: "kinv k"
  shows "unblocks k c t \<longleftrightarrow> (\<exists>n. makes (pending_of k c) = Some (t, n) \<and> n \<noteq> Page)"
proof
  assume "unblocks k c t"
  then show "\<exists>n. makes (pending_of k c) = Some (t, n) \<and> n \<noteq> Page"
    unfolding unblocks_def using makes_strip [of "pending_of k c", symmetric] by auto
next
  note i = kinvD [OF k]
  assume "\<exists>n. makes (pending_of k c) = Some (t, n) \<and> n \<noteq> Page"
  then obtain n where n: "makes (strip (pending_of k c)) = Some (t, n)" "n \<noteq> Page" using makes_strip by auto
  then have "c \<noteq> NULL" using pending_Nil [OF inv_listsD(11) [OF inv_schedD(1) [OF i(1)]]] by (cases "c = NULL") auto
  moreover have "c \<noteq> idle_thread k" using i(2) n unfolding inv_pend_def by auto
  ultimately have "begun_ok c (locks_of k c) (strip (pending_of k c))" using i(2) unfolding inv_pend_def by blast
  from begun_ok_makes [OF this n] show "unblocks k c t" by (simp add: unblocks_def)
qed

lemma blocked_iff:
  assumes k: "kinv k" and t: "t \<noteq> idle_thread k"
  shows "status_of k t = Some THREAD_BLOCKED \<longleftrightarrow> (\<exists>!s. t \<in> set (waiters (semas k s))) \<or> (\<exists>!c. unblocks k c t)"
proof -
  note i = kinvD [OF k] and L = inv_listsD [OF inv_schedD(1) [OF kinvD(1) [OF k]]]
  have s: "s1 = s2" if "t \<in> set (waiters (semas k s1))" "t \<in> set (waiters (semas k s2))" for s1 s2
    using L(7) [OF that(1)] L(7) [OF that(2)] by auto
  have c: "c1 = c2" if "unblocks k c1 t" "unblocks k c2 t" for c1 c2
    using that inv_newD(3) [OF i(3)] unfolding unblocks_iff [OF k] by blast
  have b: "status_of k t = Some THREAD_BLOCKED" if u: "unblocks k c t" for c
  proof -
    obtain n where n: "makes (pending_of k c) = Some (t, n)" "n \<noteq> Page" using u unfolding unblocks_iff [OF k] by blast
    then show ?thesis using inv_newD(2) [OF i(3) n(1)] by (cases n) simp_all
  qed
  have cr: "\<exists>c. unblocks k c t" if a: "status_of k t = Some THREAD_BLOCKED" "strip (pending_of k t) = []"
  proof -
    obtain c n where n: "makes (pending_of k c) = Some (t, n)" using inv_new_creator [OF i(3) a] by blast
    then have "n \<noteq> Page" using inv_newD(2) [OF i(3) n] a(1) by (auto simp flip: status_of_None)
    then show ?thesis using n unfolding unblocks_iff [OF k] by blast
  qed
  show ?thesis using L(6,8) [of t] t s c b cr by blast
qed

text \<open>A blocked thread with something to execute is in the loop of \<open>sema_down\<close>.\<close>

lemma waiting_loop:
  assumes k: "kinv k" and b: "status_of k t = Some THREAD_BLOCKED" "t \<noteq> idle_thread k" "strip (pending_of k t) \<noteq> []"
  shows "\<exists>s. t \<in> set (waiters (semas k s)) \<and> in_loop s (strip (pending_of k t))"
proof -
  note L = inv_listsD [OF inv_schedD(1) [OF kinvD(1) [OF k]]]
  obtain s where s: "t \<in> set (waiters (semas k s))" using L(8) [OF b(1)] b(2,3) by blast
  then show ?thesis using L(7) [OF s] by (auto simp: in_loop_def)
qed

text \<open>
  A thread inside \<open>timer_sleep\<close>: before its insertion in the wait list, or waiting for
  its semaphore.
\<close>

definition in_timer_sleep :: "ptr \<Rightarrow> stmt list \<Rightarrow> bool" where
  "in_timer_sleep t ps \<longleftrightarrow> (\<exists>qs. strip ps = Timer_wait # qs) \<or> sleeps t ps"

lemma sleeper_stage:
  assumes k: "kinv k" and sl: "sleeps t (pending_of k t)"
  shows "t \<in> set (wait_list k) \<and> sval (semas k (Of_timer t)) = 0 \<or>
    t \<notin> set (wait_list k) \<and> wakeup_of k t \<le> ticks k \<and> sval (semas k (Of_timer t)) = 1 \<and> status_of k t \<noteq> Some THREAD_BLOCKED"
proof (cases "t \<in> set (wait_list k)")
  case True
  then show ?thesis using inv_timerD(3) [OF kinvD(6) [OF k], of t] sl by simp
next
  case False
  note i = kinvD [OF k] and T = inv_timerD [OF kinvD(6) [OF k]]
  have v: "sval (semas k (Of_timer t)) = 1" using T(3) [of t] False sl by simp
  have "status_of k t \<noteq> Some THREAD_BLOCKED"
  proof
    assume b: "status_of k t = Some THREAD_BLOCKED"
    have "t \<noteq> idle_thread k" using i(2) sl unfolding inv_pend_def sleeps_def by auto
    then obtain s where s: "t \<in> set (waiters (semas k s))" "in_loop s (strip (pending_of k t))"
      using waiting_loop [OF k b] sl by (auto simp: sleeps_def)
    then have "s = Of_timer t" using sl by (auto simp: sleeps_def in_loop_def)
    then have "waiters (semas k (Of_timer t)) \<noteq> []" using s by auto
    then have "1 \<le> card (woken k (Of_timer t))" using i(7) v unfolding inv_wake_def by metis
    then obtain u where u: "u \<in> woken k (Of_timer t)" by (cases "woken k (Of_timer t) = {}") auto
    then have "u \<noteq> NULL" "u \<noteq> idle_thread k" "\<exists>b ps. strip (pending_of k u) = Sema_loop (Of_timer t) b # ps"
      using NULL_no_thread [OF inv_schedD(1) [OF i(1)], of u] i(2) unfolding inv_pend_def
      by (auto simp: woken_def in_loop_def)
    then have "t = u" using i(2) unfolding inv_pend_def by (metis begun_ok.simps(5) down_ok.simps(3))
    then show False using u b by (simp add: woken_def)
  qed
  then show ?thesis using False v T(4) [of t] by simp
qed

text \<open>
  C1. From the state the kernel boots into, as long as each call of a thread meets the
  conditions of \<open>may_call\<close>, and whenever the timer interrupts, no assertion of the
  scheduler, of the semaphores, locks and condition variables or of the alarm clock
  fails. The conditions: a lock is not acquired by its holder, and is released, and its
  condition variables are used, only by its holder; a thread exits holding no lock; a new
  thread gets a fresh page; priorities are in range. The steps are the statements
  between which interrupts can occur; the insertion in \<open>all_list\<close> counts as one.
\<close>

theorem kernel_never_fails:
  assumes "m \<noteq> NULL" and "i \<noteq> NULL" and "m \<noteq> i"
    and "reachable enabled happen (booted m i v) k" and "enabled k e"
  shows "\<exists>k'. happen e k = Some k'"
  using kernel.never_fails [OF assms(4) booted_kinv [OF assms(1-3)] assms(5)] .

theorem kernel_never_fails_witness:
  "\<exists>k'. happen (Call (Lock_acquire (Lk 0))) (booted 1 2 (\<lambda>_. 0)) = Some k'"
  by (rule kernel_never_fails [of 1 2 "\<lambda>_. 0", OF _ _ _ reachable.start])
     (simp_all add: booted_def pending_of_def)

text \<open>
  C3. In every reachable state exactly the current thread has the status running; the
  run queue has no duplicates and holds exactly the ready threads, the idle thread
  excepted; a thread other than the idle thread is blocked exactly if it is in the list
  of waiters of one semaphore, or has been created by one thread that has yet to unblock
  it. No thread is twice in a list of waiters.
\<close>

theorem scheduler_invariant:
  assumes "m \<noteq> NULL" and "i \<noteq> NULL" and "m \<noteq> i" and "reachable enabled happen (booted m i v) k"
  shows "(status_of k t = Some THREAD_RUNNING \<longleftrightarrow> t = cur k) \<and> distinct (ready_list k) \<and>
    (t \<noteq> idle_thread k \<longrightarrow> (status_of k t = Some THREAD_READY \<longleftrightarrow> t \<in> set (ready_list k))) \<and>
    (t \<noteq> idle_thread k \<longrightarrow> (status_of k t = Some THREAD_BLOCKED \<longleftrightarrow>
      (\<exists>!s. t \<in> set (waiters (semas k s))) \<or>
      (\<exists>!c. strip (pending_of k c) \<in> {[Setup_stack t, Unblock_thread t], [Unblock_thread t]}))) \<and>
    distinct (waiters (semas k s))"
proof -
  note i = kinvD(1) [OF kernel_inv [OF assms(4,1-3)]]
  note L = inv_listsD [OF inv_schedD(1) [OF i]]
  note B = blocked_iff [OF kernel_inv [OF assms(4,1-3)], of t, unfolded unblocks_def]
  show ?thesis using L(1,3,4,5) inv_schedD(2,3) [OF i] B by blast
qed

theorem scheduler_invariant_witness:
  "\<exists>k. reachable enabled happen (booted 1 2 (\<lambda>_. 0)) k \<and> waiters (semas k (Usr 0)) = [1] \<and>
     (status_of k (cur k) = Some THREAD_RUNNING) \<and> distinct (ready_list k)"
proof -
  obtain k where k: "reachable enabled happen (booted 1 2 (\<lambda>_. 0)) k" "waiters (semas k (Usr 0)) = [1]"
    using demo_sema by blast
  show ?thesis using scheduler_invariant [OF _ _ _ k(1), of "cur k"] k by auto
qed

text \<open>
  C4. Locks exclude. In every reachable state a held lock has a semaphore of value
  zero, and no other thread has taken that semaphore and is about to become the
  holder; a thread about to become the holder finds the lock unheld.
\<close>

theorem lock_mutual_exclusion:
  assumes "m \<noteq> NULL" and "i \<noteq> NULL" and "m \<noteq> i" and "reachable enabled happen (booted m i v) k"
  shows "(holder k l \<noteq> NULL \<longrightarrow> sval (semas k (Of_lock l)) = 0 \<and> (\<forall>t ps. strip (pending_of k t) \<noteq> Set_holder l # ps)) \<and>
    (strip (pending_of k t) = Set_holder l # ps \<longrightarrow> holder k l = NULL \<and> sval (semas k (Of_lock l)) = 0) \<and>
    (strip (pending_of k t) = Set_holder l # ps \<longrightarrow> strip (pending_of k t') = Set_holder l # ps' \<longrightarrow> t = t')"
proof -
  note k = kernel_inv [OF assms(4,1-3)]
  note i = kinvD [OF k]
  have one: "t = t' \<and> sval (semas k (Of_lock l)) = 0" if "owns k t l" "owns k t' l" for t t'
    using i(4) that unfolding inv_locks_def by metis
  have claim: "owns k t l" "holder k l \<noteq> t" if "strip (pending_of k t) = Set_holder l # ps" for t ps
  proof -
    show "owns k t l" using that by (simp add: owns_def claims_def)
    have "t \<noteq> NULL"
      using that pending_Nil [of k t] inv_listsD(11) [OF inv_schedD(1) [OF i(1)]] by (cases "t = NULL") auto
    moreover have "t \<noteq> idle_thread k" using i(2) that unfolding inv_pend_def by auto
    ultimately have "begun_ok t (locks_of k t) (Set_holder l # ps)" using i(2) that unfolding inv_pend_def by metis
    then show "holder k l \<noteq> t" by (simp add: locks_of_def)
  qed
  have held: "owns k (holder k l) l" if "holder k l \<noteq> NULL" using that by (simp add: owns_def)
  show ?thesis using one claim held by metis
qed

theorem lock_mutual_exclusion_witness:
  "\<exists>k. reachable enabled happen (booted 1 2 (\<lambda>_. 0)) k \<and> holder k (Lk 0) = 1 \<and>
     sval (semas k (Of_lock (Lk 0))) = 0 \<and> (\<forall>t ps. strip (pending_of k t) \<noteq> Set_holder (Lk 0) # ps)"
proof -
  obtain k where k: "reachable enabled happen (booted 1 2 (\<lambda>_. 0)) k" "holder k (Lk 0) = 1"
    using demo_lock by blast
  show ?thesis using lock_mutual_exclusion [OF _ _ _ k(1), of "Lk 0"] k by auto
qed

text \<open>
  C5. No wake-up is lost. In every reachable state, as long as threads wait on a
  semaphore, each unit of its value is matched by a thread that is ready or running
  and next evaluates the loop condition of \<open>sema_down\<close> on it; in particular no thread
  waits for ever on a semaphore with a positive value.
\<close>

theorem no_lost_wakeup:
  assumes "m \<noteq> NULL" and "i \<noteq> NULL" and "m \<noteq> i" and "reachable enabled happen (booted m i v) k"
    and "waiters (semas k s) \<noteq> []"
  shows "sval (semas k s) \<le> card {t. (status_of k t = Some THREAD_READY \<or> status_of k t = Some THREAD_RUNNING) \<and>
    (\<exists>b ps. pending_of k t = Sema_loop s b # ps)}"
proof -
  note i = kinvD [OF kernel_inv [OF assms(4,1-3)]]
  show ?thesis using i(7) assms(5) unfolding inv_wake_def woken_def in_loop_def by blast
qed

theorem no_lost_wakeup_witness:
  "\<exists>k. reachable enabled happen (booted 1 2 (\<lambda>_. 0)) k \<and> waiters (semas k (Usr 0)) = [1] \<and>
     sval (semas k (Usr 0)) \<le> card {t. (status_of k t = Some THREAD_READY \<or> status_of k t = Some THREAD_RUNNING) \<and>
       (\<exists>b ps. pending_of k t = Sema_loop (Usr 0) b # ps)}"
proof -
  obtain k where k: "reachable enabled happen (booted 1 2 (\<lambda>_. 0)) k" "waiters (semas k (Usr 0)) = [1]"
    using demo_sema by blast
  then show ?thesis using no_lost_wakeup [OF _ _ _ k(1), of "Usr 0"] by auto
qed

text \<open>
  C14. The alarm clock. In every reachable state a thread inside \<open>timer_sleep\<close> is in one
  of three stages. It has computed its wake-up time and is about to insert itself in the
  wait list: it is not blocked, and its semaphore is down. Or it is in the wait list and
  cannot pass its semaphore. Or it is out of the wait list: then its wake-up time has
  come, its semaphore is up and it is not blocked.
\<close>

theorem alarm_clock:
  assumes "m \<noteq> NULL" and "i \<noteq> NULL" and "m \<noteq> i" and "reachable enabled happen (booted m i v) k"
    and "in_timer_sleep t (pending_of k t)"
  shows "(\<exists>ps. strip (pending_of k t) = Timer_wait # ps) \<and> t \<notin> set (wait_list k) \<and> sval (semas k (Of_timer t)) = 0 \<and>
      status_of k t \<noteq> Some THREAD_BLOCKED \<or>
    sleeps t (pending_of k t) \<and> t \<in> set (wait_list k) \<and> sval (semas k (Of_timer t)) = 0 \<or>
    sleeps t (pending_of k t) \<and> t \<notin> set (wait_list k) \<and> wakeup_of k t \<le> ticks k \<and> sval (semas k (Of_timer t)) = 1 \<and> status_of k t \<noteq> Some THREAD_BLOCKED"
proof (cases "sleeps t (pending_of k t)")
  case True
  then show ?thesis using sleeper_stage [OF kernel_inv [OF assms(4,1-3)] True] by blast
next
  case False
  note k = kernel_inv [OF assms(4,1-3)]
  obtain ps where ps: "strip (pending_of k t) = Timer_wait # ps" using assms(5) False by (auto simp: in_timer_sleep_def)
  then have "t \<noteq> idle_thread k" using kinvD(2) [OF k] unfolding inv_pend_def by auto
  then have "status_of k t \<noteq> Some THREAD_BLOCKED" using waiting_loop [OF k, of t] ps by (auto simp: in_loop_def)
  then show ?thesis using ps False inv_timerD(3) [OF kinvD(6) [OF k], of t] by (auto split: if_splits)
qed

theorem alarm_clock_witness:
  "\<exists>k. reachable enabled happen (booted 1 2 (\<lambda>_. 0)) k \<and> pending_of k 1 = [Sema_down (Of_timer 1)] \<and>
     (1 \<in> set (wait_list k) \<and> sval (semas k (Of_timer 1)) = 0 \<or> wakeup_of k 1 \<le> ticks k)"
proof -
  obtain k where k: "reachable enabled happen (booted 1 2 (\<lambda>_. 0)) k" "pending_of k 1 = [Sema_down (Of_timer 1)]"
    using demo_sleep by blast
  then show ?thesis using alarm_clock [OF _ _ _ k(1), of 1] by (auto simp: in_timer_sleep_def)
qed

text \<open>
  C15. Every timer interrupt advances the clock by one tick and leaves no thread in the
  wait list whose wake-up time has come.
\<close>

theorem timer_interrupt_wakes_due:
  assumes "m \<noteq> NULL" and "i \<noteq> NULL" and "m \<noteq> i" and "reachable enabled happen (booted m i v) k"
    and "intr_on k"
  shows "\<exists>k'. timer_intr_handler k = Some k' \<and> ticks k' = ticks k + 1 \<and>
    (\<forall>t \<in> set (wait_list k'). ticks k' < wakeup_of k' t)"
  using tick_step [OF kernel_inv [OF assms(4,1-3)] assms(5)] by blast

theorem timer_interrupt_wakes_due_witness:
  "\<exists>k'. timer_intr_handler (booted 1 2 (\<lambda>_. 0)) = Some k' \<and> ticks k' = 1 \<and>
     (\<forall>t \<in> set (wait_list k'). ticks k' < wakeup_of k' t)"
proof -
  have b: "intr_on (booted 1 2 (\<lambda>_. 0))" "ticks (booted 1 2 (\<lambda>_. 0)) = 0" by (simp_all add: booted_def)
  show ?thesis using timer_interrupt_wakes_due [OF _ _ _ reachable.start b(1)] b(2) by simp
qed

end
