(* ===== verification/Threads_Fair.thy ===== *)
theory Threads_Fair
  imports Threads_Run
begin

text \<open>
  Round robin. The run queue is first-in first-out, and a thread that uses up its
  time slice is preempted by the timer, so a ready thread runs after a bounded
  number of timer ticks.
\<close>

section \<open>The run queue\<close>

text \<open>
  A step either leaves the processor with the running thread, and at most appends
  to the run queue, or gives it to the first thread of the queue.
\<close>

definition queue_step :: "kstate \<Rightarrow> kstate \<Rightarrow> bool" where
  "queue_step k k' \<longleftrightarrow>
     cur k' = cur k \<and> thread_ticks k' = thread_ticks k \<and> (\<exists>xs. ready_list k' = ready_list k @ xs) \<or>
     thread_ticks k' = 0 \<and> (ready_list k = [] \<or> (\<exists>xs. ready_list k @ xs = cur k' # ready_list k'))"

definition quiet :: "kstate \<Rightarrow> kstate \<Rightarrow> bool" where
  "quiet k k' \<longleftrightarrow> cur k' = cur k \<and> thread_ticks k' = thread_ticks k \<and> (\<exists>xs. ready_list k' = ready_list k @ xs)"

lemma quiet_step: "quiet k k' \<Longrightarrow> queue_step k k'"
  by (simp add: quiet_def queue_step_def)

lemma quiet_trans: "quiet k k' \<Longrightarrow> quiet k' k'' \<Longrightarrow> quiet k k''"
  by (auto simp: quiet_def)

lemma quiet_queue: "quiet k k' \<Longrightarrow> queue_step k' k'' \<Longrightarrow> queue_step k k''"
  by (auto simp: quiet_def queue_step_def)

lemma thread_ticks_simps [simp]:
  "thread_ticks (upd_thread t f k) = thread_ticks k" "thread_ticks (upd_sema s g k) = thread_ticks k"
  "thread_ticks (intr_disable k) = thread_ticks k" "thread_ticks (push_pending ps k) = thread_ticks k"
  "thread_ticks (set_status t x k) = thread_ticks k" "thread_ticks (set_retval r k) = thread_ticks k"
  by (simp_all add: upd_thread_def upd_sema_def intr_disable_def to_upd_thread)

lemma schedule_queue:
  assumes "schedule k = Some k'"
  shows "thread_ticks k' = 0 \<and> (ready_list k = [] \<or> ready_list k = cur k' # ready_list k')"
  using assms
  by (cases "ready_list k")
     (auto simp: schedule_def next_thread_to_run_def thread_schedule_tail_def Let_def ASSERT_def set_status_def
        split: Option.bind_splits if_splits)

lemma schedule_step: "schedule k1 = Some k' \<Longrightarrow> quiet k k1 \<Longrightarrow> queue_step k k'"
  using schedule_queue [of k1 k'] by (auto simp: quiet_def queue_step_def)

lemma intr_set_level_quiet: "intr_set_level b k = Some k' \<Longrightarrow> quiet k k'"
  by (auto simp: intr_set_level_def intr_enable_def intr_disable_def quiet_def ASSERT_def split: if_splits)

lemma thread_unblock_quiet: "thread_unblock t k = Some k' \<Longrightarrow> quiet k k'"
  unfolding thread_unblock_def Let_def
  by (auto simp: ASSERT_def quiet_def split: Option.bind_splits if_splits dest!: intr_set_level_quiet)

lemma sema_up_quiet: "sema_up s k = Some k' \<Longrightarrow> quiet k k'"
  unfolding sema_up_def Let_def
  by (auto simp: quiet_def split: Option.bind_splits list.splits dest!: intr_set_level_quiet thread_unblock_quiet)

lemma sema_try_down_quiet: "sema_try_down s k = Some (r, k') \<Longrightarrow> quiet k k'"
  unfolding sema_try_down_def Let_def
  by (auto simp: quiet_def split: Option.bind_splits if_splits prod.splits dest!: intr_set_level_quiet)

lemma thread_block_step: "thread_block k = Some k' \<Longrightarrow> queue_step k k'"
  by (auto simp: thread_block_def ASSERT_def quiet_def split: Option.bind_splits if_splits elim!: schedule_step)

lemma thread_yield_switches:
  assumes "thread_yield k = Some k'"
  shows "thread_ticks k' = 0 \<and> (ready_list k = [] \<or> (\<exists>xs. ready_list k @ xs = cur k' # ready_list k'))"
proof -
  obtain c where c: "thread_current k = Some c" "c = cur k"
    using assms by (auto simp: thread_yield_def thread_current_def split: Option.bind_splits)
  have "\<not> in_external_intr k" using assms c by (auto simp: thread_yield_def ASSERT_def split: if_splits)
  then have "schedule (push_pending [Set_level (intr_on k)] (set_status (cur k) THREAD_READY
      (if cur k \<noteq> idle_thread k then (intr_disable k)\<lparr>ready_list := ready_list k @ [cur k]\<rparr> else intr_disable k))) = Some k'"
    using assms c by (simp add: thread_yield_def Let_def cong: if_cong)
  from schedule_queue [OF this] show ?thesis by (auto split: if_splits)
qed

lemma quiet_updates [simp]:
  "quiet k (push_pending ps k') = quiet k k'" "quiet k (set_retval r k') = quiet k k'"
  "quiet k (upd_sema x g k') = quiet k k'" "quiet k (intr_disable k') = quiet k k'"
  "quiet k (set_status t st k') = quiet k k'" "quiet k (upd_thread t f k') = quiet k k'"
  "quiet k (k'\<lparr>holder := h\<rparr>) = quiet k k'" "quiet k (k'\<lparr>conds := cs\<rparr>) = quiet k k'"
  "quiet k (k'\<lparr>next_tid := n\<rparr>) = quiet k k'" "quiet k (k'\<lparr>all_list := r'\<rparr>) = quiet k k'"
  "quiet k (k'\<lparr>intr_on := b\<rparr>) = quiet k k'" "quiet k (k'\<lparr>wait_list := r'\<rparr>) = quiet k k'"
  "quiet k (k'\<lparr>threads := th\<rparr>) = quiet k k'"
  "quiet k k"
  by (simp_all add: quiet_def to_upd_thread)

lemma thread_current_cur: "thread_current k = Some c \<Longrightarrow> c = cur k"
  by (auto simp: thread_current_def split: Option.bind_splits)

lemma sema_down_loop_step:
  assumes "sema_down_loop s b k = Some k'"
  shows "queue_step k k'"
proof (cases "sval (semas k s) = 0")
  case True
  then obtain c where "thread_block (push_pending [Sema_loop s b] (upd_sema s (\<lambda>x. x\<lparr>waiters := waiters x @ [c]\<rparr>) k)) = Some k'"
    using assms by (auto simp: sema_down_loop_def split: Option.bind_splits)
  then show ?thesis by (rule quiet_queue [OF _ thread_block_step, rotated]) simp
next
  case False
  then have "intr_set_level b (upd_sema s (\<lambda>x. x\<lparr>sval := sval x - 1\<rparr>) k) = Some k'"
    using assms by (simp add: sema_down_loop_def)
  from quiet_trans [OF _ intr_set_level_quiet [OF this], of k] show ?thesis by (simp add: quiet_step)
qed

lemma init_created_quiet: "init_created t nm q k = Some k' \<Longrightarrow> quiet k k'"
  by (auto simp: init_created_def init_thread_def Let_def ASSERT_def split: Option.bind_splits if_splits)

lemma setup_stack_quiet: "setup_stack t k = Some k' \<Longrightarrow> quiet k k'"
  unfolding setup_stack_def Let_def
  by (auto simp: ASSERT_def quiet_def split: Option.bind_splits if_splits dest!: intr_set_level_quiet)

lemma exec_queue:
  assumes "exec st k = Some k'"
  shows "queue_step k k'"
proof (cases st)
  case (Sema_try_down s)
  then show ?thesis
    using assms sema_try_down_quiet [of s k] by (auto split: Option.bind_splits intro: quiet_step)
next
  case (Lock_try_acquire l)
  then show ?thesis
    using assms sema_try_down_quiet [of "Of_lock l" k]
    by (auto simp: lock_try_acquire_def ASSERT_def split: Option.bind_splits if_splits intro!: quiet_step)
next
  case Thread_yield
  then show ?thesis using assms thread_yield_switches by (simp add: queue_step_def)
next
  case Thread_exit
  then show ?thesis
    using assms
    by (auto simp: thread_exit_def Let_def ASSERT_def split: Option.bind_splits if_splits elim!: schedule_step)
next
  case Idle_loop
  then show ?thesis using assms by (auto simp: idle_def intro!: quiet_queue [OF _ thread_block_step])
next
  case Timer_wait
  then show ?thesis
    using assms by (auto simp: timer_wait_def Let_def intr_enable_def ASSERT_def split: Option.bind_splits if_splits intro!: quiet_step)
qed (use assms sema_down_loop_step sema_up_quiet init_created_quiet setup_stack_quiet thread_unblock_quiet intr_set_level_quiet in
    \<open>auto simp: sema_down_def lock_acquire_def set_holder_def lock_release_def cond_wait_def cond_signal_def
      cond_broadcast_def thread_create_def allocate_tid_def thread_set_priority_def timer_sleep_def Let_def ASSERT_def
      split: Option.bind_splits if_splits list.splits intro!: quiet_step\<close>)

section \<open>The timer\<close>

lemma yield_on_return_simps [simp]:
  "yield_on_return (push_pending ps k) = yield_on_return k" "yield_on_return (set_retval r k) = yield_on_return k"
  by (simp_all add: to_upd_thread)

lemma intr_set_level_yield: "intr_set_level b k = Some k' \<Longrightarrow> yield_on_return k' = yield_on_return k"
  by (auto simp: intr_set_level_def intr_enable_def intr_disable_def ASSERT_def split: if_splits)

lemma sema_up_yield: "sema_up s k = Some k' \<Longrightarrow> yield_on_return k' = yield_on_return k"
  unfolding sema_up_def thread_unblock_def Let_def
  by (auto simp: ASSERT_def split: Option.bind_splits if_splits list.splits dest!: intr_set_level_yield)

lemma wake_loop_quiet: "wake_loop ws k = Some k' \<Longrightarrow> quiet k k' \<and> yield_on_return k' = yield_on_return k"
proof (induction ws arbitrary: k)
  case (Cons t ts)
  obtain x where x: "threads k t = Some x" using Cons.prems by (auto split: Option.bind_splits)
  show ?case
  proof (cases "ticks k < wakeup_time x")
    case True
    then show ?thesis using Cons.prems x by simp
  next
    case False
    then obtain k1 where k1: "sema_up (Of_timer t) k = Some k1" "wake_loop ts (k1\<lparr>wait_list := ts\<rparr>) = Some k'"
      using Cons.prems x by (auto split: Option.bind_splits)
    have "quiet k (k1\<lparr>wait_list := ts\<rparr>)" using sema_up_quiet [OF k1(1)] by simp
    then have "quiet k k'" using Cons.IH [OF k1(2)] quiet_trans by blast
    then show ?thesis using Cons.IH [OF k1(2)] sema_up_yield [OF k1(1)] by simp
  qed
qed simp

lemma thread_tick_queue:
  assumes "thread_tick k = Some k'"
  shows "cur k' = cur k \<and> ready_list k' = ready_list k \<and> thread_ticks k' = thread_ticks k + 1 \<and>
    yield_on_return k' = (TIME_SLICE \<le> thread_ticks k + 1 \<or> yield_on_return k)"
  using assms
  by (auto simp: thread_tick_def intr_yield_on_return_def Let_def ASSERT_def split: Option.bind_splits if_splits)

definition slice_step :: "kstate \<Rightarrow> kstate \<Rightarrow> bool" where
  "slice_step k k' \<longleftrightarrow>
     cur k' = cur k \<and> thread_ticks k' = thread_ticks k + 1 \<and> thread_ticks k' < TIME_SLICE \<and> (\<exists>xs. ready_list k' = ready_list k @ xs) \<or>
     thread_ticks k' = 0 \<and> (ready_list k = [] \<or> (\<exists>xs. ready_list k @ xs = cur k' # ready_list k'))"

lemma tick_queue:
  assumes "timer_intr_handler k = Some k'"
  shows "slice_step k k'"
proof -
  let ?k1 = "(intr_disable k)\<lparr>in_external_intr := True, yield_on_return := False, ticks := ticks k + 1\<rparr>"
  obtain k2 k3 where k2: "thread_tick ?k1 = Some k2" "wake_loop (wait_list k2) k2 = Some k3"
    and h: "(let k = push_pending [Iret] (k3\<lparr>in_external_intr := False\<rparr>)
             in if yield_on_return k then thread_yield k else Some k) = Some k'"
    using assms by (auto simp: timer_intr_handler_def timer_interrupt_def Let_def split: Option.bind_splits)
  let ?k4 = "push_pending [Iret] (k3\<lparr>in_external_intr := False\<rparr>)"
  note t = thread_tick_queue [OF k2(1)] and w = wake_loop_quiet [OF k2(2)]
  obtain xs where q: "cur ?k4 = cur k" "ready_list ?k4 = ready_list k @ xs" "thread_ticks ?k4 = thread_ticks k + 1"
    "yield_on_return ?k4 = (TIME_SLICE \<le> thread_ticks k + 1)"
    using t w by (auto simp: quiet_def)
  show ?thesis
  proof (cases "yield_on_return ?k4")
    case True
    then have "thread_yield ?k4 = Some k'" using h by simp
    from thread_yield_switches [OF this] show ?thesis using q(2) by (auto simp: slice_step_def)
  next
    case False
    then have "k' = ?k4" using h by simp
    then show ?thesis using q False by (auto simp: slice_step_def)
  qed
qed

section \<open>Round robin\<close>

definition ahead :: "kstate \<Rightarrow> ptr \<Rightarrow> nat" where
  "ahead k t = length (takeWhile (\<lambda>u. u \<noteq> t) (ready_list k))"

definition potential :: "kstate \<Rightarrow> ptr \<Rightarrow> nat" where
  "potential k t = TIME_SLICE * ahead k t + (TIME_SLICE - thread_ticks k)"

lemma ahead_append: "t \<in> set (ready_list k) \<Longrightarrow> ready_list k' = ready_list k @ xs \<Longrightarrow> ahead k' t = ahead k t"
  by (simp add: ahead_def takeWhile_append1)

lemma ahead_switch:
  assumes "t \<in> set (ready_list k)" and "ready_list k @ xs = cur k' # ready_list k'" and "cur k' \<noteq> t"
  shows "t \<in> set (ready_list k')" "ahead k t = ahead k' t + 1"
proof -
  obtain ys where r: "ready_list k = cur k' # ys" "ready_list k' = ys @ xs"
    using assms(1,2) by (cases "ready_list k") auto
  then show "t \<in> set (ready_list k')" "ahead k t = ahead k' t + 1"
    using assms(1,3) by (auto simp: ahead_def takeWhile_append1)
qed

lemma happen_potential:
  assumes h: "happen e k = Some k'" and t: "t \<in> set (ready_list k)" and tt: "thread_ticks k < TIME_SLICE"
  shows "cur k' = t \<or> t \<in> set (ready_list k') \<and> thread_ticks k' < TIME_SLICE \<and>
    potential k' t + (if e = Tick then 1 else 0) \<le> potential k t"
proof -
  have ne: "ready_list k \<noteq> []" using t by auto
  consider xs where "cur k' = cur k" "ready_list k' = ready_list k @ xs" "thread_ticks k' < TIME_SLICE"
      "thread_ticks k' = thread_ticks k + (if e = Tick then 1 else 0)"
    | xs where "thread_ticks k' = 0" "ready_list k @ xs = cur k' # ready_list k'"
  proof (cases "e = Tick")
    case True
    then have "slice_step k k'" using tick_queue h by simp
    then show thesis using that ne True by (auto simp: slice_step_def)
  next
    case False
    then have "\<exists>k0 st. exec st k0 = Some k' \<and> quiet k k0"
      using h by (cases e) (auto simp: run_pending_def split: list.splits)
    then have "queue_step k k'" using quiet_queue exec_queue by blast
    then show thesis using that ne False tt by (auto simp: queue_step_def)
  qed
  then show ?thesis
  proof cases
    case 1
    then show ?thesis using t tt ahead_append [OF t 1(2)] by (simp add: potential_def)
  next
    case 2
    then show ?thesis using ahead_switch [OF t 2(2)] tt by (cases "cur k' = t") (auto simp: potential_def)
  qed
qed

lemma trace_potential:
  assumes "trace enabled happen k es = Some ks" and "t \<in> set (ready_list k)" and "thread_ticks k < TIME_SLICE"
    and "\<forall>k' \<in> set ks. cur k' \<noteq> t"
  shows "length (filter (\<lambda>e. e = Tick) es) < potential k t"
  using assms
proof (induction es arbitrary: k ks)
  case Nil
  then show ?case by (simp add: potential_def)
next
  case (Cons e es)
  then obtain k' ks' where k': "happen e k = Some k'" "trace enabled happen k' es = Some ks'" "ks = k' # ks'"
    by (auto simp only: trace_Cons_Some)
  then have "t \<in> set (ready_list k')" "thread_ticks k' < TIME_SLICE"
    "potential k' t + (if e = Tick then 1 else 0) \<le> potential k t"
    using happen_potential [OF k'(1) Cons.prems(2,3)] Cons.prems(4) by auto
  moreover have "length (filter (\<lambda>e. e = Tick) es) < potential k' t"
    by (rule Cons.IH [OF k'(2)]) (use calculation Cons.prems(4) k'(3) in auto)
  ultimately show ?case by (auto split: if_splits)
qed

lemma happen_ticks:
  assumes "happen e k = Some k'" and "thread_ticks k < TIME_SLICE"
  shows "thread_ticks k' < TIME_SLICE"
proof (cases "e = Tick")
  case True
  then have "slice_step k k'" using assms(1) tick_queue by simp
  then show ?thesis by (auto simp: slice_step_def)
next
  case False
  then have "\<exists>k0 st. exec st k0 = Some k' \<and> quiet k k0"
    using assms(1) by (cases e) (auto simp: run_pending_def split: list.splits)
  then have "queue_step k k'" using quiet_queue exec_queue by blast
  then show ?thesis using assms(2) by (auto simp: queue_step_def)
qed

text \<open>
  C13. Round robin without starvation. A ready thread, other than the idle thread, with
  \<open>n\<close> threads ahead of it in the run queue runs before \<open>4 (n + 1)\<close> further timer ticks
  have passed, whatever the threads do.
\<close>

theorem ready_thread_runs:
  assumes "m \<noteq> NULL" and "i \<noteq> NULL" and "m \<noteq> i" and r: "reachable enabled happen (booted m i v) k"
    and "status_of k t = Some THREAD_READY" and "t \<noteq> idle_thread k"
    and tr: "trace enabled happen k es = Some ks"
    and tk: "TIME_SLICE * (length (takeWhile (\<lambda>u. u \<noteq> t) (ready_list k)) + 1) \<le> length (filter (\<lambda>e. e = Tick) es)"
  shows "\<exists>k' \<in> set ks. cur k' = t"
proof (rule ccontr)
  assume "\<not> ?thesis"
  moreover have "t \<in> set (ready_list k)"
    using inv_listsD(4) [OF inv_schedD(1) [OF kinvD(1) [OF kernel_inv [OF r assms(1-3)]]]] assms(5,6) by blast
  moreover have "thread_ticks k < TIME_SLICE"
    using r by (induction rule: reachable.induct) (simp add: booted_def, rule happen_ticks)
  ultimately have "length (filter (\<lambda>e. e = Tick) es) < potential k t" using trace_potential [OF tr] by blast
  then show False using tk by (simp add: potential_def ahead_def)
qed

theorem ready_thread_runs_witness:
  "\<exists>k ks. reachable enabled happen (booted 1 2 (\<lambda>_. 0)) k \<and>
     trace enabled happen k [Tick, Run, Tick, Run, Tick, Run, Tick] = Some ks \<and> (\<exists>k' \<in> set ks. cur k' = 3)"
proof -
  obtain k ks where k: "reachable enabled happen (booted 1 2 (\<lambda>_. 0)) k" "ready_list k = [3]"
    "status_of k 3 = Some THREAD_READY" "idle_thread k = 2"
    and t: "trace enabled happen k [Tick, Run, Tick, Run, Tick, Run, Tick] = Some ks"
    using demo_create by blast
  have "\<exists>k' \<in> set ks. cur k' = 3"
    by (rule ready_thread_runs [OF _ _ _ k(1,3) _ t]) (use k in simp_all)
  then show ?thesis using k(1) t by blast
qed

end
