(* ===== verification/Strings.thy ===== *)
theory Strings
  imports Prelude "HOL-Library.List_Lexorder"
begin

text \<open>
  Blocks of memory and null-terminated strings: \<^verbatim>\<open>lib/string.c\<close>.

  The memory is a function from addresses to bytes, so that overlapping blocks and
  strings that are changed in place are what they are in the code. A loop that looks
  for a null byte is a partial function: on a string without one it does not return
  (\<open>None\<close>). Addresses do not wrap around.
\<close>

type_synonym mem = "ptr \<Rightarrow> u8"

section \<open>Blocks\<close>

fun copy_up :: "nat \<Rightarrow> ptr \<Rightarrow> ptr \<Rightarrow> mem \<Rightarrow> mem" where
  "copy_up 0 dst src m = m"
| "copy_up (Suc sz) dst src m = copy_up sz (dst + 1) (src + 1) (m(dst := m src))"

fun copy_down :: "nat \<Rightarrow> ptr \<Rightarrow> ptr \<Rightarrow> mem \<Rightarrow> mem" where
  "copy_down 0 dst src m = m"
| "copy_down (Suc sz) dst src m = copy_down sz (dst - 1) (src - 1) (m(dst - 1 := m (src - 1)))"

definition memcpy :: "ptr \<Rightarrow> ptr \<Rightarrow> nat \<Rightarrow> mem \<Rightarrow> (ptr \<times> mem) option" where
  "memcpy dst src sz m = do {
     ASSERT (dst \<noteq> NULL \<or> sz = 0);
     ASSERT (src \<noteq> NULL \<or> sz = 0);
     Some (dst, copy_up sz dst src m) }"

text \<open>
  \<open>memmove\<close> returns its local variable \<open>dst\<close>: the loop that copies upwards leaves it
  past the end of the block, the one that copies downwards at its beginning.
\<close>

definition memmove :: "ptr \<Rightarrow> ptr \<Rightarrow> nat \<Rightarrow> mem \<Rightarrow> (ptr \<times> mem) option" where
  "memmove dst src sz m = do {
     ASSERT (dst \<noteq> NULL \<or> sz = 0);
     ASSERT (src \<noteq> NULL \<or> sz = 0);
     if dst < src then Some (dst + sz, copy_up sz dst src m)
     else Some (dst + sz - sz, copy_down sz (dst + sz) (src + sz) m) }"

fun memcmp_loop :: "ptr \<Rightarrow> ptr \<Rightarrow> nat \<Rightarrow> mem \<Rightarrow> int" where
  "memcmp_loop a b 0 m = 0"
| "memcmp_loop a b (Suc sz) m =
     (if m a \<noteq> m b then (if m b < m a then 1 else - 1) else memcmp_loop (a + 1) (b + 1) sz m)"

definition memcmp :: "ptr \<Rightarrow> ptr \<Rightarrow> nat \<Rightarrow> mem \<Rightarrow> int option" where
  "memcmp a b sz m = do {
     ASSERT (a \<noteq> NULL \<or> sz = 0);
     ASSERT (b \<noteq> NULL \<or> sz = 0);
     Some (memcmp_loop a b sz m) }"

fun memchr_loop :: "ptr \<Rightarrow> u8 \<Rightarrow> nat \<Rightarrow> mem \<Rightarrow> ptr" where
  "memchr_loop block ch 0 m = NULL"
| "memchr_loop block ch (Suc sz) m = (if m block = ch then block else memchr_loop (block + 1) ch sz m)"

definition memchr :: "ptr \<Rightarrow> u8 \<Rightarrow> nat \<Rightarrow> mem \<Rightarrow> ptr option" where
  "memchr block ch sz m = do { ASSERT (block \<noteq> NULL \<or> sz = 0); Some (memchr_loop block ch sz m) }"

fun memset_loop :: "ptr \<Rightarrow> u8 \<Rightarrow> nat \<Rightarrow> mem \<Rightarrow> mem" where
  "memset_loop dst value 0 m = m"
| "memset_loop dst value (Suc sz) m = memset_loop (dst + 1) value sz (m(dst := value))"

definition memset :: "ptr \<Rightarrow> u8 \<Rightarrow> nat \<Rightarrow> mem \<Rightarrow> (ptr \<times> mem) option" where
  "memset dst value sz m = do {
     ASSERT (dst \<noteq> NULL \<or> sz = 0);
     Some (dst, memset_loop dst value sz m) }"

section \<open>Strings\<close>

partial_function (option) strcmp_loop :: "ptr \<Rightarrow> ptr \<Rightarrow> mem \<Rightarrow> int option" where
  "strcmp_loop a b m =
     (if m a \<noteq> 0 \<and> m a = m b then strcmp_loop (a + 1) (b + 1) m
      else Some (if m a < m b then - 1 else if m b < m a then 1 else 0))"

definition strcmp :: "ptr \<Rightarrow> ptr \<Rightarrow> mem \<Rightarrow> int option" where
  "strcmp a b m = do { ASSERT (a \<noteq> NULL); ASSERT (b \<noteq> NULL); strcmp_loop a b m }"

partial_function (option) strchr_loop :: "ptr \<Rightarrow> u8 \<Rightarrow> mem \<Rightarrow> ptr option" where
  "strchr_loop string c m =
     (if m string = c then Some string else if m string = 0 then Some NULL else strchr_loop (string + 1) c m)"

definition strchr :: "ptr \<Rightarrow> u8 \<Rightarrow> mem \<Rightarrow> ptr option" where
  "strchr string c m = do { ASSERT (string \<noteq> NULL); strchr_loop string c m }"

partial_function (option) strcspn_loop :: "ptr \<Rightarrow> ptr \<Rightarrow> nat \<Rightarrow> mem \<Rightarrow> nat option" where
  "strcspn_loop string stop len m =
     (if m (string + len) = 0 then Some len
      else do {
        p \<leftarrow> strchr stop (m (string + len)) m;
        if p \<noteq> NULL then Some len else strcspn_loop string stop (len + 1) m })"

definition strcspn :: "ptr \<Rightarrow> ptr \<Rightarrow> mem \<Rightarrow> nat option" where
  "strcspn string stop m = strcspn_loop string stop 0 m"

partial_function (option) strpbrk :: "ptr \<Rightarrow> ptr \<Rightarrow> mem \<Rightarrow> ptr option" where
  "strpbrk string stop m =
     (if m string = 0 then Some NULL
      else do {
        p \<leftarrow> strchr stop (m string) m;
        if p \<noteq> NULL then Some string else strpbrk (string + 1) stop m })"

partial_function (option) strrchr_loop :: "ptr \<Rightarrow> u8 \<Rightarrow> ptr \<Rightarrow> mem \<Rightarrow> ptr option" where
  "strrchr_loop string c p m =
     (if m string = 0 then Some p else strrchr_loop (string + 1) c (if m string = c then string else p) m)"

definition strrchr :: "ptr \<Rightarrow> u8 \<Rightarrow> mem \<Rightarrow> ptr option" where
  "strrchr string c m = strrchr_loop string c NULL m"

partial_function (option) strspn_loop :: "ptr \<Rightarrow> ptr \<Rightarrow> nat \<Rightarrow> mem \<Rightarrow> nat option" where
  "strspn_loop string skip len m =
     (if m (string + len) = 0 then Some len
      else do {
        p \<leftarrow> strchr skip (m (string + len)) m;
        if p = NULL then Some len else strspn_loop string skip (len + 1) m })"

definition strspn :: "ptr \<Rightarrow> ptr \<Rightarrow> mem \<Rightarrow> nat option" where
  "strspn string skip m = strspn_loop string skip 0 m"

partial_function (option) strlen_loop :: "ptr \<Rightarrow> ptr \<Rightarrow> mem \<Rightarrow> nat option" where
  "strlen_loop string p m = (if m p = 0 then Some (p - string) else strlen_loop string (p + 1) m)"

definition strlen :: "ptr \<Rightarrow> mem \<Rightarrow> nat option" where
  "strlen string m = do { ASSERT (string \<noteq> NULL); strlen_loop string string m }"

function strnlen_loop :: "ptr \<Rightarrow> nat \<Rightarrow> nat \<Rightarrow> mem \<Rightarrow> nat" where
  "strnlen_loop string maxlen len m =
     (if m (string + len) \<noteq> 0 \<and> len < maxlen then strnlen_loop string maxlen (len + 1) m else len)"
  by auto
termination by (relation "measure (\<lambda>(s, maxlen, l, m). maxlen - l)") auto

declare strnlen_loop.simps [simp del]

definition strnlen :: "ptr \<Rightarrow> nat \<Rightarrow> mem \<Rightarrow> nat" where
  "strnlen string maxlen m = strnlen_loop string maxlen 0 m"

function strstr_loop :: "ptr \<Rightarrow> ptr \<Rightarrow> nat \<Rightarrow> nat \<Rightarrow> nat \<Rightarrow> mem \<Rightarrow> ptr option" where
  "strstr_loop haystack needle i bound needle_len m =
     (if i \<le> bound then do {
        c \<leftarrow> memcmp (haystack + i) needle needle_len m;
        if c = 0 then Some (haystack + i) else strstr_loop haystack needle (i + 1) bound needle_len m }
      else Some NULL)"
  by auto
termination by (relation "measure (\<lambda>(h, n, i, b, l, m). Suc b - i)") auto

declare strstr_loop.simps [simp del]

definition strstr :: "ptr \<Rightarrow> ptr \<Rightarrow> mem \<Rightarrow> ptr option" where
  "strstr haystack needle m = do {
     haystack_len \<leftarrow> strlen haystack m;
     needle_len \<leftarrow> strlen needle m;
     if needle_len \<le> haystack_len
     then strstr_loop haystack needle 0 (haystack_len - needle_len) needle_len m
     else Some NULL }"

section \<open>Tokens\<close>

text \<open>
  \<open>strtok_r\<close> with its two loops. The result is the token, the new value of
  \<open>*save_ptr\<close> and the memory.
\<close>

partial_function (option) skip_delimiters :: "ptr \<Rightarrow> ptr \<Rightarrow> mem \<Rightarrow> (ptr \<times> bool) option" where
  "skip_delimiters s delimiters m = do {
     p \<leftarrow> strchr delimiters (m s) m;
     if p \<noteq> NULL then (if m s = 0 then Some (s, True) else skip_delimiters (s + 1) delimiters m)
     else Some (s, False) }"

partial_function (option) skip_token :: "ptr \<Rightarrow> ptr \<Rightarrow> mem \<Rightarrow> ptr option" where
  "skip_token s delimiters m = do {
     p \<leftarrow> strchr delimiters (m s) m;
     if p = NULL then skip_token (s + 1) delimiters m else Some s }"

definition strtok_r :: "ptr \<Rightarrow> ptr \<Rightarrow> ptr \<Rightarrow> mem \<Rightarrow> (ptr \<times> ptr \<times> mem) option" where
  "strtok_r s delimiters save m = do {
     ASSERT (delimiters \<noteq> NULL);
     let s = (if s = NULL then save else s);
     ASSERT (s \<noteq> NULL);
     (s, fin) \<leftarrow> skip_delimiters s delimiters m;
     if fin then Some (NULL, s, m)
     else do {
       let token = s;
       s \<leftarrow> skip_token s delimiters m;
       if m s \<noteq> 0 then Some (token, s + 1, m(s := 0)) else Some (token, s, m) } }"

text \<open>The loop of the comment of \<open>strtok_r\<close>, collecting the tokens.\<close>

partial_function (option) strtok_all :: "ptr \<Rightarrow> ptr \<Rightarrow> ptr \<Rightarrow> mem \<Rightarrow> (ptr list \<times> mem) option" where
  "strtok_all s delimiters save m = do {
     (token, save, m) \<leftarrow> strtok_r s delimiters save m;
     if token = NULL then Some ([], m)
     else do {
       (tokens, m) \<leftarrow> strtok_all NULL delimiters save m;
       Some (token # tokens, m) } }"

section \<open>Bounded copies\<close>

definition strlcpy :: "ptr \<Rightarrow> ptr \<Rightarrow> nat \<Rightarrow> mem \<Rightarrow> (nat \<times> mem) option" where
  "strlcpy dst src sz m = do {
     ASSERT (dst \<noteq> NULL);
     ASSERT (src \<noteq> NULL);
     src_len \<leftarrow> strlen src m;
     if 0 < sz then do {
       let dst_len = (if src_len < sz - 1 then src_len else sz - 1);
       (p, m) \<leftarrow> memcpy dst src dst_len m;
       Some (src_len, m(dst + dst_len := 0)) }
     else Some (src_len, m) }"

definition strlcat :: "ptr \<Rightarrow> ptr \<Rightarrow> nat \<Rightarrow> mem \<Rightarrow> (nat \<times> mem) option" where
  "strlcat dst src sz m = do {
     ASSERT (dst \<noteq> NULL);
     ASSERT (src \<noteq> NULL);
     src_len \<leftarrow> strlen src m;
     dst_len \<leftarrow> strlen dst m;
     if 0 < sz \<and> dst_len < sz then do {
       let copy_cnt = (if src_len < sz - dst_len - 1 then src_len else sz - dst_len - 1);
       (p, m) \<leftarrow> memcpy (dst + dst_len) src copy_cnt m;
       Some (src_len + dst_len, m(dst + dst_len + copy_cnt := 0)) }
     else Some (src_len + dst_len, m) }"

section \<open>Blocks and strings in memory\<close>

definition bytes :: "mem \<Rightarrow> ptr \<Rightarrow> nat \<Rightarrow> u8 list" where
  "bytes m p n = map m [p..<p + n]"

text \<open>A string of length \<open>n\<close> at \<open>p\<close>: its first null byte.\<close>

definition cstr :: "mem \<Rightarrow> ptr \<Rightarrow> nat \<Rightarrow> bool" where
  "cstr m p n \<longleftrightarrow> p \<noteq> NULL \<and> m (p + n) = 0 \<and> (\<forall>i < n. m (p + i) \<noteq> 0)"

definition is_str :: "mem \<Rightarrow> ptr \<Rightarrow> u8 list \<Rightarrow> bool" where
  "is_str m p s \<longleftrightarrow> cstr m p (length s) \<and> bytes m p (length s) = s"

lemma copy_up_apply:
  "dst \<le> src \<or> src + sz \<le> dst \<Longrightarrow>
   copy_up sz dst src m a = (if dst \<le> a \<and> a < dst + sz then m (src + (a - dst)) else m a)"
proof (induction sz arbitrary: dst src m)
  case (Suc sz)
  have "copy_up (Suc sz) dst src m a = copy_up sz (dst + 1) (src + 1) (m(dst := m src)) a"
    by (simp only: copy_up.simps)
  also have "\<dots> = (if dst + 1 \<le> a \<and> a < dst + 1 + sz then (m(dst := m src)) (src + 1 + (a - (dst + 1))) else (m(dst := m src)) a)"
    by (rule Suc.IH) (use Suc.prems in auto)
  also have "\<dots> = (if dst \<le> a \<and> a < dst + Suc sz then m (src + (a - dst)) else m a)"
  proof (cases "dst + 1 \<le> a")
    case True
    then obtain d where "a = dst + Suc d" using le_Suc_ex [OF True] by auto
    then show ?thesis using Suc.prems by auto
  next
    case False
    then show ?thesis by (cases "a = dst") auto
  qed
  finally show ?case .
qed auto

lemma copy_down_apply:
  "src \<le> dst \<Longrightarrow> copy_down sz (dst + sz) (src + sz) m a =
     (if dst \<le> a \<and> a < dst + sz then m (src + (a - dst)) else m a)"
proof (induction sz arbitrary: m)
  case (Suc sz)
  have "copy_down (Suc sz) (dst + Suc sz) (src + Suc sz) m a =
      copy_down sz (dst + sz) (src + sz) (m(dst + sz := m (src + sz))) a" by simp
  also have "\<dots> = (if dst \<le> a \<and> a < dst + sz then (m(dst + sz := m (src + sz))) (src + (a - dst))
      else (m(dst + sz := m (src + sz))) a)" by (rule Suc.IH [OF Suc.prems])
  also have "\<dots> = (if dst \<le> a \<and> a < dst + Suc sz then m (src + (a - dst)) else m a)"
    using Suc.prems by (cases "a = dst + sz") auto
  finally show ?case .
qed auto

text \<open>
  C28. \<open>memmove\<close> moves the block whether or not the two overlap and changes no other
  byte. What it returns is \<open>dst\<close> only if it copies downwards: moving to a lower
  address, it returns the end of the block.
\<close>

theorem memmove_correct:
  assumes "dst \<noteq> NULL \<or> sz = 0" and "src \<noteq> NULL \<or> sz = 0"
  shows "\<exists>m'. memmove dst src sz m = Some (if dst < src then dst + sz else dst, m') \<and>
    bytes m' dst sz = bytes m src sz \<and> (\<forall>a. a < dst \<or> dst + sz \<le> a \<longrightarrow> m' a = m a)"
proof (cases "dst < src")
  case True
  then show ?thesis
    using assms copy_up_apply [of dst src sz m] by (auto simp: memmove_def bytes_def intro!: nth_equalityI)
next
  case False
  then show ?thesis
    using assms copy_down_apply [of src dst sz m] by (auto simp: memmove_def bytes_def intro!: nth_equalityI)
qed

theorem memmove_correct_witness:
  "\<exists>m'. memmove 2 1 3 (\<lambda>a. of_nat a) = Some (2, m') \<and> bytes m' 2 3 = bytes (\<lambda>a. of_nat a) 1 3"
  using memmove_correct [of 2 3 1 "\<lambda>a. of_nat a"] by auto

section \<open>Searching\<close>

lemma strlen_loop_eq:
  "(\<forall>i < n. m (p + i) \<noteq> 0) \<Longrightarrow> m (p + n) = 0 \<Longrightarrow> strlen_loop s p m = Some (p + n - s)"
proof (induction n arbitrary: p)
  case 0
  then show ?case by (simp add: strlen_loop.simps)
next
  case (Suc n)
  have "strlen_loop s (p + 1) m = Some (p + 1 + n - s)"
    by (rule Suc.IH) (use Suc.prems in auto)
  moreover have "m p \<noteq> 0" using Suc.prems(1) by (metis add.right_neutral zero_less_Suc)
  ultimately show ?case by (subst strlen_loop.simps) simp
qed

lemma strlen_eq: "cstr m p n \<Longrightarrow> strlen p m = Some n"
  using strlen_loop_eq [of n m p p] by (simp add: strlen_def cstr_def)

text \<open>The characters of the string at \<open>d\<close>; the null byte counts as one of them.\<close>

definition chars :: "mem \<Rightarrow> ptr \<Rightarrow> nat \<Rightarrow> u8 set" where
  "chars m d n = set (bytes m d n)"

lemma strchr_loop_eq:
  assumes "\<forall>i < n. m (p + i) \<noteq> 0" and "m (p + n) = 0" and "p \<noteq> NULL"
  shows "\<exists>r. strchr_loop p c m = Some r \<and> (r = NULL \<longleftrightarrow> c \<noteq> 0 \<and> c \<notin> chars m p n) \<and>
    (r \<noteq> NULL \<longrightarrow> p \<le> r \<and> r \<le> p + n \<and> m r = c \<and> (\<forall>a. p \<le> a \<and> a < r \<longrightarrow> m a \<noteq> c))"
  using assms
proof (induction n arbitrary: p)
  case 0
  then show ?case by (subst strchr_loop.simps) (auto simp: chars_def bytes_def)
next
  case (Suc n)
  have p0: "m p \<noteq> 0" using Suc.prems(1) by (metis add.right_neutral zero_less_Suc)
  have ch: "chars m p (Suc n) = insert (m p) (chars m (p + 1) n)"
    by (simp add: chars_def bytes_def upt_conv_Cons del: upt_Suc)
  show ?case
  proof (cases "m p = c")
    case True
    then show ?thesis using Suc.prems(3) p0 ch by (subst strchr_loop.simps) auto
  next
    case False
    have "\<exists>r. strchr_loop (p + 1) c m = Some r \<and> (r = NULL \<longleftrightarrow> c \<noteq> 0 \<and> c \<notin> chars m (p + 1) n) \<and>
        (r \<noteq> NULL \<longrightarrow> p + 1 \<le> r \<and> r \<le> p + 1 + n \<and> m r = c \<and> (\<forall>a. p + 1 \<le> a \<and> a < r \<longrightarrow> m a \<noteq> c))"
      by (rule Suc.IH) (use Suc.prems in auto)
    then obtain r where r: "strchr_loop (p + 1) c m = Some r" "r = NULL \<longleftrightarrow> c \<noteq> 0 \<and> c \<notin> chars m (p + 1) n"
      "r \<noteq> NULL \<longrightarrow> p + 1 \<le> r \<and> r \<le> p + 1 + n \<and> m r = c \<and> (\<forall>a. p + 1 \<le> a \<and> a < r \<longrightarrow> m a \<noteq> c)" by blast
    have "strchr_loop p c m = Some r" using False p0 r(1) by (subst strchr_loop.simps) simp
    moreover have "\<forall>a. p \<le> a \<and> a < r \<longrightarrow> m a \<noteq> c" if "r \<noteq> NULL"
      using r(3) that False by (metis Suc_eq_plus1 Suc_leI le_neq_implies_less)
    ultimately show ?thesis using r(2,3) False ch by auto
  qed
qed

lemma strchr_test:
  assumes "cstr m d n"
  shows "\<exists>r. strchr d c m = Some r \<and> (r = NULL \<longleftrightarrow> c \<noteq> 0 \<and> c \<notin> chars m d n)"
  using strchr_loop_eq [of n m d c] assms unfolding strchr_def cstr_def by auto

section \<open>The tokenizer\<close>

text \<open>The maximal runs of characters that are not delimiters.\<close>

function tokens :: "u8 set \<Rightarrow> u8 list \<Rightarrow> u8 list list" where
  "tokens D s = (let r = dropWhile (\<lambda>c. c \<in> D) s in
     if r = [] then [] else takeWhile (\<lambda>c. c \<notin> D) r # tokens D (dropWhile (\<lambda>c. c \<notin> D) r))"
  by auto
termination
proof (relation "measure (\<lambda>(D, s). length s)", goal_cases)
  case 1
  show ?case by simp
next
  case (2 D s r)
  then obtain c cs where r: "dropWhile (\<lambda>c. c \<in> D) s = c # cs" by (metis neq_Nil_conv)
  then have "c \<notin> D" by (metis hd_dropWhile list.sel(1) list.distinct(1))
  then have "length (dropWhile (\<lambda>c. c \<notin> D) (c # cs)) \<le> length cs" using length_dropWhile_le [of _ cs] by simp
  moreover have "length (c # cs) \<le> length s" using length_dropWhile_le [of "\<lambda>c. c \<in> D" s] r by simp
  ultimately show ?case using 2(1) r by simp
qed

declare tokens.simps [simp del]

lemma tokens_Cons_delim: "c \<in> D \<Longrightarrow> tokens D (c # s) = tokens D s"
  by (simp add: tokens.simps [of D "c # s"] tokens.simps [of D s])

lemma tokens_Nil [simp]: "tokens D [] = []"
  by (simp add: tokens.simps)

lemma is_str_Nil: "is_str m p [] \<longleftrightarrow> p \<noteq> NULL \<and> m p = 0"
  by (simp add: is_str_def cstr_def bytes_def)

lemma is_str_Cons: "is_str m p (c # s) \<longleftrightarrow> p \<noteq> NULL \<and> m p = c \<and> c \<noteq> 0 \<and> is_str m (p + 1) s"
proof -
  have b: "bytes m p (Suc n) = m p # bytes m (p + 1) n" for n
    by (simp add: bytes_def upt_conv_Cons del: upt_Suc)
  have a: "(\<forall>i < Suc n. m (p + i) \<noteq> 0) \<longleftrightarrow> m p \<noteq> 0 \<and> (\<forall>i < n. m (p + 1 + i) \<noteq> 0)" for n
    by (auto simp: less_Suc_eq_0_disj)
  show ?thesis unfolding is_str_def cstr_def by (auto simp: a b)
qed

lemma is_str_nonnull: "is_str m p s \<Longrightarrow> p \<noteq> NULL"
  by (simp add: is_str_def cstr_def)

lemma is_str_drop: "is_str m p (s @ t) \<Longrightarrow> is_str m (p + length s) t"
proof (induction s arbitrary: p)
  case (Cons c s)
  then show ?case using Cons.IH [of "p + 1"] by (simp add: is_str_Cons)
qed simp

lemma is_str_cong: "is_str m p s \<Longrightarrow> (\<And>a. p \<le> a \<Longrightarrow> a \<le> p + length s \<Longrightarrow> m' a = m a) \<Longrightarrow> is_str m' p s"
proof (induction s arbitrary: p)
  case (Cons c s)
  have "is_str m' (p + 1) s" by (rule Cons.IH) (use Cons.prems in \<open>auto simp: is_str_Cons\<close>)
  then show ?case using Cons.prems(1) Cons.prems(2) [of p] by (simp add: is_str_Cons)
qed (simp add: is_str_Nil)

lemma is_str_cut: "is_str m p (s @ t) \<Longrightarrow> is_str (m(p + length s := 0)) p s"
proof (induction s arbitrary: p)
  case Nil
  then show ?case using is_str_nonnull [of m p t] by (simp add: is_str_Nil)
next
  case (Cons c s)
  then show ?case using Cons.IH [of "p + 1"] by (simp add: is_str_Cons)
qed

lemma skip_delimiters_eq:
  assumes "cstr m d n" and "is_str m p s"
  shows "skip_delimiters p d m =
    Some (p + length (takeWhile (\<lambda>c. c \<in> chars m d n) s), dropWhile (\<lambda>c. c \<in> chars m d n) s = [])"
  using assms(2)
proof (induction s arbitrary: p)
  case Nil
  then show ?case
    using strchr_test [OF assms(1), of 0] by (subst skip_delimiters.simps) (auto simp: is_str_Nil)
next
  case (Cons c s)
  then have c: "m p = c" "c \<noteq> 0" "is_str m (p + 1) s" by (simp_all add: is_str_Cons)
  obtain r where r: "strchr d c m = Some r" "r = NULL \<longleftrightarrow> c \<notin> chars m d n"
    using strchr_test [OF assms(1), of c] c(2) by auto
  show ?case
    using r c Cons.IH [OF c(3)] by (subst skip_delimiters.simps) auto
qed

lemma skip_token_eq:
  assumes "cstr m d n" and "is_str m p s"
  shows "skip_token p d m = Some (p + length (takeWhile (\<lambda>c. c \<notin> chars m d n) s))"
  using assms(2)
proof (induction s arbitrary: p)
  case Nil
  then show ?case
    using strchr_test [OF assms(1), of 0] by (subst skip_token.simps) (auto simp: is_str_Nil)
next
  case (Cons c s)
  then have c: "m p = c" "c \<noteq> 0" "is_str m (p + 1) s" by (simp_all add: is_str_Cons)
  obtain r where r: "strchr d c m = Some r" "r = NULL \<longleftrightarrow> c \<notin> chars m d n"
    using strchr_test [OF assms(1), of c] c(2) by auto
  show ?case
    using r c Cons.IH [OF c(3)] by (subst skip_token.simps) auto
qed

text \<open>One call: no token is left, or the first token is cut off and the rest of the string saved.\<close>

lemma strtok_r_eq:
  assumes d: "cstr m d n" and s: "is_str m p s" and D: "D = chars m d n"
    and r: "r = dropWhile (\<lambda>c. c \<in> D) s" "w = takeWhile (\<lambda>c. c \<notin> D) r" "q = p + length (takeWhile (\<lambda>c. c \<in> D) s)"
  shows "strtok_r NULL d p m =
    (if r = [] then Some (NULL, q, m)
     else if w = r then Some (q, q + length w, m)
     else Some (q, q + length w + 1, m(q + length w := 0)))"
proof -
  have sp: "s = takeWhile (\<lambda>c. c \<in> D) s @ r" using r(1) by simp
  have sr: "is_str m q r" using is_str_drop [of m p "takeWhile (\<lambda>c. c \<in> D) s" r] s sp r(3) by simp
  have "is_str m (q + length w) (dropWhile (\<lambda>c. c \<notin> D) r)"
    using is_str_drop [of m q w "dropWhile (\<lambda>c. c \<notin> D) r"] sr r(2) by simp
  then have e: "m (q + length w) = 0 \<longleftrightarrow> w = r"
  proof (cases "dropWhile (\<lambda>c. c \<notin> D) r")
    case Nil
    then have "w = r" using r(2) takeWhile_dropWhile_id [of "\<lambda>c. c \<notin> D" r] by simp
    then show ?thesis using \<open>is_str m (q + length w) (dropWhile (\<lambda>c. c \<notin> D) r)\<close> Nil by (simp add: is_str_Nil)
  next
    case (Cons c cs)
    then have "w \<noteq> r" using r(2) takeWhile_dropWhile_id [of "\<lambda>c. c \<notin> D" r] by (metis append_self_conv list.distinct(1))
    then show ?thesis using \<open>is_str m (q + length w) (dropWhile (\<lambda>c. c \<notin> D) r)\<close> Cons by (simp add: is_str_Cons)
  qed
  have sk: "skip_delimiters p d m = Some (q, r = [])"
    using skip_delimiters_eq [OF d s] unfolding r(1,3) D .
  have st: "skip_token q d m = Some (q + length w)"
    using skip_token_eq [OF d sr] unfolding r(2) D .
  have "d \<noteq> NULL" "p \<noteq> NULL" using d is_str_nonnull [OF s] by (simp_all add: cstr_def)
  then show ?thesis using sk st e by (simp add: strtok_r_def Let_def)
qed

lemma chars_cong:
  "cstr m d n \<Longrightarrow> (\<And>a. d \<le> a \<Longrightarrow> a \<le> d + n \<Longrightarrow> m' a = m a) \<Longrightarrow> cstr m' d n \<and> chars m' d n = chars m d n"
  by (simp add: cstr_def chars_def bytes_def)

lemma tokens_split:
  assumes "r = dropWhile (\<lambda>c. c \<in> D) s" "w = takeWhile (\<lambda>c. c \<notin> D) r" "r \<noteq> []"
  obtains "w = r" "tokens D s = [w]" "w \<noteq> []"
  | c u where "r = w @ c # u" "c \<in> D" "tokens D s = w # tokens D u" "length u < length s"
proof -
  have t: "tokens D s = w # tokens D (dropWhile (\<lambda>c. c \<notin> D) r)"
    using assms by (subst tokens.simps) (simp add: Let_def del: dropWhile_eq_Nil_conv)
  have e: "r = w @ dropWhile (\<lambda>c. c \<notin> D) r" using assms(2) by simp
  have ls: "length r \<le> length s" using assms(1) length_dropWhile_le by metis
  show thesis
  proof (cases "dropWhile (\<lambda>c. c \<notin> D) r")
    case Nil
    then have "w = r" using e by (metis append_Nil2)
    then show thesis using that(1) t Nil assms(3) by (metis tokens_Nil)
  next
    case (Cons c u)
    then have "c \<in> D" using hd_dropWhile [of "\<lambda>c. c \<notin> D" r] by simp
    moreover have "length r = length w + Suc (length u)" using e Cons by (metis length_append length_Cons)
    then have "length u < length s" using ls by simp
    ultimately show thesis using that(2) e t Cons tokens_Cons_delim by metis
  qed
qed

lemma strtok_all_Nil: "cstr m d n \<Longrightarrow> is_str m p [] \<Longrightarrow> strtok_all NULL d p m = Some ([], m)"
  using strtok_r_eq [of m d n p "[]", OF _ _ refl refl refl refl] by (subst strtok_all.simps) simp

lemma strtok_all_rest:
  assumes "cstr m d n" and "is_str m p s" and "D = chars m d n" and "d + n < p \<or> p + length s < d"
  shows "\<exists>ts m'. strtok_all NULL d p m = Some (ts, m') \<and> list_all2 (is_str m') ts (tokens D s) \<and>
    (\<forall>a. a < p \<or> p + length s \<le> a \<longrightarrow> m' a = m a)"
  using assms
proof (induction "length s" arbitrary: s p m rule: less_induct)
  case less
  define r where "r = dropWhile (\<lambda>c. c \<in> D) s"
  define w where "w = takeWhile (\<lambda>c. c \<notin> D) r"
  define q where "q = p + length (takeWhile (\<lambda>c. c \<in> D) s)"
  note eq = strtok_r_eq [OF less.prems(1-3) r_def w_def q_def]
  have sp: "s = takeWhile (\<lambda>c. c \<in> D) s @ r" by (simp add: r_def)
  then have len: "q + length r = p + length s" unfolding q_def by (metis add.assoc length_append)
  have sr: "is_str m q r" unfolding q_def by (rule is_str_drop) (use less.prems(2) sp in simp)
  have q0: "q \<noteq> NULL" by (rule is_str_nonnull [OF sr])
  show ?case
  proof (cases "r = []")
    case True
    then have "tokens D s = []" by (subst tokens.simps) (simp add: Let_def r_def del: dropWhile_eq_Nil_conv)
    then show ?thesis using True eq by (subst strtok_all.simps) simp
  next
    case False
    from r_def w_def False show ?thesis
    proof (cases rule: tokens_split)
      case 1
      have e: "is_str m (q + length w) []" using is_str_drop [of m q w "[]"] sr 1(1) by simp
      show ?thesis
        using eq False 1 q0 strtok_all_Nil [OF less.prems(1) e] sr by (subst strtok_all.simps) simp
    next
      case (2 c u)
      let ?m = "m(q + length w := 0)" and ?p = "q + length w + 1"
      have ne: "w \<noteq> r" using 2(1) by simp
      have lr: "?p + length u = p + length s" using len 2(1) by simp
      have dj: "d + n < p \<or> p + length s < d" by (rule less.prems(4))
      have pq: "p \<le> q" by (simp add: q_def)
      have cd: "cstr ?m d n \<and> chars ?m d n = chars m d n"
        by (rule chars_cong [OF less.prems(1)]) (use dj lr pq in auto)
      have su: "is_str ?m ?p u"
      proof (rule is_str_cong)
        show "is_str m ?p u" using is_str_drop [of m q "w @ [c]" u] sr 2(1) by simp
      qed auto
      have "\<exists>ts m'. strtok_all NULL d ?p ?m = Some (ts, m') \<and> list_all2 (is_str m') ts (tokens D u) \<and>
          (\<forall>a. a < ?p \<or> ?p + length u \<le> a \<longrightarrow> m' a = ?m a)"
        by (rule less.hyps [OF 2(4) _ su]) (use cd less.prems(3) dj lr pq in auto)
      then obtain ts m' where m': "strtok_all NULL d ?p ?m = Some (ts, m')" "list_all2 (is_str m') ts (tokens D u)"
        "\<And>a. a < ?p \<or> ?p + length u \<le> a \<Longrightarrow> m' a = ?m a" by blast
      have "is_str m' q w"
        by (rule is_str_cong [OF is_str_cut [of m q w "c # u"]]) (use sr 2(1) m'(3) in auto)
      moreover have "m' a = m a" if "a < p \<or> p + length s \<le> a" for a
        using m'(3) [of a] that lr pq by auto
      moreover have "strtok_all NULL d p m = Some (q # ts, m')"
        using eq False ne q0 m'(1) by (subst strtok_all.simps) simp
      ultimately show ?thesis using m'(2) 2(3) by auto
    qed
  qed
qed

text \<open>
  C27. Calling \<open>strtok_r\<close> until it returns a null pointer yields, in order, exactly the
  maximal runs of characters of the string that are not delimiters, each of them a
  null-terminated string in the final memory, and changes nothing outside the string.
\<close>

theorem strtok_r_tokenizes:
  assumes "cstr m d n" and "is_str m p s" and "d + n < p \<or> p + length s < d"
  shows "\<exists>ts m'. strtok_all p d save m = Some (ts, m') \<and> list_all2 (is_str m') ts (tokens (chars m d n) s) \<and>
    (\<forall>a. a < p \<or> p + length s \<le> a \<longrightarrow> m' a = m a)"
proof -
  have "strtok_r p d save m = strtok_r NULL d p m"
    using is_str_nonnull [OF assms(2)] by (simp add: strtok_r_def)
  then have "strtok_all p d save m = strtok_all NULL d p m"
    by (subst (1 2) strtok_all.simps) simp
  then show ?thesis using strtok_all_rest [OF assms(1,2) refl assms(3)] by simp
qed

theorem strtok_r_tokenizes_witness:
  "let m = (\<lambda>_. 0)(2 := 32, 10 := 97, 11 := 98, 12 := 32, 13 := 32, 14 := 99) in
   \<exists>ts m'. strtok_all 10 2 0 m = Some (ts, m') \<and> list_all2 (is_str m') ts [[97, 98], [99]]"
proof -
  let ?m = "(\<lambda>_. 0)(2 := 32, 10 := 97, 11 := 98, 12 := 32, 13 := 32, 14 := 99) :: mem"
  have "cstr ?m 2 1" by (simp add: cstr_def)
  moreover have "is_str ?m 10 [97, 98, 32, 32, 99]" by (simp add: is_str_Cons is_str_Nil)
  moreover have "chars ?m 2 1 = {32}" by (simp add: chars_def bytes_def)
  moreover have "tokens {32 :: u8} [97, 98, 32, 32, 99] = [[97, 98], [99]]" by (simp add: tokens.simps)
  ultimately show ?thesis using strtok_r_tokenizes [of ?m 2 1 10 "[97, 98, 32, 32, 99]" 0] by (simp add: Let_def) blast
qed

section \<open>Comparing\<close>

lemma bytes_Suc: "bytes m p (Suc n) = m p # bytes m (p + 1) n"
  by (simp add: bytes_def upt_conv_Cons del: upt_Suc)

lemma memcmp_loop_eq:
  "memcmp_loop a b n m =
     (if bytes m a n = bytes m b n then 0 else if bytes m a n < bytes m b n then - 1 else 1)"
proof (induction a b n m rule: memcmp_loop.induct)
  case (2 a b n m)
  then show ?case by (auto simp: bytes_Suc simp del: bytes_def)
qed (simp add: bytes_def)

lemma strcmp_loop_eq:
  "is_str m a s \<Longrightarrow> is_str m b t \<Longrightarrow>
   strcmp_loop a b m = Some (if s = t then 0 else if s < t then - 1 else 1)"
proof (induction s arbitrary: a b t)
  case Nil
  note P = Nil.prems
  show ?case
  proof (cases t)
    case Nil
    then show ?thesis using P by (subst strcmp_loop.simps) (auto simp: is_str_Nil)
  next
    case (Cons c u)
    then have e: "m b = c" "c \<noteq> 0" "m a = 0" using P by (auto simp: is_str_Cons is_str_Nil)
    then have "0 < c" by (simp add: word_neq_0_conv)
    then show ?thesis using Cons e by (subst strcmp_loop.simps) auto
  qed
next
  case (Cons c s)
  note IH = Cons.IH and a = Cons.prems(1) [unfolded is_str_Cons] and P = Cons.prems(2)
  show ?case
  proof (cases t)
    case Nil
    then have "m b = 0" using P by (simp add: is_str_Nil)
    moreover have "0 < c" using a by (simp add: word_neq_0_conv)
    ultimately show ?thesis using a Nil by (subst strcmp_loop.simps) auto
  next
    case (Cons e u)
    then have b: "m b = e" "e \<noteq> 0" "is_str m (b + 1) u" using P by (simp_all add: is_str_Cons)
    then show ?thesis using a Cons IH [of "a + 1" "b + 1" u] by (subst strcmp_loop.simps) auto
  qed
qed

text \<open>
  C29. \<open>strcmp\<close> compares two strings in the lexicographic order of their bytes.
\<close>

theorem strcmp_lexicographic:
  assumes "is_str m a s" and "is_str m b t"
  shows "strcmp a b m = Some (if s = t then 0 else if s < t then - 1 else 1)"
  using strcmp_loop_eq [OF assms] is_str_nonnull [OF assms(1)] is_str_nonnull [OF assms(2)]
  by (simp add: strcmp_def)

theorem strcmp_lexicographic_witness:
  "strcmp 10 20 ((\<lambda>_. 0)(10 := 97, 11 := 200, 20 := 97, 21 := 98)) = Some 1"
proof -
  let ?m = "(\<lambda>_. 0)(10 := 97, 11 := 200, 20 := 97, 21 := 98) :: mem"
  have "is_str ?m 10 [97, 200]" "is_str ?m 20 [97, 98]" by (simp_all add: is_str_Cons is_str_Nil)
  from strcmp_lexicographic [OF this] show ?thesis by simp
qed

section \<open>Bounded copies\<close>

lemma bytes_take: "n \<le> k \<Longrightarrow> bytes m p n = take n (bytes m p k)"
  by (simp add: bytes_def take_map)

lemma is_str_bytes: "is_str m p s \<Longrightarrow> k \<le> length s \<Longrightarrow> bytes m p k = take k s"
  using bytes_take [of k "length s" m p] by (simp add: is_str_def)

lemma is_str_iff: "is_str m p s \<longleftrightarrow> p \<noteq> NULL \<and> m (p + length s) = 0 \<and> 0 \<notin> set s \<and> bytes m p (length s) = s"
proof -
  have "(\<forall>i < length s. m (p + i) \<noteq> 0) \<longleftrightarrow> 0 \<notin> set s" if "bytes m p (length s) = s"
  proof -
    have "s ! i = m (p + i)" if "i < length s" for i
      using \<open>bytes m p (length s) = s\<close> that by (metis add_diff_cancel_left' bytes_def length_map length_upt nth_map nth_upt add_less_cancel_left)
    then show ?thesis by (metis in_set_conv_nth)
  qed
  then show ?thesis by (auto simp: is_str_def cstr_def)
qed

text \<open>
  C30. \<open>strlcpy\<close> into a buffer of \<open>sz > 0\<close> bytes that does not overlap the source leaves
  there the first \<open>sz - 1\<close> characters of the source as a null-terminated string, writes
  nothing outside the buffer and returns the length of the source.
\<close>

theorem strlcpy_bounded:
  assumes "is_str m src s" and "dst \<noteq> NULL" and "0 < sz"
    and "dst + sz \<le> src \<or> src + length s < dst"
  shows "\<exists>m'. strlcpy dst src sz m = Some (length s, m') \<and> is_str m' dst (take (sz - 1) s) \<and>
    (\<forall>a. a < dst \<or> dst + sz \<le> a \<longrightarrow> m' a = m a)"
proof -
  define k where "k = (if length s < sz - 1 then length s else sz - 1)"
  have k: "k \<le> length s" "k < sz" "take (sz - 1) s = take k s" "length (take k s) = k" using assms(3) by (auto simp: k_def)
  have ap: "copy_up k dst src m a = (if dst \<le> a \<and> a < dst + k then m (src + (a - dst)) else m a)" for a
    by (rule copy_up_apply) (use assms(4) k in auto)
  let ?m = "(copy_up k dst src m)(dst + k := 0)"
  have "bytes ?m dst k = bytes m src k" by (rule nth_equalityI) (auto simp: bytes_def ap)
  then have "bytes ?m dst k = take k s" using is_str_bytes [OF assms(1) k(1)] by simp
  moreover have "0 \<notin> set (take k s)" using assms(1) by (auto simp: is_str_iff dest: in_set_takeD)
  ultimately have "is_str ?m dst (take (sz - 1) s)" using assms(2) k(3,4) by (simp add: is_str_iff)
  moreover have "strlcpy dst src sz m = Some (length s, ?m)"
    using strlen_eq [of m src "length s"] assms is_str_nonnull [OF assms(1)]
    by (simp add: strlcpy_def is_str_def memcpy_def Let_def k_def)
  moreover have "?m a = m a" if "a < dst \<or> dst + sz \<le> a" for a using that k(2) by (auto simp: ap)
  ultimately show ?thesis by blast
qed

theorem strlcpy_bounded_witness:
  "\<exists>m'. strlcpy 50 10 3 ((\<lambda>_. 0)(10 := 97, 11 := 98, 12 := 99)) = Some (3, m') \<and> is_str m' 50 [97, 98]"
proof -
  let ?m = "(\<lambda>_. 0)(10 := 97, 11 := 98, 12 := 99) :: mem"
  have s: "is_str ?m 10 [97, 98, 99]" by (simp add: is_str_Cons is_str_Nil)
  obtain m' where "strlcpy 50 10 3 ?m = Some (length [97, 98, 99 :: u8], m')" "is_str m' 50 (take (3 - 1) [97, 98, 99])"
    using strlcpy_bounded [OF s, of 50 3] by auto
  then show ?thesis by auto
qed

end
