(* ===== verification/Stdlib.thy ===== *)
theory Stdlib
  imports Strings
begin

text \<open>
  \<^verbatim>\<open>lib/stdlib.c\<close>: number conversion, heap sort and binary search.

  Arrays are blocks of memory with elements of \<open>sz\<close> bytes; a comparison function is a
  parameter that sees the bytes of its two elements. The theorems say that \<open>sort\<close>
  sorts and permutes the elements, that \<open>binary_search\<close> terminates and finds an
  element if there is one, and that \<open>atoi\<close> converts every number that fits.
\<close>

section \<open>The code\<close>

definition isspace :: "u8 \<Rightarrow> bool" where
  "isspace c \<longleftrightarrow> c = 32 \<or> c = 12 \<or> c = 10 \<or> c = 13 \<or> c = 9 \<or> c = 11"

definition isdigit :: "u8 \<Rightarrow> bool" where
  "isdigit c \<longleftrightarrow> 48 \<le> c \<and> c \<le> 57"

partial_function (option) skip_space :: "ptr \<Rightarrow> mem \<Rightarrow> ptr option" where
  "skip_space s m = (if isspace (m s) then skip_space (s + 1) m else Some s)"

partial_function (option) atoi_digits :: "ptr \<Rightarrow> u32 \<Rightarrow> mem \<Rightarrow> u32 option" where
  "atoi_digits s value m =
     (if isdigit (m s) then atoi_digits (s + 1) (value * 10 - (ucast (m s) - 48)) m else Some value)"

definition atoi :: "ptr \<Rightarrow> mem \<Rightarrow> u32 option" where
  "atoi s m = do {
     ASSERT (s \<noteq> NULL);
     s \<leftarrow> skip_space s m;
     let negative = (m s = 45);
     let s = (if m s = 43 \<or> m s = 45 then s + 1 else s);
     value \<leftarrow> atoi_digits s 0 m;
     Some (if negative then value else - value) }"

type_synonym compare = "u8 list \<Rightarrow> u8 list \<Rightarrow> int"

function swap_loop :: "ptr \<Rightarrow> ptr \<Rightarrow> nat \<Rightarrow> nat \<Rightarrow> mem \<Rightarrow> mem" where
  "swap_loop a b i sz m =
     (if i < sz then swap_loop a b (i + 1) sz (m(a + i := m (b + i), b + i := m (a + i))) else m)"
  by auto
termination by (relation "measure (\<lambda>(a, b, i, sz, m). sz - i)") auto

declare swap_loop.simps [simp del]

definition do_swap :: "ptr \<Rightarrow> nat \<Rightarrow> nat \<Rightarrow> nat \<Rightarrow> mem \<Rightarrow> mem" where
  "do_swap array a_idx b_idx sz m =
     swap_loop (array + size_mul (size_sub a_idx 1) sz) (array + size_mul (size_sub b_idx 1) sz) 0 sz m"

definition do_compare :: "ptr \<Rightarrow> nat \<Rightarrow> nat \<Rightarrow> nat \<Rightarrow> compare \<Rightarrow> mem \<Rightarrow> int" where
  "do_compare array a_idx b_idx sz compare m =
     compare (bytes m (array + size_mul (size_sub a_idx 1) sz) sz) (bytes m (array + size_mul (size_sub b_idx 1) sz) sz)"

definition max_child :: "ptr \<Rightarrow> nat \<Rightarrow> nat \<Rightarrow> nat \<Rightarrow> compare \<Rightarrow> mem \<Rightarrow> nat" where
  "max_child array i cnt sz compare m =
     (let left = size_mul 2 i; right = size_add (size_mul 2 i) 1; max = i;
          max = (if left \<le> cnt \<and> 0 < do_compare array left max sz compare m then left else max)
      in if right \<le> cnt \<and> 0 < do_compare array right max sz compare m then right else max)"

text \<open>The index of a child wraps around in a very large array, and the loop need not end.\<close>

partial_function (option) heapify :: "ptr \<Rightarrow> nat \<Rightarrow> nat \<Rightarrow> nat \<Rightarrow> compare \<Rightarrow> mem \<Rightarrow> mem option" where
  "heapify array i cnt sz compare m =
     (let max = max_child array i cnt sz compare m
      in if max = i then Some m else heapify array max cnt sz compare (do_swap array i max sz m))"

fun build_heap :: "ptr \<Rightarrow> nat \<Rightarrow> nat \<Rightarrow> nat \<Rightarrow> compare \<Rightarrow> mem \<Rightarrow> mem option" where
  "build_heap array 0 cnt sz compare m = Some m"
| "build_heap array (Suc i) cnt sz compare m = do {
     m \<leftarrow> heapify array (Suc i) cnt sz compare m;
     build_heap array i cnt sz compare m }"

fun sort_heap :: "ptr \<Rightarrow> nat \<Rightarrow> nat \<Rightarrow> compare \<Rightarrow> mem \<Rightarrow> mem option" where
  "sort_heap array 0 sz compare m = Some m"
| "sort_heap array (Suc 0) sz compare m = Some m"
| "sort_heap array (Suc (Suc i)) sz compare m = do {
     m \<leftarrow> heapify array 1 (Suc i) sz compare (do_swap array 1 (Suc (Suc i)) sz m);
     sort_heap array (Suc i) sz compare m }"

definition sort_array :: "ptr \<Rightarrow> nat \<Rightarrow> nat \<Rightarrow> compare \<Rightarrow> mem \<Rightarrow> mem option" where
  "sort_array array cnt sz compare m = do {
     ASSERT (array \<noteq> NULL \<or> cnt = 0);
     ASSERT (0 < sz);
     m \<leftarrow> build_heap array (cnt div 2) cnt sz compare m;
     sort_heap array cnt sz compare m }"

definition qsort :: "ptr \<Rightarrow> nat \<Rightarrow> nat \<Rightarrow> compare \<Rightarrow> mem \<Rightarrow> mem option" where
  "qsort array cnt sz compare m = sort_array array cnt sz compare m"

partial_function (option) search_loop :: "u8 list \<Rightarrow> ptr \<Rightarrow> ptr \<Rightarrow> nat \<Rightarrow> compare \<Rightarrow> mem \<Rightarrow> ptr option" where
  "search_loop key first end sz compare m =
     (if first < end then do {
        ASSERT (sz \<noteq> 0);
        let middle = first + ((end - first) div sz div 2) * sz;
        let cmp = compare key (bytes m middle sz);
        if cmp < 0 then search_loop key first middle sz compare m
        else if 0 < cmp then search_loop key (middle + sz) end sz compare m
        else Some middle }
      else Some NULL)"

definition binary_search :: "u8 list \<Rightarrow> ptr \<Rightarrow> nat \<Rightarrow> nat \<Rightarrow> compare \<Rightarrow> mem \<Rightarrow> ptr option" where
  "binary_search key array cnt sz compare m = search_loop key array (array + sz * cnt) sz compare m"

definition bsearch :: "u8 list \<Rightarrow> ptr \<Rightarrow> nat \<Rightarrow> nat \<Rightarrow> compare \<Rightarrow> mem \<Rightarrow> ptr option" where
  "bsearch key array cnt sz compare m = binary_search key array cnt sz compare m"

section \<open>Heap sort without wrap-around\<close>

text \<open>The same functions on indices that do not wrap around.\<close>

definition do_swap_nat :: "ptr \<Rightarrow> nat \<Rightarrow> nat \<Rightarrow> nat \<Rightarrow> mem \<Rightarrow> mem" where
  "do_swap_nat array a_idx b_idx sz m = swap_loop (array + (a_idx - 1) * sz) (array + (b_idx - 1) * sz) 0 sz m"

definition do_compare_nat :: "ptr \<Rightarrow> nat \<Rightarrow> nat \<Rightarrow> nat \<Rightarrow> compare \<Rightarrow> mem \<Rightarrow> int" where
  "do_compare_nat array a_idx b_idx sz compare m =
     compare (bytes m (array + (a_idx - 1) * sz) sz) (bytes m (array + (b_idx - 1) * sz) sz)"

definition max_child_nat :: "ptr \<Rightarrow> nat \<Rightarrow> nat \<Rightarrow> nat \<Rightarrow> compare \<Rightarrow> mem \<Rightarrow> nat" where
  "max_child_nat array i cnt sz compare m =
     (let left = 2 * i; right = 2 * i + 1; max = i;
          max = (if left \<le> cnt \<and> 0 < do_compare_nat array left max sz compare m then left else max)
      in if right \<le> cnt \<and> 0 < do_compare_nat array right max sz compare m then right else max)"

function heapify_nat :: "ptr \<Rightarrow> nat \<Rightarrow> nat \<Rightarrow> nat \<Rightarrow> compare \<Rightarrow> mem \<Rightarrow> mem" where
  "heapify_nat array i cnt sz compare m =
     (let max = max_child_nat array i cnt sz compare m
      in if max = i then m else heapify_nat array max cnt sz compare (do_swap_nat array i max sz m))"
  by auto
termination
  by (relation "measure (\<lambda>(array, i, cnt, sz, compare, m). cnt - i)") (auto simp: max_child_nat_def Let_def split: if_splits)

declare heapify_nat.simps [simp del]

fun build_heap_nat :: "ptr \<Rightarrow> nat \<Rightarrow> nat \<Rightarrow> nat \<Rightarrow> compare \<Rightarrow> mem \<Rightarrow> mem" where
  "build_heap_nat array 0 cnt sz compare m = m"
| "build_heap_nat array (Suc i) cnt sz compare m =
     build_heap_nat array i cnt sz compare (heapify_nat array (Suc i) cnt sz compare m)"

fun sort_heap_nat :: "ptr \<Rightarrow> nat \<Rightarrow> nat \<Rightarrow> compare \<Rightarrow> mem \<Rightarrow> mem" where
  "sort_heap_nat array 0 sz compare m = m"
| "sort_heap_nat array (Suc 0) sz compare m = m"
| "sort_heap_nat array (Suc (Suc i)) sz compare m =
     sort_heap_nat array (Suc i) sz compare (heapify_nat array 1 (Suc i) sz compare (do_swap_nat array 1 (Suc (Suc i)) sz m))"

section \<open>Elements\<close>

text \<open>The element with 1-based index \<open>i\<close>.\<close>

definition elt :: "ptr \<Rightarrow> nat \<Rightarrow> mem \<Rightarrow> nat \<Rightarrow> u8 list" where
  "elt array sz m i = bytes m (array + (i - 1) * sz) sz"

definition elts :: "ptr \<Rightarrow> nat \<Rightarrow> nat \<Rightarrow> mem \<Rightarrow> u8 list list" where
  "elts array cnt sz m = map (elt array sz m) [1..<Suc cnt]"

lemma swap_loop_same: "swap_loop a a i sz m = m"
proof (induction "sz - i" arbitrary: i)
  case 0
  then show ?case by (subst swap_loop.simps) simp
next
  case (Suc d)
  then show ?case using Suc.hyps(1) [of "i + 1"] by (subst swap_loop.simps) simp
qed

lemma swap_loop_apply:
  assumes dj: "\<And>j k. j < sz \<Longrightarrow> k < sz \<Longrightarrow> a + j \<noteq> b + k"
  shows "j < sz \<Longrightarrow> swap_loop a b i sz m (a + j) = (if i \<le> j then m (b + j) else m (a + j))"
    and "j < sz \<Longrightarrow> swap_loop a b i sz m (b + j) = (if i \<le> j then m (a + j) else m (b + j))"
    and "(\<And>j. j < sz \<Longrightarrow> x \<noteq> a + j \<and> x \<noteq> b + j) \<Longrightarrow> swap_loop a b i sz m x = m x"
proof -
  let ?s = "\<lambda>i m. m(a + i := m (b + i), b + i := m (a + i))"
  have st: "swap_loop a b i sz m = (if i < sz then swap_loop a b (i + 1) sz (?s i m) else m)" for i m
    by (rule swap_loop.simps)
  have sw: "?s i m (a + j) = (if j = i then m (b + i) else m (a + j))"
    "?s i m (b + j) = (if j = i then m (a + i) else m (b + j))" if "i < sz" "j < sz" for i j m
    using dj [of j i] dj [of i j] dj [of i i] that by auto
  have "j < sz \<longrightarrow> swap_loop a b i sz m (a + j) = (if i \<le> j then m (b + j) else m (a + j)) \<and>
      swap_loop a b i sz m (b + j) = (if i \<le> j then m (a + j) else m (b + j))" for j
  proof (induction "sz - i" arbitrary: i m)
    case 0
    then show ?case by (subst (1 2) st) auto
  next
    case (Suc d)
    then have i: "i < sz" by simp
    define m1 where "m1 = ?s i m"
    have s1: "swap_loop a b i sz m = swap_loop a b (i + 1) sz m1" using i by (subst st) (simp add: m1_def)
    have v: "m1 (a + j) = (if j = i then m (b + i) else m (a + j))" "m1 (b + j) = (if j = i then m (a + i) else m (b + j))"
      if "j < sz" using sw [OF i that, of m] by (simp_all only: m1_def)
    have IH: "j < sz \<longrightarrow> swap_loop a b (i + 1) sz m1 (a + j) = (if i + 1 \<le> j then m1 (b + j) else m1 (a + j)) \<and>
        swap_loop a b (i + 1) sz m1 (b + j) = (if i + 1 \<le> j then m1 (a + j) else m1 (b + j))"
      by (rule Suc.hyps(1)) (use Suc.hyps(2) in simp)
    have "i \<le> j \<longleftrightarrow> j = i \<or> i + 1 \<le> j" "i + 1 \<le> j \<longrightarrow> j \<noteq> i" by auto
    then show ?case using IH v unfolding s1 by (cases "j = i") auto
  qed
  then show "j < sz \<Longrightarrow> swap_loop a b i sz m (a + j) = (if i \<le> j then m (b + j) else m (a + j))"
    "j < sz \<Longrightarrow> swap_loop a b i sz m (b + j) = (if i \<le> j then m (a + j) else m (b + j))" by blast+
  show "swap_loop a b i sz m x = m x" if "\<And>j. j < sz \<Longrightarrow> x \<noteq> a + j \<and> x \<noteq> b + j"
  proof (induction "sz - i" arbitrary: i m)
    case 0
    then show ?case by (subst st) auto
  next
    case (Suc d)
    then have i: "i < sz" by simp
    then have "?s i m x = m x" using that [of i] by simp
    then show ?case using Suc.hyps(1) [of "i + 1" "?s i m"] Suc.hyps(2) i by (subst st) simp
  qed
qed

lemma bytes_nth: "j < n \<Longrightarrow> bytes m p n ! j = m (p + j)"
  by (simp add: bytes_def)

lemma length_bytes [simp]: "length (bytes m p n) = n"
  by (simp add: bytes_def)

lemma block_disjoint:
  fixes array sz p q j k :: nat
  assumes "p \<noteq> q" and "1 \<le> p" and "1 \<le> q" and "j < sz" and "k < sz"
  shows "array + (p - 1) * sz + j \<noteq> array + (q - 1) * sz + k"
proof
  assume "array + (p - 1) * sz + j = array + (q - 1) * sz + k"
  then have "((p - 1) * sz + j) div sz = ((q - 1) * sz + k) div sz" by simp
  then show False using assms by simp
qed

lemma elt_swap:
  assumes "1 \<le> p" and "1 \<le> q" and "1 \<le> k"
  shows "elt array sz (do_swap_nat array p q sz m) k =
    (if k = p then elt array sz m q else if k = q then elt array sz m p else elt array sz m k)"
proof (cases "p = q")
  case True
  then show ?thesis by (simp add: do_swap_nat_def swap_loop_same)
next
  case False
  let ?a = "array + (p - 1) * sz" and ?b = "array + (q - 1) * sz" and ?c = "array + (k - 1) * sz"
  note sw = swap_loop_apply [of sz ?a ?b, OF block_disjoint [OF False assms(1,2)]]
  have out: "?c + j \<noteq> ?a + i \<and> ?c + j \<noteq> ?b + i" if "k \<noteq> p" "k \<noteq> q" "j < sz" "i < sz" for i j
    using block_disjoint [OF that(1) assms(3,1)] block_disjoint [OF that(2) assms(3,2)] that by blast
  show ?thesis
    using sw(1,2) [of _ 0 m] sw(3) [of "?c + _" 0 m] out
    by (auto simp: elt_def do_swap_nat_def bytes_nth intro!: nth_equalityI)
qed

lemma swap_frame:
  assumes "1 \<le> p" and "p \<le> cnt" and "1 \<le> q" and "q \<le> cnt" and "x < array \<or> array + cnt * sz \<le> x"
  shows "do_swap_nat array p q sz m x = m x"
proof (cases "p = q")
  case True
  then show ?thesis by (simp add: do_swap_nat_def swap_loop_same)
next
  case False
  have "x \<noteq> array + (r - 1) * sz + j" if "1 \<le> r" "r \<le> cnt" "j < sz" for r j
  proof -
    have "(r - 1) * sz + j < r * sz" using that by (cases r) auto
    also have "\<dots> \<le> cnt * sz" using that by simp
    finally show ?thesis using assms(5) by auto
  qed
  then show ?thesis
    using swap_loop_apply(3) [of sz "array + (p - 1) * sz" "array + (q - 1) * sz" x 0 m, OF block_disjoint [OF False assms(1,3)]] assms
    by (simp add: do_swap_nat_def)
qed

lemma mset_swap_view:
  assumes "1 \<le> p" and "p \<le> n" and "1 \<le> q" and "q \<le> n"
    and "\<And>k. 1 \<le> k \<Longrightarrow> g k = (if k = p then f q else if k = q then f p else f k)"
  shows "mset (map g [1..<Suc n]) = mset (map f [1..<Suc n])"
proof -
  let ?l = "map f [1..<Suc n]"
  have "map g [1..<Suc n] = ?l[q - 1 := ?l ! (p - 1), p - 1 := ?l ! (q - 1)]"
    using assms by (intro nth_equalityI) (auto simp: nth_list_update simp del: upt_Suc)
  then show ?thesis using mset_swap [of "p - 1" ?l "q - 1"] assms by (simp del: upt_Suc)
qed

section \<open>Heaps\<close>

text \<open>The contract of a comparison function: a total preorder with \<open>strcmp\<close>-like results.\<close>

definition cmp_ok :: "('a \<Rightarrow> 'a \<Rightarrow> int) \<Rightarrow> bool" where
  "cmp_ok cmp \<longleftrightarrow> (\<forall>a b. 0 < cmp a b \<longleftrightarrow> cmp b a < 0) \<and> (\<forall>a b c. cmp a b \<le> 0 \<longrightarrow> cmp b c \<le> 0 \<longrightarrow> cmp a c \<le> 0)"

lemma cmp_ok_total: "cmp_ok cmp \<Longrightarrow> cmp a b \<le> 0 \<or> cmp b a \<le> 0"
  unfolding cmp_ok_def by (metis linorder_not_less order.strict_implies_order)

lemma cmp_ok_less: "cmp_ok cmp \<Longrightarrow> 0 < cmp a b \<Longrightarrow> cmp b a \<le> 0"
  unfolding cmp_ok_def by auto

lemma cmp_ok_trans: "cmp_ok cmp \<Longrightarrow> cmp a b \<le> 0 \<Longrightarrow> cmp b c \<le> 0 \<Longrightarrow> cmp a c \<le> 0"
  unfolding cmp_ok_def by blast

lemma cmp_ok_refl: "cmp_ok cmp \<Longrightarrow> cmp a a \<le> 0"
  using cmp_ok_total [of cmp a a] by simp

definition heap_at :: "('a \<Rightarrow> 'a \<Rightarrow> int) \<Rightarrow> (nat \<Rightarrow> 'a) \<Rightarrow> nat \<Rightarrow> nat \<Rightarrow> bool" where
  "heap_at cmp f n j \<longleftrightarrow> (\<forall>c. c = 2 * j \<or> c = 2 * j + 1 \<longrightarrow> c \<le> n \<longrightarrow> cmp (f c) (f j) \<le> 0)"

lemma heap_root:
  assumes c: "cmp_ok cmp" and h: "\<And>j. 1 \<le> j \<Longrightarrow> heap_at cmp f n j" and k: "1 \<le> k" "k \<le> n"
  shows "cmp (f k) (f 1) \<le> 0"
  using k
proof (induction k rule: less_induct)
  case (less k)
  show ?case
  proof (cases "k = 1")
    case True
    then show ?thesis using cmp_ok_refl [OF c] by simp
  next
    case False
    then have d: "1 \<le> k div 2" "k div 2 < k" "k div 2 \<le> n" "k = 2 * (k div 2) \<or> k = 2 * (k div 2) + 1" using less.prems by auto
    have "cmp (f k) (f (k div 2)) \<le> 0" using h [OF d(1)] d(4) less.prems(2) unfolding heap_at_def by blast
    then show ?thesis using less.IH [OF d(2,1,3)] cmp_ok_trans [OF c] by blast
  qed
qed

lemma max_child_nat_cases:
  fixes f m array sz
  assumes c: "cmp_ok cmp" and f: "f = elt array sz m" and i: "1 \<le> i" and mx: "mx = max_child_nat array i n sz cmp m"
  obtains "mx = i" "heap_at cmp f n i"
  | "mx = 2 * i \<or> mx = 2 * i + 1" "mx \<le> n" "cmp (f i) (f mx) \<le> 0"
    "\<And>d. d = 2 * i \<or> d = 2 * i + 1 \<Longrightarrow> d \<le> n \<Longrightarrow> cmp (f d) (f mx) \<le> 0"
proof -
  define l where "l = (if 2 * i \<le> n \<and> 0 < cmp (f (2 * i)) (f i) then 2 * i else i)"
  have mx': "mx = (if 2 * i + 1 \<le> n \<and> 0 < cmp (f (2 * i + 1)) (f l) then 2 * i + 1 else l)"
    unfolding mx max_child_nat_def do_compare_nat_def f l_def elt_def Let_def by simp
  have li: "cmp (f i) (f l) \<le> 0" using cmp_ok_refl [OF c] cmp_ok_less [OF c] by (auto simp: l_def)
  have ll: "2 * i \<le> n \<Longrightarrow> cmp (f (2 * i)) (f l) \<le> 0" using cmp_ok_refl [OF c] by (auto simp: l_def)
  have lm: "cmp (f l) (f mx) \<le> 0" using cmp_ok_refl [OF c] cmp_ok_less [OF c] by (auto simp: mx')
  have rm: "2 * i + 1 \<le> n \<Longrightarrow> cmp (f (2 * i + 1)) (f mx) \<le> 0" using cmp_ok_refl [OF c] by (auto simp: mx')
  note tr = cmp_ok_trans [OF c]
  have ch: "cmp (f d) (f mx) \<le> 0" if "d = 2 * i \<or> d = 2 * i + 1" "d \<le> n" for d
    using that tr [OF ll lm] rm by auto
  have im: "cmp (f i) (f mx) \<le> 0" by (rule tr [OF li lm])
  show thesis
  proof (cases "mx = i")
    case True
    then have "heap_at cmp f n i" using ch unfolding heap_at_def by blast
    then show thesis using that(1) True by blast
  next
    case False
    have "mx = 2 * i \<or> mx = 2 * i + 1" "mx \<le> n" using False by (auto simp: mx' l_def split: if_splits)
    then show thesis using that(2) im ch by blast
  qed
qed

text \<open>
  Floating an element down: if the heap property holds from \<open>i0\<close> on except at \<open>i\<close>,
  whose children are not greater than its parent, it holds everywhere from \<open>i0\<close> on
  afterwards.
\<close>

lemma heapify_nat_ok:
  assumes c: "cmp_ok cmp" and i: "1 \<le> i0" "i0 \<le> i"
    and h: "\<And>j. i0 \<le> j \<Longrightarrow> j \<noteq> i \<Longrightarrow> heap_at cmp (elt array sz m) n j"
    and p: "\<And>d. i0 < i \<Longrightarrow> d = 2 * i \<or> d = 2 * i + 1 \<Longrightarrow> d \<le> n \<Longrightarrow> cmp (elt array sz m d) (elt array sz m (i div 2)) \<le> 0"
  shows "\<forall>j \<ge> i0. heap_at cmp (elt array sz (heapify_nat array i n sz cmp m)) n j"
  using c i h p
proof (induction array i n sz cmp m rule: heapify_nat.induct)
  case (1 array i n sz cmp m)
  note c = 1(2) and i0 = 1(3,4) and h = 1(5) and p = 1(6)
  let ?f = "elt array sz m"
  define mx where "mx = max_child_nat array i n sz cmp m"
  have i1: "1 \<le> i" using i0 by simp
  show ?case
  proof (rule max_child_nat_cases [OF c refl i1 mx_def])
    assume "mx = i" "heap_at cmp ?f n i"
    then show ?thesis using h by (subst heapify_nat.simps) (metis mx_def)
  next
    assume mx: "mx = 2 * i \<or> mx = 2 * i + 1" "mx \<le> n" "cmp (?f i) (?f mx) \<le> 0"
      "\<And>d. d = 2 * i \<or> d = 2 * i + 1 \<Longrightarrow> d \<le> n \<Longrightarrow> cmp (?f d) (?f mx) \<le> 0"
    let ?m = "do_swap_nat array i mx sz m"
    let ?g = "elt array sz ?m"
    have ne: "mx \<noteq> i" "mx div 2 = i" "1 \<le> mx" "i0 \<le> mx" "i < mx" using mx(1) i1 i0 by auto
    have g: "?g k = (if k = i then ?f mx else if k = mx then ?f i else ?f k)" if "1 \<le> k" for k
      by (rule elt_swap [OF i1 ne(3) that])
    have h': "heap_at cmp ?g n j" if j: "i0 \<le> j" "j \<noteq> mx" for j
      unfolding heap_at_def
    proof (intro allI impI)
      fix d assume d: "d = 2 * j \<or> d = 2 * j + 1" "d \<le> n"
      have j1: "1 \<le> j" "1 \<le> d" "j < d" using j i0 d by auto
      show "cmp (?g d) (?g j) \<le> 0"
      proof (cases "j = i")
        case True
        then show ?thesis using mx(3) mx(4) [of d] d j1 ne by (simp add: g)
      next
        case False
        then have dm: "d \<noteq> mx" using d(1) ne(2) by auto
        have fj: "cmp (?f d) (?f j) \<le> 0" using h [OF j(1) False] d unfolding heap_at_def by blast
        have "cmp (?f mx) (?f j) \<le> 0" if "d = i"
        proof -
          have "i div 2 = j" "i0 < i" using that d(1) j j1 by auto
          then show ?thesis using p [OF _ mx(1,2)] by simp
        qed
        then show ?thesis using False fj dm j(2) j1 by (simp add: g)
      qed
    qed
    have "\<forall>j \<ge> i0. heap_at cmp (elt array sz (heapify_nat array mx n sz cmp ?m)) n j"
    proof (rule 1(1) [OF mx_def _ c i0(1) ne(4) h'])
      fix d assume d: "d = 2 * mx \<or> d = 2 * mx + 1" "d \<le> n"
      have "cmp (?f d) (?f mx) \<le> 0" using h [OF ne(4,1)] d unfolding heap_at_def by blast
      moreover have "1 \<le> d" "d \<noteq> i" "d \<noteq> mx" using d ne by auto
      ultimately show "cmp (?g d) (?g (mx div 2)) \<le> 0" using ne i1 by (simp add: g)
    qed (use ne in auto)
    moreover have "heapify_nat array i n sz cmp m = heapify_nat array mx n sz cmp ?m"
      using ne(1) by (subst heapify_nat.simps) (simp add: mx_def Let_def)
    ultimately show ?thesis by simp
  qed
qed

text \<open>What \<open>heapify_nat\<close> leaves alone.\<close>

lemma heapify_nat_frame:
  assumes "1 \<le> i" and "n \<le> cnt"
  shows "mset (map (elt array sz (heapify_nat array i n sz cmp m)) [1..<Suc n]) = mset (map (elt array sz m) [1..<Suc n]) \<and>
    (\<forall>k > n. elt array sz (heapify_nat array i n sz cmp m) k = elt array sz m k) \<and>
    (\<forall>x. x < array \<or> array + cnt * sz \<le> x \<longrightarrow> heapify_nat array i n sz cmp m x = m x)"
  using assms
proof (induction array i n sz cmp m rule: heapify_nat.induct)
  case (1 array i n sz cmp m)
  define mx where "mx = max_child_nat array i n sz cmp m"
  let ?m = "do_swap_nat array i mx sz m"
  show ?case
  proof (cases "mx = i")
    case True
    then have "heapify_nat array i n sz cmp m = m" by (subst heapify_nat.simps) (simp add: mx_def Let_def)
    then show ?thesis by simp
  next
    case False
    then have mx: "mx \<le> n" "i < mx" using 1(2)
      by (auto simp: mx_def max_child_nat_def Let_def split: if_splits)
    have e: "heapify_nat array i n sz cmp m = heapify_nat array mx n sz cmp ?m"
      using False by (subst heapify_nat.simps) (simp add: mx_def Let_def)
    have s: "elt array sz ?m k = (if k = i then elt array sz m mx else if k = mx then elt array sz m i else elt array sz m k)"
      if "1 \<le> k" for k using elt_swap [of i mx k array sz m] 1(2) mx that by simp
    have "mset (map (elt array sz ?m) [1..<Suc n]) = mset (map (elt array sz m) [1..<Suc n])"
      by (rule mset_swap_view [of i n mx]) (use 1(2) mx s in auto)
    moreover have "\<forall>k > n. elt array sz ?m k = elt array sz m k" using s mx by auto
    moreover have "\<forall>x. x < array \<or> array + cnt * sz \<le> x \<longrightarrow> ?m x = m x"
      using swap_frame [of i cnt mx] 1(2,3) mx by auto
    ultimately show ?thesis using 1(1) [OF mx_def False] 1(3) mx unfolding e by auto
  qed
qed

lemma build_heap_nat_ok:
  assumes "cmp_ok cmp" and "\<And>j. i < j \<Longrightarrow> heap_at cmp (elt array sz m) n j" and "n \<le> cnt"
  shows "(\<forall>j \<ge> 1. heap_at cmp (elt array sz (build_heap_nat array i n sz cmp m)) n j) \<and>
    mset (map (elt array sz (build_heap_nat array i n sz cmp m)) [1..<Suc n]) = mset (map (elt array sz m) [1..<Suc n]) \<and>
    (\<forall>x. x < array \<or> array + cnt * sz \<le> x \<longrightarrow> build_heap_nat array i n sz cmp m x = m x)"
  using assms
proof (induction array i n sz cmp m rule: build_heap_nat.induct)
  case (2 array i n sz cmp m)
  let ?m = "heapify_nat array (Suc i) n sz cmp m"
  have "\<forall>j \<ge> Suc i. heap_at cmp (elt array sz ?m) n j"
    by (rule heapify_nat_ok [OF 2(2)]) (use 2(3) in auto)
  then have "(\<forall>j \<ge> 1. heap_at cmp (elt array sz (build_heap_nat array i n sz cmp ?m)) n j) \<and>
    mset (map (elt array sz (build_heap_nat array i n sz cmp ?m)) [1..<Suc n]) = mset (map (elt array sz ?m) [1..<Suc n]) \<and>
    (\<forall>x. x < array \<or> array + cnt * sz \<le> x \<longrightarrow> build_heap_nat array i n sz cmp ?m x = ?m x)"
    using 2 by auto
  then show ?case using heapify_nat_frame [of "Suc i" n cnt array sz cmp m] 2(4) by auto
qed auto

lemma sort_heap_nat_ok:
  assumes "cmp_ok cmp" and "\<forall>j \<ge> 1. heap_at cmp (elt array sz m) n j" and "n \<le> cnt"
  shows "(\<forall>i j. 1 \<le> i \<longrightarrow> i \<le> j \<longrightarrow> j \<le> n \<longrightarrow>
      cmp (elt array sz (sort_heap_nat array n sz cmp m) i) (elt array sz (sort_heap_nat array n sz cmp m) j) \<le> 0) \<and>
    mset (map (elt array sz (sort_heap_nat array n sz cmp m)) [1..<Suc n]) = mset (map (elt array sz m) [1..<Suc n]) \<and>
    (\<forall>k > n. elt array sz (sort_heap_nat array n sz cmp m) k = elt array sz m k) \<and>
    (\<forall>x. x < array \<or> array + cnt * sz \<le> x \<longrightarrow> sort_heap_nat array n sz cmp m x = m x)"
  using assms
proof (induction array n sz cmp m rule: sort_heap_nat.induct)
  case (2 array sz cmp m)
  have "cmp (elt array sz m i) (elt array sz m j) \<le> 0" if "1 \<le> i" "i \<le> j" "j \<le> Suc 0" for i j
  proof -
    from that have "i = 1" "j = 1" by simp_all
    then show ?thesis by (simp only: cmp_ok_refl [OF 2(1)])
  qed
  then show ?case by simp
next
  case (3 array n sz cmp m)
  let ?n = "Suc (Suc n)" and ?f = "elt array sz m"
  let ?m1 = "do_swap_nat array 1 ?n sz m"
  let ?m2 = "heapify_nat array 1 (Suc n) sz cmp ?m1"
  let ?m3 = "sort_heap_nat array (Suc n) sz cmp ?m2"
  have s1: "elt array sz ?m1 k = (if k = 1 then ?f ?n else if k = ?n then ?f 1 else ?f k)" if "1 \<le> k" for k
    using elt_swap [of 1 ?n k array sz m] that by simp
  have "heap_at cmp (elt array sz ?m1) (Suc n) j" if "1 \<le> j" "j \<noteq> 1" for j
    using 3(3) that s1 unfolding heap_at_def by auto
  then have h2: "\<forall>j \<ge> 1. heap_at cmp (elt array sz ?m2) (Suc n) j" by (intro heapify_nat_ok [OF 3(2)]) auto
  note fr = heapify_nat_frame [of 1 "Suc n" cnt array sz cmp ?m1]
  note IH = 3(1) [OF 3(2) h2]
  have last: "elt array sz ?m3 ?n = ?f 1" using IH fr 3(4) s1 [of ?n] by simp
  have p1: "mset (map (elt array sz ?m1) [1..<Suc ?n]) = mset (map ?f [1..<Suc ?n])"
    by (rule mset_swap_view [of 1 ?n ?n]) (use s1 in auto)
  have p3: "mset (map (elt array sz ?m3) [1..<Suc (Suc n)]) = mset (map (elt array sz ?m1) [1..<Suc (Suc n)])"
    using IH fr 3(4) by simp
  have le: "cmp (elt array sz ?m3 k) (?f 1) \<le> 0" if "1 \<le> k" "k \<le> Suc n" for k
  proof -
    have "elt array sz ?m3 k \<in># mset (map (elt array sz ?m3) [1..<Suc (Suc n)])" using that by (simp del: upt_Suc)
    then have "elt array sz ?m3 k \<in> set (map (elt array sz ?m1) [1..<Suc (Suc n)])" using p3 by (simp only: set_mset_mset)
    then obtain j where j: "1 \<le> j" "j \<le> Suc n" "elt array sz ?m3 k = elt array sz ?m1 j" by (auto simp del: upt_Suc)
    then obtain j' where "1 \<le> j'" "j' \<le> ?n" "elt array sz ?m3 k = ?f j'" using s1 [of j] by (cases "j = 1") auto
    then show ?thesis using heap_root [OF 3(2), of ?f ?n j'] 3(3) by simp
  qed
  have srt: "cmp (elt array sz ?m3 i) (elt array sz ?m3 j) \<le> 0" if "1 \<le> i" "i \<le> j" "j \<le> ?n" for i j
  proof (cases "j = ?n")
    case True
    then show ?thesis using last le [of i] cmp_ok_refl [OF 3(2)] that by (cases "i = ?n") auto
  next
    case False
    then show ?thesis using IH 3(4) that by auto
  qed
  have up: "[1..<Suc ?n] = [1..<Suc (Suc n)] @ [?n]" by simp
  have "mset (map (elt array sz ?m3) [1..<Suc ?n]) = mset (map (elt array sz ?m1) [1..<Suc ?n])"
    unfolding up using p3 last s1 [of ?n] by (simp del: upt_Suc)
  then have perm: "mset (map (elt array sz ?m3) [1..<Suc ?n]) = mset (map ?f [1..<Suc ?n])" using p1 by simp
  have out: "elt array sz ?m3 k = ?f k" if "?n < k" for k using IH fr 3(4) s1 [of k] that by simp
  have "?m3 x = m x" if "x < array \<or> array + cnt * sz \<le> x" for x
  proof -
    have c: "Suc n \<le> cnt" "1 \<le> cnt" "1 \<le> ?n" "?n \<le> cnt" using 3(4) by simp_all
    have "?m3 x = ?m2 x" using IH [OF c(1), THEN conjunct2, THEN conjunct2, THEN conjunct2] that by blast
    also have "\<dots> = ?m1 x" using fr [OF order_refl c(1), THEN conjunct2, THEN conjunct2] that by blast
    also have "\<dots> = m x" by (rule swap_frame [OF order_refl c(2,3,4) that])
    finally show ?thesis .
  qed
  then show ?case using srt perm out by simp
qed auto

lemma sorted_elts:
  "sorted_wrt R (map f [1..<Suc n]) \<longleftrightarrow> (\<forall>i j. 1 \<le> i \<longrightarrow> i < j \<longrightarrow> j \<le> n \<longrightarrow> R (f i) (f j))"
proof -
  have "sorted_wrt R (map f [1..<Suc n]) \<longleftrightarrow> (\<forall>i j. i < j \<longrightarrow> j < n \<longrightarrow> R (f (Suc i)) (f (Suc j)))"
    by (auto simp: sorted_wrt_iff_nth_less simp del: upt_Suc)
  also have "\<dots> \<longleftrightarrow> (\<forall>i j. 1 \<le> i \<longrightarrow> i < j \<longrightarrow> j \<le> n \<longrightarrow> R (f i) (f j))"
    by (metis Suc_le_D Suc_le_eq Suc_less_eq One_nat_def less_eq_Suc_le zero_less_Suc)
  finally show ?thesis .
qed

text \<open>In an array of moderate size no index wraps around.\<close>

lemma elem_offset:
  assumes "1 \<le> i" and "i \<le> cnt" and "cnt < 2 ^ 32" and "cnt * sz < 2 ^ 32"
  shows "size_mul (size_sub i 1) sz = (i - 1) * sz"
proof -
  have s: "size_sub i 1 = i - 1" by (rule size_sub_id) (use assms(1-3) in simp_all)
  have "(i - 1) * sz \<le> cnt * sz" using assms(2) by (intro mult_right_mono) simp_all
  then have "(i - 1) * sz < 2 ^ 32" using assms(4) by (rule le_less_trans)
  then show ?thesis unfolding s by (rule size_mul_id)
qed

lemma heapify_eq:
  assumes "1 \<le> i" and "i \<le> cnt" and "n \<le> cnt" and "2 * cnt + 1 < 2 ^ 32" and "cnt * sz < 2 ^ 32"
  shows "heapify array i n sz cmp m = Some (heapify_nat array i n sz cmp m)"
  using assms
proof (induction array i n sz cmp m rule: heapify_nat.induct)
  case (1 array i n sz cmp m)
  have c: "cnt < 2 ^ 32" using 1(5) by simp
  note off = elem_offset [OF _ _ c 1(6)]
  have ch: "size_mul 2 i = 2 * i" "size_add (2 * i) 1 = 2 * i + 1" using 1(3,5) by (simp_all add: size_mul_id size_add_id)
  have cmp: "do_compare array p q sz cmp m = do_compare_nat array p q sz cmp m" if "1 \<le> p" "p \<le> cnt" "1 \<le> q" "q \<le> cnt" for p q
    using off [of p] off [of q] that by (simp add: do_compare_def do_compare_nat_def)
  have mx: "max_child array i n sz cmp m = max_child_nat array i n sz cmp m"
    using 1(2-4) cmp unfolding max_child_def max_child_nat_def ch by (auto simp: Let_def)
  define x where "x = max_child_nat array i n sz cmp m"
  show ?case
  proof (cases "x = i")
    case True
    then show ?thesis using mx by (subst heapify.simps, subst heapify_nat.simps) (simp add: x_def)
  next
    case False
    then have x: "1 \<le> x" "x \<le> cnt" using 1(2,4) by (auto simp: x_def max_child_nat_def Let_def split: if_splits)
    have sw: "do_swap array i x sz m = do_swap_nat array i x sz m"
      using off [of i] off [of x] 1(2,3) x by (simp add: do_swap_def do_swap_nat_def)
    have "heapify array x n sz cmp (do_swap_nat array i x sz m) = Some (heapify_nat array x n sz cmp (do_swap_nat array i x sz m))"
      by (rule 1(1) [OF x_def False x 1(4-6)])
    then show ?thesis using mx False sw by (subst heapify.simps, subst heapify_nat.simps) (simp add: x_def Let_def)
  qed
qed

lemma build_heap_eq:
  assumes "i \<le> cnt" and "2 * cnt + 1 < 2 ^ 32" and "cnt * sz < 2 ^ 32"
  shows "build_heap array i cnt sz cmp m = Some (build_heap_nat array i cnt sz cmp m)"
  using assms by (induction i arbitrary: m) (simp_all add: heapify_eq [where cnt = cnt])

lemma sort_heap_eq:
  assumes "n \<le> cnt" and "2 * cnt + 1 < 2 ^ 32" and "cnt * sz < 2 ^ 32"
  shows "sort_heap array n sz cmp m = Some (sort_heap_nat array n sz cmp m)"
  using assms
proof (induction array n sz cmp m rule: sort_heap_nat.induct)
  case (3 array n sz cmp m)
  have c: "cnt < 2 ^ 32" "1 \<le> cnt" using 3(2,3) by simp_all
  have "do_swap array 1 (Suc (Suc n)) sz m = do_swap_nat array 1 (Suc (Suc n)) sz m"
    using elem_offset [OF _ _ c(1) 3(4), of 1] elem_offset [OF _ _ c(1) 3(4), of "Suc (Suc n)"] 3(2) c(2)
    by (simp add: do_swap_def do_swap_nat_def)
  then show ?case using 3 heapify_eq [OF _ c(2) _ 3(3,4)] by simp
qed simp_all

text \<open>
  C31. \<open>sort\<close> with a consistent comparison function sorts the array in place: it ends, the
  elements are a permutation of the original ones, in non-decreasing order, and no byte
  outside the array changes. The array has at most 2147483647 elements and less than
  4294967296 bytes, so that no index and no offset wraps around.
\<close>

theorem sort_correct:
  assumes "array \<noteq> NULL \<or> cnt = 0" and "0 < sz" and "cmp_ok compare"
    and "2 * cnt + 1 < 2 ^ 32" and "cnt * sz < 2 ^ 32"
  shows "\<exists>m'. sort_array array cnt sz compare m = Some m' \<and>
    mset (elts array cnt sz m') = mset (elts array cnt sz m) \<and>
    sorted_wrt (\<lambda>a b. compare a b \<le> 0) (elts array cnt sz m') \<and>
    (\<forall>x. x < array \<or> array + cnt * sz \<le> x \<longrightarrow> m' x = m x)"
proof -
  let ?m1 = "build_heap_nat array (cnt div 2) cnt sz compare m"
  let ?m2 = "sort_heap_nat array cnt sz compare ?m1"
  have "heap_at compare (elt array sz m) cnt j" if "cnt div 2 < j" for j using that by (auto simp: heap_at_def)
  note b = build_heap_nat_ok [where i = "cnt div 2", OF assms(3) this order_refl]
  note s = sort_heap_nat_ok [OF assms(3) conjunct1 [OF b] order_refl]
  have "sort_array array cnt sz compare m = Some ?m2" 
    using assms(1,2) build_heap_eq [of "cnt div 2" cnt, OF _ assms(4,5)] sort_heap_eq [OF order_refl assms(4,5)]
    by (auto simp: sort_array_def)
  moreover have "mset (elts array cnt sz ?m2) = mset (elts array cnt sz m)" using s b unfolding elts_def by (metis (no_types))
  moreover have "sorted_wrt (\<lambda>a b. compare a b \<le> 0) (elts array cnt sz ?m2)"
    using s unfolding elts_def sorted_elts by (meson less_imp_le)
  moreover have "\<forall>x. x < array \<or> array + cnt * sz \<le> x \<longrightarrow> ?m2 x = m x" using s b by (metis (no_types))
  ultimately show ?thesis by blast
qed

theorem sort_correct_witness:
  "\<exists>m'. sort_array 4096 3 1 (\<lambda>a b. uint (hd a) - uint (hd b)) ((\<lambda>_. 0)(4096 := 3, 4097 := 1, 4098 := 2)) = Some m' \<and>
    mset (elts 4096 3 1 m') = {#[1], [2], [3]#} \<and>
    sorted_wrt (\<lambda>a b. uint (hd a) - uint (hd b) \<le> 0) (elts 4096 3 1 m') \<and> m' 5000 = 0"
proof -
  let ?m = "(\<lambda>_. 0)(4096 := 3, 4097 := 1, 4098 := 2) :: mem"
  have c: "cmp_ok (\<lambda>a b. uint (hd a :: u8) - uint (hd b))" by (auto simp: cmp_ok_def)
  have "elts 4096 3 1 ?m = [[3], [1], [2]]" by (simp add: elts_def elt_def bytes_def upt_rec)
  then show ?thesis using sort_correct [OF _ _ c, of 4096 3 1 ?m] by (force simp: add_mset_commute)
qed

section \<open>Binary search\<close>

lemma cmp_ok_below:
  assumes "cmp_ok cmp" and "cmp a b \<le> 0" and "cmp k a < 0" shows "cmp k b < 0"
proof (rule ccontr)
  have flip: "0 < cmp x y \<longleftrightarrow> cmp y x < 0" for x y using assms(1) by (simp add: cmp_ok_def)
  assume "\<not> cmp k b < 0"
  then have "cmp b k \<le> 0" using flip [of b k] by linarith
  then have "cmp a k \<le> 0" by (rule cmp_ok_trans [OF assms(1,2)])
  then show False using flip [of a k] assms(3) by linarith
qed

lemma cmp_ok_above:
  assumes "cmp_ok cmp" and "cmp a b \<le> 0" and "0 < cmp k b" shows "0 < cmp k a"
proof (rule ccontr)
  assume "\<not> 0 < cmp k a"
  then have "cmp k b \<le> 0" by (intro cmp_ok_trans [OF assms(1) _ assms(2)]) simp
  then show False using assms(3) by simp
qed

lemma search_loop_ok:
  assumes "cmp_ok compare" and "0 < array" and "0 < sz"
    and srt: "\<And>i j. i \<le> j \<Longrightarrow> j < cnt \<Longrightarrow> compare (bytes m (array + i * sz) sz) (bytes m (array + j * sz) sz) \<le> 0"
    and "lo \<le> hi" and "hi \<le> cnt"
    and "\<And>i. i < lo \<Longrightarrow> 0 < compare key (bytes m (array + i * sz) sz)"
    and "\<And>i. hi \<le> i \<Longrightarrow> i < cnt \<Longrightarrow> compare key (bytes m (array + i * sz) sz) < 0"
  shows "\<exists>p. search_loop key (array + lo * sz) (array + hi * sz) sz compare m = Some p \<and>
    (if p = NULL then \<forall>i < cnt. compare key (bytes m (array + i * sz) sz) \<noteq> 0
     else \<exists>i < cnt. p = array + i * sz \<and> compare key (bytes m p sz) = 0)"
  using assms(5-)
proof (induction "hi - lo" arbitrary: lo hi rule: less_induct)
  case less
  let ?e = "\<lambda>i. bytes m (array + i * sz) sz"
  show ?case
  proof (cases "lo < hi")
    case False
    have "compare key (?e i) \<noteq> 0" if "i < cnt" for i
      using less(4) [of i] less(5) [of i] that False by (cases "i < lo") auto
    then show ?thesis using False less(2) by (subst search_loop.simps) auto
  next
    case True
    define mid where "mid = lo + (hi - lo) div 2"
    have mid: "lo \<le> mid" "mid < hi" "array + lo * sz + (array + hi * sz - (array + lo * sz)) div sz div 2 * sz = array + mid * sz"
      using True assms(3) by (auto simp: mid_def diff_mult_distrib [symmetric] distrib_right)
    have neg: "compare key (?e i) < 0" if "compare key (?e mid) < 0" "mid \<le> i" "i < cnt" for i
      by (rule cmp_ok_below [OF assms(1) srt [OF that(2,3)] that(1)])
    have pos: "0 < compare key (?e i)" if "0 < compare key (?e mid)" "i \<le> mid" for i
      by (rule cmp_ok_above [OF assms(1) srt [OF that(2)] that(1)]) (use mid(2) less(3) in simp)
    have st: "search_loop key (array + lo * sz) (array + hi * sz) sz compare m =
      (if compare key (?e mid) < 0 then search_loop key (array + lo * sz) (array + mid * sz) sz compare m
       else if 0 < compare key (?e mid) then search_loop key (array + Suc mid * sz) (array + hi * sz) sz compare m
       else Some (array + mid * sz))"
      using True assms(3) mid(3) by (subst search_loop.simps) (simp add: Let_def algebra_simps)
    consider "compare key (?e mid) < 0" | "0 < compare key (?e mid)" | "compare key (?e mid) = 0" by linarith
    then show ?thesis
    proof cases
      case 1
      then show ?thesis using less(1) [of mid lo] mid neg less(2-4) unfolding st by simp
    next
      case 2
      then have n: "\<not> compare key (?e mid) < 0" by simp
      show ?thesis unfolding st if_not_P [OF n] if_P [OF 2]
        by (rule less(1)) (use 2 mid pos less(3,5) in auto)
    next
      case 3
      then show ?thesis using mid less(3) assms(2) unfolding st by (auto intro!: exI [of _ mid])
    qed
  qed
qed

text \<open>
  C32. On an array that is sorted by a consistent comparison function, \<open>binary_search\<close>
  always returns: with the address of an element that compares equal to the key, or with
  a null pointer, and then no element of the array compares equal to the key.
\<close>

theorem binary_search_correct:
  assumes "cmp_ok compare" and "array \<noteq> NULL" and "0 < sz"
    and "sorted_wrt (\<lambda>a b. compare a b \<le> 0) (elts array cnt sz m)"
  shows "\<exists>p. binary_search key array cnt sz compare m = Some p \<and>
    (if p = NULL then \<forall>e \<in> set (elts array cnt sz m). compare key e \<noteq> 0
     else \<exists>i < cnt. p = array + i * sz \<and> compare key (bytes m p sz) = 0)"
proof -
  have srt: "compare (bytes m (array + i * sz) sz) (bytes m (array + j * sz) sz) \<le> 0" if "i \<le> j" "j < cnt" for i j
  proof (cases "i = j")
    case False
    then show ?thesis using assms(4) [unfolded elts_def sorted_elts, rule_format, of "Suc i" "Suc j"] that
      by (simp add: elt_def)
  qed (simp add: cmp_ok_refl [OF assms(1)])
  have s: "set (elts array cnt sz m) = (\<lambda>i. bytes m (array + i * sz) sz) ` {..<cnt}"
    unfolding elts_def elt_def map_add_upt [of 1 cnt, symmetric] by (simp add: map_Suc_upt image_Suc_atLeastLessThan [symmetric] image_image atLeast0LessThan del: upt_Suc)
  show ?thesis
    using search_loop_ok [where lo = 0 and hi = cnt and cnt = cnt and key = key, OF assms(1) _ assms(3) srt] assms(2)
    unfolding s binary_search_def by (simp add: mult.commute lessThan_def cong: if_cong)
qed

theorem binary_search_correct_witness:
  "\<exists>p. binary_search [7] 4096 3 1 (\<lambda>a b. uint (hd a) - uint (hd b)) ((\<lambda>_. 0)(4096 := 3, 4097 := 5, 4098 := 7)) = Some p \<and>
    p \<noteq> NULL"
proof -
  let ?m = "(\<lambda>_. 0)(4096 := 3, 4097 := 5, 4098 := 7) :: mem"
  have c: "cmp_ok (\<lambda>a b. uint (hd a :: u8) - uint (hd b))" by (auto simp: cmp_ok_def)
  have e: "elts 4096 3 1 ?m = [[3], [5], [7]]" by (simp add: elts_def elt_def bytes_def upt_rec)
  show ?thesis using binary_search_correct [OF c, of 4096 1 3 ?m "[7]"] unfolding e by (auto split: if_splits)
qed

section \<open>Number conversion\<close>

text \<open>The number that a sequence of digits writes in decimal.\<close>

definition decimal :: "u8 list \<Rightarrow> int" where
  "decimal ds = foldl (\<lambda>v d. v * 10 + (uint d - 48)) 0 ds"

lemma bytes_add: "bytes m p (a + b) = bytes m p a @ bytes m (p + a) b"
  using upt_add_eq_append [of p "p + a" b] by (simp add: bytes_def add.assoc)

lemma skip_space_eq:
  "bytes m s (length sp) = sp \<Longrightarrow> list_all isspace sp \<Longrightarrow> \<not> isspace (m (s + length sp)) \<Longrightarrow>
    skip_space s m = Some (s + length sp)"
proof (induction sp arbitrary: s)
  case Nil
  then show ?case by (subst skip_space.simps) simp
next
  case (Cons c sp)
  then show ?case using Cons.IH [of "s + 1"]
    by (subst skip_space.simps) (simp add: bytes_Suc)
qed

lemma atoi_digits_eq:
  "bytes m s (length ds) = ds \<Longrightarrow> list_all isdigit ds \<Longrightarrow> \<not> isdigit (m (s + length ds)) \<Longrightarrow>
    atoi_digits s (- word_of_int v) m = Some (- word_of_int (foldl (\<lambda>v d. v * 10 + (uint d - 48)) v ds))"
proof (induction ds arbitrary: s v)
  case Nil
  then show ?case by (subst atoi_digits.simps) simp
next
  case (Cons c ds)
  have "(- word_of_int v * 10 - (ucast c - 48) :: u32) = - word_of_int (v * 10 + (uint c - 48))"
    by (simp only: ucast_eq of_int_add of_int_diff of_int_mult of_int_numeral minus_add_distrib minus_diff_eq) (simp only: algebra_simps mult_minus_left)
  moreover have c: "m s = c" "isdigit (m s)" using Cons.prems by (auto simp: bytes_Suc)
  ultimately have "atoi_digits s (- word_of_int v) m = atoi_digits (s + 1) (- word_of_int (v * 10 + (uint c - 48))) m"
    by (subst atoi_digits.simps) (simp only: if_True)
  then show ?case using Cons.IH [of "s + 1" "v * 10 + (uint c - 48)"] Cons.prems by (simp add: bytes_Suc)
qed

text \<open>
  C33. \<open>atoi\<close> on white space, an optional sign and at least one digit returns the number
  that is written there, whenever the number is in the range of an \<open>int\<close>.
\<close>

theorem atoi_correct:
  assumes "s \<noteq> NULL" and "bytes m s (length (sp @ sg @ ds)) = sp @ sg @ ds"
    and "list_all isspace sp" and "sg \<in> {[], [43], [45]}" and "list_all isdigit ds" and "ds \<noteq> []"
    and "\<not> isdigit (m (s + length (sp @ sg @ ds)))"
    and "n = (if sg = [45] then - decimal ds else decimal ds)" and "- (2 ^ 31) \<le> n" and "n < 2 ^ 31"
  shows "\<exists>w. atoi s m = Some w \<and> sint w = n"
proof -
  have b: "bytes m s (length sp) = sp" "bytes m (s + length sp) (length sg) = sg"
    "bytes m (s + length sp + length sg) (length ds) = ds"
    using assms(2) by (simp_all add: bytes_add add.assoc)
  have c: "(sg = [] \<and> m (s + length sp) = hd ds) \<or> (sg = [43] \<and> m (s + length sp) = 43) \<or> (sg = [45] \<and> m (s + length sp) = 45)"
    using b(2,3) assms(4,6) by (cases ds) (auto simp: bytes_Suc)
  have d: "isdigit (hd ds)" using assms(5,6) by (cases ds) auto
  then have h: "hd ds \<noteq> 43" "hd ds \<noteq> 45" "\<not> isspace (hd ds)"  by (auto simp: isdigit_def isspace_def word_le_nat_alt)
  have "\<not> isspace (m (s + length sp))" using c h by (auto simp: isspace_def)
  then have sk: "skip_space s m = Some (s + length sp)" by (rule skip_space_eq [OF b(1) assms(3)])
  have dg: "atoi_digits (s + length sp + length sg) 0 m = Some (- word_of_int (decimal ds))"
    using atoi_digits_eq [OF b(3) assms(5), of 0] assms(7) by (simp add: decimal_def add.assoc)
  have "atoi s m = Some (word_of_int n)"
    using c h sk dg assms(1,8) by (auto simp: atoi_def Let_def)
  moreover have "sint (word_of_int n :: u32) = n"
    using assms(9,10) by (simp add: sint_sbintrunc' signed_take_bit_int_eq_self)
  ultimately show ?thesis by blast
qed

theorem atoi_correct_witness:
  "\<exists>w. atoi 10 ((\<lambda>_. 0)(10 := 32, 11 := 45, 12 := 52, 13 := 50)) = Some w \<and> sint w = - 42"
  by (rule atoi_correct [where sp = "[32]" and sg = "[45]" and ds = "[52, 50]"])
    (simp_all add: bytes_def upt_rec isspace_def isdigit_def decimal_def)

end
