(* ===== verification/Block.thy ===== *)
theory Block
  imports Prelude
begin

text \<open>
  \<^verbatim>\<open>devices/block.c\<close>: block devices and their roles.

  The driver behind a device (\<open>ops->read\<close> and \<open>ops->write\<close>) is an array of sectors of
  512 bytes: what was last written to a sector is what is read from it. A sector past
  the end of the device is a panic.
\<close>

section \<open>The code\<close>

abbreviation (input) BLOCK_SECTOR_SIZE :: nat where
  "BLOCK_SECTOR_SIZE \<equiv> 512"

datatype block_type = BLOCK_KERNEL | BLOCK_FILESYS | BLOCK_SCRATCH | BLOCK_SWAP | BLOCK_RAW | BLOCK_FOREIGN

definition is_role :: "block_type \<Rightarrow> bool" where
  "is_role t \<longleftrightarrow> t \<in> {BLOCK_KERNEL, BLOCK_FILESYS, BLOCK_SCRATCH, BLOCK_SWAP}"

record block =
  block_name :: "u8 list"
  block_type :: block_type
  block_size :: nat
  content :: "nat \<Rightarrow> u8 list"
  read_cnt :: u64
  write_cnt :: u64

text \<open>The devices by address, in probe order, and the device of each role (or null).\<close>

record block_table =
  blocks :: "ptr \<Rightarrow> block option"
  all_blocks :: "ptr list"
  block_by_role :: "block_type \<Rightarrow> ptr"

definition block_get_role :: "block_table \<Rightarrow> block_type \<Rightarrow> ptr option" where
  "block_get_role t role = do { ASSERT (is_role role); Some (block_by_role t role) }"

definition block_set_role :: "block_table \<Rightarrow> block_type \<Rightarrow> ptr \<Rightarrow> block_table option" where
  "block_set_role t role b = do {
     ASSERT (is_role role);
     Some (t\<lparr>block_by_role := (block_by_role t)(role := b)\<rparr>) }"

text \<open>The device at a position of the list, null at the end.\<close>

fun list_elem_to_block :: "ptr list \<Rightarrow> ptr" where
  "list_elem_to_block [] = NULL"
| "list_elem_to_block (b # bs) = b"

definition block_first :: "block_table \<Rightarrow> ptr" where
  "block_first t = list_elem_to_block (all_blocks t)"

definition block_next :: "block_table \<Rightarrow> ptr \<Rightarrow> ptr" where
  "block_next t b = list_elem_to_block (drop 1 (dropWhile (\<lambda>x. x \<noteq> b) (all_blocks t)))"

fun find_name :: "block_table \<Rightarrow> ptr list \<Rightarrow> u8 list \<Rightarrow> ptr option" where
  "find_name t [] name = Some NULL"
| "find_name t (b # bs) name = do {
     block \<leftarrow> blocks t b;
     if name = block_name block then Some b else find_name t bs name }"

definition block_get_by_name :: "block_table \<Rightarrow> u8 list \<Rightarrow> ptr option" where
  "block_get_by_name t name = find_name t (all_blocks t) name"

definition check_sector :: "block \<Rightarrow> nat \<Rightarrow> unit option" where
  "check_sector b sector = (if block_size b \<le> sector then None else Some ())"

definition block_read :: "block \<Rightarrow> nat \<Rightarrow> (u8 list \<times> block) option" where
  "block_read b sector = do {
     check_sector b sector;
     Some (content b sector, b\<lparr>read_cnt := read_cnt b + 1\<rparr>) }"

definition block_write :: "block \<Rightarrow> nat \<Rightarrow> u8 list \<Rightarrow> block option" where
  "block_write b sector buffer = do {
     check_sector b sector;
     ASSERT (block_type b \<noteq> BLOCK_FOREIGN);
     Some (b\<lparr>content := (content b)(sector := buffer), write_cnt := write_cnt b + 1\<rparr>) }"

text \<open>
  Registration: \<open>p\<close> is the descriptor returned by \<open>malloc\<close>, \<open>disk\<close> the contents of the
  device. The name is cut to the 15 bytes that fit the descriptor.
\<close>

definition block_register ::
    "block_table \<Rightarrow> ptr \<Rightarrow> u8 list \<Rightarrow> block_type \<Rightarrow> nat \<Rightarrow> (nat \<Rightarrow> u8 list) \<Rightarrow> (ptr \<times> block_table) option" where
  "block_register t p name type sz disk = do {
     ASSERT (p \<noteq> NULL);
     Some (p, t\<lparr>all_blocks := all_blocks t @ [p],
                blocks := (blocks t)(p \<mapsto> \<lparr>block_name = take 15 name, block_type = type, block_size = sz,
                  content = disk, read_cnt = 0, write_cnt = 0\<rparr>)\<rparr>) }"

section \<open>Lemmas\<close>

lemma block_read_ok:
  "sector < block_size b \<Longrightarrow> block_read b sector = Some (content b sector, b\<lparr>read_cnt := read_cnt b + 1\<rparr>)"
  by (simp add: block_read_def check_sector_def)

lemma block_write_ok:
  "sector < block_size b \<Longrightarrow> block_type b \<noteq> BLOCK_FOREIGN \<Longrightarrow> block_write b sector buffer =
    Some (b\<lparr>content := (content b)(sector := buffer), write_cnt := write_cnt b + 1\<rparr>)"
  by (simp add: block_write_def check_sector_def)

end
