(* ===== verification/Inode.thy ===== *)
theory Inode
  imports Block Bitmap
begin

text \<open>
  \<^verbatim>\<open>filesys/inode.c\<close>, \<^verbatim>\<open>filesys/free-map.c\<close> and \<^verbatim>\<open>filesys/file.c\<close>: the inodes on disk
  and in memory, the map of free sectors, and open files.

  The state \<open>fs\<close> holds the file system device, the in-memory inodes, open files and
  directories by address, the list of open inodes and the free map. Memory comes from
  \<open>malloc\<close>, whose \<open>k\<close>-th call succeeds when \<open>mem_ok k\<close> holds and then returns an address
  that was never used before, so that the use of a freed object is a missing result.
  An \<open>off_t\<close> is an \<open>int\<close> where the code tests its sign and a natural number where every
  caller passes a value that is not negative.
\<close>

section \<open>The state\<close>

record inode_disk =
  start :: nat
  ilength :: int
  magic :: u32

record inode =
  sector :: nat
  open_cnt :: int
  removed :: bool
  deny_write_cnt :: int
  data :: inode_disk

record open_file =
  f_inode :: ptr
  pos :: nat
  deny_write :: bool

record dir =
  dir_inode :: ptr
  dir_pos :: nat

record fs =
  fs_device :: block
  inodes :: "ptr \<Rightarrow> inode option"
  open_inodes :: "ptr list"
  free_map :: bitmap
  free_map_file :: ptr
  files :: "ptr \<Rightarrow> open_file option"
  dirs :: "ptr \<Rightarrow> dir option"
  mem_ok :: "nat \<Rightarrow> bool"
  mem_cnt :: nat
  mem_brk :: ptr

definition fs_malloc :: "fs \<Rightarrow> ptr \<times> fs" where
  "fs_malloc s =
     (let s' = s\<lparr>mem_cnt := mem_cnt s + 1\<rparr>
      in if mem_ok s (mem_cnt s) then (mem_brk s, s'\<lparr>mem_brk := mem_brk s + 1\<rparr>) else (NULL, s'))"

definition fs_read :: "fs \<Rightarrow> nat \<Rightarrow> (u8 list \<times> fs) option" where
  "fs_read s sec = do { (b, d) \<leftarrow> block_read (fs_device s) sec; Some (b, s\<lparr>fs_device := d\<rparr>) }"

definition fs_write :: "fs \<Rightarrow> nat \<Rightarrow> u8 list \<Rightarrow> fs option" where
  "fs_write s sec b = do { d \<leftarrow> block_write (fs_device s) sec b; Some (s\<lparr>fs_device := d\<rparr>) }"

section \<open>Inodes: reading and writing\<close>

abbreviation (input) INODE_MAGIC :: u32 where
  "INODE_MAGIC \<equiv> 0x494e4f44"

text \<open>The sector that a \<open>struct inode_disk\<close> is, and back.\<close>

definition encode_inode :: "inode_disk \<Rightarrow> u8 list" where
  "encode_inode d =
     u32_bytes (word_of_nat (start d)) @ u32_bytes (word_of_int (ilength d)) @ u32_bytes (magic d) @ replicate 500 0"

definition decode_inode :: "u8 list \<Rightarrow> inode_disk" where
  "decode_inode b = (let ws = bytes_u32s b
     in \<lparr>start = unat (ws ! 0), ilength = sint (ws ! 1), magic = ws ! 2\<rparr>)"

text \<open>The sum in \<open>DIV_ROUND_UP\<close> is one of \<open>int\<close>s, the quotient is converted to \<open>size_t\<close>.\<close>

definition bytes_to_sectors :: "int \<Rightarrow> nat" where
  "bytes_to_sectors n =
     (let x = signed_take_bit 31 (n + 511)
      in nat ((if x < 0 then - (- x div 512) else x div 512) mod 2 ^ 32))"

definition byte_to_sector :: "inode \<Rightarrow> nat \<Rightarrow> nat" where
  "byte_to_sector inode p =
     (if int p < ilength (data inode) then size_add (start (data inode)) (p div BLOCK_SECTOR_SIZE) else 2 ^ 32 - 1)"

definition inode_length :: "inode \<Rightarrow> int" where
  "inode_length inode = ilength (data inode)"

text \<open>
  \<open>inode_read_at\<close> delivers the bytes that it stores in the caller's buffer, as many as it
  returns; \<open>bounce\<close> says whether the bounce buffer is there already.
\<close>

definition chunk_size :: "inode \<Rightarrow> nat \<Rightarrow> nat \<Rightarrow> int" where
  "chunk_size inode sz offset =
     (let inode_left = inode_length inode - int offset;
          sector_left = 512 - int (offset mod BLOCK_SECTOR_SIZE);
          min_left = (if inode_left < sector_left then inode_left else sector_left)
      in if int sz < min_left then int sz else min_left)"

definition get_bounce :: "fs \<Rightarrow> bool \<Rightarrow> bool \<times> fs" where
  "get_bounce s bounce = (if bounce then (True, s) else (let (p, s) = fs_malloc s in (p \<noteq> NULL, s)))"

function read_loop :: "fs \<Rightarrow> inode \<Rightarrow> nat \<Rightarrow> nat \<Rightarrow> bool \<Rightarrow> u8 list \<Rightarrow> (u8 list \<times> fs) option" where
  "read_loop s inode sz offset bounce acc =
     (if 0 < sz \<and> 0 < chunk_size inode sz offset then
        let sector_idx = byte_to_sector inode offset; sector_ofs = offset mod BLOCK_SECTOR_SIZE;
            chunk = nat (chunk_size inode sz offset)
        in if sector_ofs = 0 \<and> chunk = BLOCK_SECTOR_SIZE
           then do {
             (b, s) \<leftarrow> fs_read s sector_idx;
             read_loop s inode (sz - chunk) (offset + chunk) bounce (acc @ b) }
           else
             let (bounce, s) = get_bounce s bounce
             in if bounce then do {
                  (b, s) \<leftarrow> fs_read s sector_idx;
                  read_loop s inode (sz - chunk) (offset + chunk) bounce (acc @ take chunk (drop sector_ofs b)) }
                else Some (acc, s)
      else Some (acc, s))"
  by pat_completeness auto
termination
  by (relation "measure (\<lambda>(s, inode, sz, offset, bounce, acc). sz)") auto

definition inode_read_at :: "fs \<Rightarrow> ptr \<Rightarrow> nat \<Rightarrow> nat \<Rightarrow> (u8 list \<times> fs) option" where
  "inode_read_at s ip sz offset = do {
     inode \<leftarrow> inodes s ip;
     read_loop s inode sz offset False [] }"

text \<open>\<open>buffer\<close> is the rest of the caller's buffer, from the current position on.\<close>

function write_loop :: "fs \<Rightarrow> inode \<Rightarrow> u8 list \<Rightarrow> nat \<Rightarrow> bool \<Rightarrow> nat \<Rightarrow> (nat \<times> fs) option" where
  "write_loop s inode buffer offset bounce written =
     (if 0 < length buffer \<and> 0 < chunk_size inode (length buffer) offset then
        let sector_idx = byte_to_sector inode offset; sector_ofs = offset mod BLOCK_SECTOR_SIZE;
            chunk = nat (chunk_size inode (length buffer) offset)
        in if sector_ofs = 0 \<and> chunk = BLOCK_SECTOR_SIZE
           then do {
             s \<leftarrow> fs_write s sector_idx (take BLOCK_SECTOR_SIZE buffer);
             write_loop s inode (drop chunk buffer) (offset + chunk) bounce (written + chunk) }
           else
             let (bounce, s) = get_bounce s bounce
             in if bounce then do {
                  (b, s) \<leftarrow> (if 0 < sector_ofs \<or> chunk < BLOCK_SECTOR_SIZE - sector_ofs
                             then fs_read s sector_idx else Some (replicate BLOCK_SECTOR_SIZE 0, s));
                  s \<leftarrow> fs_write s sector_idx
                    (take sector_ofs b @ take chunk buffer @ drop (sector_ofs + chunk) b);
                  write_loop s inode (drop chunk buffer) (offset + chunk) bounce (written + chunk) }
                else Some (written, s)
      else Some (written, s))"
  by pat_completeness auto
termination
  by (relation "measure (\<lambda>(s, inode, buffer, offset, bounce, written). length buffer)") auto

declare read_loop.simps [simp del] write_loop.simps [simp del]

definition inode_write_at :: "fs \<Rightarrow> ptr \<Rightarrow> u8 list \<Rightarrow> nat \<Rightarrow> (nat \<times> fs) option" where
  "inode_write_at s ip buffer offset = do {
     inode \<leftarrow> inodes s ip;
     if deny_write_cnt inode \<noteq> 0 then Some (0, s) else write_loop s inode buffer offset False 0 }"

definition upd_inode :: "fs \<Rightarrow> ptr \<Rightarrow> (inode \<Rightarrow> inode) \<Rightarrow> fs" where
  "upd_inode s ip f = s\<lparr>inodes := (inodes s)(ip := map_option f (inodes s ip))\<rparr>"

definition inode_deny_write :: "fs \<Rightarrow> ptr \<Rightarrow> fs option" where
  "inode_deny_write s ip = do {
     inode \<leftarrow> inodes s ip;
     ASSERT (deny_write_cnt inode + 1 \<le> open_cnt inode);
     Some (upd_inode s ip (\<lambda>i. i\<lparr>deny_write_cnt := deny_write_cnt i + 1\<rparr>)) }"

definition inode_allow_write :: "fs \<Rightarrow> ptr \<Rightarrow> fs option" where
  "inode_allow_write s ip = do {
     inode \<leftarrow> inodes s ip;
     ASSERT (0 < deny_write_cnt inode);
     ASSERT (deny_write_cnt inode \<le> open_cnt inode);
     Some (upd_inode s ip (\<lambda>i. i\<lparr>deny_write_cnt := deny_write_cnt i - 1\<rparr>)) }"

definition inode_remove :: "fs \<Rightarrow> ptr \<Rightarrow> fs option" where
  "inode_remove s ip = do {
     inode \<leftarrow> inodes s ip;
     Some (upd_inode s ip (\<lambda>i. i\<lparr>removed := True\<rparr>)) }"

definition inode_reopen :: "fs \<Rightarrow> ptr \<Rightarrow> (ptr \<times> fs) option" where
  "inode_reopen s ip =
     (if ip \<noteq> NULL then do {
        inode \<leftarrow> inodes s ip;
        Some (ip, upd_inode s ip (\<lambda>i. i\<lparr>open_cnt := open_cnt i + 1\<rparr>)) }
      else Some (ip, s))"

definition inode_get_inumber :: "fs \<Rightarrow> ptr \<Rightarrow> nat option" where
  "inode_get_inumber s ip = map_option sector (inodes s ip)"

fun find_open :: "fs \<Rightarrow> ptr list \<Rightarrow> nat \<Rightarrow> ptr option" where
  "find_open s [] sec = Some NULL"
| "find_open s (p # ps) sec = do {
     inode \<leftarrow> inodes s p;
     if sector inode = sec then Some p else find_open s ps sec }"

definition inode_open :: "fs \<Rightarrow> nat \<Rightarrow> (ptr \<times> fs) option" where
  "inode_open s sec = do {
     p \<leftarrow> find_open s (open_inodes s) sec;
     if p \<noteq> NULL then inode_reopen s p
     else let (p, s) = fs_malloc s in
       if p = NULL then Some (NULL, s)
       else do {
         (b, s) \<leftarrow> fs_read (s\<lparr>open_inodes := p # open_inodes s\<rparr>) sec;
         Some (p, s\<lparr>inodes := (inodes s)(p \<mapsto>
           \<lparr>sector = sec, open_cnt = 1, removed = False, deny_write_cnt = 0, data = decode_inode b\<rparr>)\<rparr>) } }"

section \<open>Files, positions aside\<close>

definition file_read_at :: "fs \<Rightarrow> ptr \<Rightarrow> nat \<Rightarrow> nat \<Rightarrow> (u8 list \<times> fs) option" where
  "file_read_at s fp sz file_ofs = do { f \<leftarrow> files s fp; inode_read_at s (f_inode f) sz file_ofs }"

definition file_write_at :: "fs \<Rightarrow> ptr \<Rightarrow> u8 list \<Rightarrow> nat \<Rightarrow> (nat \<times> fs) option" where
  "file_write_at s fp buffer file_ofs = do { f \<leftarrow> files s fp; inode_write_at s (f_inode f) buffer file_ofs }"

section \<open>The free map\<close>

text \<open>\<open>bitmap_write\<close> and \<open>bitmap_read\<close> on the free map and its file.\<close>

definition write_free_map :: "fs \<Rightarrow> (bool \<times> fs) option" where
  "write_free_map s = do {
     (written, s') \<leftarrow> file_write_at s (free_map_file s) (snd (bitmap_write (free_map s) 0)) 0;
     Some (fst (bitmap_write (free_map s) written), s') }"

definition read_free_map :: "fs \<Rightarrow> (bool \<times> fs) option" where
  "read_free_map s = do {
     (b, s') \<leftarrow> file_read_at s (free_map_file s) (bitmap_file_size (free_map s)) 0;
     let (ok, m) = bitmap_read (free_map s) b;
     Some (ok, s'\<lparr>free_map := m\<rparr>) }"

definition free_map_allocate :: "fs \<Rightarrow> nat \<Rightarrow> (nat option \<times> fs) option" where
  "free_map_allocate s cnt = do {
     (sec, m) \<leftarrow> bitmap_scan_and_flip (free_map s) 0 cnt False;
     let s = s\<lparr>free_map := m\<rparr>;
     if sec \<noteq> BITMAP_ERROR \<and> free_map_file s \<noteq> NULL then do {
       (ok, s) \<leftarrow> write_free_map s;
       if ok then Some (Some sec, s)
       else do {
         m \<leftarrow> bitmap_set_multiple (free_map s) sec cnt False;
         Some (None, s\<lparr>free_map := m\<rparr>) } }
     else Some (if sec \<noteq> BITMAP_ERROR then Some sec else None, s) }"

definition free_map_release :: "fs \<Rightarrow> nat \<Rightarrow> nat \<Rightarrow> fs option" where
  "free_map_release s sec cnt = do {
     a \<leftarrow> bitmap_all (free_map s) sec cnt;
     ASSERT a;
     m \<leftarrow> bitmap_set_multiple (free_map s) sec cnt False;
     (ok, s) \<leftarrow> write_free_map (s\<lparr>free_map := m\<rparr>);
     Some s }"

section \<open>Creating and closing inodes\<close>

function zero_loop :: "fs \<Rightarrow> nat \<Rightarrow> nat \<Rightarrow> nat \<Rightarrow> fs option" where
  "zero_loop s first i n =
     (if i < n then do {
        s \<leftarrow> fs_write s (size_add first i) (replicate BLOCK_SECTOR_SIZE 0);
        zero_loop s first (i + 1) n }
      else Some s)"
  by pat_completeness auto
termination by (relation "measure (\<lambda>(s, first, i, n). n - i)") auto

declare zero_loop.simps [simp del]

definition inode_create :: "fs \<Rightarrow> nat \<Rightarrow> int \<Rightarrow> (bool \<times> fs) option" where
  "inode_create s sec len = do {
     ASSERT (0 \<le> len);
     let (p, s) = fs_malloc s;
     if p \<noteq> NULL then do {
       let n = bytes_to_sectors len;
       (r, s) \<leftarrow> free_map_allocate s n;
       case r of
         Some first \<Rightarrow> do {
           s \<leftarrow> fs_write s sec (encode_inode \<lparr>start = first, ilength = len, magic = INODE_MAGIC\<rparr>);
           s \<leftarrow> (if 0 < n then zero_loop s first 0 n else Some s);
           Some (True, s) }
       | None \<Rightarrow> Some (False, s) }
     else Some (False, s) }"

definition inode_close :: "fs \<Rightarrow> ptr \<Rightarrow> fs option" where
  "inode_close s ip =
     (if ip = NULL then Some s
      else do {
        inode \<leftarrow> inodes s ip;
        let s = upd_inode s ip (\<lambda>i. i\<lparr>open_cnt := open_cnt i - 1\<rparr>);
        if open_cnt inode - 1 = 0 then do {
          let s = s\<lparr>open_inodes := remove1 ip (open_inodes s)\<rparr>;
          s \<leftarrow> (if removed inode then do {
                  s \<leftarrow> free_map_release s (sector inode) 1;
                  free_map_release s (start (data inode)) (bytes_to_sectors (ilength (data inode))) }
                else Some s);
          Some (s\<lparr>inodes := (inodes s)(ip := None)\<rparr>) }
        else Some s })"

section \<open>Open files\<close>

definition file_open :: "fs \<Rightarrow> ptr \<Rightarrow> (ptr \<times> fs) option" where
  "file_open s ip =
     (let (p, s) = fs_malloc s in
      if ip \<noteq> NULL \<and> p \<noteq> NULL
      then Some (p, s\<lparr>files := (files s)(p \<mapsto> \<lparr>f_inode = ip, pos = 0, deny_write = False\<rparr>)\<rparr>)
      else do { s \<leftarrow> inode_close s ip; Some (NULL, s) })"

definition file_reopen :: "fs \<Rightarrow> ptr \<Rightarrow> (ptr \<times> fs) option" where
  "file_reopen s fp = do {
     f \<leftarrow> files s fp;
     (ip, s) \<leftarrow> inode_reopen s (f_inode f);
     file_open s ip }"

definition file_deny_write :: "fs \<Rightarrow> ptr \<Rightarrow> fs option" where
  "file_deny_write s fp = do {
     ASSERT (fp \<noteq> NULL);
     f \<leftarrow> files s fp;
     if \<not> deny_write f
     then inode_deny_write (s\<lparr>files := (files s)(fp \<mapsto> f\<lparr>deny_write := True\<rparr>)\<rparr>) (f_inode f)
     else Some s }"

definition file_allow_write :: "fs \<Rightarrow> ptr \<Rightarrow> fs option" where
  "file_allow_write s fp = do {
     ASSERT (fp \<noteq> NULL);
     f \<leftarrow> files s fp;
     if deny_write f
     then inode_allow_write (s\<lparr>files := (files s)(fp \<mapsto> f\<lparr>deny_write := False\<rparr>)\<rparr>) (f_inode f)
     else Some s }"

definition file_close :: "fs \<Rightarrow> ptr \<Rightarrow> fs option" where
  "file_close s fp =
     (if fp \<noteq> NULL then do {
        s \<leftarrow> file_allow_write s fp;
        f \<leftarrow> files s fp;
        s \<leftarrow> inode_close s (f_inode f);
        Some (s\<lparr>files := (files s)(fp := None)\<rparr>) }
      else Some s)"

definition file_get_inode :: "fs \<Rightarrow> ptr \<Rightarrow> ptr option" where
  "file_get_inode s fp = map_option f_inode (files s fp)"

definition file_read :: "fs \<Rightarrow> ptr \<Rightarrow> nat \<Rightarrow> (u8 list \<times> fs) option" where
  "file_read s fp sz = do {
     f \<leftarrow> files s fp;
     (b, s) \<leftarrow> inode_read_at s (f_inode f) sz (pos f);
     Some (b, s\<lparr>files := (files s)(fp \<mapsto> f\<lparr>pos := pos f + length b\<rparr>)\<rparr>) }"

definition file_write :: "fs \<Rightarrow> ptr \<Rightarrow> u8 list \<Rightarrow> (nat \<times> fs) option" where
  "file_write s fp buffer = do {
     f \<leftarrow> files s fp;
     (n, s) \<leftarrow> inode_write_at s (f_inode f) buffer (pos f);
     Some (n, s\<lparr>files := (files s)(fp \<mapsto> f\<lparr>pos := pos f + n\<rparr>)\<rparr>) }"

definition file_length :: "fs \<Rightarrow> ptr \<Rightarrow> int option" where
  "file_length s fp = do {
     ASSERT (fp \<noteq> NULL);
     f \<leftarrow> files s fp;
     map_option inode_length (inodes s (f_inode f)) }"

definition file_seek :: "fs \<Rightarrow> ptr \<Rightarrow> int \<Rightarrow> fs option" where
  "file_seek s fp new_pos = do {
     ASSERT (fp \<noteq> NULL);
     ASSERT (0 \<le> new_pos);
     f \<leftarrow> files s fp;
     Some (s\<lparr>files := (files s)(fp \<mapsto> f\<lparr>pos := nat new_pos\<rparr>)\<rparr>) }"

definition file_tell :: "fs \<Rightarrow> ptr \<Rightarrow> nat option" where
  "file_tell s fp = do { ASSERT (fp \<noteq> NULL); f \<leftarrow> files s fp; Some (pos f) }"

end
