(* ===== verification/Directory.thy ===== *)
theory Directory
  imports Inode
begin

text \<open>
  \<^verbatim>\<open>filesys/directory.c\<close> and \<^verbatim>\<open>filesys/filesys.c\<close>: directories as files of entries of
  20 bytes, and the operations of the file system on the root directory.

  A file name is the sequence of its bytes without the terminating null.
\<close>

section \<open>Directories\<close>

abbreviation (input) NAME_MAX :: nat where
  "NAME_MAX \<equiv> 14"

abbreviation (input) ENTRY_SIZE :: nat where
  "ENTRY_SIZE \<equiv> 20"

record dir_entry =
  inode_sector :: nat
  name :: "u8 list"
  in_use :: bool

definition encode_entry :: "dir_entry \<Rightarrow> u8 list" where
  "encode_entry e = u32_bytes (word_of_nat (inode_sector e)) @ name e @ [if in_use e then 1 else 0]"

definition decode_entry :: "u8 list \<Rightarrow> dir_entry" where
  "decode_entry b = \<lparr>inode_sector = unat (bytes_u32s b ! 0), name = take 15 (drop 4 b), in_use = (b ! 19 \<noteq> 0)\<rparr>"

text \<open>The name as a C string; a name that is not terminated runs past the entry.\<close>

definition entry_name :: "dir_entry \<Rightarrow> u8 list option" where
  "entry_name e = (if 0 \<in> set (name e) then Some (takeWhile (\<lambda>c. c \<noteq> 0) (name e)) else None)"

definition dir_create :: "fs \<Rightarrow> nat \<Rightarrow> nat \<Rightarrow> (bool \<times> fs) option" where
  "dir_create s sec entry_cnt = inode_create s sec (signed_take_bit 31 (int (size_mul entry_cnt ENTRY_SIZE)))"

definition dir_open :: "fs \<Rightarrow> ptr \<Rightarrow> (ptr \<times> fs) option" where
  "dir_open s ip =
     (let (p, s) = fs_malloc s in
      if ip \<noteq> NULL \<and> p \<noteq> NULL
      then Some (p, s\<lparr>dirs := (dirs s)(p \<mapsto> \<lparr>dir_inode = ip, dir_pos = 0\<rparr>)\<rparr>)
      else do { s \<leftarrow> inode_close s ip; Some (NULL, s) })"

abbreviation (input) FREE_MAP_SECTOR :: nat where
  "FREE_MAP_SECTOR \<equiv> 0"

abbreviation (input) ROOT_DIR_SECTOR :: nat where
  "ROOT_DIR_SECTOR \<equiv> 1"

definition dir_open_root :: "fs \<Rightarrow> (ptr \<times> fs) option" where
  "dir_open_root s = do { (ip, s) \<leftarrow> inode_open s ROOT_DIR_SECTOR; dir_open s ip }"

definition dir_reopen :: "fs \<Rightarrow> ptr \<Rightarrow> (ptr \<times> fs) option" where
  "dir_reopen s dp = do {
     d \<leftarrow> dirs s dp;
     (ip, s) \<leftarrow> inode_reopen s (dir_inode d);
     dir_open s ip }"

definition dir_close :: "fs \<Rightarrow> ptr \<Rightarrow> fs option" where
  "dir_close s dp =
     (if dp \<noteq> NULL then do {
        d \<leftarrow> dirs s dp;
        s \<leftarrow> inode_close s (dir_inode d);
        Some (s\<lparr>dirs := (dirs s)(dp := None)\<rparr>) }
      else Some s)"

definition dir_get_inode :: "fs \<Rightarrow> ptr \<Rightarrow> ptr option" where
  "dir_get_inode s dp = map_option dir_inode (dirs s dp)"

partial_function (option) lookup_loop :: "fs \<Rightarrow> ptr \<Rightarrow> u8 list \<Rightarrow> nat \<Rightarrow> ((dir_entry \<times> nat) option \<times> fs) option" where
  "lookup_loop s ip nm ofs = do {
     (b, s) \<leftarrow> inode_read_at s ip ENTRY_SIZE ofs;
     if length b = ENTRY_SIZE then do {
       let e = decode_entry b;
       hit \<leftarrow> (if in_use e then map_option (\<lambda>n. nm = n) (entry_name e) else Some False);
       if hit then Some (Some (e, ofs), s) else lookup_loop s ip nm (ofs + ENTRY_SIZE) }
     else Some (None, s) }"

definition lookup :: "fs \<Rightarrow> ptr \<Rightarrow> u8 list \<Rightarrow> ((dir_entry \<times> nat) option \<times> fs) option" where
  "lookup s dp nm = do { d \<leftarrow> dirs s dp; lookup_loop s (dir_inode d) nm 0 }"

definition dir_lookup :: "fs \<Rightarrow> ptr \<Rightarrow> u8 list \<Rightarrow> (ptr \<times> fs) option" where
  "dir_lookup s dp nm = do {
     (r, s) \<leftarrow> lookup s dp nm;
     case r of Some (e, ofs) \<Rightarrow> inode_open s (inode_sector e) | None \<Rightarrow> Some (NULL, s) }"

text \<open>
  The search for a free slot, with the entry read last: the bytes of its name after
  the new one stay. When no entry was read the new entry is written at the end of the
  file, where nothing can be stored.
\<close>

partial_function (option) slot_loop :: "fs \<Rightarrow> ptr \<Rightarrow> nat \<Rightarrow> dir_entry \<Rightarrow> (nat \<times> dir_entry \<times> fs) option" where
  "slot_loop s ip ofs e = do {
     (b, s) \<leftarrow> inode_read_at s ip ENTRY_SIZE ofs;
     if length b = ENTRY_SIZE then
       let e = decode_entry b in
       if \<not> in_use e then Some (ofs, e, s) else slot_loop s ip (ofs + ENTRY_SIZE) e
     else Some (ofs, e, s) }"

definition dir_add :: "fs \<Rightarrow> ptr \<Rightarrow> u8 list \<Rightarrow> nat \<Rightarrow> (bool \<times> fs) option" where
  "dir_add s dp nm sec =
     (if nm = [] \<or> NAME_MAX < length nm then Some (False, s)
      else do {
        (r, s) \<leftarrow> lookup s dp nm;
        case r of
          Some _ \<Rightarrow> Some (False, s)
        | None \<Rightarrow> do {
            d \<leftarrow> dirs s dp;
            (ofs, e, s) \<leftarrow> slot_loop s (dir_inode d) 0 \<lparr>inode_sector = 0, name = replicate 15 0, in_use = False\<rparr>;
            let e = \<lparr>inode_sector = sec, name = nm @ [0] @ drop (length nm + 1) (name e), in_use = True\<rparr>;
            (n, s) \<leftarrow> inode_write_at s (dir_inode d) (encode_entry e) ofs;
            Some (n = ENTRY_SIZE, s) } })"

definition dir_remove :: "fs \<Rightarrow> ptr \<Rightarrow> u8 list \<Rightarrow> (bool \<times> fs) option" where
  "dir_remove s dp nm = do {
     (r, s) \<leftarrow> lookup s dp nm;
     case r of
       None \<Rightarrow> do { s \<leftarrow> inode_close s NULL; Some (False, s) }
     | Some (e, ofs) \<Rightarrow> do {
         (ip, s) \<leftarrow> inode_open s (inode_sector e);
         if ip = NULL then do { s \<leftarrow> inode_close s ip; Some (False, s) }
         else do {
           d \<leftarrow> dirs s dp;
           (n, s) \<leftarrow> inode_write_at s (dir_inode d) (encode_entry (e\<lparr>in_use := False\<rparr>)) ofs;
           if n \<noteq> ENTRY_SIZE then do { s \<leftarrow> inode_close s ip; Some (False, s) }
           else do {
             s \<leftarrow> inode_remove s ip;
             s \<leftarrow> inode_close s ip;
             Some (True, s) } } } }"

text \<open>The next name, cut to the 14 bytes that the caller's array holds.\<close>

partial_function (option) dir_readdir :: "fs \<Rightarrow> ptr \<Rightarrow> (u8 list option \<times> fs) option" where
  "dir_readdir s dp = do {
     d \<leftarrow> dirs s dp;
     (b, s) \<leftarrow> inode_read_at s (dir_inode d) ENTRY_SIZE (dir_pos d);
     if length b = ENTRY_SIZE then do {
       let e = decode_entry b;
       let s = s\<lparr>dirs := (dirs s)(dp \<mapsto> d\<lparr>dir_pos := dir_pos d + ENTRY_SIZE\<rparr>)\<rparr>;
       if in_use e then do { n \<leftarrow> entry_name e; Some (Some (take NAME_MAX n), s) }
       else dir_readdir s dp }
     else Some (None, s) }"

section \<open>The free map on disk\<close>

text \<open>\<open>junk\<close> is the uninitialised block that \<open>bitmap_create\<close> gets from \<open>malloc\<close>.\<close>

definition free_map_init :: "fs \<Rightarrow> u32 list \<Rightarrow> fs option" where
  "free_map_init s junk = do {
     let (p, s) = fs_malloc s;
     let (q, s) = (if p \<noteq> NULL then fs_malloc s else (NULL, s));
     r \<leftarrow> bitmap_create (block_size (fs_device s)) (p \<noteq> NULL) (if q \<noteq> NULL then Some junk else None);
     case r of
       None \<Rightarrow> None
     | Some m \<Rightarrow> do {
         m \<leftarrow> bitmap_mark m FREE_MAP_SECTOR;
         m \<leftarrow> bitmap_mark m ROOT_DIR_SECTOR;
         Some (s\<lparr>free_map := m\<rparr>) } }"

definition free_map_open :: "fs \<Rightarrow> fs option" where
  "free_map_open s = do {
     (ip, s) \<leftarrow> inode_open s FREE_MAP_SECTOR;
     (fp, s) \<leftarrow> file_open s ip;
     let s = s\<lparr>free_map_file := fp\<rparr>;
     ASSERT (fp \<noteq> NULL);
     (ok, s) \<leftarrow> read_free_map s;
     ASSERT ok;
     Some s }"

definition free_map_close :: "fs \<Rightarrow> fs option" where
  "free_map_close s = file_close s (free_map_file s)"

definition free_map_create :: "fs \<Rightarrow> fs option" where
  "free_map_create s = do {
     (ok, s) \<leftarrow> inode_create s FREE_MAP_SECTOR (int (bitmap_file_size (free_map s)));
     ASSERT ok;
     (ip, s) \<leftarrow> inode_open s FREE_MAP_SECTOR;
     (fp, s) \<leftarrow> file_open s ip;
     let s = s\<lparr>free_map_file := fp\<rparr>;
     ASSERT (fp \<noteq> NULL);
     (ok, s) \<leftarrow> write_free_map s;
     ASSERT ok;
     Some s }"

section \<open>The file system\<close>

definition do_format :: "fs \<Rightarrow> fs option" where
  "do_format s = do {
     s \<leftarrow> free_map_create s;
     (ok, s) \<leftarrow> dir_create s ROOT_DIR_SECTOR 16;
     ASSERT ok;
     free_map_close s }"

text \<open>\<open>dev\<close> is the device with the role of the file system, if there is one.\<close>

definition filesys_init :: "fs \<Rightarrow> block option \<Rightarrow> u32 list \<Rightarrow> bool \<Rightarrow> fs option" where
  "filesys_init s dev junk format = do {
     d \<leftarrow> dev;
     s \<leftarrow> free_map_init (s\<lparr>fs_device := d, open_inodes := []\<rparr>) junk;
     s \<leftarrow> (if format then do_format s else Some s);
     free_map_open s }"

definition filesys_done :: "fs \<Rightarrow> fs option" where
  "filesys_done s = free_map_close s"

definition filesys_create :: "fs \<Rightarrow> u8 list \<Rightarrow> int \<Rightarrow> (bool \<times> fs) option" where
  "filesys_create s nm initial_size = do {
     (dp, s) \<leftarrow> dir_open_root s;
     (success, sec, s) \<leftarrow>
       (if dp = NULL then Some (False, 0, s)
        else do {
          (r, s) \<leftarrow> free_map_allocate s 1;
          case r of
            None \<Rightarrow> Some (False, 0, s)
          | Some sec \<Rightarrow> do {
              (ok, s) \<leftarrow> inode_create s sec initial_size;
              if ok then do { (ok, s) \<leftarrow> dir_add s dp nm sec; Some (ok, sec, s) }
              else Some (False, sec, s) } });
     s \<leftarrow> (if \<not> success \<and> sec \<noteq> 0 then free_map_release s sec 1 else Some s);
     s \<leftarrow> dir_close s dp;
     Some (success, s) }"

definition filesys_open :: "fs \<Rightarrow> u8 list \<Rightarrow> (ptr \<times> fs) option" where
  "filesys_open s nm = do {
     (dp, s) \<leftarrow> dir_open_root s;
     (ip, s) \<leftarrow> (if dp \<noteq> NULL then dir_lookup s dp nm else Some (NULL, s));
     s \<leftarrow> dir_close s dp;
     file_open s ip }"

definition filesys_remove :: "fs \<Rightarrow> u8 list \<Rightarrow> (bool \<times> fs) option" where
  "filesys_remove s nm = do {
     (dp, s) \<leftarrow> dir_open_root s;
     (success, s) \<leftarrow> (if dp \<noteq> NULL then dir_remove s dp nm else Some (False, s));
     s \<leftarrow> dir_close s dp;
     Some (success, s) }"

end
