(* ===== verification/Inode_Content.thy ===== *)
theory Inode_Content
  imports Directory
begin

text \<open>
  What reading and writing through an inode does to the bytes of the file: the contents
  of an inode are the bytes of its sectors up to its length, \<open>inode_read_at\<close> delivers the
  part that was asked for, \<open>inode_write_at\<close> overwrites it and touches no other sector.
\<close>

section \<open>Contents\<close>

definition dev_ok :: "block \<Rightarrow> bool" where
  "dev_ok d \<longleftrightarrow> block_size d < 2 ^ 32 \<and> block_type d \<noteq> BLOCK_FOREIGN \<and> (\<forall>x. length (content d x) = 512)"

definition disk_ok :: "block \<Rightarrow> inode_disk \<Rightarrow> bool" where
  "disk_ok dev d \<longleftrightarrow> 0 \<le> ilength d \<and> ilength d < 2 ^ 31 - 511 \<and>
     start d + bytes_to_sectors (ilength d) \<le> block_size dev"

definition extent :: "inode_disk \<Rightarrow> nat set" where
  "extent d = {start d ..< start d + bytes_to_sectors (ilength d)}"

definition contents :: "block \<Rightarrow> inode_disk \<Rightarrow> u8 list" where
  "contents dev d = map (\<lambda>i. content dev (start d + i div 512) ! (i mod 512)) [0..<nat (ilength d)]"

definition overwrite :: "'a list \<Rightarrow> nat \<Rightarrow> 'a list \<Rightarrow> 'a list" where
  "overwrite c ofs b = take ofs c @ b @ drop (ofs + length b) c"

text \<open>Memory does not run out: every call of \<open>malloc\<close> succeeds.\<close>

definition mem_good :: "fs \<Rightarrow> bool" where
  "mem_good s \<longleftrightarrow> (\<forall>k. mem_ok s k)"

text \<open>
  A step that changes at most the sectors of the device and the counters; one that
  leaves the sectors alone, too.
\<close>

definition io :: "fs \<Rightarrow> fs \<Rightarrow> bool" where
  "io s s' \<longleftrightarrow> s' = s\<lparr>fs_device := fs_device s', mem_cnt := mem_cnt s', mem_brk := mem_brk s'\<rparr> \<and>
     block_name (fs_device s') = block_name (fs_device s) \<and>
     block_type (fs_device s') = block_type (fs_device s) \<and>
     block_size (fs_device s') = block_size (fs_device s) \<and> mem_brk s \<le> mem_brk s'"

definition touch :: "fs \<Rightarrow> fs \<Rightarrow> bool" where
  "touch s s' \<longleftrightarrow> io s s' \<and> content (fs_device s') = content (fs_device s)"

lemma io_fields:
  assumes "io s s'"
  shows "inodes s' = inodes s" "open_inodes s' = open_inodes s" "free_map s' = free_map s"
    "free_map_file s' = free_map_file s" "files s' = files s" "dirs s' = dirs s" "mem_ok s' = mem_ok s"
    "block_size (fs_device s') = block_size (fs_device s)" "block_type (fs_device s') = block_type (fs_device s)"
    "mem_brk s \<le> mem_brk s'"
proof -
  have e: "s' = s\<lparr>fs_device := fs_device s', mem_cnt := mem_cnt s', mem_brk := mem_brk s'\<rparr>"
    using assms by (simp add: io_def)
  show "inodes s' = inodes s" "open_inodes s' = open_inodes s" "free_map s' = free_map s"
    "free_map_file s' = free_map_file s" "files s' = files s" "dirs s' = dirs s" "mem_ok s' = mem_ok s"
    by (subst e; simp)+
qed (use assms in \<open>simp_all add: io_def\<close>)

lemma io_refl [simp]: "io s s"
  by (simp add: io_def)

lemma touch_refl [simp]: "touch s s"
  by (simp add: touch_def)

lemma io_trans: "io s s' \<Longrightarrow> io s' s'' \<Longrightarrow> io s s''"
  by (cases s; cases s'; cases s'') (simp add: io_def)

lemma touch_io: "touch s s' \<Longrightarrow> io s s'"
  by (simp add: touch_def)

lemma touch_trans: "touch s s' \<Longrightarrow> touch s' s'' \<Longrightarrow> touch s s''"
  using io_trans by (auto simp: touch_def)

lemma mem_good_io: "io s s' \<Longrightarrow> mem_good s' = mem_good s"
  by (simp add: mem_good_def io_fields)

lemma fs_malloc_cases:
  assumes "0 < mem_brk s" and "fs_malloc s = (p, s')"
  shows "touch s s'" and "p = NULL \<or> p = mem_brk s \<and> mem_brk s' = mem_brk s + 1" and "mem_good s \<Longrightarrow> p \<noteq> NULL"
  using assms by (auto simp: fs_malloc_def touch_def io_def mem_good_def Let_def split: if_splits)

lemma fs_read_ok:
  assumes "x < block_size (fs_device s)"
  shows "\<exists>s'. fs_read s x = Some (content (fs_device s) x, s') \<and> touch s s'"
  using assms by (simp add: fs_read_def block_read_ok touch_def io_def)

lemma fs_write_ok:
  assumes "x < block_size (fs_device s)" and "dev_ok (fs_device s)"
  shows "\<exists>s'. fs_write s x b = Some s' \<and> io s s' \<and>
    content (fs_device s') = (content (fs_device s))(x := b) \<and> mem_brk s' = mem_brk s"
  using assms by (simp add: fs_write_def block_write_ok dev_ok_def io_def)

lemma bytes_to_sectors_eq:
  assumes "0 \<le> n" and "n < 2 ^ 31 - 511"
  shows "bytes_to_sectors n = (nat n + 511) div 512"
proof -
  have "signed_take_bit 31 (n + 511) = n + 511" using assms by (intro signed_take_bit_int_eq_self) simp_all
  moreover have "(n + 511) div 512 mod 2 ^ 32 = (n + 511) div 512"
    using assms by (intro mod_pos_pos_trivial) (auto simp: pos_imp_zdiv_nonneg_iff)
  moreover have "nat ((n + 511) div 512) = (nat n + 511) div 512"
    using assms by (simp add: nat_div_distrib nat_add_distrib)
  ultimately show ?thesis using assms by (simp add: bytes_to_sectors_def)
qed

lemma length_contents [simp]: "length (contents dev d) = nat (ilength d)"
  by (simp add: contents_def)

lemma contents_nth: "i < nat (ilength d) \<Longrightarrow> contents dev d ! i = content dev (start d + i div 512) ! (i mod 512)"
  by (simp add: contents_def)

lemma extent_div:
  assumes "disk_ok dev d" and "int i < ilength d"
  shows "start d + i div 512 \<in> extent d" "start d + i div 512 < block_size dev"
proof -
  have "(i + 512) div 512 \<le> (nat (ilength d) + 511) div 512" using assms(2) by (intro div_le_mono) simp
  then have "i div 512 < bytes_to_sectors (ilength d)" using assms by (simp add: disk_ok_def bytes_to_sectors_eq)
  then show "start d + i div 512 \<in> extent d" "start d + i div 512 < block_size dev"
    using assms(1) by (auto simp: extent_def disk_ok_def)
qed

lemma in_sector:
  fixes i k :: nat
  assumes "i mod 512 + k < 512"
  shows "(i + k) div 512 = i div 512" "(i + k) mod 512 = i mod 512 + k"
proof -
  have e: "i + k = 512 * (i div 512) + (i mod 512 + k)" by simp
  show "(i + k) div 512 = i div 512" by (subst e, subst div_mult_self4) (use assms in simp_all)
  show "(i + k) mod 512 = i mod 512 + k" by (subst e, subst mod_mult_self4) (use assms in simp_all)
qed

lemma chunk_size_facts:
  assumes "0 < sz" and "0 < chunk_size inode sz offset" and "c = nat (chunk_size inode sz offset)"
  shows "0 < c" "c \<le> sz" "int (offset + c) \<le> ilength (data inode)" "offset mod 512 + c \<le> 512"
    "c = sz \<or> int (offset + c) = ilength (data inode) \<or> offset mod 512 + c = 512"
proof -
  have "offset mod 512 < 512" by simp
  then show "0 < c" "c \<le> sz" "int (offset + c) \<le> ilength (data inode)" "offset mod 512 + c \<le> 512"
    "c = sz \<or> int (offset + c) = ilength (data inode) \<or> offset mod 512 + c = 512"
    using assms by (auto simp: chunk_size_def inode_length_def Let_def split: if_splits)
qed

lemma chunk_size_done:
  assumes "\<not> (0 < sz \<and> 0 < chunk_size inode sz offset)"
  shows "sz = 0 \<or> ilength (data inode) \<le> int offset"
proof -
  have "offset mod 512 < 512" by simp
  then show ?thesis using assms by (auto simp: chunk_size_def inode_length_def Let_def split: if_splits)
qed

lemma sector_piece:
  assumes "int (offset + c) \<le> ilength d" and "offset mod 512 + c \<le> 512" and "dev_ok dev"
  shows "take c (drop offset (contents dev d)) = take c (drop (offset mod 512) (content dev (start d + offset div 512)))"
proof (rule nth_equalityI)
  have len: "length (content dev x) = 512" for x using assms(3) by (simp add: dev_ok_def)
  have o: "offset + c \<le> nat (ilength d)" using assms(1) by linarith
  then show "length (take c (drop offset (contents dev d))) =
    length (take c (drop (offset mod 512) (content dev (start d + offset div 512))))"
    using assms(2) by (simp add: len)
  fix i assume "i < length (take c (drop offset (contents dev d)))"
  then have i: "i < c" by simp
  then have "(offset + i) div 512 = offset div 512" "(offset + i) mod 512 = offset mod 512 + i"
    using in_sector [of offset i] assms(2) by simp_all
  then show "take c (drop offset (contents dev d)) ! i =
      take c (drop (offset mod 512) (content dev (start d + offset div 512))) ! i"
    using i o assms(2) by (simp add: contents_nth len)
qed

lemma take_drop_split: "c \<le> n \<Longrightarrow> take n (drop k xs) = take c (drop k xs) @ take (n - c) (drop (k + c) xs)"
  using take_add [of c "n - c" "drop k xs"] by (simp add: add.commute)

lemma byte_to_sector_eq:
  assumes "disk_ok dev (data inode)" and "dev_ok dev" and "int offset < ilength (data inode)"
  shows "byte_to_sector inode offset = start (data inode) + offset div 512"
  using extent_div [OF assms(1,3)] assms(2,3) by (simp add: byte_to_sector_def size_add_id dev_ok_def)

lemma get_bounce_cases:
  assumes "0 < mem_brk s" and "get_bounce s b = (b', s')"
  shows "touch s s'" and "b \<or> mem_good s \<Longrightarrow> b'"
  using assms fs_malloc_cases [OF assms(1)] by (auto simp: get_bounce_def split: if_splits prod.splits)

section \<open>Reading\<close>

lemma touch_dev: "touch s s' \<Longrightarrow> dev_ok (fs_device s') = dev_ok (fs_device s) \<and>
    disk_ok (fs_device s') d = disk_ok (fs_device s) d \<and> contents (fs_device s') d = contents (fs_device s) d"
  by (auto simp: touch_def io_def dev_ok_def disk_ok_def contents_def)

lemma read_loop_ok:
  assumes "dev_ok (fs_device s)" and "disk_ok (fs_device s) (data inode)" and "0 < mem_brk s"
  shows "\<exists>b s'. read_loop s inode sz offset bounce acc = Some (acc @ b, s') \<and> touch s s' \<and>
    (\<exists>k. b = take k (take sz (drop offset (contents (fs_device s) (data inode))))) \<and>
    (bounce \<or> mem_good s \<longrightarrow> b = take sz (drop offset (contents (fs_device s) (data inode))))"
  using assms
proof (induction sz arbitrary: s offset bounce acc rule: less_induct)
  case (less sz)
  let ?c = "contents (fs_device s) (data inode)" and ?ofs = "offset mod 512"
  show ?case
  proof (cases "0 < sz \<and> 0 < chunk_size inode sz offset")
    case False
    then have "take sz (drop offset ?c) = []" using chunk_size_done [OF False] by auto
    then show ?thesis using False by (subst read_loop.simps) auto
  next
    case True
    define c where "c = nat (chunk_size inode sz offset)"
    note f = chunk_size_facts [OF conjunct1 [OF True] conjunct2 [OF True] c_def]
    have lt: "int offset < ilength (data inode)" using f(1,3) by linarith
    note sec = byte_to_sector_eq [OF less(3,2) lt] and ext = extent_div [OF less(3) lt]
    let ?x = "start (data inode) + offset div 512"
    have piece: "take c (drop ?ofs (content (fs_device s) ?x)) = take c (drop offset ?c)"
      using sector_piece [OF f(3,4) less(2)] by simp
    have step: "\<exists>b s'. read_loop s2 inode (sz - c) (offset + c) bounce' (acc @ take c (drop offset ?c)) = Some (acc @ b, s') \<and> touch s s' \<and>
        (\<exists>k. b = take k (take sz (drop offset ?c))) \<and> (bounce \<or> mem_good s \<longrightarrow> b = take sz (drop offset ?c))"
      if "touch s s2" "bounce \<longrightarrow> bounce'" for s2 bounce'
    proof -
      note t = touch_dev [OF that(1)] and io = io_fields [OF touch_io [OF that(1)]]
      obtain b s' where b: "read_loop s2 inode (sz - c) (offset + c) bounce' (acc @ take c (drop offset ?c)) =
            Some ((acc @ take c (drop offset ?c)) @ b, s')" "touch s2 s'"
          "\<exists>k. b = take k (take (sz - c) (drop (offset + c) ?c))"
          "bounce' \<or> mem_good s2 \<longrightarrow> b = take (sz - c) (drop (offset + c) ?c)"
        using less.IH [of "sz - c" s2 "offset + c" bounce' "acc @ take c (drop offset ?c)"] f(1,2) t less.prems io(10) by auto
      have "length (take c (drop offset ?c)) = c" using f(3) by simp
      then have "take (c + k) (take sz (drop offset ?c)) = take c (drop offset ?c) @ take k (take (sz - c) (drop (offset + c) ?c))" for k
        using take_drop_split [OF f(2), of offset ?c] by simp
      then show ?thesis
        using b touch_trans [OF that(1) b(2)] take_drop_split [OF f(2), of offset ?c] mem_good_io [OF touch_io [OF that(1)]] that(2)
        by (metis append.assoc)
    qed
    show ?thesis
    proof (cases "?ofs = 0 \<and> c = 512")
      case full: True
      obtain s2 where s2: "fs_read s ?x = Some (content (fs_device s) ?x, s2)" "touch s s2"
        using fs_read_ok [OF ext(2)] by blast
      have "content (fs_device s) ?x = take c (drop offset ?c)"
        using piece full less(2) by (simp add: dev_ok_def)
      then have "read_loop s inode sz offset bounce acc =
          read_loop s2 inode (sz - c) (offset + c) bounce (acc @ take c (drop offset ?c))"
        using True full s2(1) by (subst read_loop.simps) (simp add: Let_def sec c_def [symmetric])
      then show ?thesis using step [OF s2(2), of bounce] by (simp only: simp_thms)
    next
      case part: False
      obtain bounce' s1 where g: "get_bounce s bounce = (bounce', s1)" by fastforce
      note gb = get_bounce_cases [OF less(4) g] and t1 = touch_dev [OF gb(1)]
      show ?thesis
      proof (cases bounce')
        case no: False
        then have "read_loop s inode sz offset bounce acc = Some (acc, s1)"
          using True part g no by (subst read_loop.simps) (auto simp: Let_def c_def [symmetric])
        then show ?thesis using gb no by (intro exI [of _ "[]"] exI [of _ s1]) (auto intro: exI [of _ 0])
      next
        case yes: True
        obtain s2 where s2: "fs_read s1 ?x = Some (content (fs_device s1) ?x, s2)" "touch s1 s2"
          using fs_read_ok [of ?x s1] ext(2) io_fields(8) [OF touch_io [OF gb(1)]] by auto
        have "content (fs_device s1) = content (fs_device s)" using gb(1) by (simp add: touch_def)
        then have "read_loop s inode sz offset bounce acc =
            read_loop s2 inode (sz - c) (offset + c) True (acc @ take c (drop offset ?c))"
          using True part s2(1) g yes piece by (subst read_loop.simps) (auto simp: Let_def sec c_def [symmetric])
        then show ?thesis using step [OF touch_trans [OF gb(1) s2(2)], of True] by (simp only: simp_thms)
      qed
    qed
  qed
qed

section \<open>Writing\<close>

lemma length_overwrite: "ofs + length b \<le> length c \<Longrightarrow> length (overwrite c ofs b) = length c"
  by (simp add: overwrite_def)

lemma overwrite_Nil [simp]: "overwrite c ofs [] = c"
  by (simp add: overwrite_def)

lemma overwrite_nth:
  assumes "ofs + length b \<le> length c" and "i < length c"
  shows "overwrite c ofs b ! i = (if ofs \<le> i \<and> i < ofs + length b then b ! (i - ofs) else c ! i)"
  using assms by (auto simp: overwrite_def nth_append)

lemma overwrite_append:
  assumes "ofs + length a \<le> length c"
  shows "overwrite (overwrite c ofs a) (ofs + length a) b = overwrite c ofs (a @ b)"
  using assms by (simp add: overwrite_def ac_simps)

lemma sector_overwrite:
  assumes "int (offset + length a) \<le> ilength d" and "offset mod 512 + length a \<le> 512" and "dev_ok dev"
    and "b = content dev (start d + offset div 512)"
    and "content dev' = (content dev)(start d + offset div 512 := take (offset mod 512) b @ a @ drop (offset mod 512 + length a) b)"
  shows "contents dev' d = overwrite (contents dev d) offset a"
proof (rule nth_equalityI)
  have o: "offset + length a \<le> length (contents dev d)" using assms(1) by simp
  then show "length (contents dev' d) = length (overwrite (contents dev d) offset a)" by (simp add: length_overwrite)
  fix i assume "i < length (contents dev' d)"
  then have i: "i < nat (ilength d)" by simp
  have len: "length b = 512" using assms(3,4) by (simp add: dev_ok_def)
  let ?b = "take (offset mod 512) b @ a @ drop (offset mod 512 + length a) b"
  have ow: "overwrite (contents dev d) offset a ! i =
      (if offset \<le> i \<and> i < offset + length a then a ! (i - offset) else contents dev d ! i)"
    by (rule overwrite_nth [OF o]) (use i in simp)
  have bn: "?b ! j = (if offset mod 512 \<le> j \<and> j < offset mod 512 + length a then a ! (j - offset mod 512) else b ! j)"
    if "j < 512" for j using that assms(2) len by (auto simp: nth_append)
  have m: "512 * (i div 512) + i mod 512 = i" "512 * (offset div 512) + offset mod 512 = offset" "i mod 512 < 512" by simp_all
  show "contents dev' d ! i = overwrite (contents dev d) offset a ! i"
  proof (cases "i div 512 = offset div 512")
    case True
    then have "offset mod 512 \<le> i mod 512 \<longleftrightarrow> offset \<le> i" "i mod 512 < offset mod 512 + length a \<longleftrightarrow> i < offset + length a"
      "i mod 512 - offset mod 512 = i - offset" using m by linarith+
    then show ?thesis using True i ow bn [OF m(3)] assms(4,5) by (simp add: contents_nth)
  next
    case False
    have "\<not> (offset \<le> i \<and> i < offset + length a)"
    proof
      assume a: "offset \<le> i \<and> i < offset + length a"
      then have "offset mod 512 + (i - offset) < 512" using assms(2) by linarith
      from in_sector(1) [OF this] a show False using False by simp
    qed
    then show ?thesis using False i ow assms(5) by (auto simp: contents_nth)
  qed
qed

lemma write_loop_ok:
  assumes "dev_ok (fs_device s)" and "disk_ok (fs_device s) (data inode)" and "0 < mem_brk s"
  shows "\<exists>n s'. write_loop s inode buffer offset bounce w = Some (w + n, s') \<and> io s s' \<and> dev_ok (fs_device s') \<and>
    n \<le> length buffer \<and> (n = 0 \<or> offset + n \<le> nat (ilength (data inode))) \<and>
    (\<forall>x. x \<notin> extent (data inode) \<longrightarrow> content (fs_device s') x = content (fs_device s) x) \<and>
    contents (fs_device s') (data inode) = overwrite (contents (fs_device s) (data inode)) offset (take n buffer) \<and>
    (bounce \<or> mem_good s \<longrightarrow> n = min (length buffer) (nat (ilength (data inode)) - offset))"
  using assms
proof (induction "length buffer" arbitrary: s buffer offset bounce w rule: less_induct)
  case less
  let ?d = "data inode" and ?ofs = "offset mod 512"
  let ?res = "\<lambda>r. \<exists>n s'. r = Some (w + n, s') \<and> io s s' \<and> dev_ok (fs_device s') \<and>
    n \<le> length buffer \<and> (n = 0 \<or> offset + n \<le> nat (ilength ?d)) \<and>
    (\<forall>x. x \<notin> extent ?d \<longrightarrow> content (fs_device s') x = content (fs_device s) x) \<and>
    contents (fs_device s') ?d = overwrite (contents (fs_device s) ?d) offset (take n buffer) \<and>
    (bounce \<or> mem_good s \<longrightarrow> n = min (length buffer) (nat (ilength ?d) - offset))"
  show ?case
  proof (cases "0 < length buffer \<and> 0 < chunk_size inode (length buffer) offset")
    case False
    then show ?thesis using chunk_size_done [OF False] less.prems by (subst write_loop.simps) auto
  next
    case True
    define c where "c = nat (chunk_size inode (length buffer) offset)"
    note f = chunk_size_facts [OF conjunct1 [OF True] conjunct2 [OF True] c_def]
    have lt: "int offset < ilength ?d" using f(1,3) by linarith
    note sec = byte_to_sector_eq [OF less.prems(2,1) lt] and ext = extent_div [OF less.prems(2) lt]
    let ?x = "start ?d + offset div 512"
    let ?b = "content (fs_device s) ?x"
    let ?new = "take ?ofs ?b @ take c buffer @ drop (?ofs + c) ?b"
    have lb: "length ?b = 512" using less.prems(1) by (simp add: dev_ok_def)
    have step: "?res (write_loop s2 inode (drop c buffer) (offset + c) bounce' (w + c))"
      if "io s s2" "content (fs_device s2) = (content (fs_device s))(?x := ?new)" "bounce \<longrightarrow> bounce'" for s2 bounce'
    proof -
      note io = io_fields [OF that(1)]
      have len: "length (take c buffer) = c" using f(2) by simp
      have dv: "dev_ok (fs_device s2)" using less.prems(1) io that(2) f(4) lb len by (auto simp: dev_ok_def)
      have dk: "disk_ok (fs_device s2) ?d" using less.prems(2) io by (simp add: disk_ok_def)
      have ow: "contents (fs_device s2) ?d = overwrite (contents (fs_device s) ?d) offset (take c buffer)"
        by (rule sector_overwrite [OF _ _ less.prems(1) refl]) (use f len that(2) in auto)
      obtain n s' where n: "write_loop s2 inode (drop c buffer) (offset + c) bounce' (w + c) = Some (w + c + n, s')"
          "io s2 s'" "dev_ok (fs_device s')" "n \<le> length buffer - c" "n = 0 \<or> offset + c + n \<le> nat (ilength ?d)"
          "\<forall>x. x \<notin> extent ?d \<longrightarrow> content (fs_device s') x = content (fs_device s2) x"
          "contents (fs_device s') ?d = overwrite (contents (fs_device s2) ?d) (offset + c) (take n (drop c buffer))"
          "bounce' \<or> mem_good s2 \<longrightarrow> n = min (length buffer - c) (nat (ilength ?d) - (offset + c))"
        using less.hyps [of "drop c buffer" s2 "offset + c" bounce' "w + c"] f(1) True dv dk less.prems(3) io(10) by auto
      have "contents (fs_device s') ?d = overwrite (contents (fs_device s) ?d) offset (take (c + n) buffer)"
        using n(7) ow overwrite_append [of offset "take c buffer" "contents (fs_device s) ?d" "take n (drop c buffer)"] len f(3)
        by (simp add: take_add)
      moreover have "\<forall>x. x \<notin> extent ?d \<longrightarrow> content (fs_device s') x = content (fs_device s) x"
        using n(6) that(2) ext(1) by auto
      moreover have "c + n = min (length buffer) (nat (ilength ?d) - offset)" if "bounce \<or> mem_good s"
        using n(8) \<open>bounce \<longrightarrow> bounce'\<close> that mem_good_io [OF \<open>io s s2\<close>] f(2,3) by linarith
      moreover have "c + n \<le> length buffer" "offset + (c + n) \<le> nat (ilength ?d)" using n(4,5) f(2,3) by linarith+
      ultimately show ?thesis
        using n(1,3) io_trans [OF that(1) n(2)] by (intro exI [of _ "c + n"] exI [of _ s']) simp
    qed
    show ?thesis
    proof (cases "?ofs = 0 \<and> c = 512")
      case full: True
      obtain s2 where s2: "fs_write s ?x (take 512 buffer) = Some s2" "io s s2"
          "content (fs_device s2) = (content (fs_device s))(?x := take 512 buffer)"
        using fs_write_ok [OF ext(2) less.prems(1), of "take 512 buffer"] by blast
      have new: "?new = take 512 buffer" using full lb by simp
      have "write_loop s inode buffer offset bounce w = write_loop s2 inode (drop c buffer) (offset + c) bounce (w + c)"
        using True full s2(1) by (subst write_loop.simps) (simp add: Let_def sec c_def [symmetric])
      then show ?thesis using step [OF s2(2), of bounce] s2(3) new by (simp only: simp_thms)
    next
      case part: False
      obtain bounce' s1 where g: "get_bounce s bounce = (bounce', s1)" by fastforce
      note gb = get_bounce_cases [OF less.prems(3) g] and t1 = touch_dev [OF gb(1)]
      show ?thesis
      proof (cases bounce')
        case no: False
        then have "write_loop s inode buffer offset bounce w = Some (w, s1)"
          using True part g by (subst write_loop.simps) (auto simp: Let_def c_def [symmetric])
        then show ?thesis using gb no less.prems(1) t1 touch_io [OF gb(1)]
          by (intro exI [of _ 0] exI [of _ s1]) (auto simp: touch_def)
      next
        case yes: True
        have "0 < ?ofs \<or> c < 512 - ?ofs" using part f(4) by linarith
        obtain s2 where s2: "fs_read s1 ?x = Some (content (fs_device s1) ?x, s2)" "touch s1 s2"
          using fs_read_ok [of ?x s1] ext(2) io_fields(8) [OF touch_io [OF gb(1)]] by auto
        have t2: "touch s s2" by (rule touch_trans [OF gb(1) s2(2)])
        have cn: "content (fs_device s1) = content (fs_device s)" "content (fs_device s2) = content (fs_device s)"
          using gb(1) t2 by (simp_all add: touch_def)
        obtain s3 where s3: "fs_write s2 ?x ?new = Some s3" "io s2 s3"
            "content (fs_device s3) = (content (fs_device s2))(?x := ?new)"
          using fs_write_ok [of ?x s2 ?new] ext(2) io_fields(8) [OF touch_io [OF t2]] touch_dev [OF t2] less.prems(1) by auto
        have "write_loop s inode buffer offset bounce w = write_loop s3 inode (drop c buffer) (offset + c) True (w + c)"
          using s3(1) cn True part s2(1) g yes \<open>0 < ?ofs \<or> c < 512 - ?ofs\<close>
          by (subst write_loop.simps) (auto simp: Let_def sec c_def [symmetric])
        then show ?thesis using step [OF io_trans [OF touch_io [OF t2] s3(2)], of True] s3(3) cn(2) by (simp only: simp_thms)
      qed
    qed
  qed
qed

section \<open>Properties\<close>

text \<open>
  C34. Reading through an open inode never fails: \<open>inode_read_at\<close> delivers the bytes of the
  file from the offset on, as many as were asked for and as the file has; only when memory
  for the bounce buffer runs out it delivers fewer, and then a prefix of them. The disk and
  the open inodes and files are unchanged.
\<close>

theorem inode_read_at_contents:
  assumes "dev_ok (fs_device s)" and "inodes s ip = Some inode" and "disk_ok (fs_device s) (data inode)" and "0 < mem_brk s"
  shows "\<exists>b s'. inode_read_at s ip sz offset = Some (b, s') \<and> touch s s' \<and>
    (\<exists>k. b = take k (take sz (drop offset (contents (fs_device s) (data inode))))) \<and>
    (mem_good s \<longrightarrow> b = take sz (drop offset (contents (fs_device s) (data inode))))"
  using read_loop_ok [OF assms(1,3,4), of sz offset False "[]"] assms(2) by (simp add: inode_read_at_def)

definition demo_fs :: fs where
  "demo_fs = \<lparr>fs_device = \<lparr>block_name = [], block_type = BLOCK_FILESYS, block_size = 8,
       content = (\<lambda>_. replicate 512 7), read_cnt = 0, write_cnt = 0\<rparr>,
     inodes = [1 \<mapsto> \<lparr>sector = 2, open_cnt = 1, removed = False, deny_write_cnt = 0,
       data = \<lparr>start = 3, ilength = 600, magic = 0\<rparr>\<rparr>], open_inodes = [1],
     free_map = \<lparr>bit_cnt = 8, bits = [255]\<rparr>, free_map_file = 0, files = Map.empty, dirs = Map.empty,
     mem_ok = (\<lambda>_. True), mem_cnt = 0, mem_brk = 2\<rparr>"

lemma demo_fs_ok: "dev_ok (fs_device demo_fs)" "mem_good demo_fs" "0 < mem_brk demo_fs"
    "inodes demo_fs 1 = Some \<lparr>sector = 2, open_cnt = 1, removed = False, deny_write_cnt = 0,
       data = \<lparr>start = 3, ilength = 600, magic = 0\<rparr>\<rparr>"
    "disk_ok (fs_device demo_fs) \<lparr>start = 3, ilength = 600, magic = 0\<rparr>"
  by (simp_all add: demo_fs_def dev_ok_def mem_good_def disk_ok_def bytes_to_sectors_eq)

theorem inode_read_at_contents_witness:
  "\<exists>s'. inode_read_at demo_fs 1 4 598 = Some ([7, 7], s')"
proof -
  have "take 4 (drop 598 (contents (fs_device demo_fs) \<lparr>start = 3, ilength = 600, magic = 0\<rparr>)) = [7, 7]"
    by (simp add: contents_def demo_fs_def drop_map upt_rec)
  then show ?thesis
    using inode_read_at_contents [OF demo_fs_ok(1,4) _ demo_fs_ok(3), of 4 598] demo_fs_ok(2,5) by auto
qed

text \<open>
  C35. Writing through an open inode replaces the bytes of the file from the offset on and
  nothing else: the file keeps its length, no sector outside the file changes, and every
  byte that fits the file is written unless memory runs out; the count returned is the
  number of bytes replaced. While writes are denied nothing is written.
\<close>

theorem inode_write_at_contents:
  assumes "dev_ok (fs_device s)" and "inodes s ip = Some inode" and "disk_ok (fs_device s) (data inode)" and "0 < mem_brk s"
  shows "\<exists>n s'. inode_write_at s ip buffer offset = Some (n, s') \<and> io s s' \<and>
    contents (fs_device s') (data inode) = overwrite (contents (fs_device s) (data inode)) offset (take n buffer) \<and>
    (\<forall>x. x \<notin> extent (data inode) \<longrightarrow> content (fs_device s') x = content (fs_device s) x) \<and>
    (if deny_write_cnt inode \<noteq> 0 then n = 0
     else mem_good s \<longrightarrow> n = min (length buffer) (nat (ilength (data inode)) - offset))"
proof (cases "deny_write_cnt inode = 0")
  case True
  then show ?thesis
    using write_loop_ok [OF assms(1,3,4), of buffer offset False 0] assms(2) by (auto simp: inode_write_at_def)
next
  case False
  then show ?thesis using assms(2) by (simp add: inode_write_at_def)
qed

theorem inode_write_at_contents_witness:
  "\<exists>s'. inode_write_at demo_fs 1 [1, 2, 3] 598 = Some (2, s') \<and> content (fs_device s') 2 = replicate 512 7"
proof -
  let ?d = "\<lparr>start = 3, ilength = 600, magic = 0\<rparr>"
  have "2 \<notin> extent ?d" by (simp add: extent_def)
  moreover have "content (fs_device demo_fs) 2 = replicate 512 7" by (simp add: demo_fs_def)
  ultimately show ?thesis
    using inode_write_at_contents [OF demo_fs_ok(1,4) _ demo_fs_ok(3), of "[1, 2, 3]" 598] demo_fs_ok(2,5) by auto
qed

end
