(* ===== verification/Fs_Inv.thy ===== *)
theory Fs_Inv
  imports Inode_Content
begin

text \<open>
  The invariant of the file system. \<open>store_ok\<close> is about the device and the free map: the
  inodes \<open>J\<close> and the sectors they own are allocated and pairwise disjoint, and the
  sectors \<open>R\<close> are allocated but owned by no inode yet. \<open>table_ok\<close> is about the open
  inodes, files and directories and counts their references, those in \<open>T\<close> being held by
  the running operation; the files and directories in \<open>C\<close> are being closed and count no
  more. \<open>root_ok\<close> is about the entries of the root directory.
\<close>

section \<open>Sectors and their owners\<close>

definition idata :: "block \<Rightarrow> nat \<Rightarrow> inode_disk" where
  "idata dev x = decode_inode (content dev x)"

definition owned :: "block \<Rightarrow> nat \<Rightarrow> nat set" where
  "owned dev x = insert x (extent (idata dev x))"

definition store_ok :: "block \<Rightarrow> bitmap \<Rightarrow> nat set \<Rightarrow> nat set \<Rightarrow> bool" where
  "store_ok dev m J R \<longleftrightarrow> dev_ok dev \<and> bm_ok m \<and> bit_cnt m = block_size dev \<and>
     (\<forall>x \<in> J. disk_ok dev (idata dev x) \<and> x \<notin> extent (idata dev x) \<and> owned dev x \<subseteq> bm_used m) \<and>
     (\<forall>x \<in> J. \<forall>y \<in> J. x \<noteq> y \<longrightarrow> owned dev x \<inter> owned dev y = {}) \<and>
     R \<subseteq> bm_used m \<and> (\<forall>x \<in> J. owned dev x \<inter> R = {})"

text \<open>The bytes of the file whose inode is in sector \<open>x\<close>.\<close>

definition fbytes :: "block \<Rightarrow> nat \<Rightarrow> u8 list" where
  "fbytes dev x = contents dev (idata dev x)"

lemma decode_encode_inode:
  assumes "start d < 2 ^ 32" and "- (2 ^ 31) \<le> ilength d" and "ilength d < 2 ^ 31"
  shows "decode_inode (encode_inode d) = d"
proof -
  have "unat (word_of_nat (start d) :: u32) = start d" using assms(1) by (simp add: unat_of_nat)
  moreover have "sint (word_of_int (ilength d) :: u32) = ilength d"
    using assms(2,3) by (simp add: sint_sbintrunc' signed_take_bit_int_eq_self)
  ultimately show ?thesis by (simp add: decode_inode_def encode_inode_def)
qed

lemma length_encode_inode [simp]: "length (encode_inode d) = 512"
  by (simp add: encode_inode_def)

lemma store_okD:
  assumes "store_ok dev m J R"
  shows "dev_ok dev" "bm_ok m" "bit_cnt m = block_size dev" "R \<subseteq> bm_used m"
    "\<And>x. x \<in> J \<Longrightarrow> disk_ok dev (idata dev x)" "\<And>x. x \<in> J \<Longrightarrow> x \<notin> extent (idata dev x)"
    "\<And>x. x \<in> J \<Longrightarrow> owned dev x \<subseteq> bm_used m"
    "\<And>x y. x \<in> J \<Longrightarrow> y \<in> J \<Longrightarrow> x \<noteq> y \<Longrightarrow> owned dev x \<inter> owned dev y = {}"
    "\<And>x. x \<in> J \<Longrightarrow> owned dev x \<inter> R = {}"
    "\<And>x y. x \<in> J \<Longrightarrow> y \<in> J \<Longrightarrow> x \<notin> extent (idata dev y)"
    "\<And>x. x \<in> J \<Longrightarrow> x < block_size dev"
proof -
  have ext: "x \<notin> extent (idata dev y)" if "x \<in> J" "y \<in> J" for x y
  proof (cases "x = y")
    case False
    then have "owned dev x \<inter> owned dev y = {}" using assms that by (simp add: store_ok_def)
    then show ?thesis by (auto simp: owned_def)
  qed (use assms that in \<open>simp add: store_ok_def\<close>)
  have "x < block_size dev" if "x \<in> J" for x
    using assms that by (auto simp: store_ok_def owned_def bm_used_def)
  then show "dev_ok dev" "bm_ok m" "bit_cnt m = block_size dev" "R \<subseteq> bm_used m"
    "\<And>x. x \<in> J \<Longrightarrow> disk_ok dev (idata dev x)" "\<And>x. x \<in> J \<Longrightarrow> x \<notin> extent (idata dev x)"
    "\<And>x. x \<in> J \<Longrightarrow> owned dev x \<subseteq> bm_used m"
    "\<And>x y. x \<in> J \<Longrightarrow> y \<in> J \<Longrightarrow> x \<noteq> y \<Longrightarrow> owned dev x \<inter> owned dev y = {}"
    "\<And>x. x \<in> J \<Longrightarrow> owned dev x \<inter> R = {}"
    "\<And>x y. x \<in> J \<Longrightarrow> y \<in> J \<Longrightarrow> x \<notin> extent (idata dev y)"
    "\<And>x. x \<in> J \<Longrightarrow> x < block_size dev"
    using assms ext by (simp_all add: store_ok_def)
qed

lemma contents_cong:
  assumes "\<And>x. x \<in> extent d \<Longrightarrow> content dev' x = content dev x" and "disk_ok dev d"
  shows "contents dev' d = contents dev d"
proof (rule nth_equalityI)
  fix i assume "i < length (contents dev' d)"
  then have "int i < ilength d" by simp
  from extent_div(1) [OF assms(2) this] assms(1) this
  show "contents dev' d ! i = contents dev d ! i" by (simp add: contents_nth)
qed simp

lemma store_write:
  assumes "store_ok dev m J R" and "dev_ok dev'" and "block_size dev' = block_size dev"
    and "\<forall>x. x \<notin> W \<longrightarrow> content dev' x = content dev x" and "W \<inter> J = {}"
  shows "store_ok dev' m J R" and "\<And>x. x \<in> J \<Longrightarrow> idata dev' x = idata dev x"
    and "\<And>x. x \<in> J \<Longrightarrow> extent (idata dev x) \<inter> W = {} \<Longrightarrow> fbytes dev' x = fbytes dev x"
proof -
  show i: "idata dev' x = idata dev x" if "x \<in> J" for x
  proof -
    have "x \<notin> W" using assms(5) that by blast
    then show ?thesis using assms(4) by (simp add: idata_def)
  qed
  then have "owned dev' x = owned dev x" if "x \<in> J" for x using that by (simp add: owned_def)
  then show "store_ok dev' m J R" using assms(1,2,3) i by (simp add: store_ok_def disk_ok_def)
  show "fbytes dev' x = fbytes dev x" if "x \<in> J" "extent (idata dev x) \<inter> W = {}" for x
    unfolding fbytes_def i [OF that(1)]
    by (rule contents_cong [OF _ store_okD(5) [OF assms(1) that(1)]]) (use assms(4) that(2) in blast)
qed

lemma store_alloc:
  assumes "store_ok dev m J R" and "bm_ok m'" and "bit_cnt m' = bit_cnt m" and "bm_used m' = bm_used m \<union> S"
    and "S \<inter> bm_used m = {}"
  shows "store_ok dev m' J (R \<union> S)"
proof -
  have "owned dev x \<inter> S = {}" if "x \<in> J" for x using store_okD(7) [OF assms(1) that] assms(5) by blast
  then show ?thesis using assms unfolding store_ok_def by auto
qed

lemma store_release:
  assumes "store_ok dev m J R" and "bm_ok m'" and "bit_cnt m' = bit_cnt m" and "bm_used m' = bm_used m - S" and "S \<subseteq> R"
  shows "store_ok dev m' J (R - S)"
proof -
  have "owned dev x \<subseteq> bm_used m - S" if "x \<in> J" for x using store_okD(7,9) [OF assms(1) that] assms(5) by blast
  then show ?thesis using assms unfolding store_ok_def by auto
qed

lemma store_drop:
  assumes "store_ok dev m J R" and "x \<in> J"
  shows "store_ok dev m (J - {x}) (R \<union> owned dev x)"
proof -
  have "owned dev y \<inter> (R \<union> owned dev x) = {}" if "y \<in> J - {x}" for y
    using store_okD(8) [OF assms(1), of y x] store_okD(9) [OF assms(1), of y] assms(2) that by auto
  moreover have "R \<union> owned dev x \<subseteq> bm_used m" using store_okD(4,7) [OF assms(1)] assms(2) by blast
  ultimately show ?thesis using assms(1) by (simp add: store_ok_def)
qed

lemma store_leak: "store_ok dev m J R \<Longrightarrow> R' \<subseteq> R \<Longrightarrow> store_ok dev m J R'"
  unfolding store_ok_def by blast

lemma store_add:
  assumes "store_ok dev m J R" and "owned dev x \<subseteq> R" and "disk_ok dev (idata dev x)" and "x \<notin> extent (idata dev x)"
  shows "store_ok dev m (insert x J) (R - owned dev x)"
proof -
  have "owned dev y \<inter> owned dev x = {}" "owned dev y \<inter> (R - owned dev x) = {}" if "y \<in> J" for y
    using store_okD(9) [OF assms(1) that] assms(2) by blast+
  moreover have "owned dev x \<subseteq> bm_used m" using store_okD(4) [OF assms(1)] assms(2) by blast
  ultimately show ?thesis using assms by (auto simp: store_ok_def)
qed

section \<open>Open inodes, files and directories\<close>

definition frefs :: "ptr set \<Rightarrow> fs \<Rightarrow> ptr \<Rightarrow> ptr set" where
  "frefs C s p = {fp. fp \<notin> C \<and> (\<exists>f. files s fp = Some f \<and> f_inode f = p)}"

definition drefs :: "ptr set \<Rightarrow> fs \<Rightarrow> ptr \<Rightarrow> ptr set" where
  "drefs C s p = {dp. dp \<notin> C \<and> (\<exists>d. dirs s dp = Some d \<and> dir_inode d = p)}"

definition denials :: "ptr set \<Rightarrow> fs \<Rightarrow> ptr \<Rightarrow> ptr set" where
  "denials C s p = {fp. fp \<notin> C \<and> (\<exists>f. files s fp = Some f \<and> f_inode f = p \<and> deny_write f)}"

definition inode_ok :: "ptr set \<Rightarrow> fs \<Rightarrow> nat set \<Rightarrow> ptr multiset \<Rightarrow> ptr \<Rightarrow> inode \<Rightarrow> bool" where
  "inode_ok C s J T p i \<longleftrightarrow> sector i \<in> J \<and> data i = idata (fs_device s) (sector i) \<and>
     open_cnt i = int (card (frefs C s p) + card (drefs C s p) + count T p) \<and> 0 < open_cnt i \<and>
     deny_write_cnt i = int (card (denials C s p))"

text \<open>The inodes on the list of open inodes; one that is being closed is not on it any more.\<close>

definition opened :: "fs \<Rightarrow> ptr \<Rightarrow> inode option" where
  "opened s = inodes s |` set (open_inodes s)"

definition table_ok :: "ptr set \<Rightarrow> fs \<Rightarrow> nat set \<Rightarrow> ptr multiset \<Rightarrow> bool" where
  "table_ok C s J T \<longleftrightarrow> 0 < mem_brk s \<and> distinct (open_inodes s) \<and> set (open_inodes s) \<subseteq> dom (inodes s) \<and>
     (\<forall>p \<in> dom (inodes s) \<union> dom (files s) \<union> dom (dirs s). 0 < p \<and> p < mem_brk s) \<and>
     (\<forall>p i. opened s p = Some i \<longrightarrow> inode_ok C s J T p i) \<and>
     (\<forall>p q i j. opened s p = Some i \<longrightarrow> opened s q = Some j \<longrightarrow> sector i = sector j \<longrightarrow> p = q) \<and>
     (\<forall>fp f. files s fp = Some f \<longrightarrow> fp \<notin> C \<longrightarrow> f_inode f \<in> dom (opened s)) \<and>
     (\<forall>dp d. dirs s dp = Some d \<longrightarrow> dp \<notin> C \<longrightarrow> dir_inode d \<in> dom (opened s)) \<and> C \<subseteq> {..<mem_brk s} \<and>
     dom (files s) \<inter> dom (dirs s) = {} \<and>
     set_mset T \<subseteq> dom (opened s)"

lemma opened_cong: "inodes s' = inodes s \<Longrightarrow> open_inodes s' = open_inodes s \<Longrightarrow> opened s' = opened s"
  by (simp add: opened_def)

lemma opened_inodes: "opened s p = Some i \<Longrightarrow> inodes s p = Some i"
  by (auto simp: opened_def restrict_map_def split: if_splits)

section \<open>The root directory and the free map file\<close>

definition entries :: "u8 list \<Rightarrow> dir_entry list" where
  "entries c = map (\<lambda>i. decode_entry (take 20 (drop (20 * i) c))) [0..<length c div 20]"

definition root_entries :: "fs \<Rightarrow> dir_entry list" where
  "root_entries s = entries (fbytes (fs_device s) 1)"

definition used_entries :: "dir_entry list \<Rightarrow> dir_entry list" where
  "used_entries es = filter in_use es"

definition entries_ok :: "nat set \<Rightarrow> dir_entry list \<Rightarrow> bool" where
  "entries_ok J es \<longleftrightarrow>
     (\<forall>e \<in> set (used_entries es). entry_name e \<noteq> None \<and> inode_sector e \<in> J - {0, 1}) \<and>
     distinct (map inode_sector (used_entries es)) \<and> distinct (map entry_name (used_entries es))"

definition root_tab :: "fs \<Rightarrow> bool" where
  "root_tab s \<longleftrightarrow>
     (\<forall>p i. opened s p = Some i \<longrightarrow> removed i \<longrightarrow>
        sector i \<notin> {0, 1} \<and> sector i \<notin> inode_sector ` set (used_entries (root_entries s))) \<and>
     (\<forall>fp f i. files s fp = Some f \<longrightarrow> opened s (f_inode f) = Some i \<longrightarrow>
        sector i \<noteq> 1 \<and> (sector i = 0 \<longrightarrow> fp = free_map_file s \<and> \<not> deny_write f)) \<and>
     (\<exists>f i. files s (free_map_file s) = Some f \<and> opened s (f_inode f) = Some i \<and> sector i = 0)"

definition root_ok :: "fs \<Rightarrow> nat set \<Rightarrow> bool" where
  "root_ok s J \<longleftrightarrow> {0, 1} \<subseteq> J \<and> 20 dvd length (fbytes (fs_device s) 1) \<and> entries_ok J (root_entries s) \<and>
     length (fbytes (fs_device s) 0) = byte_cnt (bit_cnt (free_map s)) \<and> root_tab s"

definition fs_wf :: "ptr set \<Rightarrow> fs \<Rightarrow> nat set \<Rightarrow> nat set \<Rightarrow> ptr multiset \<Rightarrow> bool" where
  "fs_wf C s J R T \<longleftrightarrow> store_ok (fs_device s) (free_map s) J R \<and> table_ok C s J T \<and> root_ok s J \<and>
     free_map_file s \<notin> C"

text \<open>
  The operations are verified for memory that does not run out: a bounce buffer that
  cannot be allocated ends a read or write early, and \<open>dir_add\<close> then overwrites the
  entry it could not read.
\<close>

definition fs_inv :: "ptr set \<Rightarrow> fs \<Rightarrow> nat set \<Rightarrow> nat set \<Rightarrow> ptr multiset \<Rightarrow> bool" where
  "fs_inv C s J R T \<longleftrightarrow> fs_wf C s J R T \<and> mem_good s"

text \<open>The files by name: the sector of the inode.\<close>

definition fs_names :: "fs \<Rightarrow> u8 list \<Rightarrow> nat option" where
  "fs_names s = map_of (map (\<lambda>e. (the (entry_name e), inode_sector e)) (used_entries (root_entries s)))"

lemma touch_fields:
  assumes "touch s s'"
  shows "content (fs_device s') = content (fs_device s)" "idata (fs_device s') = idata (fs_device s)"
    "fbytes (fs_device s') = fbytes (fs_device s)" "owned (fs_device s') = owned (fs_device s)"
  using assms by (auto simp: touch_def idata_def fun_eq_iff fbytes_def contents_def owned_def)

lemma store_touch: "touch s s' \<Longrightarrow> store_ok (fs_device s') m J R = store_ok (fs_device s) m J R"
  using touch_fields [of s s'] touch_dev [of s s'] io_fields(8) [OF touch_io, of s s']
  by (simp add: store_ok_def)

lemma refs_cong:
  "files s' = files s \<Longrightarrow> frefs C s' = frefs C s" "dirs s' = dirs s \<Longrightarrow> drefs C s' = drefs C s"
  "files s' = files s \<Longrightarrow> denials C s' = denials C s"
  by (auto simp: frefs_def drefs_def denials_def fun_eq_iff)

lemma inode_ok_cong:
  assumes "idata (fs_device s') (sector i) = idata (fs_device s) (sector i)" "files s' = files s" "dirs s' = dirs s"
  shows "inode_ok C s' J T p i = inode_ok C s J T p i"
  using assms refs_cong [of s' s] by (simp add: inode_ok_def)


section \<open>Steps that leave the tables alone\<close>

definition same_tables :: "fs \<Rightarrow> fs \<Rightarrow> bool" where
  "same_tables s s' \<longleftrightarrow> inodes s' = inodes s \<and> open_inodes s' = open_inodes s \<and> files s' = files s \<and>
     dirs s' = dirs s \<and> free_map_file s' = free_map_file s \<and> mem_ok s' = mem_ok s \<and> mem_brk s \<le> mem_brk s' \<and>
     block_size (fs_device s') = block_size (fs_device s)"

text \<open>The files with inodes in \<open>X\<close> keep their inodes and bytes.\<close>

definition kept :: "nat set \<Rightarrow> fs \<Rightarrow> fs \<Rightarrow> bool" where
  "kept X s s' \<longleftrightarrow> (\<forall>x \<in> X. idata (fs_device s') x = idata (fs_device s) x \<and>
     fbytes (fs_device s') x = fbytes (fs_device s) x)"

lemma same_tables_refl [simp]: "same_tables s s"
  by (simp add: same_tables_def)

lemma same_tables_trans: "same_tables s s' \<Longrightarrow> same_tables s' s'' \<Longrightarrow> same_tables s s''"
  by (simp add: same_tables_def)

lemma kept_refl [simp]: "kept X s s"
  by (simp add: kept_def)

lemma kept_trans: "kept X s s' \<Longrightarrow> kept X s' s'' \<Longrightarrow> kept X s s''"
  by (simp add: kept_def)

lemma kept_mono: "kept X s s' \<Longrightarrow> Y \<subseteq> X \<Longrightarrow> kept Y s s'"
  by (auto simp: kept_def)

lemma touch_kept: "touch s s' \<Longrightarrow> kept X s s'"
  by (simp add: kept_def touch_fields)

lemma io_same_tables: "io s s' \<Longrightarrow> same_tables s s'"
  by (simp add: same_tables_def io_fields)

lemma kept_names: "kept X s s' \<Longrightarrow> 1 \<in> X \<Longrightarrow> fs_names s' = fs_names s"
  by (simp add: kept_def fs_names_def root_entries_def)

lemma entries_ok_mono: "entries_ok J es \<Longrightarrow> J \<subseteq> J' \<Longrightarrow> entries_ok J' es"
  by (auto simp: entries_ok_def)

lemma fs_inv_store:
  assumes "fs_inv C s J R T" and "same_tables s s'" and "store_ok (fs_device s') (free_map s') J' R'" and "J \<subseteq> J'"
    and "bit_cnt (free_map s') = bit_cnt (free_map s)"
    and "\<And>x. x \<in> J \<Longrightarrow> idata (fs_device s') x = idata (fs_device s) x"
    and "fbytes (fs_device s') 1 = fbytes (fs_device s) 1"
  shows "fs_inv C s' J' R' T"
proof -
  have inv: "table_ok C s J T" "root_ok s J" "mem_good s" "free_map_file s \<notin> C" using assms(1) by (simp_all add: fs_inv_def fs_wf_def)
  have t: "inodes s' = inodes s" "open_inodes s' = open_inodes s" "files s' = files s" "dirs s' = dirs s"
    "free_map_file s' = free_map_file s" "mem_ok s' = mem_ok s" "mem_brk s \<le> mem_brk s'"
    using assms(2) by (simp_all add: same_tables_def)
  have op: "opened s' = opened s" using t(1,2) by (rule opened_cong)
  have j: "{0, 1} \<subseteq> J" using inv(2) by (simp add: root_ok_def)
  have "inode_ok C s' J' T p i" if "opened s p = Some i" for p i
  proof -
    have o: "inode_ok C s J T p i" using inv(1) that by (simp add: table_ok_def)
    then show ?thesis using inode_ok_cong [of s' i s C J T p] assms(6) [of "sector i"] t assms(4) by (auto simp: inode_ok_def)
  qed
  moreover have "\<forall>p \<in> dom (inodes s) \<union> dom (files s) \<union> dom (dirs s). 0 < p \<and> p < mem_brk s'"
    using inv(1) t(7) unfolding table_ok_def by (meson order_less_le_trans)
  moreover have "C \<subseteq> {..<mem_brk s'}" using inv(1) t(7) unfolding table_ok_def by force
  ultimately have "table_ok C s' J' T" using inv(1) t op by (simp add: table_ok_def)
  moreover have "length (fbytes (fs_device s') 0) = length (fbytes (fs_device s) 0)"
    using assms(6) [of 0] j by (simp add: fbytes_def)
  then have "root_ok s' J'"
    using inv(2) t op assms(4,5,7) entries_ok_mono [OF _ assms(4)] by (auto simp: root_ok_def root_tab_def root_entries_def)
  ultimately show ?thesis using assms(3) inv(3,4) t by (simp add: fs_inv_def fs_wf_def mem_good_def)
qed

lemma fs_invD:
  assumes "fs_inv C s J R T"
  shows "store_ok (fs_device s) (free_map s) J R" "table_ok C s J T" "root_ok s J" "mem_good s" "0 < mem_brk s"
    "0 \<in> J" "1 \<in> J" "dev_ok (fs_device s)" "bm_ok (free_map s)" "bit_cnt (free_map s) = block_size (fs_device s)"
    "free_map_file s \<notin> C"
proof -
  show "free_map_file s \<notin> C" "store_ok (fs_device s) (free_map s) J R" "table_ok C s J T" "root_ok s J" "mem_good s"
    using assms by (simp_all add: fs_inv_def fs_wf_def)
  then show "0 < mem_brk s" "0 \<in> J" "1 \<in> J" "dev_ok (fs_device s)" "bm_ok (free_map s)"
    "bit_cnt (free_map s) = block_size (fs_device s)"
    by (simp_all add: table_ok_def root_ok_def store_ok_def)
qed

lemma fs_inv_touch: "fs_inv C s J R T \<Longrightarrow> touch s s' \<Longrightarrow> fs_inv C s' J R T"
  by (rule fs_inv_store)
    (auto simp: io_same_tables touch_io store_touch fs_invD touch_fields io_fields [OF touch_io])

lemma fs_inv_open:
  assumes "fs_inv C s J R T" and "opened s p = Some i"
  shows "sector i \<in> J" "data i = idata (fs_device s) (sector i)" "disk_ok (fs_device s) (data i)"
    "contents (fs_device s) (data i) = fbytes (fs_device s) (sector i)"
proof -
  have "inode_ok C s J T p i" using assms by (simp add: fs_inv_def fs_wf_def table_ok_def)
  then show s: "sector i \<in> J" "data i = idata (fs_device s) (sector i)" by (simp_all add: inode_ok_def)
  show "disk_ok (fs_device s) (data i)" using store_okD(5) [OF fs_invD(1) [OF assms(1)] s(1)] s(2) by simp
  show "contents (fs_device s) (data i) = fbytes (fs_device s) (sector i)" by (simp add: s(2) fbytes_def)
qed

text \<open>Writing through an open inode.\<close>

lemma inode_read_all:
  assumes "dev_ok (fs_device s)" and "inodes s p = Some i" and "disk_ok (fs_device s) (data i)" and "mem_good s" and "0 < mem_brk s"
  shows "\<exists>s'. inode_read_at s p n ofs = Some (take n (drop ofs (contents (fs_device s) (data i))), s') \<and> touch s s'"
  using read_loop_ok [OF assms(1,3,5), of n ofs False "[]"] assms(2,4) by (auto simp: inode_read_at_def)

lemma inode_write_store:
  assumes st: "store_ok (fs_device s) m J R" and i: "inodes s p = Some i" "sector i \<in> J" "data i = idata (fs_device s) (sector i)"
    and deny: "deny_write_cnt i = 0" and mem: "mem_good s" "0 < mem_brk s"
  shows "\<exists>s'. inode_write_at s p buf ofs = Some (min (length buf) (length (fbytes (fs_device s) (sector i)) - ofs), s') \<and>
    io s s' \<and> store_ok (fs_device s') m J R \<and> (\<forall>x \<in> J. idata (fs_device s') x = idata (fs_device s) x) \<and>
    kept (J - {sector i}) s s' \<and> fbytes (fs_device s') (sector i) = overwrite (fbytes (fs_device s) (sector i)) ofs
      (take (length (fbytes (fs_device s) (sector i)) - ofs) buf)"
proof -
  let ?x = "sector i" and ?W = "extent (data i)"
  let ?n = "min (length buf) (length (fbytes (fs_device s) ?x) - ofs)"
  have ok: "dev_ok (fs_device s)" "disk_ok (fs_device s) (data i)" using store_okD(1,5) [OF st] i(2,3) by simp_all
  have len: "nat (ilength (data i)) = length (fbytes (fs_device s) ?x)" by (simp add: i(3) fbytes_def)
  obtain n s' where w: "write_loop s i buf ofs False 0 = Some (n, s')" "io s s'" "dev_ok (fs_device s')"
      "\<forall>x. x \<notin> ?W \<longrightarrow> content (fs_device s') x = content (fs_device s) x"
      "contents (fs_device s') (data i) = overwrite (contents (fs_device s) (data i)) ofs (take n buf)"
      "n = min (length buf) (nat (ilength (data i)) - ofs)"
    using write_loop_ok [OF ok mem(2), of buf ofs False 0] mem(1) by auto
  have n: "n = ?n" using w(6) len by simp
  have dis: "?W \<inter> J = {}" using store_okD(10) [OF st _ i(2)] i(3) by auto
  have sz: "block_size (fs_device s') = block_size (fs_device s)" using io_fields [OF w(2)] by simp
  note sw = store_write [OF st w(3) sz w(4) dis]
  have x: "extent (idata (fs_device s) y) \<inter> ?W = {}" if "y \<in> J" "y \<noteq> ?x" for y
    using store_okD(8) [OF st that(1) i(2) that(2)] i(3) by (auto simp: owned_def)
  have "kept (J - {?x}) s s'" using sw(2,3) x by (auto simp: kept_def)
  moreover have "fbytes (fs_device s') ?x = overwrite (fbytes (fs_device s) ?x) ofs (take ?n buf)"
    using w(5) sw(2) [OF i(2)] i(3) n by (simp add: fbytes_def)
  moreover have "take ?n buf = take (length (fbytes (fs_device s) ?x) - ofs) buf" by (simp add: min_def)
  ultimately show ?thesis using w(1,2) n sw(1,2) i(1) deny by (auto simp: inode_write_at_def)
qed

lemma inode_write_at_store:
  assumes "fs_inv C s J R T" and "opened s p = Some i" and "deny_write_cnt i = 0"
  shows "\<exists>s'. inode_write_at s p buf ofs = Some (min (length buf) (length (fbytes (fs_device s) (sector i)) - ofs), s') \<and>
    io s s' \<and> store_ok (fs_device s') (free_map s') J R \<and> (\<forall>x \<in> J. idata (fs_device s') x = idata (fs_device s) x) \<and>
    kept (J - {sector i}) s s' \<and> fbytes (fs_device s') (sector i) = overwrite (fbytes (fs_device s) (sector i)) ofs
      (take (length (fbytes (fs_device s) (sector i)) - ofs) buf)"
proof -
  note inv = fs_invD [OF assms(1)] and op = fs_inv_open [OF assms(1,2)]
  show ?thesis
    using inode_write_store [OF inv(1) opened_inodes [OF assms(2)] op(1,2) assms(3) inv(4,5), of buf ofs] io_fields(3) by fastforce
qed

lemma inode_write_at_inv:
  assumes "fs_inv C s J R T" and "opened s p = Some i" and "deny_write_cnt i = 0" and "sector i \<noteq> 1"
  shows "\<exists>s'. inode_write_at s p buf ofs = Some (min (length buf) (length (fbytes (fs_device s) (sector i)) - ofs), s') \<and>
    io s s' \<and> fs_inv C s' J R T \<and> kept (J - {sector i}) s s' \<and>
    fbytes (fs_device s') (sector i) = overwrite (fbytes (fs_device s) (sector i)) ofs
      (take (length (fbytes (fs_device s) (sector i)) - ofs) buf)"
proof -
  obtain s' where s': "inode_write_at s p buf ofs = Some (min (length buf) (length (fbytes (fs_device s) (sector i)) - ofs), s')"
    "io s s'" "store_ok (fs_device s') (free_map s') J R" "\<forall>x \<in> J. idata (fs_device s') x = idata (fs_device s) x"
    "kept (J - {sector i}) s s'" "fbytes (fs_device s') (sector i) = overwrite (fbytes (fs_device s) (sector i)) ofs
      (take (length (fbytes (fs_device s) (sector i)) - ofs) buf)"
    using inode_write_at_store [OF assms(1-3)] by blast
  have "1 \<in> J - {sector i}" using fs_invD(7) [OF assms(1)] assms(4) by simp
  then have "fbytes (fs_device s') 1 = fbytes (fs_device s) 1" using s'(5) unfolding kept_def by blast
  then have "fs_inv C s' J R T"
    using s'(3,4) by (intro fs_inv_store [OF assms(1) io_same_tables [OF s'(2)]]) (auto simp: io_fields [OF s'(2)])
  then show ?thesis using s' by blast
qed


section \<open>The free map\<close>

text \<open>The free map file holds a bitmap with the bits of the free map.\<close>

definition synced :: "fs \<Rightarrow> bool" where
  "synced s \<longleftrightarrow> (\<exists>m. bm_ok m \<and> bm_bits m = bm_bits (free_map s) \<and> fbytes (fs_device s) 0 = bitmap_bytes m)"

lemma free_map_file_open:
  assumes "fs_inv C s J R T"
  obtains f i where "files s (free_map_file s) = Some f" "opened s (f_inode f) = Some i" "sector i = 0" "deny_write_cnt i = 0"
proof -
  have r: "root_ok s J" and t: "table_ok C s J T" using assms by (simp_all add: fs_inv_def fs_wf_def)
  obtain f i where fi: "files s (free_map_file s) = Some f" "opened s (f_inode f) = Some i" "sector i = 0"
    using r by (auto simp: root_ok_def root_tab_def)
  have "\<not> deny_write g" if "files s fp = Some g" "f_inode g = f_inode f" for fp g
    using r that fi unfolding root_ok_def root_tab_def by metis
  then have "denials C s (f_inode f) = {}" by (auto simp: denials_def)
  moreover have "inode_ok C s J T (f_inode f) i" using t fi(2) by (simp add: table_ok_def)
  ultimately have "deny_write_cnt i = 0" by (simp add: inode_ok_def)
  then show ?thesis using fi that by blast
qed

lemma write_free_map_ok:
  assumes "fs_inv C s J R T"
  shows "\<exists>s'. write_free_map s = Some (True, s') \<and> io s s' \<and> fs_inv C s' J R T \<and> kept (J - {0}) s s' \<and> synced s'"
proof -
  obtain f i where fi: "files s (free_map_file s) = Some f" "opened s (f_inode f) = Some i" "sector i = 0" "deny_write_cnt i = 0"
    by (rule free_map_file_open [OF assms])
  let ?m = "free_map s" and ?c = "fbytes (fs_device s) 0"
  have bl: "byte_cnt (bit_cnt ?m) = length (bitmap_bytes ?m)"
    using byte_cnt_eq [of ?m] fs_invD(9) [OF assms] by (simp add: bitmap_bytes_length)
  have len: "length ?c = length (bitmap_bytes ?m)" using fs_invD(3) [OF assms] bl by (simp add: root_ok_def)
  obtain s' where s': "inode_write_at s (f_inode f) (bitmap_bytes ?m) 0 = Some (length ?c, s')"
      "io s s'" "fs_inv C s' J R T" "kept (J - {0}) s s'" "fbytes (fs_device s') 0 = overwrite ?c 0 (bitmap_bytes ?m)"
    using inode_write_at_inv [OF assms fi(2,4), of "bitmap_bytes ?m" 0] fi(3) len by auto
  have "fbytes (fs_device s') 0 = bitmap_bytes ?m" using s'(5) len by (simp add: overwrite_def)
  then have "synced s'" using fs_invD(9) [OF assms] io_fields(3) [OF s'(2)] by (auto simp: synced_def)
  moreover have "write_free_map s = Some (True, s')"
    using s'(1) fi(1) bl len by (simp add: write_free_map_def file_write_at_def bitmap_write_def Let_def)
  ultimately show ?thesis using s' by blast
qed

lemma fs_inv_map:
  assumes "fs_inv C s J R T" and "store_ok (fs_device s) m J R'" and "bit_cnt m = bit_cnt (free_map s)"
  shows "fs_inv C (s\<lparr>free_map := m\<rparr>) J R' T"
  by (rule fs_inv_store [OF assms(1)]) (use assms in \<open>simp_all add: same_tables_def\<close>)

text \<open>There are \<open>n\<close> free sectors in a row.\<close>

definition run_free :: "bitmap \<Rightarrow> nat \<Rightarrow> bool" where
  "run_free m n \<longleftrightarrow> (\<exists>a. a + n \<le> bit_cnt m \<and> slots (a, n) \<inter> bm_used m = {})"

lemma free_run_bits:
  assumes "a + n \<le> bit_cnt m" and "slots (a, n) \<inter> bm_used m = {}"
  shows "range_eq (bm_bits m) a n False"
proof -
  have "\<not> bm_bits m ! (a + i)" if i: "i < n" for i
  proof -
    have "a + i \<in> slots (a, n)" using i by (simp add: slots_def)
    then have "a + i \<notin> bm_used m" using assms(2) by blast
    then show ?thesis using assms(1) i by (simp add: bm_used_def)
  qed
  then show ?thesis by (simp add: range_eq_def)
qed

lemma no_group_run_free: "no_group (bm_bits m) 0 n False \<Longrightarrow> \<not> run_free m n"
  using free_run_bits by (auto simp: no_group_def run_free_def)

definition first_fit :: "bitmap \<Rightarrow> nat \<Rightarrow> nat \<Rightarrow> bool" where
  "first_fit m n x \<longleftrightarrow> (\<forall>a. a + n \<le> bit_cnt m \<longrightarrow> slots (a, n) \<inter> bm_used m = {} \<longrightarrow> x \<le> a)"

lemma first_group_fit: "first_group (bm_bits m) 0 n False x \<Longrightarrow> first_fit m n x"
  using free_run_bits by (fastforce simp: first_group_def first_fit_def not_less)

lemma free_map_allocate_ok:
  assumes "fs_inv C s J R T"
  shows "(\<exists>x s'. free_map_allocate s n = Some (Some x, s') \<and> same_tables s s' \<and> fs_inv C s' J (R \<union> slots (x, n)) T \<and>
      kept (J - {0}) s s' \<and> synced s' \<and> slots (x, n) \<inter> R = {} \<and> x + n \<le> block_size (fs_device s) \<and>
      slots (x, n) \<inter> bm_used (free_map s) = {} \<and> bit_cnt (free_map s') = bit_cnt (free_map s) \<and>
      bm_used (free_map s') = bm_used (free_map s) \<union> slots (x, n) \<and> first_fit (free_map s) n x) \<or>
    free_map_allocate s n = Some (None, s) \<and> \<not> run_free (free_map s) n"
proof -
  note inv = fs_invD [OF assms]
  obtain f i where fi: "files s (free_map_file s) = Some f" by (rule free_map_file_open [OF assms])
  have "free_map_file s \<noteq> NULL" using inv(2) fi unfolding table_ok_def by (metis UnI1 UnI2 domI less_irrefl)
  consider (full) "bitmap_scan_and_flip (free_map s) 0 n False = Some (BITMAP_ERROR, free_map s)" "\<not> run_free (free_map s) n"
    | (found) x m where "bitmap_scan_and_flip (free_map s) 0 n False = Some (x, m)" "x \<noteq> BITMAP_ERROR" "bm_ok m"
        "bit_cnt m = bit_cnt (free_map s)" "x + n \<le> bit_cnt (free_map s)" "slots (x, n) \<inter> bm_used (free_map s) = {}"
        "bm_used m = bm_used (free_map s) \<union> slots (x, n)" "first_fit (free_map s) n x"
    using bm_alloc_law [OF inv(9), of "()" n] bitmap_scan_and_flip_ok [OF inv(9), of 0 n False] no_group_run_free first_group_fit
    by (auto simp: bm_alloc_def split: if_splits)
  then show ?thesis
  proof cases
    case full
    then show ?thesis by (simp add: free_map_allocate_def)
  next
    case found
    let ?s = "s\<lparr>free_map := m\<rparr>" and ?R = "R \<union> slots (x, n)"
    have st: "store_ok (fs_device s) m J ?R" by (rule store_alloc [OF inv(1) found(3,4,7,6)])
    obtain s' where s': "write_free_map ?s = Some (True, s')" "io ?s s'" "fs_inv C s' J ?R T" "kept (J - {0}) ?s s'" "synced s'"
      using write_free_map_ok [OF fs_inv_map [OF assms st found(4)]] by blast
    have "same_tables s ?s" by (simp add: same_tables_def)
    then have "same_tables s s'" using io_same_tables [OF s'(2)] by (rule same_tables_trans)
    moreover have "slots (x, n) \<inter> R = {}" using found(6) store_okD(4) [OF inv(1)] by blast
    moreover have "kept (J - {0}) s s'" using s'(4) by (simp add: kept_def)
    ultimately show ?thesis
      using s' found(1,2,4-8) inv(10) \<open>free_map_file s \<noteq> NULL\<close> io_fields(3) [OF s'(2)] by (simp add: free_map_allocate_def)
  qed
qed

lemma range_eq_used: "range_eq (bm_bits m) x n True \<longleftrightarrow> (\<forall>i < n. bm_bits m ! (x + i))"
  by (simp add: range_eq_def)

lemma free_map_release_ok:
  assumes "fs_inv C s J R T" and "slots (x, n) \<subseteq> R" and "x + n \<le> block_size (fs_device s)"
  shows "\<exists>s'. free_map_release s x n = Some s' \<and> same_tables s s' \<and> fs_inv C s' J (R - slots (x, n)) T \<and>
    kept (J - {0}) s s' \<and> synced s'"
proof -
  note inv = fs_invD [OF assms(1)]
  have n: "x + n \<le> bit_cnt (free_map s)" using assms(3) inv(10) by simp
  have "bm_bits (free_map s) ! (x + i)" if "i < n" for i
  proof -
    have "x + i \<in> slots (x, n)" using that by (simp add: slots_def)
    then have "x + i \<in> bm_used (free_map s)" using store_okD(4) [OF inv(1)] assms(2) by blast
    then show ?thesis by (simp add: bm_used_def)
  qed
  then have a: "bitmap_all (free_map s) x n = Some True"
    using bitmap_contains_ok [OF inv(9) n, of False] by (simp add: bitmap_all_def range_eq_used)
  obtain m where m: "bitmap_set_multiple (free_map s) x n False = Some m" "bm_ok m" "bit_cnt m = bit_cnt (free_map s)"
      "bm_used m = bm_used (free_map s) - slots (x, n)"
    using bm_release_law [OF inv(9) n] by (auto simp: bm_release_def)
  let ?s = "s\<lparr>free_map := m\<rparr>"
  have st: "store_ok (fs_device s) m J (R - slots (x, n))" by (rule store_release [OF inv(1) m(2,3,4) assms(2)])
  obtain s' where s': "write_free_map ?s = Some (True, s')" "io ?s s'" "fs_inv C s' J (R - slots (x, n)) T"
      "kept (J - {0}) ?s s'" "synced s'"
    using write_free_map_ok [OF fs_inv_map [OF assms(1) st m(3)]] by blast
  have "same_tables s ?s" by (simp add: same_tables_def)
  then have "same_tables s s'" using io_same_tables [OF s'(2)] by (rule same_tables_trans)
  then show ?thesis using a m(1) s' by (simp add: free_map_release_def kept_def)
qed


section \<open>Creating inodes\<close>

lemma zero_loop_ok:
  assumes "dev_ok (fs_device s)" and "first + n \<le> block_size (fs_device s)"
  shows "\<exists>s'. zero_loop s first i n = Some s' \<and> io s s' \<and> dev_ok (fs_device s') \<and>
    content (fs_device s') = (\<lambda>x. if first + i \<le> x \<and> x < first + n then replicate 512 0 else content (fs_device s) x)"
  using assms
proof (induction "n - i" arbitrary: s i)
  case 0
  then show ?case by (subst zero_loop.simps) (auto simp: fun_eq_iff)
next
  case (Suc k)
  then have i: "i < n" "size_add first i = first + i" "first + i < block_size (fs_device s)"
    by (auto simp: size_add_id dev_ok_def)
  obtain s1 where s1: "fs_write s (first + i) (replicate 512 0) = Some s1" "io s s1"
      "content (fs_device s1) = (content (fs_device s))(first + i := replicate 512 0)"
    using fs_write_ok [OF i(3) Suc.prems(1)] by blast
  have "dev_ok (fs_device s1)" "first + n \<le> block_size (fs_device s1)" "k = n - (i + 1)"
    using Suc.prems Suc.hyps(2) s1(3) io_fields [OF s1(2)] by (auto simp: dev_ok_def)
  then obtain s' where s': "zero_loop s1 first (i + 1) n = Some s'" "io s1 s'" "dev_ok (fs_device s')"
      "content (fs_device s') = (\<lambda>x. if first + (i + 1) \<le> x \<and> x < first + n then replicate 512 0 else content (fs_device s1) x)"
    using Suc.hyps(1) [of "i + 1" s1] by blast
  have "content (fs_device s') = (\<lambda>x. if first + i \<le> x \<and> x < first + n then replicate 512 0 else content (fs_device s) x)"
    using s'(4) s1(3) i(1) by (auto simp: fun_eq_iff)
  then show ?case using s' s1 i io_trans [OF s1(2) s'(2)] by (subst zero_loop.simps) simp
qed

lemma contents_zero:
  assumes "\<And>x. x \<in> extent d \<Longrightarrow> content dev x = replicate 512 0" and "disk_ok dev d"
  shows "contents dev d = replicate (nat (ilength d)) 0"
proof (rule nth_equalityI)
  fix i assume "i < length (contents dev d)"
  then have "int i < ilength d" by simp
  with extent_div(1) [OF assms(2) this] assms(1)
  show "contents dev d ! i = replicate (nat (ilength d)) 0 ! i" by (simp add: contents_nth)
qed simp

lemma store_stored:
  assumes st: "store_ok (fs_device s) m J (R \<union> slots (x, n))" and sec: "sec \<in> R" "slots (x, n) \<inter> R = {}"
    and len: "0 \<le> len" "len < 2 ^ 31 - 511" and n: "n = bytes_to_sectors len" "x + n \<le> block_size (fs_device s)"
    and io: "io s s'" and dev: "dev_ok (fs_device s')"
    and d: "d = \<lparr>start = x, ilength = len, magic = mg\<rparr>"
    and c: "content (fs_device s') = (\<lambda>y. if x \<le> y \<and> y < x + n then replicate 512 0
      else if y = sec then encode_inode d else content (fs_device s) y)"
  shows "store_ok (fs_device s') m (insert sec J) (R - {sec})" and "kept J s s'"
    and "fbytes (fs_device s') sec = replicate (nat len) 0" and "idata (fs_device s') sec = d"
proof -
  let ?W = "insert sec (slots (x, n))" and ?dev = "fs_device s'"
  have W: "?W \<subseteq> R \<union> slots (x, n)" "sec \<notin> slots (x, n)" using sec by blast+
  have out: "\<forall>y. y \<notin> ?W \<longrightarrow> content ?dev y = content (fs_device s) y" by (simp add: c slots_def)
  have dis: "owned (fs_device s) y \<inter> ?W = {}" if "y \<in> J" for y using store_okD(9) [OF st that] W(1) by blast
  then have WJ: "?W \<inter> J = {}" by (auto simp: owned_def)
  have sz: "block_size ?dev = block_size (fs_device s)" using io_fields(8) [OF io] .
  note sw = store_write [OF st dev sz out WJ]
  have dis2: "extent (idata (fs_device s) y) \<inter> ?W = {}" if "y \<in> J" for y
    using dis [OF that] by (auto simp: owned_def)
  show k: "kept J s s'" using sw(2,3) dis2 by (simp add: kept_def)
  have "x < 2 ^ 32" using n(2) store_okD(1) [OF st] by (simp add: dev_ok_def)
  then show id: "idata ?dev sec = d"
    using W(2) len decode_encode_inode [of d] by (auto simp: idata_def c d slots_def)
  have ext: "extent d = slots (x, n)" by (simp add: extent_def d n(1) slots_def)
  have ok: "disk_ok ?dev d" using len n sz by (simp add: disk_ok_def d)
  have "store_ok ?dev m (insert sec J) (R \<union> slots (x, n) - owned ?dev sec)"
    by (rule store_add [OF sw(1)]) (use W id ext ok in \<open>auto simp: owned_def\<close>)
  moreover have "R \<union> slots (x, n) - owned ?dev sec = R - {sec}" using sec(2) id ext by (auto simp: owned_def)
  ultimately show "store_ok ?dev m (insert sec J) (R - {sec})" by simp
  show "fbytes ?dev sec = replicate (nat len) 0"
    using contents_zero [OF _ ok] ext id by (simp add: fbytes_def c slots_def d)
qed

text \<open>Creating an inode once its sectors are allocated.\<close>

lemma inode_create_run:
  assumes m: "fs_malloc s = (p, s1)" "p \<noteq> NULL" and len: "0 \<le> len"
    and a: "free_map_allocate s1 (bytes_to_sectors len) = Some (Some x, s2)" and dev: "dev_ok (fs_device s2)"
    and sec: "sec < block_size (fs_device s2)" "x + bytes_to_sectors len \<le> block_size (fs_device s2)"
  shows "\<exists>s'. inode_create s sec len = Some (True, s') \<and> io s2 s' \<and> dev_ok (fs_device s') \<and>
    content (fs_device s') = (\<lambda>y. if x \<le> y \<and> y < x + bytes_to_sectors len then replicate 512 0
      else if y = sec then encode_inode \<lparr>start = x, ilength = len, magic = INODE_MAGIC\<rparr> else content (fs_device s2) y)"
proof -
  let ?n = "bytes_to_sectors len" and ?d = "\<lparr>start = x, ilength = len, magic = INODE_MAGIC\<rparr>"
  obtain s3 where s3: "fs_write s2 sec (encode_inode ?d) = Some s3" "io s2 s3"
      "content (fs_device s3) = (content (fs_device s2))(sec := encode_inode ?d)"
    using fs_write_ok [OF sec(1) dev] by blast
  have d3: "dev_ok (fs_device s3)" "x + ?n \<le> block_size (fs_device s3)"
    using dev s3(3) io_fields [OF s3(2)] sec(2) by (auto simp: dev_ok_def)
  obtain s4 where s4: "zero_loop s3 x 0 ?n = Some s4" "io s3 s4" "dev_ok (fs_device s4)"
      "content (fs_device s4) = (\<lambda>y. if x \<le> y \<and> y < x + ?n then replicate 512 0 else content (fs_device s3) y)"
    using zero_loop_ok [OF d3, of 0] by auto
  have "inode_create s sec len = Some (True, s4)"
    using m len a s3(1) s4(1) zero_loop.simps [of s3 x 0 ?n] by (auto simp: inode_create_def Let_def split: if_splits)
  moreover have "content (fs_device s4) = (\<lambda>y. if x \<le> y \<and> y < x + ?n then replicate 512 0
      else if y = sec then encode_inode ?d else content (fs_device s2) y)" by (simp add: s4(4) s3(3) fun_eq_iff)
  ultimately show ?thesis using s4(3) io_trans [OF s3(2) s4(2)] by blast
qed

lemma inode_create_ok:
  assumes "fs_inv C s J R T" and "sec \<in> R" and "0 \<le> len" and "len < 2 ^ 31 - 511"
  shows "(\<exists>s'. inode_create s sec len = Some (True, s') \<and> same_tables s s' \<and> fs_inv C s' (insert sec J) (R - {sec}) T \<and>
      kept (J - {0}) s s' \<and> synced s' \<and> fbytes (fs_device s') sec = replicate (nat len) 0) \<or>
    (\<exists>s'. inode_create s sec len = Some (False, s') \<and> touch s s') \<and> \<not> run_free (free_map s) (bytes_to_sectors len)"
proof -
  note inv = fs_invD [OF assms(1)]
  obtain p s1 where m: "fs_malloc s = (p, s1)" by fastforce
  note ml = fs_malloc_cases [OF inv(5) m]
  have p: "p \<noteq> NULL" by (rule ml(3) [OF inv(4)])
  let ?n = "bytes_to_sectors len"
  have inv1: "fs_inv C s1 J R T" by (rule fs_inv_touch [OF assms(1) ml(1)])
  consider (full) "free_map_allocate s1 ?n = Some (None, s1)" "\<not> run_free (free_map s) ?n"
    | (found) x s2 where "free_map_allocate s1 ?n = Some (Some x, s2)" "same_tables s1 s2" "fs_inv C s2 J (R \<union> slots (x, ?n)) T"
        "kept (J - {0}) s1 s2" "synced s2" "slots (x, ?n) \<inter> R = {}" "x + ?n \<le> block_size (fs_device s1)"
    using free_map_allocate_ok [OF inv1, of ?n] io_fields(3) [OF touch_io [OF ml(1)]] by auto
  then show ?thesis
  proof cases
    case full
    then show ?thesis using m p ml(1) assms(3) by (simp add: inode_create_def)
  next
    case found
    note inv2 = fs_invD [OF found(3)]
    have sz: "block_size (fs_device s2) = block_size (fs_device s)"
      using found(2) io_fields(8) [OF touch_io [OF ml(1)]] by (simp add: same_tables_def)
    have xn: "x + ?n \<le> block_size (fs_device s2)" using found(7) sz io_fields(8) [OF touch_io [OF ml(1)]] by simp
    have sec: "sec < block_size (fs_device s2)"
      using assms(2) store_okD(4) [OF inv(1)] inv(10) sz by (auto simp: bm_used_def)
    obtain s4 where s4: "inode_create s sec len = Some (True, s4)" "io s2 s4" "dev_ok (fs_device s4)"
      "content (fs_device s4) = (\<lambda>y. if x \<le> y \<and> y < x + ?n then replicate 512 0
        else if y = sec then encode_inode \<lparr>start = x, ilength = len, magic = INODE_MAGIC\<rparr> else content (fs_device s2) y)"
      using inode_create_run [OF m p assms(3) found(1) inv2(8) sec xn] by blast
    note st = store_stored [OF inv2(1) assms(2) found(6) assms(3,4) refl xn s4(2,3) refl s4(4)]
    have inv4: "fs_inv C s4 (insert sec J) (R - {sec}) T"
      using st(1,2) inv2(7) io_fields(3) [OF s4(2)]
      by (intro fs_inv_store [OF found(3) io_same_tables [OF s4(2)]]) (auto simp: kept_def)
    have "same_tables s s4"
      by (rule same_tables_trans [OF io_same_tables [OF touch_io [OF ml(1)]] same_tables_trans [OF found(2) io_same_tables [OF s4(2)]]])
    moreover have "kept (J - {0}) s s4"
      by (rule kept_trans [OF touch_kept [OF ml(1)] kept_trans [OF found(4) kept_mono [OF st(2)]]]) blast
    moreover have "synced s4"
      using found(5) st(2) inv(6) io_fields(3) [OF s4(2)] by (simp add: synced_def kept_def)
    ultimately show ?thesis using s4(1) st(3) inv4 by blast
  qed
qed

end
