(* ===== verification/Fs_Table.thy ===== *)
theory Fs_Table
  imports Fs_Inv
begin

text \<open>
  Opening and closing inodes, files and directories: the reference counts stay exact, a
  removed inode gives its sectors back when it is closed for the last time, and nothing
  else on the disk changes.
\<close>

section \<open>Steps that leave the disk alone\<close>

definition same_disk :: "fs \<Rightarrow> fs \<Rightarrow> bool" where
  "same_disk s s' \<longleftrightarrow> content (fs_device s') = content (fs_device s) \<and> block_size (fs_device s') = block_size (fs_device s) \<and>
     block_type (fs_device s') = block_type (fs_device s) \<and> free_map s' = free_map s \<and>
     free_map_file s' = free_map_file s \<and> mem_ok s' = mem_ok s \<and> mem_brk s \<le> mem_brk s'"

text \<open>The inodes that are open in \<open>s\<close> are open in \<open>s'\<close>, up to the number of openers.\<close>

definition same_inodes :: "fs \<Rightarrow> fs \<Rightarrow> bool" where
  "same_inodes s s' \<longleftrightarrow> (\<forall>p i. opened s p = Some i \<longrightarrow> (\<exists>i'. opened s' p = Some i' \<and>
     sector i' = sector i \<and> removed i' = removed i \<and> deny_write_cnt i' = deny_write_cnt i))"

lemma same_disk_refl [simp]: "same_disk s s"
  by (simp add: same_disk_def)

lemma same_disk_trans: "same_disk s s' \<Longrightarrow> same_disk s' s'' \<Longrightarrow> same_disk s s''"
  by (simp add: same_disk_def)

lemma touch_same_disk: "touch s s' \<Longrightarrow> same_disk s s'"
  by (simp add: same_disk_def touch_def io_fields)

lemma same_disk_fields:
  assumes "same_disk s s'"
  shows "idata (fs_device s') = idata (fs_device s)" "fbytes (fs_device s') = fbytes (fs_device s)"
    "owned (fs_device s') = owned (fs_device s)" "root_entries s' = root_entries s" "fs_names s' = fs_names s"
    "synced s' = synced s" "kept X s s'" "dev_ok (fs_device s') = dev_ok (fs_device s)"
    "disk_ok (fs_device s') = disk_ok (fs_device s)"
  using assms
  by (auto simp: same_disk_def idata_def fun_eq_iff fbytes_def contents_def owned_def root_entries_def
      fs_names_def synced_def kept_def dev_ok_def disk_ok_def)

lemma same_inodes_refl [simp]: "same_inodes s s"
  by (auto simp: same_inodes_def)

lemma same_inodes_trans: "same_inodes s s' \<Longrightarrow> same_inodes s' s'' \<Longrightarrow> same_inodes s s''"
  unfolding same_inodes_def by metis

lemma fs_inv_change:
  assumes "fs_inv C s J R T" and "same_disk s s'" and "table_ok C' s' J T'" and "root_tab s'" and "free_map_file s \<notin> C'"
  shows "fs_inv C' s' J R T'"
proof -
  note f = same_disk_fields [OF assms(2)]
  have "store_ok (fs_device s') (free_map s') J R"
    using fs_invD(1) [OF assms(1)] f assms(2) by (simp add: store_ok_def same_disk_def)
  moreover have "root_ok s' J" using fs_invD(3) [OF assms(1)] f assms(2,4) by (simp add: root_ok_def same_disk_def)
  ultimately show ?thesis
    using assms fs_invD(4) [OF assms(1)] by (simp add: fs_inv_def fs_wf_def mem_good_def same_disk_def)
qed

lemma fs_inv_tables:
  "fs_inv C s J R T \<Longrightarrow> same_disk s s' \<Longrightarrow> table_ok C s' J T' \<Longrightarrow> root_tab s' \<Longrightarrow> fs_inv C s' J R T'"
  using fs_inv_change fs_invD(11) by blast

lemma table_okD:
  assumes "table_ok C s J T"
  shows "0 < mem_brk s" "distinct (open_inodes s)" "set (open_inodes s) \<subseteq> dom (inodes s)"
    "\<And>p. p \<in> dom (inodes s) \<union> dom (files s) \<union> dom (dirs s) \<Longrightarrow> 0 < p \<and> p < mem_brk s"
    "\<And>p i. opened s p = Some i \<Longrightarrow> inode_ok C s J T p i"
    "\<And>p q i j. opened s p = Some i \<Longrightarrow> opened s q = Some j \<Longrightarrow> sector i = sector j \<Longrightarrow> p = q"
    "\<And>fp f. files s fp = Some f \<Longrightarrow> fp \<notin> C \<Longrightarrow> f_inode f \<in> dom (opened s)"
    "\<And>dp d. dirs s dp = Some d \<Longrightarrow> dp \<notin> C \<Longrightarrow> dir_inode d \<in> dom (opened s)"
    "set_mset T \<subseteq> dom (opened s)" "C \<subseteq> {..<mem_brk s}" "dom (files s) \<inter> dom (dirs s) = {}"
  using assms unfolding table_ok_def by blast+

lemma table_okI:
  assumes "0 < mem_brk s" and "distinct (open_inodes s)" and "set (open_inodes s) \<subseteq> dom (inodes s)"
    and "\<And>p. p \<in> dom (inodes s) \<union> dom (files s) \<union> dom (dirs s) \<Longrightarrow> 0 < p \<and> p < mem_brk s"
    and "\<And>p i. opened s p = Some i \<Longrightarrow> inode_ok C s J T p i"
    and "\<And>p q i j. opened s p = Some i \<Longrightarrow> opened s q = Some j \<Longrightarrow> sector i = sector j \<Longrightarrow> p = q"
    and "\<And>fp f. files s fp = Some f \<Longrightarrow> fp \<notin> C \<Longrightarrow> f_inode f \<in> dom (opened s)"
    and "\<And>dp d. dirs s dp = Some d \<Longrightarrow> dp \<notin> C \<Longrightarrow> dir_inode d \<in> dom (opened s)"
    and "set_mset T \<subseteq> dom (opened s)" and "C \<subseteq> {..<mem_brk s}" and "dom (files s) \<inter> dom (dirs s) = {}"
  shows "table_ok C s J T"
  using assms unfolding table_ok_def by (intro conjI; blast)

lemma root_tabI:
  assumes "\<And>p i. opened s p = Some i \<Longrightarrow> removed i \<Longrightarrow>
      sector i \<notin> {0, 1} \<and> sector i \<notin> inode_sector ` set (used_entries (root_entries s))"
    and "\<And>fp f i. files s fp = Some f \<Longrightarrow> opened s (f_inode f) = Some i \<Longrightarrow>
      sector i \<noteq> 1 \<and> (sector i = 0 \<longrightarrow> fp = free_map_file s \<and> \<not> deny_write f)"
    and "files s (free_map_file s) = Some f" and "opened s (f_inode f) = Some i" and "sector i = 0"
  shows "root_tab s"
  using assms unfolding root_tab_def by blast

lemma root_tabD:
  assumes "root_tab s"
  shows "\<And>p i. opened s p = Some i \<Longrightarrow> removed i \<Longrightarrow>
      sector i \<notin> {0, 1} \<and> sector i \<notin> inode_sector ` set (used_entries (root_entries s))"
    and "\<And>fp f i. files s fp = Some f \<Longrightarrow> opened s (f_inode f) = Some i \<Longrightarrow>
      sector i \<noteq> 1 \<and> (sector i = 0 \<longrightarrow> fp = free_map_file s \<and> \<not> deny_write f)"
    and "\<exists>f i. files s (free_map_file s) = Some f \<and> opened s (f_inode f) = Some i \<and> sector i = 0"
  using assms unfolding root_tab_def by blast+

lemma root_tab_sub:
  assumes r: "root_tab s" and sub: "\<forall>q j. opened s' q = Some j \<longrightarrow> opened s q = Some j"
    and f: "files s' = files s" "free_map_file s' = free_map_file s" "root_entries s' = root_entries s"
    and fo: "\<forall>f. files s (free_map_file s) = Some f \<longrightarrow> opened s' (f_inode f) = opened s (f_inode f)"
  shows "root_tab s'"
proof -
  note D = root_tabD [OF r]
  obtain g j where g: "files s (free_map_file s) = Some g" "opened s (f_inode g) = Some j" "sector j = 0" using D(3) by blast
  show ?thesis
  proof (rule root_tabI [of _ g j])
    fix p i assume "opened s' p = Some i" "removed i"
    then show "sector i \<notin> {0, 1} \<and> sector i \<notin> inode_sector ` set (used_entries (root_entries s'))"
      unfolding f using D(1) sub by blast
  next
    fix fp h i assume "files s' fp = Some h" "opened s' (f_inode h) = Some i"
    then show "sector i \<noteq> 1 \<and> (sector i = 0 \<longrightarrow> fp = free_map_file s' \<and> \<not> deny_write h)"
      unfolding f using D(2) sub by blast
  qed (use g fo f in simp_all)
qed

lemma dom_opened: "table_ok C s J T \<Longrightarrow> dom (opened s) = set (open_inodes s)"
  using table_okD(3) [of C s J T] by (auto simp: opened_def)

lemma finite_refs:
  assumes "table_ok C s J T"
  shows "finite (frefs C s p)" "finite (drefs C s p)" "finite (denials C s p)"
proof -
  have "frefs C s p \<subseteq> {..<mem_brk s}" "drefs C s p \<subseteq> {..<mem_brk s}" "denials C s p \<subseteq> {..<mem_brk s}"
    using table_okD(4) [OF assms] by (auto simp: frefs_def drefs_def denials_def dom_def)
  then show "finite (frefs C s p)" "finite (drefs C s p)" "finite (denials C s p)"
    by (meson finite_lessThan finite_subset)+
qed

lemma opened_upd:
  "opened s p = Some i \<Longrightarrow> opened (upd_inode s p f) = (opened s)(p \<mapsto> f i)"
  by (auto simp: opened_def upd_inode_def restrict_map_def fun_eq_iff split: if_splits)

lemma upd_inode_fields [simp]:
  "fs_device (upd_inode s p f) = fs_device s" "open_inodes (upd_inode s p f) = open_inodes s"
  "free_map (upd_inode s p f) = free_map s" "free_map_file (upd_inode s p f) = free_map_file s"
  "files (upd_inode s p f) = files s" "dirs (upd_inode s p f) = dirs s" "mem_ok (upd_inode s p f) = mem_ok s"
  "mem_cnt (upd_inode s p f) = mem_cnt s" "mem_brk (upd_inode s p f) = mem_brk s"
  "dom (inodes (upd_inode s p f)) = dom (inodes s)"
  by (auto simp: upd_inode_def split: if_splits)

section \<open>Opening inodes\<close>

text \<open>A change of one open inode that keeps its sector and its data.\<close>

lemma table_upd:
  assumes t: "table_ok C s J T" and p: "opened s p = Some i" and f: "sector (f i) = sector i" "data (f i) = data i"
    and T: "set_mset T' \<subseteq> set_mset T \<union> {p}" "\<And>q. q \<noteq> p \<Longrightarrow> count T' q = count T q"
    and cnt: "open_cnt (f i) = int (card (frefs C s p) + card (drefs C s p) + count T' p)" "0 < open_cnt (f i)"
    and deny: "deny_write_cnt (f i) = int (card (denials C s p))"
  shows "table_ok C (upd_inode s p f) J T'"
proof (rule table_okI)
  let ?s = "upd_inode s p f"
  note D = table_okD [OF t]
  have op: "opened ?s = (opened s)(p \<mapsto> f i)" by (rule opened_upd [OF p])
  then have dom: "dom (opened ?s) = dom (opened s)" using p by auto
  show "inode_ok C ?s J T' q j" if "opened ?s q = Some j" for q j
  proof (cases "q = p")
    case True
    then have "j = f i" using that op by simp
    then show ?thesis using True D(5) [OF p] f cnt deny refs_cong [of ?s s] by (simp add: inode_ok_def)
  next
    case False
    then have "inode_ok C s J T q j" using that op D(5) by simp
    then show ?thesis using False T(2) refs_cong [of ?s s] by (simp add: inode_ok_def)
  qed
  have orig: "\<exists>j'. opened s q = Some j' \<and> sector j' = sector j" if "opened ?s q = Some j" for q j
    using that op p f(1) by (cases "q = p") auto
  show "q = r" if "opened ?s q = Some j" "opened ?s r = Some k" "sector j = sector k" for q r j k
    using orig [OF that(1)] orig [OF that(2)] that(3) D(6) [of q _ r] by auto
  show "set_mset T' \<subseteq> dom (opened ?s)" using T(1) D(9) dom p by auto
  show "f_inode g \<in> dom (opened ?s)" if "files ?s fp = Some g" "fp \<notin> C" for fp g
    using D(7) that unfolding dom by simp
  show "dir_inode g \<in> dom (opened ?s)" if "dirs ?s fp = Some g" "fp \<notin> C" for fp g
    using D(8) that unfolding dom by simp
  show "0 < q \<and> q < mem_brk ?s" if "q \<in> dom (inodes ?s) \<union> dom (files ?s) \<union> dom (dirs ?s)" for q
    using D(4) that unfolding upd_inode_fields .
qed (use table_okD(1-3,10,11) [OF t] in simp_all)

lemma root_tab_upd:
  assumes "root_tab s" and "opened s p = Some i" and "sector (f i) = sector i" and "removed (f i) \<longrightarrow> removed i"
  shows "root_tab (upd_inode s p f)"
proof -
  note D = root_tabD [OF assms(1)]
  obtain g j where g: "files s (free_map_file s) = Some g" "opened s (f_inode g) = Some j" "sector j = 0" using D(3) by blast
  have e: "root_entries (upd_inode s p f) = root_entries s" by (simp add: root_entries_def)
  have orig: "\<exists>j'. opened s q = Some j' \<and> sector j' = sector j \<and> (removed j \<longrightarrow> removed j')"
    if "opened (upd_inode s p f) q = Some j" for q j
    using that opened_upd [OF assms(2), of f] assms(2-4) by (cases "q = p") auto
  obtain j' where "opened (upd_inode s p f) (f_inode g) = Some j'" "sector j' = sector j"
    using g(2) opened_upd [OF assms(2), of f] assms(2,3) by (cases "f_inode g = p") auto
  then show ?thesis
  proof (intro root_tabI [of _ g j'])
    fix q k assume "opened (upd_inode s p f) q = Some k" "removed k"
    then show "sector k \<notin> {0, 1} \<and> sector k \<notin> inode_sector ` set (used_entries (root_entries (upd_inode s p f)))"
      unfolding e using orig D(1) by metis
  next
    fix fp h k assume "files (upd_inode s p f) fp = Some h" "opened (upd_inode s p f) (f_inode h) = Some k"
    then show "sector k \<noteq> 1 \<and> (sector k = 0 \<longrightarrow> fp = free_map_file (upd_inode s p f) \<and> \<not> deny_write h)"
      unfolding upd_inode_fields using orig D(2) by metis
  qed (use g in simp_all)
qed

lemma same_disk_upd [simp]: "same_disk s (upd_inode s p f)"
  by (simp add: same_disk_def)

lemma same_inodes_upd:
  assumes "opened s p = Some i" and "sector (f i) = sector i" and "removed (f i) = removed i"
    and "deny_write_cnt (f i) = deny_write_cnt i"
  shows "same_inodes s (upd_inode s p f)"
  using assms by (simp add: same_inodes_def opened_upd)

lemma inode_reopen_ok:
  assumes "fs_inv C s J R T" and "opened s p = Some i"
  shows "\<exists>s'. inode_reopen s p = Some (p, s') \<and> fs_inv C s' J R (add_mset p T) \<and> same_disk s s' \<and> same_inodes s s' \<and>
    files s' = files s \<and> dirs s' = dirs s"
proof -
  let ?f = "\<lambda>i. i\<lparr>open_cnt := open_cnt i + 1\<rparr>"
  note t = fs_invD(2) [OF assms(1)]
  have o: "inode_ok C s J T p i" by (rule table_okD(5) [OF t assms(2)])
  have "table_ok C (upd_inode s p ?f) J (add_mset p T)"
    by (rule table_upd [OF t assms(2)]) (use o in \<open>auto simp: inode_ok_def\<close>)
  moreover have "root_tab (upd_inode s p ?f)"
    by (rule root_tab_upd [OF _ assms(2)]) (use fs_invD(3) [OF assms(1)] in \<open>simp_all add: root_ok_def\<close>)
  ultimately have "fs_inv C (upd_inode s p ?f) J R (add_mset p T)"
    using fs_inv_tables [OF assms(1) same_disk_upd] by blast
  moreover have "p \<noteq> NULL" using table_okD(4) [OF t, of p] opened_inodes [OF assms(2)] by auto
  moreover have "same_inodes s (upd_inode s p ?f)" by (rule same_inodes_upd [OF assms(2)]) simp_all
  ultimately show ?thesis using opened_inodes [OF assms(2)] by (simp add: inode_reopen_def)
qed

lemma find_open_ok:
  assumes "table_ok C s J T" and "set ps \<subseteq> set (open_inodes s)"
  shows "\<exists>p. find_open s ps x = Some p \<and>
    (p = NULL \<and> (\<forall>q \<in> set ps. \<forall>i. opened s q = Some i \<longrightarrow> sector i \<noteq> x) \<or>
     p \<noteq> NULL \<and> (\<exists>i. opened s p = Some i \<and> sector i = x))"
  using assms(2)
proof (induction ps)
  case (Cons q ps)
  obtain i where i: "inodes s q = Some i" "opened s q = Some i"
    using Cons.prems table_okD(3) [OF assms(1)] by (auto simp: opened_def)
  have "q \<noteq> NULL" using table_okD(4) [OF assms(1), of q] i(1) by auto
  then show ?case using Cons i by (cases "sector i = x") auto
qed simp

text \<open>A new inode of an address that was not in use.\<close>

lemma inode_fresh:
  assumes inv: "fs_inv {} s J R T" and x: "x \<in> J" and new: "\<forall>q i. opened s q = Some i \<longrightarrow> sector i \<noteq> x"
    and sd: "same_disk s s'" and q: "q = mem_brk s" "mem_brk s < mem_brk s'"
    and i: "i = \<lparr>sector = x, open_cnt = 1, removed = False, deny_write_cnt = 0, data = idata (fs_device s) x\<rparr>"
    and f: "open_inodes s' = q # open_inodes s" "inodes s' = (inodes s)(q \<mapsto> i)" "files s' = files s" "dirs s' = dirs s"
  shows "fs_inv {} s' J R (add_mset q T)" and "same_inodes s s'" and "opened s' q = Some i"
proof -
  note t = table_okD [OF fs_invD(2) [OF inv]] and r = root_tabD [of s] and sf = same_disk_fields [OF sd]
  have rt: "root_tab s" using fs_invD(3) [OF inv] by (simp add: root_ok_def)
  have nq: "q \<notin> dom (inodes s) \<union> dom (files s) \<union> dom (dirs s)" using t(4) [of q] q(1) by blast
  have op: "opened s' = (opened s)(q \<mapsto> i)" by (auto simp: opened_def f restrict_map_def fun_eq_iff)
  then show "opened s' q = Some i" by simp
  have nd: "q \<notin> dom (opened s)" using nq by (auto simp: opened_def)
  have refs: "frefs {} s' = frefs {} s" "drefs {} s' = drefs {} s" "denials {} s' = denials {} s" using refs_cong [of s' s] f by simp_all
  have "frefs {} s q = {}" "drefs {} s q = {}" "denials {} s q = {}"
    using t(7,8) nd by (fastforce simp: frefs_def drefs_def denials_def)+
  moreover have "count T q = 0" using t(9) nd by (auto simp: count_eq_zero_iff)
  ultimately have iq: "inode_ok {} s' J (add_mset q T) q i"
    using x by (simp add: inode_ok_def refs i sf)
  have "table_ok {} s' J (add_mset q T)"
  proof (rule table_okI)
    show "inode_ok {} s' J (add_mset q T) p j" if "opened s' p = Some j" for p j
    proof (cases "p = q")
      case False
      then have "inode_ok {} s J T p j" using that op t(5) by simp
      then show ?thesis using False by (simp add: inode_ok_def refs sf)
    qed (use that op iq in simp)
    show "p = r" if a: "opened s' p = Some j" "opened s' r = Some k" "sector j = sector k" for p r j k
    proof -
      have "sector i = x" by (simp add: i)
      then consider "p = q" "r = q" | "opened s p = Some j" "opened s r = Some k"
        using a op new by (cases "p = q"; cases "r = q") auto
      then show ?thesis using t(6) a(3) by cases simp_all
    qed
    show "0 < p \<and> p < mem_brk s'" if "p \<in> dom (inodes s') \<union> dom (files s') \<union> dom (dirs s')" for p
    proof -
      have "p = q \<or> p \<in> dom (inodes s) \<union> dom (files s) \<union> dom (dirs s)" using that f by auto
      then show ?thesis using t(1) t(4) [of p] q by (elim disjE) (simp, meson less_trans)
    qed
    show "f_inode g \<in> dom (opened s')" if "files s' p = Some g" for p g using t(7) that f op by auto
    show "dir_inode g \<in> dom (opened s')" if "dirs s' p = Some g" for p g using t(8) that f op by auto
  qed (use t nq nd f op q in auto)
  moreover have "root_tab s'"
  proof -
    obtain g j where g: "files s (free_map_file s) = Some g" "opened s (f_inode g) = Some j" "sector j = 0"
      using r(3) [OF rt] by blast
    show ?thesis
    proof (rule root_tabI [of _ g j])
      fix p k assume a: "opened s' p = Some k" "removed k"
      then have "opened s p = Some k" using op i by (auto split: if_splits)
      then show "sector k \<notin> {0, 1} \<and> sector k \<notin> inode_sector ` set (used_entries (root_entries s'))"
        using r(1) [OF rt] a(2) sf by simp
    next
      fix fp h k assume a: "files s' fp = Some h" "opened s' (f_inode h) = Some k"
      then have "f_inode h \<noteq> q" using t(7) [of fp h] f nd by auto
      then show "sector k \<noteq> 1 \<and> (sector k = 0 \<longrightarrow> fp = free_map_file s' \<and> \<not> deny_write h)"
        using r(2) [OF rt, of fp h k] a op f sd by (simp add: same_disk_def)
    qed (use g op nd f sd in \<open>auto simp: same_disk_def\<close>)
  qed
  ultimately show "fs_inv {} s' J R (add_mset q T)" by (rule fs_inv_tables [OF inv sd])
  show "same_inodes s s'" using op nd by (auto simp: same_inodes_def)
qed

lemma inode_open_ok:
  assumes "fs_inv {} s J R T" and "x \<in> J"
  shows "\<exists>p i s'. inode_open s x = Some (p, s') \<and> p \<noteq> NULL \<and> fs_inv {} s' J R (add_mset p T) \<and> same_disk s s' \<and>
    same_inodes s s' \<and> files s' = files s \<and> dirs s' = dirs s \<and> opened s' p = Some i \<and> sector i = x"
proof -
  note inv = fs_invD [OF assms(1)] and t = table_okD [OF fs_invD(2) [OF assms(1)]]
  obtain p where p: "find_open s (open_inodes s) x = Some p"
      "p = NULL \<and> (\<forall>q \<in> set (open_inodes s). \<forall>i. opened s q = Some i \<longrightarrow> sector i \<noteq> x) \<or>
       p \<noteq> NULL \<and> (\<exists>i. opened s p = Some i \<and> sector i = x)"
    using find_open_ok [OF inv(2) order_refl, of x] by blast
  show ?thesis
  proof (cases "p = NULL")
    case False
    then obtain i where i: "opened s p = Some i" "sector i = x" using p(2) by auto
    obtain s' where s': "inode_reopen s p = Some (p, s')" "fs_inv {} s' J R (add_mset p T)" "same_disk s s'"
        "same_inodes s s'" "files s' = files s" "dirs s' = dirs s"
      using inode_reopen_ok [OF assms(1) i(1)] by blast
    obtain i' where "opened s' p = Some i'" "sector i' = x" using s'(4) i by (auto simp: same_inodes_def)
    then show ?thesis using s' p(1) False by (auto simp: inode_open_def)
  next
    case True
    then have new: "\<forall>q i. opened s q = Some i \<longrightarrow> sector i \<noteq> x" using p(2) dom_opened [OF inv(2)] by auto
    obtain q s1 where m: "fs_malloc s = (q, s1)" by fastforce
    note ml = fs_malloc_cases [OF inv(5) m]
    have q: "q \<noteq> NULL" "q = mem_brk s" "mem_brk s1 = mem_brk s + 1" using ml inv(4) by auto
    let ?s1 = "s1\<lparr>open_inodes := q # open_inodes s1\<rparr>"
    have x: "x < block_size (fs_device ?s1)"
      using store_okD(11) [OF inv(1) assms(2)] io_fields(8) [OF touch_io [OF ml(1)]] by simp
    obtain s2 where s2: "fs_read ?s1 x = Some (content (fs_device ?s1) x, s2)" "touch ?s1 s2" using fs_read_ok [OF x] by blast
    note f1 = io_fields [OF touch_io [OF ml(1)]] and f2 = io_fields [OF touch_io [OF s2(2)]]
    let ?i = "\<lparr>sector = x, open_cnt = 1, removed = False, deny_write_cnt = 0, data = decode_inode (content (fs_device s) x)\<rparr>"
    let ?s' = "s2\<lparr>inodes := (inodes s2)(q \<mapsto> ?i)\<rparr>"
    have c: "content (fs_device s1) = content (fs_device s)" "content (fs_device s2) = content (fs_device s)"
      using ml(1) s2(2) by (simp_all add: touch_def)
    have sd: "same_disk s ?s'" using f1 f2 c by (simp add: same_disk_def)
    have brk: "mem_brk s < mem_brk ?s'" using q f2(10) by simp
    have d: "?i = \<lparr>sector = x, open_cnt = 1, removed = False, deny_write_cnt = 0, data = idata (fs_device s) x\<rparr>"
      by (simp add: idata_def)
    have "fs_inv {} ?s' J R (add_mset q T)" "same_inodes s ?s'" "opened ?s' q = Some ?i"
      by (rule inode_fresh [OF assms new sd q(2) brk d]; use f1 f2 in simp)+
    then show ?thesis using sd s2(1) m p(1) True q f1 f2 c by (auto simp: inode_open_def)
  qed
qed

section \<open>Closing inodes\<close>

text \<open>The inodes other than \<open>p\<close> stay as they are.\<close>

definition other_inodes :: "ptr \<Rightarrow> fs \<Rightarrow> fs \<Rightarrow> bool" where
  "other_inodes p s s' \<longleftrightarrow> (\<forall>q. q \<noteq> p \<longrightarrow> opened s' q = opened s q)"

lemma last_reference:
  assumes t: "table_ok C s J T" and p: "opened s p = Some i" and T: "p \<in># T" and c: "open_cnt i = 1"
  shows "frefs C s p = {}" "drefs C s p = {}" "count T p = 1"
proof -
  have "card (frefs C s p) + card (drefs C s p) + count T p = 1" using table_okD(5) [OF t p] c by (simp add: inode_ok_def)
  moreover have "1 \<le> count T p" using T by simp
  ultimately have "card (frefs C s p) = 0" "card (drefs C s p) = 0" "count T p = 1" by linarith+
  then show "frefs C s p = {}" "drefs C s p = {}" "count T p = 1" using finite_refs [OF t] by simp_all
qed

lemma detach:
  assumes inv: "fs_inv C s J R T" and p: "opened s p = Some i" and T: "p \<in># T" and c: "open_cnt i = 1"
    and J': "J' = J \<or> removed i \<and> J' = J - {sector i}" and st: "store_ok (fs_device s) (free_map s) J' R'"
    and s1: "s1 = (upd_inode s p f)\<lparr>open_inodes := remove1 p (open_inodes s)\<rparr>"
  shows "fs_inv C s1 J' R' (T - {#p#})" and "opened s1 = (opened s)(p := None)"
proof -
  note t = table_okD [OF fs_invD(2) [OF inv]] and last = last_reference [OF fs_invD(2) [OF inv] p T c]
  have rt: "root_tab s" using fs_invD(3) [OF inv] by (simp add: root_ok_def)
  note r = root_tabD [OF rt]
  have sd: "same_disk s s1" by (simp add: s1 same_disk_def)
  note sf = same_disk_fields [OF sd]
  have f1: "files s1 = files s" "dirs s1 = dirs s" "free_map_file s1 = free_map_file s" "fs_device s1 = fs_device s"
    "free_map s1 = free_map s" "mem_brk s1 = mem_brk s" "dom (inodes s1) = dom (inodes s)"
    using upd_inode_fields(10) [of s p f] by (simp_all add: s1)
  show op: "opened s1 = (opened s)(p := None)"
    using t(2) by (auto simp: s1 opened_def upd_inode_def restrict_map_def fun_eq_iff)
  have refs: "frefs C s1 = frefs C s" "drefs C s1 = drefs C s" "denials C s1 = denials C s" using refs_cong [of s1 s] f1 by simp_all
  have sec: "sector j \<noteq> sector i" if "q \<noteq> p" "opened s q = Some j" for q j using t(6) [OF that(2) p] that(1) by blast
  have fp: "f_inode g \<noteq> p" if "files s q = Some g" "q \<notin> C" for q g using last(1) that by (auto simp: frefs_def)
  have dp: "dir_inode g \<noteq> p" if "dirs s q = Some g" "q \<notin> C" for q g using last(2) that by (auto simp: drefs_def)
  have "table_ok C s1 J' (T - {#p#})"
  proof (rule table_okI)
    show "inode_ok C s1 J' (T - {#p#}) q j" if "opened s1 q = Some j" for q j
    proof -
      have q: "q \<noteq> p" "opened s q = Some j" using that op by (auto split: if_splits)
      then have "sector j \<in> J'" using t(5) [OF q(2)] sec [OF q] J' by (auto simp: inode_ok_def)
      then show ?thesis using t(5) [OF q(2)] q(1) by (simp add: inode_ok_def refs f1)
    qed
    show "q = r" if "opened s1 q = Some j" "opened s1 r = Some k" "sector j = sector k" for q r j k
      using that op t(6) by (auto split: if_splits)
    show "set_mset (T - {#p#}) \<subseteq> dom (opened s1)"
    proof
      fix q assume q: "q \<in># T - {#p#}"
      then have "q \<noteq> p" using last(3) by (auto simp: in_diff_count)
      moreover have "q \<in> dom (opened s)" using q t(9) by (auto dest: in_diffD)
      ultimately show "q \<in> dom (opened s1)" using op by simp
    qed
    show "set (open_inodes s1) \<subseteq> dom (inodes s1)" using t(2,3) f1(7) by (auto simp: s1)
    show "f_inode g \<in> dom (opened s1)" if "files s1 q = Some g" "q \<notin> C" for q g
      using t(7) [of q g] fp [of q g] that f1 op by auto
    show "dir_inode g \<in> dom (opened s1)" if "dirs s1 q = Some g" "q \<notin> C" for q g
      using t(8) [of q g] dp [of q g] that f1 op by auto
    show "0 < q \<and> q < mem_brk s1" if "q \<in> dom (inodes s1) \<union> dom (files s1) \<union> dom (dirs s1)" for q
      using t(4) [of q] that unfolding f1 .
  qed (use t(1,2,10,11) f1 in \<open>simp_all add: s1\<close>)
  moreover have "root_tab s1"
    by (rule root_tab_sub [OF rt]) (use op f1 sf fp fs_invD(11) [OF inv] in auto)
  moreover have "root_ok s1 J'"
  proof -
    have e: "entries_ok J (root_entries s)" "{0, 1} \<subseteq> J" using fs_invD(3) [OF inv] by (simp_all add: root_ok_def)
    have x: "sector i \<notin> {0, 1}" if "removed i" using r(1) [OF p that] by blast
    have "inode_sector e \<noteq> sector i" if "removed i" "e \<in> set (used_entries (root_entries s))" for e
      using r(1) [OF p that(1)] that(2) by (metis imageI)
    then have "entries_ok J' (root_entries s)" using e(1) J' unfolding entries_ok_def by blast
    moreover have "{0, 1} \<subseteq> J'" using e(2) J' x by auto
    ultimately show ?thesis using fs_invD(3) [OF inv] \<open>root_tab s1\<close> f1 sf by (simp add: root_ok_def)
  qed
  ultimately show "fs_inv C s1 J' R' (T - {#p#})"
    using st fs_invD(4,11) [OF inv] sd by (simp add: fs_inv_def fs_wf_def f1 mem_good_def same_disk_def)
qed

lemma free_zombie:
  assumes "fs_inv C s J R T" and "p \<notin> set (open_inodes s)" and "s' = s\<lparr>inodes := (inodes s)(p := None)\<rparr>"
  shows "fs_inv C s' J R T" and "opened s' = opened s"
proof -
  show op: "opened s' = opened s" using assms(2) by (auto simp: assms(3) opened_def restrict_map_def fun_eq_iff)
  note t = table_okD [OF fs_invD(2) [OF assms(1)]]
  have f: "files s' = files s" "dirs s' = dirs s" "mem_brk s' = mem_brk s" "open_inodes s' = open_inodes s"
    "free_map_file s' = free_map_file s" "fs_device s' = fs_device s" by (simp_all add: assms(3))
  have refs: "frefs C s' = frefs C s" "drefs C s' = drefs C s" "denials C s' = denials C s" using refs_cong [of s' s] f by simp_all
  have "table_ok C s' J T"
  proof (rule table_okI)
    show "inode_ok C s' J T q j" if "opened s' q = Some j" for q j using t(5) [of q j] that by (simp add: op inode_ok_def refs f)
    show "set (open_inodes s') \<subseteq> dom (inodes s')" using t(3) assms(2) by (auto simp: assms(3))
    show "0 < q \<and> q < mem_brk s'" if "q \<in> dom (inodes s') \<union> dom (files s') \<union> dom (dirs s')" for q
    proof -
      have "q \<in> dom (inodes s) \<union> dom (files s) \<union> dom (dirs s)" using that by (auto simp: assms(3) split: if_splits)
      from t(4) [OF this] show ?thesis by (simp add: f)
    qed
  qed (use t(1,2,6-11) in \<open>simp_all add: op f\<close>)
  moreover have "root_tab s'"
    by (rule root_tab_sub [of s]) (use fs_invD(3) [OF assms(1)] in \<open>simp_all add: root_ok_def op f root_entries_def\<close>)
  moreover have "same_disk s s'" by (simp add: same_disk_def assms(3))
  ultimately show "fs_inv C s' J R T" using fs_inv_tables [OF assms(1)] by blast
qed

lemma same_tables_opened: "same_tables s s' \<Longrightarrow> opened s' = opened s"
  by (simp add: same_tables_def opened_def)

lemma release_inode:
  assumes inv: "fs_inv C s J (R \<union> owned (fs_device s0) x) T" and st: "store_ok (fs_device s0) m J0 R" "x \<in> J0"
    and sz: "block_size (fs_device s) = block_size (fs_device s0)" and d: "d = idata (fs_device s0) x"
  shows "\<exists>s1 s'. free_map_release s x 1 = Some s1 \<and> free_map_release s1 (start d) (bytes_to_sectors (ilength d)) = Some s' \<and>
    same_tables s s' \<and> fs_inv C s' J R T \<and> kept (J - {0}) s s' \<and> synced s'"
proof -
  let ?O = "owned (fs_device s0) x" and ?n = "bytes_to_sectors (ilength d)"
  have x: "x \<notin> extent d" "x < block_size (fs_device s0)" "disk_ok (fs_device s0) d" "?O \<inter> R = {}"
    using store_okD(5,6,9,11) [OF st(1) st(2)] d by auto
  have O: "?O = insert x (slots (start d, ?n))" by (simp add: owned_def d [symmetric] extent_def slots_def)
  have sx: "slots (x, 1) = {x}" by (auto simp: slots_def)
  have le: "x + 1 \<le> block_size (fs_device s)" using x(2) sz by simp
  obtain s1 where s1: "free_map_release s x 1 = Some s1" "same_tables s s1" "fs_inv C s1 J (R \<union> ?O - {x}) T"
      "kept (J - {0}) s s1" using free_map_release_ok [OF inv _ le] O sx by auto
  have R1: "R \<union> ?O - {x} = R \<union> slots (start d, ?n)" using x(1,4) O by (auto simp: extent_def slots_def)
  have R2: "R \<union> slots (start d, ?n) - slots (start d, ?n) = R" using x(4) O by auto
  have le2: "start d + ?n \<le> block_size (fs_device s1)" using x(3) s1(2) sz by (simp add: disk_ok_def same_tables_def)
  obtain s' where s': "free_map_release s1 (start d) ?n = Some s'" "same_tables s1 s'" "fs_inv C s' J R T"
      "kept (J - {0}) s1 s'" "synced s'"
    using free_map_release_ok [OF s1(3) _ le2] R1 R2 by auto
  show ?thesis using s1 s' same_tables_trans [OF s1(2) s'(2)] kept_trans [OF s1(4) s'(4)] by blast
qed

lemma inode_close_ok:
  assumes inv: "fs_inv C s J R T" and p: "opened s p = Some i" and T: "p \<in># T"
  shows "\<exists>s' J'. inode_close s p = Some s' \<and> fs_inv C s' J' R (T - {#p#}) \<and>
    (J' = J \<or> removed i \<and> J' = J - {sector i}) \<and> kept (J' - {0}) s s' \<and> (synced s \<longrightarrow> synced s') \<and> other_inodes p s s' \<and>
    files s' = files s \<and> dirs s' = dirs s \<and> free_map_file s' = free_map_file s \<and>
    (opened s' p = None \<or> opened s' p = Some (i\<lparr>open_cnt := open_cnt i - 1\<rparr>))"
proof -
  let ?f = "\<lambda>i. i\<lparr>open_cnt := open_cnt i - 1\<rparr>"
  note t = table_okD [OF fs_invD(2) [OF inv]]
  have ip: "inodes s p = Some i" by (rule opened_inodes [OF p])
  have ok: "inode_ok C s J T p i" by (rule t(5) [OF p])
  have nn: "p \<noteq> NULL" using t(4) [of p] ip by auto
  show ?thesis
  proof (cases "open_cnt i = 1")
    case False
    let ?s = "upd_inode s p ?f"
    have "1 \<le> count T p" using T by simp
    then have "table_ok C ?s J (T - {#p#})"
      using ok False by (intro table_upd [OF fs_invD(2) [OF inv] p]) (auto simp: inode_ok_def dest: in_diffD)
    moreover have "root_tab ?s"
      by (rule root_tab_upd [OF _ p]) (use fs_invD(3) [OF inv] in \<open>simp_all add: root_ok_def\<close>)
    ultimately have "fs_inv C ?s J R (T - {#p#})" by (rule fs_inv_tables [OF inv same_disk_upd])
    moreover have "inode_close s p = Some ?s" using ip nn False by (simp add: inode_close_def Let_def)
    ultimately show ?thesis
      using same_disk_fields [OF same_disk_upd [of s p ?f]] opened_upd [OF p, of ?f]
      by (intro exI [of _ ?s] exI [of _ J]) (simp add: other_inodes_def)
  next
    case last: True
    let ?s1 = "(upd_inode s p ?f)\<lparr>open_inodes := remove1 p (open_inodes s)\<rparr>"
    have np: "p \<notin> set (remove1 p (open_inodes s))" using t(2) by simp
    show ?thesis
    proof (cases "removed i")
      case False
      let ?s' = "?s1\<lparr>inodes := (inodes ?s1)(p := None)\<rparr>"
      note d = detach [OF inv p T last disjI1 [OF refl] fs_invD(1) [OF inv] refl, of ?f]
      have "p \<notin> set (open_inodes ?s1)" using np by simp
      note z = free_zombie [OF d(1) this refl]
      have "inode_close s p = Some ?s'" using ip nn last False by (simp add: inode_close_def Let_def)
      moreover have "same_disk s ?s'" by (simp add: same_disk_def)
      ultimately show ?thesis
        using z d(2) same_disk_fields [of s ?s'] by (intro exI [of _ ?s'] exI [of _ J]) (simp add: other_inodes_def)
    next
      case rem: True
      let ?x = "sector i" and ?J = "J - {sector i}"
      have x: "?x \<in> J" "data i = idata (fs_device s) ?x" using ok by (simp_all add: inode_ok_def)
      have J': "?J = J \<or> removed i \<and> ?J = ?J" using rem by simp
      note d = detach [OF inv p T last J' store_drop [OF fs_invD(1) [OF inv] x(1)] refl, of ?f]
      obtain s2 s3 where r: "free_map_release ?s1 ?x 1 = Some s2"
          "free_map_release s2 (start (data i)) (bytes_to_sectors (ilength (data i))) = Some s3"
          "same_tables ?s1 s3" "fs_inv C s3 ?J R (T - {#p#})" "kept (?J - {0}) ?s1 s3" "synced s3"
        using release_inode [OF d(1) fs_invD(1) [OF inv] x(1) _ x(2)] by auto
      let ?s' = "s3\<lparr>inodes := (inodes s3)(p := None)\<rparr>"
      have s3: "open_inodes s3 = remove1 p (open_inodes s)" "files s3 = files s" "dirs s3 = dirs s"
        "free_map_file s3 = free_map_file s" using r(3) by (simp_all add: same_tables_def)
      have "p \<notin> set (open_inodes s3)" using np s3(1) by simp
      note z = free_zombie [OF r(4) this refl]
      have "inode_close s p = Some ?s'" using ip nn last rem r(1,2) by (simp add: inode_close_def Let_def)
      moreover have "kept (?J - {0}) s ?s'" using r(5) by (simp add: kept_def)
      moreover have "synced ?s'" using r(6) by (simp add: synced_def)
      ultimately show ?thesis
        using z d(2) same_tables_opened [OF r(3)] s3 rem
        by (intro exI [of _ ?s'] exI [of _ ?J]) (simp add: other_inodes_def)
    qed
  qed
qed

section \<open>Open files and directories\<close>

text \<open>
  A step that moves references between files, directories and the running operation:
  the open inodes stay, and so do the number of references and the number of denials.
\<close>

lemma table_move:
  assumes t: "table_ok C s J T" and op: "open_inodes s' = open_inodes s" "inodes s' = inodes s" "fs_device s' = fs_device s"
    and brk: "mem_brk s \<le> mem_brk s'" "\<And>q. q \<in> dom (files s') \<union> dom (dirs s') \<Longrightarrow> 0 < q \<and> q < mem_brk s'"
    and refs: "\<And>q. q \<in> dom (opened s) \<Longrightarrow> card (frefs C' s' q) + card (drefs C' s' q) + count T' q = card (frefs C s q) + card (drefs C s q) + count T q"
    and den: "\<And>q. q \<in> dom (opened s) \<Longrightarrow> card (denials C' s' q) = card (denials C s q)"
    and f: "\<And>q g. files s' q = Some g \<Longrightarrow> q \<notin> C' \<Longrightarrow> f_inode g \<in> dom (opened s)"
    and d: "\<And>q g. dirs s' q = Some g \<Longrightarrow> q \<notin> C' \<Longrightarrow> dir_inode g \<in> dom (opened s)" and T: "set_mset T' \<subseteq> dom (opened s)" "C' \<subseteq> {..<mem_brk s'}" "dom (files s') \<inter> dom (dirs s') = {}"
  shows "table_ok C' s' J T'"
proof (rule table_okI)
  note D = table_okD [OF t]
  have o: "opened s' = opened s" using op by (simp add: opened_def)
  show "inode_ok C' s' J T' q j" if "opened s' q = Some j" for q j
  proof -
    have q: "q \<in> dom (opened s)" using that o by auto
    have "inode_ok C s J T q j" using D(5) that o by simp
    then show ?thesis using refs [OF q] den [OF q] by (simp add: inode_ok_def op)
  qed
  show "0 < q \<and> q < mem_brk s'" if "q \<in> dom (inodes s') \<union> dom (files s') \<union> dom (dirs s')" for q
    using D(4) [of q] brk(1) brk(2) [of q] that op by (cases "q \<in> dom (inodes s)") auto
  show "p = q" if "opened s' p = Some i" "opened s' q = Some j" "sector i = sector j" for p q i j
    using D(6) that unfolding o by blast
qed (use table_okD(1-3) [OF t] op brk(1) f d T in \<open>simp_all add: opened_def\<close>)

lemma root_tab_files:
  assumes "root_tab s" and "opened s' = opened s" and "root_entries s' = root_entries s" and "free_map_file s' = free_map_file s"
    and "\<And>fp f i. files s' fp = Some f \<Longrightarrow> opened s (f_inode f) = Some i \<Longrightarrow>
      sector i \<notin> {0, 1} \<or> files s fp = Some f"
    and "files s' (free_map_file s) = files s (free_map_file s)"
  shows "root_tab s'"
proof -
  note D = root_tabD [OF assms(1)]
  obtain g j where g: "files s (free_map_file s) = Some g" "opened s (f_inode g) = Some j" "sector j = 0" using D(3) by blast
  show ?thesis
  proof (rule root_tabI [of _ g j])
    fix p i assume "opened s' p = Some i" "removed i"
    then show "sector i \<notin> {0, 1} \<and> sector i \<notin> inode_sector ` set (used_entries (root_entries s'))"
      unfolding assms(2,3) by (rule D(1))
  next
    fix fp h i assume a: "files s' fp = Some h" "opened s' (f_inode h) = Some i"
    then show "sector i \<noteq> 1 \<and> (sector i = 0 \<longrightarrow> fp = free_map_file s' \<and> \<not> deny_write h)"
      using assms(5) [of fp h i] D(2) [of fp h i] unfolding assms(2,4) by auto
  qed (use g assms(2,4,6) in simp_all)
qed

lemma opened_not_null: "fs_inv C s J R T \<Longrightarrow> opened s p = Some i \<Longrightarrow> p \<noteq> NULL"
  using table_okD(4) [OF fs_invD(2), of C s J R T p] opened_inodes [of s p i] by auto

lemma file_open_ok:
  assumes inv: "fs_inv {} s J R T" and p: "opened s p = Some i" "sector i \<notin> {0, 1}" and T: "p \<in># T"
  shows "\<exists>fp s'. file_open s p = Some (fp, s') \<and> fp \<noteq> NULL \<and> fp \<notin> dom (files s) \<and> fs_inv {} s' J R (T - {#p#}) \<and>
    same_disk s s' \<and> opened s' = opened s \<and> dirs s' = dirs s \<and>
    files s' = (files s)(fp \<mapsto> \<lparr>f_inode = p, pos = 0, deny_write = False\<rparr>)"
proof -
  note I = fs_invD [OF inv] and t = table_okD [OF fs_invD(2) [OF inv]]
  obtain q s1 where m: "fs_malloc s = (q, s1)" by fastforce
  note ml = fs_malloc_cases [OF I(5) m]
  have q: "q \<noteq> NULL" "q = mem_brk s" "mem_brk s1 = mem_brk s + 1" using ml I(4) by auto
  note f1 = io_fields [OF touch_io [OF ml(1)]]
  let ?s = "s1\<lparr>files := (files s1)(q \<mapsto> \<lparr>f_inode = p, pos = 0, deny_write = False\<rparr>)\<rparr>"
  have inv1: "fs_inv {} s1 J R T" by (rule fs_inv_touch [OF inv ml(1)])
  have nq: "q \<notin> dom (files s)" "q \<notin> dom (dirs s)" using t(4) [of q] q(2) by auto
  have op1: "opened s1 = opened s" by (simp add: opened_def f1)
  have fr: "frefs {} ?s r = (if r = p then insert q (frefs {} s1 r) else frefs {} s1 r)" for r
    using nq f1 by (auto simp: frefs_def split: if_splits)
  have dn: "denials {} ?s r = denials {} s1 r" "drefs {} ?s r = drefs {} s1 r" for r
    using nq f1 by (auto simp: denials_def drefs_def split: if_splits)
  have nf: "q \<notin> frefs {} s1 p" using nq f1 by (auto simp: frefs_def)
  have "table_ok {} ?s J (T - {#p#})"
  proof (rule table_move [OF fs_invD(2) [OF inv1]])
    show "0 < r \<and> r < mem_brk ?s" if "r \<in> dom (files ?s) \<union> dom (dirs ?s)" for r
    proof -
      have "r = q \<or> r \<in> dom (inodes s) \<union> dom (files s) \<union> dom (dirs s)" using that f1 by auto
      then show ?thesis using t(4) [of r] q t(1) by (elim disjE) auto
    qed
    show "card (frefs {} ?s r) + card (drefs {} ?s r) + count (T - {#p#}) r = card (frefs {} s1 r) + card (drefs {} s1 r) + count T r" for r
      using T nf finite_refs [OF fs_invD(2) [OF inv1]] by (auto simp: fr dn)
    show "f_inode g \<in> dom (opened s1)" if "files ?s r = Some g" for r g
      using that t(7) [of r g] p(1) f1 op1 by (auto split: if_splits)
    show "dir_inode g \<in> dom (opened s1)" if "dirs ?s r = Some g" for r g using that t(8) [of r g] f1 op1 by simp
    show "set_mset (T - {#p#}) \<subseteq> dom (opened s1)" using t(9) op1 by (auto dest: in_diffD)
    show "dom (files ?s) \<inter> dom (dirs ?s) = {}" using t(11) nq f1 by auto
  qed (simp_all add: dn)
  moreover have "root_tab ?s"
  proof (rule root_tab_files [of s1])
    show "root_tab s1" using fs_invD(3) [OF inv1] by (simp add: root_ok_def)
    show "files ?s (free_map_file s1) = files s1 (free_map_file s1)"
      using free_map_file_open [OF inv] nq f1 by (metis (no_types, lifting) domI fs.select_convs(6) fs.update_convs(6) fun_upd_apply fs.surjective)
  qed (use p op1 f1 in \<open>auto simp: opened_def root_entries_def split: if_splits\<close>)
  moreover have "same_disk s1 ?s" by (simp add: same_disk_def)
  ultimately have "fs_inv {} ?s J R (T - {#p#})" using fs_inv_tables [OF inv1] by blast
  moreover have "file_open s p = Some (q, ?s)" using m q(1) opened_not_null [OF inv p(1)] by (simp add: file_open_def)
  moreover have "same_disk s ?s" using touch_same_disk [OF ml(1)] by (simp add: same_disk_def)
  ultimately show ?thesis using q(1) nq op1 f1 by (auto simp: opened_def)
qed

lemma dir_open_ok:
  assumes inv: "fs_inv {} s J R T" and p: "opened s p = Some i" and T: "p \<in># T"
  shows "\<exists>dp s'. dir_open s p = Some (dp, s') \<and> dp \<noteq> NULL \<and> dp \<notin> dom (dirs s) \<and> fs_inv {} s' J R (T - {#p#}) \<and>
    same_disk s s' \<and> opened s' = opened s \<and> files s' = files s \<and>
    dirs s' = (dirs s)(dp \<mapsto> \<lparr>dir_inode = p, dir_pos = 0\<rparr>)"
proof -
  note I = fs_invD [OF inv] and t = table_okD [OF fs_invD(2) [OF inv]]
  obtain q s1 where m: "fs_malloc s = (q, s1)" by fastforce
  note ml = fs_malloc_cases [OF I(5) m]
  have q: "q \<noteq> NULL" "q = mem_brk s" "mem_brk s1 = mem_brk s + 1" using ml I(4) by auto
  note f1 = io_fields [OF touch_io [OF ml(1)]]
  let ?s = "s1\<lparr>dirs := (dirs s1)(q \<mapsto> \<lparr>dir_inode = p, dir_pos = 0\<rparr>)\<rparr>"
  have inv1: "fs_inv {} s1 J R T" by (rule fs_inv_touch [OF inv ml(1)])
  have nq: "q \<notin> dom (files s)" "q \<notin> dom (dirs s)" using t(4) [of q] q(2) by auto
  have op1: "opened s1 = opened s" by (simp add: opened_def f1)
  have fr: "drefs {} ?s r = (if r = p then insert q (drefs {} s1 r) else drefs {} s1 r)" for r
    using nq f1 by (auto simp: drefs_def split: if_splits)
  have dn: "denials {} ?s r = denials {} s1 r" "frefs {} ?s r = frefs {} s1 r" for r by (simp_all add: denials_def frefs_def)
  have nf: "q \<notin> drefs {} s1 p" using nq f1 by (auto simp: drefs_def)
  have "table_ok {} ?s J (T - {#p#})"
  proof (rule table_move [OF fs_invD(2) [OF inv1]])
    show "0 < r \<and> r < mem_brk ?s" if "r \<in> dom (files ?s) \<union> dom (dirs ?s)" for r
    proof -
      have "r = q \<or> r \<in> dom (inodes s) \<union> dom (files s) \<union> dom (dirs s)" using that f1 by auto
      then show ?thesis using t(4) [of r] q t(1) by (elim disjE) auto
    qed
    show "card (frefs {} ?s r) + card (drefs {} ?s r) + count (T - {#p#}) r = card (frefs {} s1 r) + card (drefs {} s1 r) + count T r" for r
      using T nf finite_refs [OF fs_invD(2) [OF inv1]] by (auto simp: fr dn)
    show "dir_inode g \<in> dom (opened s1)" if "dirs ?s r = Some g" for r g
      using that t(8) [of r g] p f1 op1 by (auto split: if_splits)
    show "f_inode g \<in> dom (opened s1)" if "files ?s r = Some g" for r g using that t(7) [of r g] f1 op1 by simp
    show "set_mset (T - {#p#}) \<subseteq> dom (opened s1)" using t(9) op1 by (auto dest: in_diffD)
    show "dom (files ?s) \<inter> dom (dirs ?s) = {}" using t(11) nq f1 by auto
  qed (simp_all add: dn)
  moreover have "root_tab ?s"
    by (rule root_tab_files [of s1]) (use fs_invD(3) [OF inv1] in \<open>simp_all add: root_ok_def opened_def root_entries_def\<close>)
  moreover have "same_disk s1 ?s" by (simp add: same_disk_def)
  ultimately have "fs_inv {} ?s J R (T - {#p#})" using fs_inv_tables [OF inv1] by blast
  moreover have "dir_open s p = Some (q, ?s)" using m q(1) opened_not_null [OF inv p(1)] by (simp add: dir_open_def)
  moreover have "same_disk s ?s" using touch_same_disk [OF ml(1)] by (simp add: same_disk_def)
  ultimately show ?thesis using q(1) nq op1 f1 by (auto simp: opened_def)
qed

text \<open>The reference of a directory or file that is being closed moves to the running operation.\<close>

lemma closing_dir:
  assumes inv: "fs_inv {} s J R T" and d: "dirs s dp = Some d"
  shows "fs_inv {dp} s J R (add_mset (dir_inode d) T)"
proof -
  note t = table_okD [OF fs_invD(2) [OF inv]] and fin = finite_refs [OF fs_invD(2) [OF inv]]
  have nf: "dp \<notin> dom (files s)" using t(11) d by auto
  have dr: "drefs {dp} s q = drefs {} s q - {dp}" "dp \<in> drefs {} s (dir_inode d)"
    "q \<noteq> dir_inode d \<Longrightarrow> dp \<notin> drefs {} s q" for q using d by (auto simp: drefs_def)
  have fr: "frefs {dp} s q = frefs {} s q" "denials {dp} s q = denials {} s q" for q
    using nf by (auto simp: frefs_def denials_def)
  have "table_ok {dp} s J (add_mset (dir_inode d) T)"
  proof (rule table_move [OF fs_invD(2) [OF inv]])
    show "card (frefs {dp} s q) + card (drefs {dp} s q) + count (add_mset (dir_inode d) T) q =
      card (frefs {} s q) + card (drefs {} s q) + count T q" for q
      using dr fin(2) card_Suc_Diff1 [of "drefs {} s q" dp] by (cases "q = dir_inode d") (auto simp: fr)
    show "0 < q \<and> q < mem_brk s" if "q \<in> dom (files s) \<union> dom (dirs s)" for q using t(4) [of q] that by blast
    show "{dp} \<subseteq> {..<mem_brk s}" using t(4) [of dp] d by auto
    show "set_mset (add_mset (dir_inode d) T) \<subseteq> dom (opened s)" using t(8) [OF d] t(9) by auto
  qed (use t(7,8,11) fr in auto)
  moreover have "free_map_file s \<noteq> dp" using nf by (metis domI free_map_file_open [OF inv])
  ultimately show ?thesis using inv by (simp add: fs_inv_def fs_wf_def)
qed

lemma closed_dir:
  assumes inv: "fs_inv {dp} s J R T" and d: "dirs s dp \<noteq> None"
  shows "fs_inv {} (s\<lparr>dirs := (dirs s)(dp := None)\<rparr>) J R T"
proof -
  let ?s = "s\<lparr>dirs := (dirs s)(dp := None)\<rparr>"
  note t = table_okD [OF fs_invD(2) [OF inv]]
  have nf: "dp \<notin> dom (files s)" using t(11) d by auto
  have refs: "frefs {} ?s = frefs {dp} s" "drefs {} ?s = drefs {dp} s" "denials {} ?s = denials {dp} s"
    using nf by (auto simp: frefs_def drefs_def denials_def fun_eq_iff)
  have "table_ok {} ?s J T"
  proof (rule table_move [OF fs_invD(2) [OF inv]])
    show "0 < q \<and> q < mem_brk ?s" if "q \<in> dom (files ?s) \<union> dom (dirs ?s)" for q
      using t(4) [of q] that by (auto split: if_splits)
    show "f_inode g \<in> dom (opened s)" if "files ?s q = Some g" for q g using t(7) [of q g] that nf by auto
    show "dir_inode g \<in> dom (opened s)" if "dirs ?s q = Some g" for q g using t(8) [of q g] that by (auto split: if_splits)
  qed (use t(9,11) refs in auto)
  moreover have "root_tab ?s"
    by (rule root_tab_files [of s]) (use fs_invD(3) [OF inv] in \<open>simp_all add: root_ok_def opened_def root_entries_def\<close>)
  moreover have "same_disk s ?s" by (simp add: same_disk_def)
  ultimately show ?thesis by (intro fs_inv_change [OF inv]) simp_all
qed

end
