(* ===== verification/Fs_Files.thy ===== *)
theory Fs_Files
  imports Fs_Table
begin

text \<open>
  The operations on open files and directories preserve the invariant: reading, writing,
  seeking, denying writes and closing.
\<close>

section \<open>Closing\<close>

lemma dir_close_ok:
  assumes inv: "fs_inv {} s J R T" and d: "dirs s dp = Some d" and p: "opened s (dir_inode d) = Some i"
  shows "\<exists>s' J'. dir_close s dp = Some s' \<and> fs_inv {} s' J' R T \<and>
    (J' = J \<or> removed i \<and> J' = J - {sector i}) \<and> kept (J' - {0}) s s' \<and> (synced s \<longrightarrow> synced s') \<and>
    other_inodes (dir_inode d) s s' \<and> files s' = files s \<and> dirs s' = (dirs s)(dp := None) \<and> free_map_file s' = free_map_file s \<and>
    (opened s' (dir_inode d) = None \<or> opened s' (dir_inode d) = Some (i\<lparr>open_cnt := open_cnt i - 1\<rparr>))"
proof -
  have inv': "fs_inv {dp} s J R (add_mset (dir_inode d) T)" by (rule closing_dir [OF inv d])
  obtain s1 J' where s1: "inode_close s (dir_inode d) = Some s1" "fs_inv {dp} s1 J' R T"
      "J' = J \<or> removed i \<and> J' = J - {sector i}" "kept (J' - {0}) s s1" "synced s \<longrightarrow> synced s1"
      "other_inodes (dir_inode d) s s1" "files s1 = files s" "dirs s1 = dirs s" "free_map_file s1 = free_map_file s"
      "opened s1 (dir_inode d) = None \<or> opened s1 (dir_inode d) = Some (i\<lparr>open_cnt := open_cnt i - 1\<rparr>)"
    using inode_close_ok [OF inv' p] by auto
  let ?s = "s1\<lparr>dirs := (dirs s1)(dp := None)\<rparr>"
  have "dp \<noteq> NULL" using table_okD(4) [OF fs_invD(2) [OF inv], of dp] d by auto
  then have "dir_close s dp = Some ?s" using d s1(1) by (simp add: dir_close_def)
  moreover have "fs_inv {} ?s J' R T" using closed_dir [OF s1(2)] s1(8) d by simp
  moreover have "opened ?s = opened s1" by (simp add: opened_def)
  moreover have "kept (J' - {0}) s ?s" "synced s \<longrightarrow> synced ?s" "other_inodes (dir_inode d) s ?s"
    using s1(4,5,6) by (simp_all add: kept_def synced_def other_inodes_def opened_def)
  moreover have "files ?s = files s" "dirs ?s = (dirs s)(dp := None)" "free_map_file ?s = free_map_file s"
    using s1(7,8,9) by simp_all
  ultimately show ?thesis using s1(3,10) by metis
qed

lemma closing_file:
  assumes inv: "fs_inv {} s J R T" and f: "files s fp = Some f" "\<not> deny_write f" "fp \<noteq> free_map_file s"
  shows "fs_inv {fp} s J R (add_mset (f_inode f) T)"
proof -
  note t = table_okD [OF fs_invD(2) [OF inv]] and fin = finite_refs [OF fs_invD(2) [OF inv]]
  have nf: "fp \<notin> dom (dirs s)" using t(11) f by auto
  have fr: "frefs {fp} s q = frefs {} s q - {fp}" "fp \<in> frefs {} s (f_inode f)"
    "q \<noteq> f_inode f \<Longrightarrow> fp \<notin> frefs {} s q" for q using f by (auto simp: frefs_def)
  have dr: "drefs {fp} s q = drefs {} s q" "denials {fp} s q = denials {} s q" for q
    using nf f by (auto simp: drefs_def denials_def)
  have "table_ok {fp} s J (add_mset (f_inode f) T)"
  proof (rule table_move [OF fs_invD(2) [OF inv]])
    show "card (frefs {fp} s q) + card (drefs {fp} s q) + count (add_mset (f_inode f) T) q =
      card (frefs {} s q) + card (drefs {} s q) + count T q" for q
      using fr fin(1) card_Suc_Diff1 [of "frefs {} s q" fp] by (cases "q = f_inode f") (auto simp: dr)
    show "0 < q \<and> q < mem_brk s" if "q \<in> dom (files s) \<union> dom (dirs s)" for q using t(4) [of q] that by blast
    show "{fp} \<subseteq> {..<mem_brk s}" using t(4) [of fp] f by auto
    show "set_mset (add_mset (f_inode f) T) \<subseteq> dom (opened s)" using t(7) [OF f(1)] t(9) by auto
  qed (use t(7,8,11) dr in auto)
  then show ?thesis using inv f(3) by (simp add: fs_inv_def fs_wf_def)
qed

lemma closed_file:
  assumes inv: "fs_inv {fp} s J R T" and f: "files s fp \<noteq> None"
  shows "fs_inv {} (s\<lparr>files := (files s)(fp := None)\<rparr>) J R T"
proof -
  let ?s = "s\<lparr>files := (files s)(fp := None)\<rparr>"
  note t = table_okD [OF fs_invD(2) [OF inv]]
  have nf: "fp \<notin> dom (dirs s)" using t(11) f by auto
  have refs: "frefs {} ?s = frefs {fp} s" "drefs {} ?s = drefs {fp} s" "denials {} ?s = denials {fp} s"
    using nf by (auto simp: frefs_def drefs_def denials_def fun_eq_iff)
  have "table_ok {} ?s J T"
  proof (rule table_move [OF fs_invD(2) [OF inv]])
    show "0 < q \<and> q < mem_brk ?s" if "q \<in> dom (files ?s) \<union> dom (dirs ?s)" for q
      using t(4) [of q] that by (auto split: if_splits)
    show "f_inode g \<in> dom (opened s)" if "files ?s q = Some g" for q g using t(7) [of q g] that by (auto split: if_splits)
    show "dir_inode g \<in> dom (opened s)" if "dirs ?s q = Some g" for q g using t(8) [of q g] that nf by auto
  qed (use t(9,11) refs in auto)
  moreover have "root_tab ?s"
  proof (rule root_tab_files [of s])
    show "root_tab s" using fs_invD(3) [OF inv] by (simp add: root_ok_def)
    show "files ?s (free_map_file s) = files s (free_map_file s)" using fs_invD(11) [OF inv] by auto
    show "sector i \<notin> {0, 1} \<or> files s q = Some g" if "files ?s q = Some g" for q g i using that by (simp split: if_splits)
  qed (simp_all add: opened_def root_entries_def)
  moreover have "same_disk s ?s" by (simp add: same_disk_def)
  ultimately show ?thesis by (intro fs_inv_change [OF inv]) simp_all
qed

section \<open>Denying writes\<close>

text \<open>A change of the position or the denial of an open file, with the count of the inode to match.\<close>

lemma file_sector:
  assumes inv: "fs_inv {} s J R T" and f: "files s fp = Some f" "fp \<noteq> free_map_file s"
  obtains i where "opened s (f_inode f) = Some i" "sector i \<in> J" "sector i \<notin> {0, 1}"
proof -
  obtain i where i: "opened s (f_inode f) = Some i" using table_okD(7) [OF fs_invD(2) [OF inv] f(1)] by auto
  have "root_tab s" using fs_invD(3) [OF inv] by (simp add: root_ok_def)
  from root_tabD(2) [OF this f(1) i] f(2) have "sector i \<notin> {0, 1}" by auto
  then show ?thesis using that i fs_inv_open(1) [OF inv i] by blast
qed

lemma file_upd_ok:
  assumes inv: "fs_inv {} s J R T" and f: "files s fp = Some f" "fp \<noteq> free_map_file s"
    and g: "f_inode g = f_inode f" "deny_write g = deny_write f"
  shows "fs_inv {} (s\<lparr>files := (files s)(fp \<mapsto> g)\<rparr>) J R T"
proof -
  let ?s = "s\<lparr>files := (files s)(fp \<mapsto> g)\<rparr>"
  note t = table_okD [OF fs_invD(2) [OF inv]]
  obtain i where i: "opened s (f_inode f) = Some i" "sector i \<notin> {0, 1}" by (rule file_sector [OF inv f])
  have refs: "frefs {} ?s = frefs {} s" "drefs {} ?s = drefs {} s" "denials {} ?s = denials {} s"
    using f g by (auto simp: frefs_def drefs_def denials_def fun_eq_iff)
  have dom: "dom (files ?s) = dom (files s)" using f by auto
  have "table_ok {} ?s J T"
  proof (rule table_move [OF fs_invD(2) [OF inv]])
    show "0 < q \<and> q < mem_brk ?s" if "q \<in> dom (files ?s) \<union> dom (dirs ?s)" for q using t(4) [of q] that unfolding dom by auto
    show "f_inode h \<in> dom (opened s)" if h: "files ?s q = Some h" for q h
    proof (cases "q = fp")
      case True
      then show ?thesis using h t(7) [OF f(1)] g(1) by simp
    next
      case False
      then show ?thesis using h t(7) [of q h] by simp
    qed
    show "dom (files ?s) \<inter> dom (dirs ?s) = {}" using t(11) unfolding dom by simp
    show "dir_inode h \<in> dom (opened s)" if "dirs ?s q = Some h" for q h using t(8) [of q h] that by simp
  qed (use t(9) in \<open>simp_all add: refs\<close>)
  moreover have "root_tab ?s"
  proof (rule root_tab_files [of s])
    show "root_tab s" using fs_invD(3) [OF inv] by (simp add: root_ok_def)
    show "files ?s (free_map_file s) = files s (free_map_file s)" using f(2) by simp
    show "sector j \<notin> {0, 1} \<or> files s q = Some h" if "files ?s q = Some h" "opened s (f_inode h) = Some j" for q h j
      using that i g by (auto split: if_splits)
  qed (simp_all add: opened_def root_entries_def)
  moreover have "same_disk s ?s" by (simp add: same_disk_def)
  ultimately show ?thesis by (intro fs_inv_change [OF inv]) simp_all
qed


lemma denials_set:
  fixes b :: bool
  assumes "files s fp = Some f" and "finite (denials {} s (f_inode f))"
  defines "s' \<equiv> s\<lparr>files := (files s)(fp \<mapsto> f\<lparr>deny_write := b\<rparr>)\<rparr>"
  shows "q \<noteq> f_inode f \<Longrightarrow> denials {} s' q = denials {} s q"
    and "\<not> deny_write f \<Longrightarrow> b \<Longrightarrow> card (denials {} s' (f_inode f)) = card (denials {} s (f_inode f)) + 1"
    and "deny_write f \<Longrightarrow> \<not> b \<Longrightarrow> card (denials {} s (f_inode f)) = card (denials {} s' (f_inode f)) + 1"
proof -
  show "denials {} s' q = denials {} s q" if "q \<noteq> f_inode f"
    using assms(1) that by (auto simp: denials_def s'_def)
  show "card (denials {} s' (f_inode f)) = card (denials {} s (f_inode f)) + 1" if b: "\<not> deny_write f" b
  proof -
    have "denials {} s' (f_inode f) = insert fp (denials {} s (f_inode f))" "fp \<notin> denials {} s (f_inode f)"
      using assms(1) b by (auto simp: denials_def s'_def)
    then show ?thesis using assms(2) by simp
  qed
  show "card (denials {} s (f_inode f)) = card (denials {} s' (f_inode f)) + 1" if b: "deny_write f" "\<not> b"
  proof -
    have "denials {} s' (f_inode f) = denials {} s (f_inode f) - {fp}" "fp \<in> denials {} s (f_inode f)"
      using assms(1) b by (auto simp: denials_def s'_def)
    then show ?thesis using assms(2) card_Suc_Diff1 [of "denials {} s (f_inode f)" fp] by simp
  qed
qed

lemma set_deny_ok:
  fixes b :: bool
  assumes inv: "fs_inv {} s J R T" and f: "files s fp = Some f" "fp \<noteq> free_map_file s" and i: "opened s (f_inode f) = Some i"
    and n: "n = int (card (denials {} (s\<lparr>files := (files s)(fp \<mapsto> f\<lparr>deny_write := b\<rparr>)\<rparr>) (f_inode f)))"
  defines "s' \<equiv> s\<lparr>files := (files s)(fp \<mapsto> f\<lparr>deny_write := b\<rparr>), inodes := (inodes s)(f_inode f \<mapsto> i\<lparr>deny_write_cnt := n\<rparr>)\<rparr>"
  shows "fs_inv {} s' J R T" and "opened s' = (opened s)(f_inode f \<mapsto> i\<lparr>deny_write_cnt := n\<rparr>)"
proof -
  let ?s = "s\<lparr>files := (files s)(fp \<mapsto> f\<lparr>deny_write := b\<rparr>)\<rparr>" and ?i = "i\<lparr>deny_write_cnt := n\<rparr>"
  note t = table_okD [OF fs_invD(2) [OF inv]] and fin = finite_refs [OF fs_invD(2) [OF inv]]
  have pin: "f_inode f \<in> set (open_inodes s)" using i by (auto simp: opened_def restrict_map_def split: if_splits)
  show op: "opened s' = (opened s)(f_inode f \<mapsto> ?i)" using pin by (auto simp: opened_def s'_def restrict_map_def)
  then have dom: "dom (opened s') = dom (opened s)" using i by auto
  have rf: "frefs {} s' = frefs {} s" "drefs {} s' = drefs {} s"
    using f by (auto simp: frefs_def drefs_def s'_def fun_eq_iff)
  have ds: "denials {} s' = denials {} ?s" by (simp add: denials_def s'_def fun_eq_iff)
  have df: "dom (files s') = dom (files s)" "dom (dirs s') = dom (dirs s)" "dom (inodes s') = dom (inodes s)"
    using f opened_inodes [OF i] by (auto simp: s'_def)
  have orig: "\<exists>j'. opened s q = Some j' \<and> sector j' = sector j \<and> removed j' = removed j" if "opened s' q = Some j" for q j
    using that op i by (cases "q = f_inode f") auto
  have fg: "\<exists>g'. files s q = Some g' \<and> f_inode g' = f_inode g" if "files s' q = Some g" for q g
    using that f by (cases "q = fp") (auto simp: s'_def)
  have "table_ok {} s' J T"
  proof (rule table_okI)
    show "inode_ok {} s' J T q j" if q: "opened s' q = Some j" for q j
    proof (cases "q = f_inode f")
      case True
      then have "j = ?i" using q op by simp
      then show ?thesis using True t(5) [OF i] n by (simp add: inode_ok_def rf ds) (simp add: s'_def)
    next
      case False
      then have "inode_ok {} s J T q j" "denials {} s' q = denials {} s q"
        using q op t(5) denials_set(1) [OF f(1) fin(3) False] ds by simp_all
      then show ?thesis by (simp add: inode_ok_def rf) (simp add: s'_def)
    qed
    show "q = r" if "opened s' q = Some j" "opened s' r = Some k" "sector j = sector k" for q r j k
      using orig [OF that(1)] orig [OF that(2)] that(3) t(6) [of q _ r] by auto
    show "f_inode g \<in> dom (opened s')" if "files s' q = Some g" "q \<notin> {}" for q g
      using fg [OF that(1)] t(7) unfolding dom by fastforce
    show "dir_inode g \<in> dom (opened s')" if "dirs s' q = Some g" for q g
      using t(8) [of q g] that unfolding dom by (simp add: s'_def)
    show "0 < q \<and> q < mem_brk s'" if "q \<in> dom (inodes s') \<union> dom (files s') \<union> dom (dirs s')" for q
      using t(4) [of q] that unfolding df by (simp add: s'_def)
    show "set_mset T \<subseteq> dom (opened s')" using t(9) dom by simp
    show "set (open_inodes s') \<subseteq> dom (inodes s')" using t(3) df by (simp add: s'_def)
    show "dom (files s') \<inter> dom (dirs s') = {}" using t(11) df by simp
  qed (use t(1,2) in \<open>simp_all add: s'_def\<close>)
  moreover have "root_tab s'"
  proof -
    have r: "root_tab s" using fs_invD(3) [OF inv] by (simp add: root_ok_def)
    obtain g j where g: "files s (free_map_file s) = Some g" "opened s (f_inode g) = Some j" "sector j = 0"
      using root_tabD(3) [OF r] by blast
    have e: "root_entries s' = root_entries s" "free_map_file s' = free_map_file s" by (simp_all add: root_entries_def s'_def)
    have ns: "sector i \<notin> {0, 1}" using root_tabD(2) [OF r f(1) i] f(2) by auto
    have ng: "f_inode g \<noteq> f_inode f" using g(2,3) i ns by auto
    show ?thesis
    proof (rule root_tabI [of _ g j])
      fix q k assume "opened s' q = Some k" "removed k"
      then show "sector k \<notin> {0, 1} \<and> sector k \<notin> inode_sector ` set (used_entries (root_entries s'))"
        unfolding e using orig root_tabD(1) [OF r] by metis
    next
      fix q h k assume h: "files s' q = Some h" "opened s' (f_inode h) = Some k"
      show "sector k \<noteq> 1 \<and> (sector k = 0 \<longrightarrow> q = free_map_file s' \<and> \<not> deny_write h)"
      proof (cases "q = fp")
        case True
        then have "f_inode h = f_inode f" using h(1) by (auto simp: s'_def)
        then have "k = ?i" using h(2) op by simp
        then show ?thesis using ns by simp
      next
        case False
        then have "files s q = Some h" using h(1) by (simp add: s'_def)
        then show ?thesis unfolding e using orig [OF h(2)] root_tabD(2) [OF r] by metis
      qed
    qed (use g ng f op in \<open>simp_all add: s'_def\<close>)
  qed
  moreover have "same_disk s s'" by (simp add: same_disk_def s'_def)
  ultimately show "fs_inv {} s' J R T" by (intro fs_inv_change [OF inv]) simp_all
qed


section \<open>Handles\<close>

text \<open>An open file as its user sees it: the sector that names the file, the position, and whether it denies writes.\<close>

definition handle :: "fs \<Rightarrow> ptr \<Rightarrow> (nat \<times> nat \<times> bool) option" where
  "handle s fp = (case files s fp of None \<Rightarrow> None
     | Some f \<Rightarrow> map_option (\<lambda>i. (sector i, pos f, deny_write f)) (opened s (f_inode f)))"

lemma handle_files:
  assumes "fs_inv {} s J R T"
  shows "handle s fp = None \<longleftrightarrow> files s fp = None"
proof (cases "files s fp")
  case (Some f)
  then obtain i where "opened s (f_inode f) = Some i" using table_okD(7) [OF fs_invD(2) [OF assms]] by blast
  then show ?thesis using Some by (simp add: handle_def)
qed (simp add: handle_def)

lemma handleE:
  assumes "handle s fp = Some (x, o', b)"
  obtains f i where "files s fp = Some f" "opened s (f_inode f) = Some i" "sector i = x" "pos f = o'" "deny_write f = b"
  using assms by (auto simp: handle_def split: option.splits)

lemma handle_sector:
  assumes "fs_inv {} s J R T" and "handle s fp = Some (x, o', b)" and "fp \<noteq> free_map_file s"
  shows "x \<in> J" "x \<notin> {0, 1}"
proof -
  obtain f i where f: "files s fp = Some f" "opened s (f_inode f) = Some i" "sector i = x" by (rule handleE [OF assms(2)])
  obtain j where "opened s (f_inode f) = Some j" "sector j \<in> J" "sector j \<notin> {0, 1}" by (rule file_sector [OF assms(1) f(1) assms(3)])
  then show "x \<in> J" "x \<notin> {0, 1}" using f by simp_all
qed

text \<open>The inodes that are open stay open, in the same sectors.\<close>

definition same_sectors :: "fs \<Rightarrow> fs \<Rightarrow> bool" where
  "same_sectors s s' \<longleftrightarrow> (\<forall>p i. opened s p = Some i \<longrightarrow> (\<exists>i'. opened s' p = Some i' \<and> sector i' = sector i))"

lemma same_sectors_inodes: "same_inodes s s' \<Longrightarrow> same_sectors s s'"
  unfolding same_inodes_def same_sectors_def by blast

lemma same_sectors_opened: "opened s' = opened s \<Longrightarrow> same_sectors s s'"
  by (simp add: same_sectors_def)

lemma same_sectors_trans: "same_sectors s s' \<Longrightarrow> same_sectors s' s'' \<Longrightarrow> same_sectors s s''"
  unfolding same_sectors_def by metis

lemma same_sectorsD:
  assumes "same_sectors s s'" and "opened s p = Some i"
  obtains i' where "opened s' p = Some i'" "sector i' = sector i"
  using assms by (auto simp: same_sectors_def)

lemma handle_same_sectors:
  assumes "fs_inv {} s J R T" and "same_sectors s s'" and "files s' fp = files s fp"
  shows "handle s' fp = handle s fp"
proof (cases "files s fp")
  case (Some f)
  then obtain i where "opened s (f_inode f) = Some i" using table_okD(7) [OF fs_invD(2) [OF assms(1)]] by blast
  moreover from this obtain i' where "opened s' (f_inode f) = Some i'" "sector i' = sector i"
    by (rule same_sectorsD [OF assms(2)])
  ultimately show ?thesis using Some assms(3) by (simp add: handle_def)
qed (use assms(3) in \<open>simp add: handle_def\<close>)

lemma handle_upd:
  assumes "opened s' = opened s" and "files s' = (files s)(fp \<mapsto> g)" and "opened s (f_inode g) = Some i"
  shows "handle s' = (handle s)(fp \<mapsto> (sector i, pos g, deny_write g))"
proof
  fix q
  show "handle s' q = ((handle s)(fp \<mapsto> (sector i, pos g, deny_write g))) q"
    unfolding handle_def assms(1,2) using assms(3) by (cases "q = fp") simp_all
qed

lemma deny_count:
  assumes inv: "fs_inv {} s J R T" and i: "opened s p = Some i"
  shows "deny_write_cnt i = 0 \<longleftrightarrow> (\<forall>fp o'. handle s fp \<noteq> Some (sector i, o', True))"
proof -
  note t = table_okD [OF fs_invD(2) [OF inv]]
  have "deny_write_cnt i = 0 \<longleftrightarrow> denials {} s p = {}"
    using t(5) [OF i] finite_refs(3) [OF fs_invD(2) [OF inv], of p] by (simp add: inode_ok_def)
  also have "\<dots> \<longleftrightarrow> (\<forall>fp o'. handle s fp \<noteq> Some (sector i, o', True))"
  proof
    assume e: "denials {} s p = {}"
    show "\<forall>fp o'. handle s fp \<noteq> Some (sector i, o', True)"
    proof (intro allI notI)
      fix fp o' assume "handle s fp = Some (sector i, o', True)"
      then obtain f j where f: "files s fp = Some f" "opened s (f_inode f) = Some j" "sector j = sector i" "deny_write f"
        by (auto elim: handleE)
      then have "f_inode f = p" using t(6) [OF f(2) i] by simp
      then show False using e f by (auto simp: denials_def)
    qed
  next
    assume h: "\<forall>fp o'. handle s fp \<noteq> Some (sector i, o', True)"
    show "denials {} s p = {}"
    proof (rule equals0I)
      fix fp assume "fp \<in> denials {} s p"
      then obtain f where "files s fp = Some f" "f_inode f = p" "deny_write f" by (auto simp: denials_def)
      then have "handle s fp = Some (sector i, pos f, True)" using i by (simp add: handle_def)
      then show False using h by simp
    qed
  qed
  finally show ?thesis .
qed

section \<open>Reading, writing and seeking\<close>

lemma file_read_ok:
  fixes n :: nat
  assumes inv: "fs_inv {} s J R T" and h: "handle s fp = Some (x, o', b)" and fp: "fp \<noteq> free_map_file s"
  defines "c \<equiv> take n (drop o' (fbytes (fs_device s) x))"
  shows "\<exists>s'. file_read s fp n = Some (c, s') \<and> fs_inv {} s' J R T \<and> same_disk s s' \<and>
    handle s' = (handle s)(fp \<mapsto> (x, o' + length c, b))"
proof -
  obtain f i where f: "files s fp = Some f" "opened s (f_inode f) = Some i" "sector i = x" "pos f = o'" "deny_write f = b"
    by (rule handleE [OF h])
  note I = fs_invD [OF inv] and op = fs_inv_open [OF inv f(2)]
  obtain s1 where s1: "inode_read_at s (f_inode f) n o' = Some (c, s1)" "touch s s1"
    using inode_read_all [OF I(8) opened_inodes [OF f(2)] op(3) I(4,5), of n o'] op(4) f(3) by (auto simp: c_def)
  note t1 = io_fields [OF touch_io [OF s1(2)]]
  let ?g = "f\<lparr>pos := pos f + length c\<rparr>"
  let ?s = "s1\<lparr>files := (files s1)(fp \<mapsto> ?g)\<rparr>"
  have "fs_inv {} s1 J R T" by (rule fs_inv_touch [OF inv s1(2)])
  then have "fs_inv {} ?s J R T" by (rule file_upd_ok [where f = f]) (use f fp t1 in simp_all)
  moreover have "file_read s fp n = Some (c, ?s)" using f s1(1) by (simp add: file_read_def)
  moreover have "same_disk s ?s" using touch_same_disk [OF s1(2)] by (simp add: same_disk_def)
  moreover have "handle ?s = (handle s)(fp \<mapsto> (sector i, pos ?g, deny_write ?g))"
    by (rule handle_upd) (use f t1 in \<open>simp_all add: opened_def\<close>)
  ultimately show ?thesis using f by simp
qed

lemma file_write_ok:
  fixes buf :: "u8 list"
  assumes inv: "fs_inv {} s J R T" and h: "handle s fp = Some (x, o', b)" and fp: "fp \<noteq> free_map_file s"
  defines "c \<equiv> fbytes (fs_device s) x"
  defines "n \<equiv> if \<exists>fq p. handle s fq = Some (x, p, True) then 0 else min (length buf) (length c - o')"
  shows "\<exists>s'. file_write s fp buf = Some (n, s') \<and> fs_inv {} s' J R T \<and> kept (J - {x}) s s' \<and>
    free_map_file s' = free_map_file s \<and> free_map s' = free_map s \<and>
    fbytes (fs_device s') x = overwrite c o' (take n buf) \<and> handle s' = (handle s)(fp \<mapsto> (x, o' + n, b))"
proof -
  obtain f i where f: "files s fp = Some f" "opened s (f_inode f) = Some i" "sector i = x" "pos f = o'" "deny_write f = b"
    by (rule handleE [OF h])
  note I = fs_invD [OF inv] and op = fs_inv_open [OF inv f(2)] and x = handle_sector [OF inv h fp]
  have "\<exists>s1. inode_write_at s (f_inode f) buf o' = Some (n, s1) \<and> io s s1 \<and> fs_inv {} s1 J R T \<and> kept (J - {x}) s s1 \<and>
      fbytes (fs_device s1) x = overwrite c o' (take n buf)"
  proof (cases "deny_write_cnt i = 0")
    case True
    then have n: "n = min (length buf) (length c - o')" using deny_count [OF inv f(2)] f(3) by (simp add: n_def)
    then have "take n buf = take (length c - o') buf" by (simp add: min_def)
    then show ?thesis using inode_write_at_inv [OF inv f(2) True, of buf o'] x f(3) n by (simp add: c_def)
  next
    case False
    then have "n = 0" using deny_count [OF inv f(2)] f(3) by (auto simp: n_def)
    then show ?thesis using False inv opened_inodes [OF f(2)] by (simp add: inode_write_at_def c_def)
  qed
  then obtain s1 where s1: "inode_write_at s (f_inode f) buf o' = Some (n, s1)" "io s s1" "fs_inv {} s1 J R T"
    "kept (J - {x}) s s1" "fbytes (fs_device s1) x = overwrite c o' (take n buf)" by blast
  note t1 = io_fields [OF s1(2)]
  let ?g = "f\<lparr>pos := pos f + n\<rparr>"
  let ?s = "s1\<lparr>files := (files s1)(fp \<mapsto> ?g)\<rparr>"
  have "fs_inv {} ?s J R T" by (rule file_upd_ok [where f = f, OF s1(3)]) (use f fp t1 in simp_all)
  moreover have "file_write s fp buf = Some (n, ?s)" using f s1(1) by (simp add: file_write_def)
  moreover have "handle ?s = (handle s)(fp \<mapsto> (sector i, pos ?g, deny_write ?g))"
    by (rule handle_upd) (use f t1 in \<open>simp_all add: opened_def\<close>)
  moreover have "kept (J - {x}) s ?s" using s1(4) by (simp add: kept_def)
  ultimately show ?thesis using f s1(5) t1 by simp
qed

lemma file_seek_ok:
  assumes inv: "fs_inv {} s J R T" and h: "handle s fp = Some (x, o', b)" and fp: "fp \<noteq> free_map_file s" and n: "0 \<le> n"
  shows "\<exists>s'. file_seek s fp n = Some s' \<and> fs_inv {} s' J R T \<and> same_disk s s' \<and>
    handle s' = (handle s)(fp \<mapsto> (x, nat n, b))"
proof -
  obtain f i where f: "files s fp = Some f" "opened s (f_inode f) = Some i" "sector i = x" "pos f = o'" "deny_write f = b"
    by (rule handleE [OF h])
  let ?g = "f\<lparr>pos := nat n\<rparr>"
  let ?s = "s\<lparr>files := (files s)(fp \<mapsto> ?g)\<rparr>"
  have "fp \<noteq> NULL" using table_okD(4) [OF fs_invD(2) [OF inv], of fp] f(1) by auto
  then have "file_seek s fp n = Some ?s" using f(1) n by (simp add: file_seek_def)
  moreover have "fs_inv {} ?s J R T" by (rule file_upd_ok [OF inv f(1) fp]) simp_all
  moreover have "same_disk s ?s" by (simp add: same_disk_def)
  moreover have "handle ?s = (handle s)(fp \<mapsto> (sector i, pos ?g, deny_write ?g))"
    by (rule handle_upd) (use f in \<open>simp_all add: opened_def\<close>)
  ultimately show ?thesis using f by simp
qed


lemma deny_handle:
  assumes "opened s' = (opened s)(p \<mapsto> i\<lparr>deny_write_cnt := k\<rparr>)" and "opened s p = Some i"
    and "files s' = (files s)(fp \<mapsto> f\<lparr>deny_write := b\<rparr>)" and "f_inode f = p"
  shows "handle s' = (handle s)(fp \<mapsto> (sector i, pos f, b))"
proof
  fix q
  show "handle s' q = ((handle s)(fp \<mapsto> (sector i, pos f, b))) q"
    unfolding handle_def assms(1,3) using assms(2,4) by (cases "q = fp") (auto split: option.split)
qed

lemma deny_lt:
  assumes inv: "fs_inv {} s J R T" and f: "files s fp = Some f" and i: "opened s (f_inode f) = Some i"
  shows "deny_write_cnt i \<le> open_cnt i" "\<not> deny_write f \<Longrightarrow> deny_write_cnt i < open_cnt i"
    "deny_write f \<Longrightarrow> 0 < deny_write_cnt i"
proof -
  let ?p = "f_inode f"
  note o = table_okD(5) [OF fs_invD(2) [OF inv] i] and fin = finite_refs [OF fs_invD(2) [OF inv], of ?p]
  have sub: "denials {} s ?p \<subseteq> frefs {} s ?p" by (auto simp: denials_def frefs_def)
  have fr: "fp \<in> frefs {} s ?p" using f by (simp add: frefs_def)
  show "deny_write_cnt i \<le> open_cnt i" using card_mono [OF fin(1) sub] o by (simp add: inode_ok_def)
  show "deny_write_cnt i < open_cnt i" if "\<not> deny_write f"
  proof -
    have "fp \<notin> denials {} s ?p" using f that by (simp add: denials_def)
    then have "denials {} s ?p \<subset> frefs {} s ?p" using sub fr by blast
    then have "card (denials {} s ?p) < card (frefs {} s ?p)" by (rule psubset_card_mono [OF fin(1)])
    then show ?thesis using o by (simp add: inode_ok_def)
  qed
  show "0 < deny_write_cnt i" if "deny_write f"
  proof -
    have "fp \<in> denials {} s ?p" using f that by (simp add: denials_def)
    then show ?thesis using fin(3) o by (auto simp: inode_ok_def card_gt_0_iff)
  qed
qed

lemma file_deny_write_ok:
  assumes inv: "fs_inv {} s J R T" and h: "handle s fp = Some (x, o', b)" and fp: "fp \<noteq> free_map_file s"
  shows "\<exists>s'. file_deny_write s fp = Some s' \<and> fs_inv {} s' J R T \<and> same_disk s s' \<and> handle s' = (handle s)(fp \<mapsto> (x, o', True))"
proof -
  obtain f i where f: "files s fp = Some f" "opened s (f_inode f) = Some i" "sector i = x" "pos f = o'" "deny_write f = b"
    by (rule handleE [OF h])
  have nn: "fp \<noteq> NULL" using table_okD(4) [OF fs_invD(2) [OF inv], of fp] f(1) by auto
  show ?thesis
  proof (cases "deny_write f")
    case False
    let ?n = "deny_write_cnt i + 1"
    let ?s = "s\<lparr>files := (files s)(fp \<mapsto> f\<lparr>deny_write := True\<rparr>), inodes := (inodes s)(f_inode f \<mapsto> i\<lparr>deny_write_cnt := ?n\<rparr>)\<rparr>"
    note fin = finite_refs(3) [OF fs_invD(2) [OF inv]]
    have n: "?n = int (card (denials {} (s\<lparr>files := (files s)(fp \<mapsto> f\<lparr>deny_write := True\<rparr>)\<rparr>) (f_inode f)))"
      using denials_set(2) [OF f(1) fin False TrueI] table_okD(5) [OF fs_invD(2) [OF inv] f(2)] by (simp add: inode_ok_def)
    note d = set_deny_ok [OF inv f(1) fp f(2) n]
    have "file_deny_write s fp = Some ?s"
      using nn f(1) False opened_inodes [OF f(2)] deny_lt(2) [OF inv f(1,2) False]
      by (simp add: file_deny_write_def inode_deny_write_def upd_inode_def)
    moreover have "handle ?s = (handle s)(fp \<mapsto> (sector i, pos f, True))" by (rule deny_handle [OF d(2) f(2)]) simp_all
    moreover have "same_disk s ?s" by (simp add: same_disk_def)
    ultimately show ?thesis using d(1) f(3,4) by blast
  next
    case True
    then have "(handle s)(fp \<mapsto> (x, o', True)) = handle s" using h f(5) by (simp add: fun_upd_idem)
    then show ?thesis using True nn f(1) inv by (simp add: file_deny_write_def)
  qed
qed

lemma file_allow_write_ok:
  assumes inv: "fs_inv {} s J R T" and h: "handle s fp = Some (x, o', b)" and fp: "fp \<noteq> free_map_file s"
  shows "\<exists>s'. file_allow_write s fp = Some s' \<and> fs_inv {} s' J R T \<and> same_disk s s' \<and> handle s' = (handle s)(fp \<mapsto> (x, o', False))"
proof -
  obtain f i where f: "files s fp = Some f" "opened s (f_inode f) = Some i" "sector i = x" "pos f = o'" "deny_write f = b"
    by (rule handleE [OF h])
  have nn: "fp \<noteq> NULL" using table_okD(4) [OF fs_invD(2) [OF inv], of fp] f(1) by auto
  show ?thesis
  proof (cases "deny_write f")
    case True
    let ?n = "deny_write_cnt i - 1"
    let ?s = "s\<lparr>files := (files s)(fp \<mapsto> f\<lparr>deny_write := False\<rparr>), inodes := (inodes s)(f_inode f \<mapsto> i\<lparr>deny_write_cnt := ?n\<rparr>)\<rparr>"
    note fin = finite_refs(3) [OF fs_invD(2) [OF inv]]
    have n: "?n = int (card (denials {} (s\<lparr>files := (files s)(fp \<mapsto> f\<lparr>deny_write := False\<rparr>)\<rparr>) (f_inode f)))"
      using denials_set(3) [OF f(1) fin True, of False] table_okD(5) [OF fs_invD(2) [OF inv] f(2)] by (simp add: inode_ok_def)
    note d = set_deny_ok [OF inv f(1) fp f(2) n]
    have "file_allow_write s fp = Some ?s"
      using nn f(1) True opened_inodes [OF f(2)] deny_lt(1,3) [OF inv f(1,2)]
      by (simp add: file_allow_write_def inode_allow_write_def upd_inode_def)
    moreover have "handle ?s = (handle s)(fp \<mapsto> (sector i, pos f, False))" by (rule deny_handle [OF d(2) f(2)]) simp_all
    moreover have "same_disk s ?s" by (simp add: same_disk_def)
    ultimately show ?thesis using d(1) f(3,4) by blast
  next
    case False
    then have "(handle s)(fp \<mapsto> (x, o', False)) = handle s" using h f(5) by (simp add: fun_upd_idem)
    then show ?thesis using False nn f(1) inv by (simp add: file_allow_write_def)
  qed
qed


lemma handle_closed:
  assumes "fs_inv {} s J R T" and "fs_inv {} s' J' R' T'" and "files s' = (files s)(fp := None)" and "other_inodes p s s'"
    and "opened s p = Some i" and "opened s' p = None \<or> opened s' p = Some (i\<lparr>open_cnt := k\<rparr>)"
  shows "handle s' = (handle s)(fp := None)"
proof
  fix q
  show "handle s' q = ((handle s)(fp := None)) q"
  proof (cases "files s' q")
    case (Some g)
    then have g: "q \<noteq> fp" "files s q = Some g" using assms(3) by (auto split: if_splits)
    obtain j where j: "opened s' (f_inode g) = Some j" using table_okD(7) [OF fs_invD(2) [OF assms(2)] Some] by auto
    show ?thesis
    proof (cases "f_inode g = p")
      case True
      then have "sector j = sector i" "opened s (f_inode g) = Some i" using j assms(5,6) by auto
      then show ?thesis using Some g j by (simp add: handle_def)
    next
      case False
      then have "opened s (f_inode g) = Some j" using assms(4) j by (simp add: other_inodes_def)
      then show ?thesis using Some g j by (simp add: handle_def)
    qed
  next
    case None
    then have "q = fp \<or> files s q = None" using assms(3) by (simp split: if_splits)
    then show ?thesis using None by (auto simp: handle_def)
  qed
qed

lemma file_close_ok:
  assumes inv: "fs_inv {} s J R T" and h: "handle s fp = Some (x, o', b)" and fp: "fp \<noteq> free_map_file s"
  shows "\<exists>s' J'. file_close s fp = Some s' \<and> fs_inv {} s' J' R T \<and> J' \<subseteq> J \<and> kept (J' - {0}) s s' \<and>
    (synced s \<longrightarrow> synced s') \<and> handle s' = (handle s)(fp := None) \<and> free_map_file s' = free_map_file s"
proof -
  obtain s1 where s1: "file_allow_write s fp = Some s1" "fs_inv {} s1 J R T" "same_disk s s1"
      "handle s1 = (handle s)(fp \<mapsto> (x, o', False))" using file_allow_write_ok [OF inv h fp] by blast
  then have h1: "handle s1 fp = Some (x, o', False)" by simp
  obtain f i where f: "files s1 fp = Some f" "opened s1 (f_inode f) = Some i" "sector i = x" "pos f = o'" "deny_write f = False"
    by (rule handleE [OF h1])
  have nn: "fp \<noteq> NULL" using table_okD(4) [OF fs_invD(2) [OF s1(2)], of fp] f(1) by auto
  have fm: "free_map_file s1 = free_map_file s" using s1(3) by (simp add: same_disk_def)
  have inv1: "fs_inv {fp} s1 J R (add_mset (f_inode f) T)" by (rule closing_file [OF s1(2) f(1)]) (use f(5) fm fp in simp_all)
  obtain s2 J' where s2: "inode_close s1 (f_inode f) = Some s2" "fs_inv {fp} s2 J' R T"
      "J' = J \<or> removed i \<and> J' = J - {sector i}" "kept (J' - {0}) s1 s2" "synced s1 \<longrightarrow> synced s2"
      "other_inodes (f_inode f) s1 s2" "files s2 = files s1" "free_map_file s2 = free_map_file s1"
      "opened s2 (f_inode f) = None \<or> opened s2 (f_inode f) = Some (i\<lparr>open_cnt := open_cnt i - 1\<rparr>)"
    using inode_close_ok [OF inv1 f(2)] by auto
  let ?s = "s2\<lparr>files := (files s2)(fp := None)\<rparr>"
  have op: "opened ?s = opened s2" by (simp add: opened_def)
  have inv': "fs_inv {} ?s J' R T" by (rule closed_file [OF s2(2)]) (use s2(7) f in simp)
  have "file_close s fp = Some ?s" using nn s1(1) f(1) s2(1) by (simp add: file_close_def)
  have "J' \<subseteq> J" using s2(3) by auto
  have "kept (J' - {0}) s ?s" using s2(4) same_disk_fields [OF s1(3)] by (simp add: kept_def)
  have "synced s \<longrightarrow> synced ?s" using s2(5) same_disk_fields [OF s1(3)] by (simp add: synced_def)
  have "handle ?s = (handle s1)(fp := None)"
    by (rule handle_closed [OF s1(2) inv' _ _ f(2)]) (use s2(6,7,9) op in \<open>simp_all add: other_inodes_def\<close>)
  then have hd: "handle ?s = (handle s)(fp := None)" using s1(4) by simp
  have "free_map_file ?s = free_map_file s" using s2(8) fm by simp
  show ?thesis
    by (rule exI [of _ ?s], rule exI [of _ J'], intro conjI) fact+
qed


lemma still_open:
  assumes inv: "fs_inv {} s J R T" and inv': "fs_inv {} s' J' R' T" and same: "files s' = files s" "dirs s' = dirs s"
    and i: "opened s q = Some i"
  shows "q \<in> dom (opened s')"
proof -
  note t' = table_okD [OF fs_invD(2) [OF inv']]
  have "0 < card (frefs {} s q) + card (drefs {} s q) + count T q"
    using table_okD(5) [OF fs_invD(2) [OF inv] i] unfolding inode_ok_def by linarith
  then consider (f) "frefs {} s q \<noteq> {}" | (d) "drefs {} s q \<noteq> {}" | (t) "q \<in># T"
    by (metis add_eq_0_iff_both_eq_0 bot_nat_0.not_eq_extremum card.empty count_greater_zero_iff)
  then show ?thesis
  proof cases
    case f
    then obtain fp g where "files s fp = Some g" "f_inode g = q" by (auto simp: frefs_def)
    then show ?thesis using t'(7) [of fp g] same by simp
  next
    case d
    then obtain dp g where "dirs s dp = Some g" "dir_inode g = q" by (auto simp: drefs_def)
    then show ?thesis using t'(8) [of dp g] same by simp
  next
    case t
    then show ?thesis using t'(9) by auto
  qed
qed

end
