(* ===== verification/Fs_Dir.thy ===== *)
theory Fs_Dir
  imports Fs_Files
begin

text \<open>
  The root directory as a table of entries: searching, adding and removing entries
  refine lookups and updates of the map from names to inode sectors.
\<close>

section \<open>Entries and the bytes of the directory\<close>

lemma decode_encode_entry:
  assumes "inode_sector e < 2 ^ 32" and "length (name e) = 15"
  shows "decode_entry (encode_entry e) = e" and "length (encode_entry e) = 20"
proof -
  have "unat (word_of_nat (inode_sector e) :: u32) = inode_sector e" using assms(1) by (simp add: unat_of_nat)
  then show "decode_entry (encode_entry e) = e" using assms(2) by (simp add: decode_entry_def encode_entry_def nth_append)
  show "length (encode_entry e) = 20" using assms(2) by (simp add: encode_entry_def)
qed

lemma length_entries [simp]: "length (entries c) = length c div 20"
  by (simp add: entries_def)

lemma entries_nth: "k < length c div 20 \<Longrightarrow> entries c ! k = decode_entry (take 20 (drop (20 * k) c))"
  by (simp add: entries_def)

lemma entry_bytes: "k < length c div 20 \<Longrightarrow> length (take 20 (drop (20 * k) c)) = 20"
  by simp

lemma entries_name_length: "k < length c div 20 \<Longrightarrow> length (name (entries c ! k)) = 15"
  by (simp add: entries_nth decode_entry_def)

lemma entries_sector: "k < length c div 20 \<Longrightarrow> inode_sector (entries c ! k) < 2 ^ 32"
  using unsigned_less [of "bytes_u32s (take 20 (drop (20 * k) c)) ! 0"] by (simp add: entries_nth decode_entry_def)

lemma entries_overwrite:
  assumes "k < length c div 20" and "length b = 20"
  shows "entries (overwrite c (20 * k) b) = (entries c)[k := decode_entry b]"
proof (rule nth_equalityI)
  have fit: "20 * k + length b \<le> length c" using assms by simp
  have len: "length (overwrite c (20 * k) b) = length c" by (rule length_overwrite [OF fit])
  then show "length (entries (overwrite c (20 * k) b)) = length ((entries c)[k := decode_entry b])" by simp
  fix j assume "j < length (entries (overwrite c (20 * k) b))"
  then have j: "j < length c div 20" using len by simp
  have j20: "20 * j + 20 \<le> length c" using j by simp
  have piece: "take 20 (drop (20 * j) (overwrite c (20 * k) b)) = (if j = k then b else take 20 (drop (20 * j) c))"
  proof (rule nth_equalityI)
    fix m assume "m < length (take 20 (drop (20 * j) (overwrite c (20 * k) b)))"
    then have m: "m < 20" by simp
    have "20 * j + m < 20 * k \<longleftrightarrow> j < k" "20 * k + 20 \<le> 20 * j + m \<longleftrightarrow> k < j" using m by auto
    then show "take 20 (drop (20 * j) (overwrite c (20 * k) b)) ! m = (if j = k then b else take 20 (drop (20 * j) c)) ! m"
      using m j20 fit assms(2) len overwrite_nth [OF fit, of "20 * j + m"] by (cases j k rule: linorder_cases) auto
  qed (use j20 len assms(2) in auto)
  have lhs: "entries (overwrite c (20 * k) b) ! j = decode_entry (take 20 (drop (20 * j) (overwrite c (20 * k) b)))"
    using j len by (simp add: entries_nth)
  show "entries (overwrite c (20 * k) b) ! j = (entries c)[k := decode_entry b] ! j"
    unfolding lhs piece using j entries_nth [OF j] by (simp add: nth_list_update)
qed

section \<open>Searching\<close>

lemma root_no_deny:
  assumes inv: "fs_inv C s J R T" and i: "opened s p = Some i" "sector i = 1"
  shows "deny_write_cnt i = 0" and "\<not> removed i"
proof -
  have r: "root_tab s" using fs_invD(3) [OF inv] by (simp add: root_ok_def)
  have "denials C s p = {}"
  proof (rule equals0I)
    fix fp assume "fp \<in> denials C s p"
    then obtain f where "files s fp = Some f" "f_inode f = p" by (auto simp: denials_def)
    then show False using root_tabD(2) [OF r, of fp f i] i by simp
  qed
  then show "deny_write_cnt i = 0" using table_okD(5) [OF fs_invD(2) [OF inv] i(1)] by (simp add: inode_ok_def)
  show "\<not> removed i" using root_tabD(1) [OF r i(1)] i(2) by auto
qed

lemma read_entry:
  assumes inv: "fs_inv C s J R T" and i: "opened s p = Some i" "sector i = 1"
  shows "\<exists>s'. inode_read_at s p 20 (20 * k) = Some (take 20 (drop (20 * k) (fbytes (fs_device s) 1)), s') \<and> touch s s'"
proof -
  note I = fs_invD [OF inv] and op = fs_inv_open [OF inv i(1)]
  show ?thesis
    using inode_read_all [OF I(8) opened_inodes [OF i(1)] op(3) I(4,5), of 20 "20 * k"] op(4) i(2) by simp
qed

lemma touch_root:
  assumes "touch s s'"
  shows "opened s' = opened s" "root_entries s' = root_entries s" "fbytes (fs_device s') = fbytes (fs_device s)"
  using io_fields [OF touch_io [OF assms]] touch_fields [OF assms] by (simp_all add: opened_def root_entries_def)

lemma root_length:
  assumes "fs_inv C s J R T"
  shows "length (fbytes (fs_device s) 1) = 20 * length (root_entries s)"
  using fs_invD(3) [OF assms] by (auto simp: root_ok_def root_entries_def)

text \<open>The index of the first entry from \<open>k\<close> on that has the name.\<close>

definition found :: "dir_entry list \<Rightarrow> nat \<Rightarrow> u8 list \<Rightarrow> (dir_entry \<times> nat) option \<Rightarrow> bool" where
  "found es k nm r = (case r of
       Some (e, ofs) \<Rightarrow> \<exists>j. k \<le> j \<and> j < length es \<and> e = es ! j \<and> ofs = 20 * j \<and> in_use e \<and> entry_name e = Some nm
     | None \<Rightarrow> \<forall>j. k \<le> j \<longrightarrow> j < length es \<longrightarrow> in_use (es ! j) \<longrightarrow> entry_name (es ! j) \<noteq> Some nm)"

lemma found_step:
  assumes "found es (Suc k) nm r" and "in_use (es ! k) \<longrightarrow> entry_name (es ! k) \<noteq> Some nm"
  shows "found es k nm r"
proof (cases r)
  case None
  have "entry_name (es ! j) \<noteq> Some nm" if "k \<le> j" "j < length es" "in_use (es ! j)" for j
    using assms None that by (cases "j = k") (simp_all add: found_def)
  then show ?thesis using None by (simp add: found_def)
next
  case (Some a)
  then show ?thesis using assms(1) unfolding found_def by (cases a) (auto dest: Suc_leD)
qed

lemma lookup_loop_ok:
  assumes "fs_inv C s J R T" and "opened s p = Some i" and "sector i = 1"
  shows "\<exists>r s'. lookup_loop s p nm (20 * k) = Some (r, s') \<and> touch s s' \<and> found (root_entries s) k nm r"
  using assms
proof (induction "length (root_entries s) - k" arbitrary: s k)
  case 0
  then have k: "length (root_entries s) \<le> k" by simp
  obtain s' where s': "inode_read_at s p 20 (20 * k) = Some (take 20 (drop (20 * k) (fbytes (fs_device s) 1)), s')" "touch s s'"
    using read_entry [OF 0(2,3,4), of k] by blast
  have "drop (20 * k) (fbytes (fs_device s) 1) = []" using k root_length [OF 0(2)] by simp
  then have "lookup_loop s p nm (20 * k) = Some (None, s')" using s'(1) by (subst lookup_loop.simps) simp
  moreover have "found (root_entries s) k nm None" using k by (simp add: found_def)
  ultimately show ?case using s'(2) by blast
next
  case (Suc n)
  let ?es = "root_entries s" and ?c = "fbytes (fs_device s) 1"
  have k: "k < length ?c div 20" using Suc(2) root_length [OF Suc(3)] by simp
  then have kl: "k < length ?es" by (simp add: root_entries_def)
  obtain s1 where s1: "inode_read_at s p 20 (20 * k) = Some (take 20 (drop (20 * k) ?c), s1)" "touch s s1"
    using read_entry [OF Suc(3,4,5), of k] by blast
  have e: "decode_entry (take 20 (drop (20 * k) ?c)) = ?es ! k" using entries_nth [OF k] by (simp add: root_entries_def)
  have nm': "in_use (?es ! k) \<Longrightarrow> \<exists>m. entry_name (?es ! k) = Some m"
    using fs_invD(3) [OF Suc(3)] nth_mem [OF kl] by (auto simp: root_ok_def entries_ok_def used_entries_def)
  note u = lookup_loop.simps [of s p nm "20 * k"]
  show ?case
  proof (cases "in_use (?es ! k) \<and> entry_name (?es ! k) = Some nm")
    case True
    then have "lookup_loop s p nm (20 * k) = Some (Some (?es ! k, 20 * k), s1)"
      using s1(1) e entry_bytes [OF k] by (simp add: u)
    moreover have "found ?es k nm (Some (?es ! k, 20 * k))" using True kl by (auto simp: found_def)
    ultimately show ?thesis using s1(2) by blast
  next
    case False
    have inv1: "fs_inv C s1 J R T" by (rule fs_inv_touch [OF Suc(3) s1(2)])
    have "n = length (root_entries s1) - Suc k" using Suc(2) touch_root(2) [OF s1(2)] by simp
    from Suc(1) [OF this inv1] obtain r s' where r: "lookup_loop s1 p nm (20 * Suc k) = Some (r, s')" "touch s1 s'"
      "found ?es (Suc k) nm r" using Suc(4,5) touch_root [OF s1(2)] by auto
    have "lookup_loop s p nm (20 * k) = lookup_loop s1 p nm (20 * k + 20)"
      using s1(1) e entry_bytes [OF k] False nm' by (cases "in_use (?es ! k)") (auto simp: u Let_def)
    then have "lookup_loop s p nm (20 * k) = Some (r, s')" using r(1) by (simp add: algebra_simps)
    moreover have "found ?es k nm r" by (rule found_step [OF r(3)]) (use False in blast)
    ultimately show ?thesis using touch_trans [OF s1(2) r(2)] by blast
  qed
qed


lemma lookup_ok:
  assumes "fs_inv C s J R T" and "dirs s dp = Some d" and "opened s (dir_inode d) = Some i" and "sector i = 1"
  shows "\<exists>r s'. lookup s dp nm = Some (r, s') \<and> touch s s' \<and> found (root_entries s) 0 nm r"
  using lookup_loop_ok [OF assms(1,3,4), of nm 0] assms(2) by (simp add: lookup_def)

text \<open>A slot for a new entry: the first that is not in use, or the end of the directory.\<close>

definition free_slot :: "dir_entry list \<Rightarrow> nat \<Rightarrow> nat \<Rightarrow> bool" where
  "free_slot es k j \<longleftrightarrow> k \<le> j \<and> (j < length es \<and> \<not> in_use (es ! j) \<or> j = length es) \<and>
     (\<forall>m. k \<le> m \<longrightarrow> m < j \<longrightarrow> in_use (es ! m))"

lemma free_slot_step:
  assumes "free_slot es (Suc k) j" and "in_use (es ! k)"
  shows "free_slot es k j"
proof -
  have "in_use (es ! m)" if "k \<le> m" "m < j" for m
    using assms that by (cases "m = k") (simp_all add: free_slot_def)
  then show ?thesis using assms(1) by (simp add: free_slot_def)
qed

lemma slot_loop_ok:
  assumes "fs_inv C s J R T" and "opened s p = Some i" and "sector i = 1" and "length (name e0) = 15" and "k \<le> length (root_entries s)"
  shows "\<exists>j e s'. slot_loop s p (20 * k) e0 = Some (20 * j, e, s') \<and> touch s s' \<and> free_slot (root_entries s) k j \<and> length (name e) = 15"
  using assms
proof (induction "length (root_entries s) - k" arbitrary: s k e0)
  case 0
  then have k: "k = length (root_entries s)" by simp
  obtain s' where s': "inode_read_at s p 20 (20 * k) = Some (take 20 (drop (20 * k) (fbytes (fs_device s) 1)), s')" "touch s s'"
    using read_entry [OF 0(2,3,4), of k] by blast
  have "drop (20 * k) (fbytes (fs_device s) 1) = []" using k root_length [OF 0(2)] by simp
  then have "slot_loop s p (20 * k) e0 = Some (20 * k, e0, s')" using s'(1) by (subst slot_loop.simps) simp
  moreover have "free_slot (root_entries s) k k" using k by (simp add: free_slot_def)
  ultimately show ?case using s'(2) 0(5) by blast
next
  case (Suc n)
  let ?es = "root_entries s" and ?c = "fbytes (fs_device s) 1"
  have k: "k < length ?c div 20" using Suc(2) root_length [OF Suc(3)] by simp
  then have kl: "k < length ?es" by (simp add: root_entries_def)
  obtain s1 where s1: "inode_read_at s p 20 (20 * k) = Some (take 20 (drop (20 * k) ?c), s1)" "touch s s1"
    using read_entry [OF Suc(3,4,5), of k] by blast
  have e: "decode_entry (take 20 (drop (20 * k) ?c)) = ?es ! k" using entries_nth [OF k] by (simp add: root_entries_def)
  have nl: "length (name (?es ! k)) = 15" using entries_name_length [OF k] by (simp add: root_entries_def)
  note u = slot_loop.simps [of s p "20 * k" e0]
  show ?case
  proof (cases "in_use (?es ! k)")
    case False
    then have "slot_loop s p (20 * k) e0 = Some (20 * k, ?es ! k, s1)"
      using s1(1) e entry_bytes [OF k] by (simp add: u Let_def)
    moreover have "free_slot ?es k k" using False kl by (simp add: free_slot_def)
    ultimately show ?thesis using s1(2) nl by blast
  next
    case True
    have inv1: "fs_inv C s1 J R T" by (rule fs_inv_touch [OF Suc(3) s1(2)])
    have "n = length (root_entries s1) - Suc k" using Suc(2) touch_root(2) [OF s1(2)] by simp
    from Suc(1) [OF this inv1 _ Suc(5) nl] obtain j e' s' where r: "slot_loop s1 p (20 * Suc k) (?es ! k) = Some (20 * j, e', s')"
      "touch s1 s'" "free_slot ?es (Suc k) j" "length (name e') = 15" using Suc(4) kl touch_root [OF s1(2)] by auto
    have "slot_loop s p (20 * k) e0 = slot_loop s1 p (20 * k + 20) (?es ! k)"
      using s1(1) e entry_bytes [OF k] True by (simp add: u Let_def)
    then have "slot_loop s p (20 * k) e0 = Some (20 * j, e', s')" using r(1) by (simp add: algebra_simps)
    then show ?thesis using touch_trans [OF s1(2) r(2)] free_slot_step [OF r(3) True] r(4) by blast
  qed
qed


section \<open>Writing an entry\<close>

lemma table_io:
  assumes tab: "table_ok C s J T" and io: "io s s'" and idata: "\<forall>x \<in> J. idata (fs_device s') x = idata (fs_device s) x"
  shows "table_ok C s' J T"
proof (rule table_okI)
  note t = table_okD [OF tab] and f = io_fields [OF io]
  have op: "opened s' = opened s" by (simp add: opened_def f)
  show "inode_ok C s' J T q k" if a: "opened s' q = Some k" for q k
  proof -
    have o: "inode_ok C s J T q k" using t(5) a op by simp
    then have "idata (fs_device s') (sector k) = idata (fs_device s) (sector k)" using idata by (simp add: inode_ok_def)
    then show ?thesis using o inode_ok_cong [of s' k s] f by simp
  qed
  show "q = q'" if "opened s' q = Some k" "opened s' q' = Some k'" "sector k = sector k'" for q q' k k'
    using t(6) [of q k q' k'] that op by simp
  show "0 < q \<and> q < mem_brk s'" if "q \<in> dom (inodes s') \<union> dom (files s') \<union> dom (dirs s')" for q
    using t(4) [of q] that f by auto
  show "C \<subseteq> {..<mem_brk s'}" using t(10) f(10) by force
  show "f_inode l \<in> dom (opened s')" if "files s' q = Some l" "q \<notin> C" for q l using t(7) [of q l] that op f by simp
  show "dir_inode l \<in> dom (opened s')" if "dirs s' q = Some l" "q \<notin> C" for q l using t(8) [of q l] that op f by simp
  show "set_mset T \<subseteq> dom (opened s')" using t(9) op by simp
qed (use table_okD(1,2,3,11) [OF tab] io_fields [OF io] in simp_all)

lemma root_write_ok:
  assumes inv: "fs_inv C s J R T" and i: "opened s p = Some i" "sector i = 1" and j: "j < length (root_entries s)"
    and e: "inode_sector e < 2 ^ 32" "length (name e) = 15"
    and ok: "entries_ok J ((root_entries s)[j := e])"
    and rem: "\<forall>q k. opened s q = Some k \<longrightarrow> removed k \<longrightarrow> sector k \<notin> inode_sector ` set (used_entries ((root_entries s)[j := e]))"
  shows "\<exists>s'. inode_write_at s p (encode_entry e) (20 * j) = Some (20, s') \<and> io s s' \<and> fs_inv C s' J R T \<and>
    kept (J - {1}) s s' \<and> root_entries s' = (root_entries s)[j := e]"
proof -
  let ?c = "fbytes (fs_device s) 1"
  note en = decode_encode_entry [OF e] and len = root_length [OF inv]
  have k: "j < length ?c div 20" using j len by simp
  have fit: "20 * j + 20 \<le> length ?c" using j len by simp
  obtain s' where s': "inode_write_at s p (encode_entry e) (20 * j) = Some (20, s')" "io s s'"
      "store_ok (fs_device s') (free_map s') J R" "\<forall>x \<in> J. idata (fs_device s') x = idata (fs_device s) x"
      "kept (J - {1}) s s'" "fbytes (fs_device s') 1 = overwrite ?c (20 * j) (encode_entry e)"
    using inode_write_at_store [OF inv i(1) root_no_deny(1) [OF inv i], of "encode_entry e" "20 * j"] i(2) fit en(2) by auto
  note f = io_fields [OF s'(2)]
  have es: "root_entries s' = (root_entries s)[j := e]"
    using entries_overwrite [OF k en(2)] s'(6) en(1) by (simp add: root_entries_def)
  have op: "opened s' = opened s" by (simp add: opened_def f)
  have r: "root_tab s" using fs_invD(3) [OF inv] by (simp add: root_ok_def)
  obtain g h where g: "files s (free_map_file s) = Some g" "opened s (f_inode g) = Some h" "sector h = 0"
    using root_tabD(3) [OF r] by blast
  have "root_tab s'"
  proof (rule root_tabI [of _ g h])
    fix q k assume a: "opened s' q = Some k" "removed k"
    then show "sector k \<notin> {0, 1} \<and> sector k \<notin> inode_sector ` set (used_entries (root_entries s'))"
      unfolding es using rem root_tabD(1) [OF r, of q k] op by auto
  next
    fix fq l k assume "files s' fq = Some l" "opened s' (f_inode l) = Some k"
    then show "sector k \<noteq> 1 \<and> (sector k = 0 \<longrightarrow> fq = free_map_file s' \<and> \<not> deny_write l)"
      using root_tabD(2) [OF r, of fq l k] op f by simp
  qed (use g op f in simp_all)
  moreover have "length (fbytes (fs_device s') 1) = length ?c" using s'(6) fit en(2) by (simp add: length_overwrite)
  moreover have "length (fbytes (fs_device s') 0) = length (fbytes (fs_device s) 0)"
    using s'(4) fs_invD(6) [OF inv] by (simp add: fbytes_def)
  ultimately have "root_ok s' J" using fs_invD(3) [OF inv] ok es f by (simp add: root_ok_def)
  moreover have "table_ok C s' J T" by (rule table_io [OF fs_invD(2) [OF inv] s'(2,4)])
  moreover have "mem_good s'" using fs_invD(4) [OF inv] mem_good_io [OF s'(2)] by simp
  ultimately have "fs_inv C s' J R T" using s'(3) fs_invD(11) [OF inv] f by (simp add: fs_inv_def fs_wf_def)
  then show ?thesis using s' es by blast
qed


section \<open>The names\<close>

definition dir_names :: "dir_entry list \<Rightarrow> u8 list \<Rightarrow> nat option" where
  "dir_names es = map_of (map (\<lambda>e. (the (entry_name e), inode_sector e)) (used_entries es))"

lemma fs_names_eq: "fs_names s = dir_names (root_entries s)"
  by (simp add: fs_names_def dir_names_def)

lemma dir_names_iff:
  assumes "entries_ok J es"
  shows "dir_names es nm = Some x \<longleftrightarrow> (\<exists>e \<in> set (used_entries es). entry_name e = Some nm \<and> inode_sector e = x)"
proof -
  have ne: "\<forall>e \<in> set (used_entries es). entry_name e \<noteq> None" and d: "distinct (map entry_name (used_entries es))"
    using assms by (simp_all add: entries_ok_def)
  have "map entry_name (used_entries es) = map Some (map (the \<circ> entry_name) (used_entries es))" using ne by auto
  then have "distinct (map (the \<circ> entry_name) (used_entries es))" using d by (metis distinct_map)
  then have "distinct (map fst (map (\<lambda>e. (the (entry_name e), inode_sector e)) (used_entries es)))" by (simp add: comp_def)
  from map_of_eq_Some_iff [OF this] show ?thesis using ne unfolding dir_names_def by force
qed

lemma dir_names_eqI:
  assumes "\<And>m x. f m = Some x \<longleftrightarrow> g m = Some x"
  shows "f = (g :: 'a \<Rightarrow> 'b option)"
  using assms by (intro ext) (metis not_None_eq)

lemma used_split:
  assumes "j < length es"
  shows "used_entries es = used_entries (take j es) @ (if in_use (es ! j) then [es ! j] else []) @ used_entries (drop (Suc j) es)"
    and "used_entries (es[j := e]) = used_entries (take j es) @ (if in_use e then [e] else []) @ used_entries (drop (Suc j) es)"
proof -
  show "used_entries es = used_entries (take j es) @ (if in_use (es ! j) then [es ! j] else []) @ used_entries (drop (Suc j) es)"
    using arg_cong [OF id_take_nth_drop [OF assms], of used_entries] by (simp add: used_entries_def)
  show "used_entries (es[j := e]) = used_entries (take j es) @ (if in_use e then [e] else []) @ used_entries (drop (Suc j) es)"
    by (simp add: upd_conv_take_nth_drop [OF assms] used_entries_def)
qed

lemma add_entry:
  assumes ok: "entries_ok J es" and j: "j < length es" "\<not> in_use (es ! j)"
    and e: "in_use e" "entry_name e = Some nm" "inode_sector e \<in> J - {0, 1}"
    and new: "dir_names es nm = None" "inode_sector e \<notin> inode_sector ` set (used_entries es)"
  shows "entries_ok J (es[j := e])" and "dir_names (es[j := e]) = (dir_names es)(nm \<mapsto> inode_sector e)"
    and "set (used_entries (es[j := e])) = insert e (set (used_entries es))"
proof -
  let ?es = "es[j := e]"
  have u: "used_entries es = used_entries (take j es) @ used_entries (drop (Suc j) es)"
    "used_entries ?es = used_entries (take j es) @ e # used_entries (drop (Suc j) es)"
    using used_split(1) [OF j(1)] used_split(2) [OF j(1), of e] j(2) e(1) by simp_all
  have nn: "entry_name f \<noteq> Some nm" if "f \<in> set (used_entries es)" for f
    using dir_names_iff [OF ok, of nm] new(1) that by auto
  show set': "set (used_entries ?es) = insert e (set (used_entries es))" unfolding u by auto
  have "entry_name e \<notin> entry_name ` set (used_entries es)" using nn e(2) by (metis imageE)
  then show ok': "entries_ok J ?es" using ok e new(2) unfolding entries_ok_def set' unfolding u by auto
  show "dir_names ?es = (dir_names es)(nm \<mapsto> inode_sector e)"
  proof (rule dir_names_eqI)
    fix m x
    show "dir_names ?es m = Some x \<longleftrightarrow> ((dir_names es)(nm \<mapsto> inode_sector e)) m = Some x"
      using nn e(2) by (auto simp: dir_names_iff [OF ok'] dir_names_iff [OF ok] set')
  qed
qed

lemma delete_entry:
  assumes ok: "entries_ok J es" and j: "j < length es" "in_use (es ! j)" "entry_name (es ! j) = Some nm" and e: "\<not> in_use e"
  shows "entries_ok J (es[j := e])" and "dir_names (es[j := e]) = (dir_names es)(nm := None)"
    and "set (used_entries (es[j := e])) = set (used_entries es) - {es ! j}"
    and "inode_sector (es ! j) \<notin> inode_sector ` set (used_entries (es[j := e]))"
    and "dir_names es nm = Some (inode_sector (es ! j))"
proof -
  let ?es = "es[j := e]" and ?f = "es ! j"
  have u: "used_entries es = used_entries (take j es) @ ?f # used_entries (drop (Suc j) es)"
    "used_entries ?es = used_entries (take j es) @ used_entries (drop (Suc j) es)"
    using used_split(1) [OF j(1)] used_split(2) [OF j(1), of e] j(2) e by simp_all
  have d: "distinct (map inode_sector (used_entries es))" "distinct (map entry_name (used_entries es))"
    using ok by (simp_all add: entries_ok_def)
  show sec: "inode_sector ?f \<notin> inode_sector ` set (used_entries ?es)" using d(1) unfolding u by auto
  have nm: "entry_name ?f \<notin> entry_name ` set (used_entries ?es)" using d(2) unfolding u by auto
  have nin: "?f \<notin> set (used_entries ?es)" using sec by blast
  then show set': "set (used_entries ?es) = set (used_entries es) - {?f}" unfolding u by auto
  show ok': "entries_ok J ?es" using ok unfolding entries_ok_def set' unfolding u by auto
  show "dir_names es nm = Some (inode_sector ?f)" using j(3) u(1) by (auto simp: dir_names_iff [OF ok])
  show "dir_names ?es = (dir_names es)(nm := None)"
  proof (rule dir_names_eqI)
    fix m x
    have n: "entry_name g \<noteq> Some nm" if "g \<in> set (used_entries ?es)" for g using nm that j(3) by (metis imageI)
    show "dir_names ?es m = Some x \<longleftrightarrow> ((dir_names es)(nm := None)) m = Some x"
      using n j(3) by (auto simp: dir_names_iff [OF ok'] dir_names_iff [OF ok] set')
  qed
qed


section \<open>Looking up and adding names\<close>

lemma found_names:
  assumes "entries_ok J es" and "found es 0 nm r"
  shows "dir_names es nm = map_option (\<lambda>(e, ofs). inode_sector e) r"
proof (cases r)
  case None
  have "\<not> (\<exists>e \<in> set (used_entries es). entry_name e = Some nm \<and> inode_sector e = x)" for x
    using assms(2) None by (auto simp: found_def used_entries_def in_set_conv_nth)
  then have "dir_names es nm \<noteq> Some x" for x using dir_names_iff [OF assms(1)] by simp
  then show ?thesis using None by (cases "dir_names es nm") auto
next
  case (Some a)
  then obtain e ofs j where r: "r = Some (e, ofs)" "j < length es" "e = es ! j" "in_use e" "entry_name e = Some nm"
    using assms(2) by (cases a) (auto simp: found_def)
  then have "e \<in> set (used_entries es)" by (simp add: used_entries_def)
  then show ?thesis using dir_names_iff [OF assms(1), of nm "inode_sector e"] r(1,5) by auto
qed

lemma lookup_names:
  assumes "fs_inv C s J R T" and "dirs s dp = Some d" and "opened s (dir_inode d) = Some i" and "sector i = 1"
  shows "\<exists>r s'. lookup s dp nm = Some (r, s') \<and> touch s s' \<and> found (root_entries s) 0 nm r \<and>
    fs_names s nm = map_option (\<lambda>(e, ofs). inode_sector e) r"
proof -
  have "entries_ok J (root_entries s)" using fs_invD(3) [OF assms(1)] by (simp add: root_ok_def)
  then show ?thesis using lookup_ok [OF assms, of nm] found_names unfolding fs_names_eq by blast
qed

lemma root_write_end:
  assumes inv: "fs_inv C s J R T" and i: "opened s p = Some i" "sector i = 1"
  shows "\<exists>s'. inode_write_at s p b (20 * length (root_entries s)) = Some (0, s') \<and> io s s' \<and> fs_inv C s' J R T \<and> kept J s s'"
proof -
  let ?c = "fbytes (fs_device s) 1"
  obtain s' where s': "inode_write_at s p b (length ?c) = Some (0, s')" "io s s'"
      "store_ok (fs_device s') (free_map s') J R" "\<forall>x \<in> J. idata (fs_device s') x = idata (fs_device s) x"
      "kept (J - {1}) s s'" "fbytes (fs_device s') 1 = ?c"
    using inode_write_at_store [OF inv i(1) root_no_deny(1) [OF inv i], of b "length ?c"] i(2) by auto
  have "fs_inv C s' J R T"
    using s'(3,4,6) by (intro fs_inv_store [OF inv io_same_tables [OF s'(2)]]) (auto simp: io_fields [OF s'(2)])
  moreover have "kept J s s'" using s'(4,5,6) by (auto simp: kept_def)
  ultimately show ?thesis using s'(1,2) root_length [OF inv] by auto
qed

lemma new_entry_name:
  assumes "0 \<notin> set nm" and "length nm \<le> 14" and "length m = 15"
  shows "length (nm @ [0] @ drop (length nm + 1) m) = 15"
    "entry_name \<lparr>inode_sector = x, name = nm @ [0] @ drop (length nm + 1) m, in_use = u\<rparr> = Some nm"
proof -
  have "\<forall>c \<in> set nm. c \<noteq> 0" using assms(1) by auto
  then show "entry_name \<lparr>inode_sector = x, name = nm @ [0] @ drop (length nm + 1) m, in_use = u\<rparr> = Some nm"
    by (simp add: entry_name_def takeWhile_append2)
qed (use assms in simp)

lemma free_slot_iff: "free_slot es 0 j \<Longrightarrow> j < length es \<longleftrightarrow> (\<exists>e \<in> set es. \<not> in_use e)"
  unfolding free_slot_def by (metis in_set_conv_nth le0 nth_mem less_irrefl)

lemma root_entries_ok: "fs_inv C s J R T \<Longrightarrow> entries_ok J (root_entries s)"
  using fs_invD(3) by (simp add: root_ok_def)

lemma write_new_entry:
  assumes inv: "fs_inv C s J R T" and i: "opened s p = Some i" "sector i = 1"
    and j: "j < length (root_entries s)" "\<not> in_use (root_entries s ! j)"
    and sec: "sec \<in> J - {0, 1}" "sec \<notin> inode_sector ` set (used_entries (root_entries s))"
    and unopened: "\<forall>q k. opened s q = Some k \<longrightarrow> sector k \<noteq> sec"
    and nm: "0 \<notin> set nm" "length nm \<le> 14" and m: "length m = 15" and none: "fs_names s nm = None"
  defines "e \<equiv> \<lparr>inode_sector = sec, name = nm @ [0] @ drop (length nm + 1) m, in_use = True\<rparr>"
  shows "\<exists>s'. inode_write_at s p (encode_entry e) (20 * j) = Some (20, s') \<and> io s s' \<and> fs_inv C s' J R T \<and>
    kept (J - {1}) s s' \<and> fs_names s' = (fs_names s)(nm \<mapsto> sec)"
proof -
  let ?es = "(root_entries s)[j := e]"
  note name' = new_entry_name [OF nm m]
  have new: "entries_ok J ?es" "dir_names ?es = (fs_names s)(nm \<mapsto> sec)"
    "set (used_entries ?es) = insert e (set (used_entries (root_entries s)))"
    using add_entry [OF root_entries_ok [OF inv] j, of e nm] name'(2) sec none by (simp_all add: fs_names_eq e_def)
  have small: "sec < 2 ^ 32"
    using store_okD(11) [OF fs_invD(1) [OF inv], of sec] sec(1) fs_invD(8) [OF inv] by (auto simp: dev_ok_def)
  have rem: "sector k \<notin> inode_sector ` set (used_entries ?es)" if "opened s q = Some k" "removed k" for q k
  proof -
    have "root_tab s" using fs_invD(3) [OF inv] by (simp add: root_ok_def)
    then show ?thesis using root_tabD(1) [of s q k] that unopened new(3) by (auto simp: e_def)
  qed
  show ?thesis
    using root_write_ok [OF inv i j(1), of e] new small name'(1) rem by (auto simp: e_def fs_names_eq)
qed

lemma dir_add_ok:
  assumes inv: "fs_inv C s J R T" and d: "dirs s dp = Some d" and i: "opened s (dir_inode d) = Some i" "sector i = 1"
    and sec: "sec \<in> J - {0, 1}" "sec \<notin> inode_sector ` set (used_entries (root_entries s))"
    and unopened: "\<forall>q k. opened s q = Some k \<longrightarrow> sector k \<noteq> sec" and nm: "0 \<notin> set nm"
  defines "ok \<equiv> nm \<noteq> [] \<and> length nm \<le> 14 \<and> fs_names s nm = None \<and> (\<exists>e \<in> set (root_entries s). \<not> in_use e)"
  shows "\<exists>s'. dir_add s dp nm sec = Some (ok, s') \<and> io s s' \<and> fs_inv C s' J R T \<and> kept (if ok then J - {1} else J) s s' \<and>
    fs_names s' = (if ok then (fs_names s)(nm \<mapsto> sec) else fs_names s)"
proof (cases "nm = [] \<or> 14 < length nm")
  case True
  then show ?thesis using inv by (auto simp: dir_add_def ok_def)
next
  case False
  obtain r s1 where s1: "lookup s dp nm = Some (r, s1)" "touch s s1" "fs_names s nm = map_option (\<lambda>(e, ofs). inode_sector e) r"
    using lookup_names [OF inv d i] by blast
  note f1 = io_fields [OF touch_io [OF s1(2)]] and t1 = touch_root [OF s1(2)]
  have inv1: "fs_inv C s1 J R T" by (rule fs_inv_touch [OF inv s1(2)])
  have n1: "fs_names s1 = fs_names s" by (simp add: fs_names_eq t1)
  show ?thesis
  proof (cases r)
    case (Some a)
    then have "\<not> ok" using s1(3) by (cases a) (simp add: ok_def)
    then show ?thesis
      using False Some s1(1) inv1 n1 touch_io [OF s1(2)] touch_kept [OF s1(2)] by (auto simp: dir_add_def)
  next
    case None
    let ?e0 = "\<lparr>inode_sector = 0, name = replicate 15 0, in_use = False\<rparr>"
    have i1: "opened s1 (dir_inode d) = Some i" using i(1) t1(1) by simp
    obtain j e s2 where s2: "slot_loop s1 (dir_inode d) 0 ?e0 = Some (20 * j, e, s2)" "touch s1 s2"
        "free_slot (root_entries s1) 0 j" "length (name e) = 15"
      using slot_loop_ok [OF inv1 i1 i(2), of ?e0 0] by auto
    note t2 = touch_root [OF s2(2)]
    have inv2: "fs_inv C s2 J R T" by (rule fs_inv_touch [OF inv1 s2(2)])
    have i2: "opened s2 (dir_inode d) = Some i" using i1 t2(1) by simp
    have es: "root_entries s2 = root_entries s" using t1 t2 by simp
    have n2: "fs_names s2 = fs_names s" by (simp add: fs_names_eq es)
    have io2: "io s s2" using touch_io [OF touch_trans [OF s1(2) s2(2)]] .
    have k2: "kept X s s2" for X using touch_kept [OF touch_trans [OF s1(2) s2(2)]] .
    let ?e = "\<lparr>inode_sector = sec, name = nm @ [0] @ drop (length nm + 1) (name e), in_use = True\<rparr>"
    have add: "dir_add s dp nm sec = do { (n, s) \<leftarrow> inode_write_at s2 (dir_inode d) (encode_entry ?e) (20 * j); Some (n = 20, s) }"
      using False s1(1) None d f1 s2(1) by (auto simp: dir_add_def Let_def)
    have len: "length nm \<le> 14" and ne: "nm \<noteq> []" and none: "fs_names s nm = None" using False s1(3) None by auto
    have okj: "ok \<longleftrightarrow> j < length (root_entries s)" using free_slot_iff [OF s2(3)] t1 len ne none by (simp add: ok_def)
    show ?thesis
    proof (cases "j < length (root_entries s)")
      case True
      have free: "\<not> in_use (root_entries s2 ! j)" using True s2(3) t1 es by (simp add: free_slot_def)
      have "\<forall>q k. opened s2 q = Some k \<longrightarrow> sector k \<noteq> sec" using unopened t1 t2 by simp
      then obtain s' where "inode_write_at s2 (dir_inode d) (encode_entry ?e) (20 * j) = Some (20, s')" "io s2 s'" "fs_inv C s' J R T"
        "kept (J - {1}) s2 s'" "fs_names s' = (fs_names s2)(nm \<mapsto> sec)"
        using write_new_entry [OF inv2 i2 i(2) _ free sec(1) _ _ nm len s2(4)] True sec(2) es n2 none by auto
      then show ?thesis using add okj True n2 io_trans [OF io2] kept_trans [OF k2] by simp
    next
      case F: False
      then have "20 * j = 20 * length (root_entries s2)" using s2(3) t1 es by (simp add: free_slot_def)
      then obtain s' where s': "inode_write_at s2 (dir_inode d) (encode_entry ?e) (20 * j) = Some (0, s')" "io s2 s'" "fs_inv C s' J R T"
        "kept J s2 s'" using root_write_end [OF inv2 i2 i(2), of "encode_entry ?e"] by auto
      have "fs_names s' = fs_names s" using kept_names [OF s'(4)] fs_invD(7) [OF inv] n2 by simp
      then show ?thesis using add okj F s' io_trans [OF io2] kept_trans [OF k2 s'(4)] by auto
    qed
  qed
qed


lemma dir_lookup_ok:
  assumes inv: "fs_inv {} s J R T" and d: "dirs s dp = Some d" and i: "opened s (dir_inode d) = Some i" "sector i = 1"
  shows "case fs_names s nm of
      None \<Rightarrow> \<exists>s'. dir_lookup s dp nm = Some (NULL, s') \<and> touch s s'
    | Some x \<Rightarrow> \<exists>p k s'. dir_lookup s dp nm = Some (p, s') \<and> p \<noteq> NULL \<and> fs_inv {} s' J R (add_mset p T) \<and> same_disk s s' \<and>
        same_sectors s s' \<and> files s' = files s \<and> dirs s' = dirs s \<and> opened s' p = Some k \<and> sector k = x"
proof -
  obtain r s1 where s1: "lookup s dp nm = Some (r, s1)" "touch s s1" "fs_names s nm = map_option (\<lambda>(e, ofs). inode_sector e) r"
    using lookup_names [OF inv d i] by blast
  note f1 = io_fields [OF touch_io [OF s1(2)]] and t1 = touch_root [OF s1(2)]
  have inv1: "fs_inv {} s1 J R T" by (rule fs_inv_touch [OF inv s1(2)])
  show ?thesis
  proof (cases r)
    case None
    then show ?thesis using s1 by (simp add: dir_lookup_def)
  next
    case (Some a)
    then obtain e ofs where r: "r = Some (e, ofs)" by (cases a) auto
    then have nm: "fs_names s nm = Some (inode_sector e)" using s1(3) by simp
    then have "inode_sector e \<in> J"
      using dir_names_iff [OF root_entries_ok [OF inv]] root_entries_ok [OF inv] by (fastforce simp: fs_names_eq entries_ok_def)
    from inode_open_ok [OF inv1 this] obtain p k s' where s': "inode_open s1 (inode_sector e) = Some (p, s')" "p \<noteq> NULL"
      "fs_inv {} s' J R (add_mset p T)" "same_disk s1 s'" "same_inodes s1 s'" "files s' = files s1" "dirs s' = dirs s1"
      "opened s' p = Some k" "sector k = inode_sector e" by blast
    have "same_disk s s'" using same_disk_trans [OF touch_same_disk [OF s1(2)] s'(4)] .
    moreover have "same_sectors s s'"
      using same_sectors_trans [OF same_sectors_opened [OF t1(1)] same_sectors_inodes [OF s'(5)]] .
    ultimately show ?thesis using s1(1) r nm s' f1 by (auto simp: dir_lookup_def)
  qed
qed

lemma inode_remove_ok:
  assumes inv: "fs_inv C s J R T" and p: "opened s p = Some i"
    and sec: "sector i \<notin> {0, 1}" "sector i \<notin> inode_sector ` set (used_entries (root_entries s))"
  shows "\<exists>s'. inode_remove s p = Some s' \<and> fs_inv C s' J R T \<and> same_disk s s' \<and> files s' = files s \<and> dirs s' = dirs s \<and>
    opened s' = (opened s)(p \<mapsto> i\<lparr>removed := True\<rparr>)"
proof -
  let ?f = "\<lambda>i. i\<lparr>removed := True\<rparr>"
  let ?s = "upd_inode s p ?f"
  note t = fs_invD(2) [OF inv]
  have o: "inode_ok C s J T p i" by (rule table_okD(5) [OF t p])
  have op: "opened ?s = (opened s)(p \<mapsto> ?f i)" by (rule opened_upd [OF p])
  have r: "root_tab s" using fs_invD(3) [OF inv] by (simp add: root_ok_def)
  have e: "root_entries ?s = root_entries s" by (simp add: root_entries_def)
  obtain g h where g: "files s (free_map_file s) = Some g" "opened s (f_inode g) = Some h" "sector h = 0"
    using root_tabD(3) [OF r] by blast
  have ng: "f_inode g \<noteq> p" using g(2,3) p sec(1) by auto
  have "root_tab ?s"
  proof (rule root_tabI [of _ g h])
    fix q k assume k: "opened ?s q = Some k" "removed k"
    show "sector k \<notin> {0, 1} \<and> sector k \<notin> inode_sector ` set (used_entries (root_entries ?s))"
      unfolding e using k op sec root_tabD(1) [OF r, of q k] by (cases "q = p") auto
  next
    fix fp l k assume k: "files ?s fp = Some l" "opened ?s (f_inode l) = Some k"
    have "\<exists>k'. opened s (f_inode l) = Some k' \<and> sector k' = sector k" using k(2) op p by (cases "f_inode l = p") auto
    then show "sector k \<noteq> 1 \<and> (sector k = 0 \<longrightarrow> fp = free_map_file ?s \<and> \<not> deny_write l)"
      using k(1) root_tabD(2) [OF r, of fp l] by auto
  qed (use g ng op in simp_all)
  moreover have "table_ok C ?s J T" by (rule table_upd [OF t p]) (use o in \<open>auto simp: inode_ok_def\<close>)
  ultimately have "fs_inv C ?s J R T" using fs_inv_tables [OF inv same_disk_upd] by blast
  then show ?thesis using opened_inodes [OF p] op by (simp add: inode_remove_def)
qed


section \<open>Removing names\<close>

lemma write_free_entry:
  assumes inv: "fs_inv C s J R T" and i: "opened s p = Some i" "sector i = 1"
    and j: "j < length (root_entries s)" "in_use (root_entries s ! j)" "entry_name (root_entries s ! j) = Some nm"
  defines "e \<equiv> (root_entries s ! j)\<lparr>in_use := False\<rparr>"
  shows "\<exists>s'. inode_write_at s p (encode_entry e) (20 * j) = Some (20, s') \<and> io s s' \<and> fs_inv C s' J R T \<and>
    kept (J - {1}) s s' \<and> root_entries s' = (root_entries s)[j := e]"
proof (rule root_write_ok [OF inv i j(1)])
  note del = delete_entry [OF root_entries_ok [OF inv] j, of e]
  have k: "j < length (fbytes (fs_device s) 1) div 20" using j(1) by (simp add: root_entries_def)
  show "inode_sector e < 2 ^ 32" "length (name e) = 15"
    using entries_sector [OF k] entries_name_length [OF k] by (simp_all add: e_def root_entries_def)
  show "entries_ok J ((root_entries s)[j := e])" using del(1) by (simp add: e_def)
  have "root_tab s" using fs_invD(3) [OF inv] by (simp add: root_ok_def)
  moreover have "set (used_entries ((root_entries s)[j := e])) \<subseteq> set (used_entries (root_entries s))"
    using del(3) by (auto simp: e_def)
  ultimately show "\<forall>q k. opened s q = Some k \<longrightarrow> removed k \<longrightarrow> sector k \<notin> inode_sector ` set (used_entries ((root_entries s)[j := e]))"
    using root_tabD(1) by blast
qed

text \<open>Marking the inode of a file as removed and closing it.\<close>

lemma remove_close_ok:
  assumes inv: "fs_inv {} s J R (add_mset p T)" and p: "opened s p = Some k"
    and sec: "sector k \<notin> {0, 1}" "sector k \<notin> inode_sector ` set (used_entries (root_entries s))"
  shows "\<exists>s' s'' J'. inode_remove s p = Some s' \<and> inode_close s' p = Some s'' \<and> fs_inv {} s'' J' R T \<and> J - {sector k} \<subseteq> J' \<and> J' \<subseteq> J \<and>
    kept (J' - {0}) s s'' \<and> (synced s \<longrightarrow> synced s'') \<and> files s'' = files s \<and> dirs s'' = dirs s \<and>
    free_map_file s'' = free_map_file s \<and> (\<forall>q i. opened s'' q = Some i \<longrightarrow> (\<exists>i'. opened s q = Some i' \<and> sector i' = sector i))"
proof -
  obtain s' where s': "inode_remove s p = Some s'" "fs_inv {} s' J R (add_mset p T)" "same_disk s s'" "files s' = files s"
      "dirs s' = dirs s" "opened s' = (opened s)(p \<mapsto> k\<lparr>removed := True\<rparr>)"
    using inode_remove_ok [OF inv p sec] by blast
  have "opened s' p = Some (k\<lparr>removed := True\<rparr>)" using s'(6) by simp
  from inode_close_ok [OF s'(2) this] obtain s'' J' where s'': "inode_close s' p = Some s''" "fs_inv {} s'' J' R T"
      "J' = J \<or> J' = J - {sector k}" "kept (J' - {0}) s' s''" "synced s' \<longrightarrow> synced s''" "other_inodes p s' s''"
      "files s'' = files s'" "dirs s'' = dirs s'" "free_map_file s'' = free_map_file s'"
      "opened s'' p = None \<or> opened s'' p = Some (k\<lparr>removed := True, open_cnt := open_cnt k - 1\<rparr>)" by auto
  note sd = same_disk_fields [OF s'(3)]
  have orig: "\<forall>q i. opened s'' q = Some i \<longrightarrow> (\<exists>i'. opened s q = Some i' \<and> sector i' = sector i)"
  proof (intro allI impI)
    fix q i assume "opened s'' q = Some i"
    then show "\<exists>i'. opened s q = Some i' \<and> sector i' = sector i"
      using s''(6,10) s'(6) p by (cases "q = p") (auto simp: other_inodes_def)
  qed
  have J': "J - {sector k} \<subseteq> J'" "J' \<subseteq> J" using s''(3) by auto
  have kp: "kept (J' - {0}) s s''" using s''(4) sd by (simp add: kept_def)
  have sy: "synced s \<longrightarrow> synced s''" using s''(5) sd by simp
  have fm: "free_map_file s'' = free_map_file s" using s''(9) s'(3) by (simp add: same_disk_def)
  show ?thesis
    by (rule exI [of _ s'], rule exI [of _ s''], rule exI [of _ J'], intro conjI)
      (use s'(1,4,5) s''(1,2,7,8) J' kp sy fm orig in simp_all)
qed

lemma dir_remove_ok:
  assumes inv: "fs_inv {} s J R T" and d: "dirs s dp = Some d" and i: "opened s (dir_inode d) = Some i" "sector i = 1"
  shows "\<exists>s' J'. dir_remove s dp nm = Some (fs_names s nm \<noteq> None, s') \<and> fs_inv {} s' J' R T \<and>
    J - set_option (fs_names s nm) \<subseteq> J' \<and> J' \<subseteq> J \<and> kept (J' - {0, 1}) s s' \<and> (synced s \<longrightarrow> synced s') \<and>
    files s' = files s \<and> dirs s' = dirs s \<and> free_map_file s' = free_map_file s \<and>
    same_sectors s s' \<and> fs_names s' = (fs_names s)(nm := None)"
proof -
  obtain r s1 where s1: "lookup s dp nm = Some (r, s1)" "touch s s1" "found (root_entries s) 0 nm r"
      "fs_names s nm = map_option (\<lambda>(e, ofs). inode_sector e) r"
    using lookup_names [OF inv d i] by blast
  note f1 = io_fields [OF touch_io [OF s1(2)]] and t1 = touch_root [OF s1(2)]
  have inv1: "fs_inv {} s1 J R T" by (rule fs_inv_touch [OF inv s1(2)])
  show ?thesis
  proof (cases r)
    case None
    have "fs_names s1 = (fs_names s)(nm := None)" using s1(4) None by (simp add: fs_names_eq t1 fun_upd_idem)
    moreover have "dir_remove s dp nm = Some (fs_names s nm \<noteq> None, s1)"
      using s1(1,4) None by (simp add: dir_remove_def inode_close_def)
    moreover have "synced s \<longrightarrow> synced s1" by (simp add: synced_def t1 f1)
    ultimately show ?thesis
      using inv1 touch_kept [OF s1(2)] f1 same_sectors_opened [OF t1(1)] by (intro exI [of _ s1] exI [of _ J]) simp
  next
    case (Some a)
    obtain j where j: "r = Some (root_entries s ! j, 20 * j)" "j < length (root_entries s)" "in_use (root_entries s ! j)"
        "entry_name (root_entries s ! j) = Some nm"
      using s1(3) Some by (cases a) (auto simp: found_def)
    let ?e = "root_entries s ! j" and ?x = "inode_sector (root_entries s ! j)"
    let ?es = "(root_entries s)[j := ?e\<lparr>in_use := False\<rparr>]"
    have nm: "fs_names s nm = Some ?x" using s1(4) j(1) by simp
    note del = delete_entry [OF root_entries_ok [OF inv] j(2,3,4), of "?e\<lparr>in_use := False\<rparr>", simplified]
    have xJ: "?x \<in> J - {0, 1}"
      using root_entries_ok [OF inv] nth_mem [OF j(2)] j(3) by (auto simp: entries_ok_def used_entries_def)
    then have "?x \<in> J" by simp
    from inode_open_ok [OF inv1 this] obtain p k s2 where s2: "inode_open s1 ?x = Some (p, s2)" "p \<noteq> NULL"
      "fs_inv {} s2 J R (add_mset p T)" "same_disk s1 s2" "same_inodes s1 s2" "files s2 = files s1" "dirs s2 = dirs s1"
      "opened s2 p = Some k" "sector k = ?x" by blast
    have es2: "root_entries s2 = root_entries s" using same_disk_fields [OF s2(4)] t1 by simp
    have ss2: "same_sectors s s2"
      using same_sectors_trans [OF same_sectors_opened [OF t1(1)] same_sectors_inodes [OF s2(5)]] .
    obtain i2 where i2: "opened s2 (dir_inode d) = Some i2" "sector i2 = 1" using same_sectorsD [OF ss2 i(1)] i(2) by metis
    obtain s3 where s3: "inode_write_at s2 (dir_inode d) (encode_entry (?e\<lparr>in_use := False\<rparr>)) (20 * j) = Some (20, s3)" "io s2 s3"
        "fs_inv {} s3 J R (add_mset p T)" "kept (J - {1}) s2 s3" "root_entries s3 = ?es"
      using write_free_entry [OF s2(3) i2, of j nm] j es2 by auto
    note f3 = io_fields [OF s3(2)]
    have op3: "opened s3 = opened s2" by (simp add: opened_def f3)
    then have k3: "opened s3 p = Some k" using s2(8) by simp
    have "sector k \<notin> {0, 1}" "sector k \<notin> inode_sector ` set (used_entries (root_entries s3))"
      using xJ s2(9) del(4) s3(5) by simp_all
    from remove_close_ok [OF s3(3) k3 this] obtain s4 s5 J' where s5: "inode_remove s3 p = Some s4" "inode_close s4 p = Some s5"
        "fs_inv {} s5 J' R T" "J - {?x} \<subseteq> J'" "J' \<subseteq> J" "kept (J' - {0}) s3 s5" "synced s3 \<longrightarrow> synced s5" "files s5 = files s3"
        "dirs s5 = dirs s3" "free_map_file s5 = free_map_file s3"
        "\<forall>q i. opened s5 q = Some i \<longrightarrow> (\<exists>i'. opened s3 q = Some i' \<and> sector i' = sector i)"
      unfolding s2(9) by blast
    have fs: "files s5 = files s" "dirs s5 = dirs s" using s5(8,9) f3 s2(6,7) f1 by simp_all
    have "dir_remove s dp nm = Some (fs_names s nm \<noteq> None, s5)"
      using s1(1) j(1) s2(1,2) d f1 s2(7) s3(1) s5(1,2) nm by (simp add: dir_remove_def)
    moreover have "kept (J' - {0, 1}) s s5"
    proof -
      have "kept (J' - {0, 1}) s s2" using same_disk_fields(7) [OF same_disk_trans [OF touch_same_disk [OF s1(2)] s2(4)]] .
      moreover have "kept (J' - {0, 1}) s2 s3" by (rule kept_mono [OF s3(4)]) (use s5(5) in auto)
      moreover have "kept (J' - {0, 1}) s3 s5" by (rule kept_mono [OF s5(6)]) auto
      ultimately show ?thesis using kept_trans by metis
    qed
    moreover have "synced s \<longrightarrow> synced s5"
    proof -
      have "synced s2 = synced s" using same_disk_fields(6) [OF same_disk_trans [OF touch_same_disk [OF s1(2)] s2(4)]] .
      moreover have "synced s3 = synced s2" using s3(4) f3 fs_invD(6) [OF inv] by (simp add: synced_def kept_def)
      ultimately show ?thesis using s5(7) by simp
    qed
    moreover have "same_sectors s s5"
      unfolding same_sectors_def
    proof (intro allI impI)
      fix q m assume q: "opened s q = Some m"
      obtain m5 where m5: "opened s5 q = Some m5" using still_open [OF inv s5(3) fs q] by blast
      obtain m2 where "opened s2 q = Some m2" "sector m2 = sector m" by (rule same_sectorsD [OF ss2 q])
      then show "\<exists>i'. opened s5 q = Some i' \<and> sector i' = sector m" using m5 s5(11) op3 by fastforce
    qed
    moreover have "fs_names s5 = (fs_names s)(nm := None)"
    proof -
      have "1 \<in> J' - {0}" using fs_invD(7) [OF s5(3)] by simp
      then have "fs_names s5 = fs_names s3" using kept_names [OF s5(6)] by simp
      then show ?thesis using del(2) s3(5) by (simp add: fs_names_eq)
    qed
    moreover have "free_map_file s5 = free_map_file s" using s5(10) f3 f1 s2(4) by (simp add: same_disk_def)
    ultimately show ?thesis using s5(3,4,5) fs nm by (intro exI [of _ s5] exI [of _ J']) simp
  qed
qed

end
