(* ===== verification/Filesys.thy ===== *)
theory Filesys
  imports Fs_Dir
begin

text \<open>
  The file system as its users see it: a map from names to files and a table of open files.
  \<open>filesys_create\<close>, \<open>filesys_open\<close>, \<open>filesys_remove\<close> and the operations on open files refine
  this view in every state that satisfies the invariant, and they keep the invariant.
\<close>

section \<open>The root directory is opened and closed around each operation\<close>

lemma dir_open_root_ok:
  assumes inv: "fs_inv {} s J R T"
  shows "\<exists>dp p i s'. dir_open_root s = Some (dp, s') \<and> dp \<noteq> NULL \<and> dp \<notin> dom (dirs s) \<and> fs_inv {} s' J R T \<and> same_disk s s' \<and>
    same_sectors s s' \<and> files s' = files s \<and> dirs s' = (dirs s)(dp \<mapsto> \<lparr>dir_inode = p, dir_pos = 0\<rparr>) \<and>
    opened s' p = Some i \<and> sector i = 1"
proof -
  obtain p i s1 where s1: "inode_open s 1 = Some (p, s1)" "fs_inv {} s1 J R (add_mset p T)" "same_disk s s1" "same_inodes s s1"
      "files s1 = files s" "dirs s1 = dirs s" "opened s1 p = Some i" "sector i = 1"
    using inode_open_ok [OF inv fs_invD(7) [OF inv]] by blast
  obtain dp s2 where s2: "dir_open s1 p = Some (dp, s2)" "dp \<noteq> NULL" "dp \<notin> dom (dirs s1)" "fs_inv {} s2 J R T" "same_disk s1 s2"
      "opened s2 = opened s1" "files s2 = files s1" "dirs s2 = (dirs s1)(dp \<mapsto> \<lparr>dir_inode = p, dir_pos = 0\<rparr>)"
    using dir_open_ok [OF s1(2,7)] by auto
  have "same_sectors s s2"
    by (rule same_sectors_trans [OF same_sectors_inodes [OF s1(4)] same_sectors_opened [OF s2(6)]])
  then show ?thesis
    using s1 s2 same_disk_trans [OF s1(3) s2(5)] by (auto simp: dir_open_root_def)
qed

lemma close_root_ok:
  assumes inv: "fs_inv {} s J R T" and d: "dirs s dp = Some d" and p: "opened s (dir_inode d) = Some i" "sector i = 1"
  shows "\<exists>s'. dir_close s dp = Some s' \<and> fs_inv {} s' J R T \<and> kept (J - {0}) s s' \<and> (synced s \<longrightarrow> synced s') \<and>
    handle s' = handle s \<and> files s' = files s \<and> dirs s' = (dirs s)(dp := None) \<and> free_map_file s' = free_map_file s \<and>
    other_inodes (dir_inode d) s s'"
proof -
  obtain s' J' where s': "dir_close s dp = Some s'" "fs_inv {} s' J' R T" "J' = J \<or> removed i \<and> J' = J - {sector i}"
      "kept (J' - {0}) s s'" "synced s \<longrightarrow> synced s'" "other_inodes (dir_inode d) s s'" "files s' = files s"
      "dirs s' = (dirs s)(dp := None)" "free_map_file s' = free_map_file s"
      "opened s' (dir_inode d) = None \<or> opened s' (dir_inode d) = Some (i\<lparr>open_cnt := open_cnt i - 1\<rparr>)"
    using dir_close_ok [OF inv d p(1)] by blast
  have J: "J' = J" using s'(3) root_no_deny(2) [OF inv p] by blast
  have "dp \<notin> dom (files s)" using table_okD(11) [OF fs_invD(2) [OF inv]] d by blast
  then have "files s' = (files s)(dp := None)" using s'(7) by (auto simp: fun_upd_idem)
  from handle_closed [OF inv s'(2) this s'(6) p(1) s'(10)]
  have "handle s' = (handle s)(dp := None)" .
  moreover have "files s dp = None" using \<open>dp \<notin> dom (files s)\<close> by blast
  then have "handle s dp = None" by (simp add: handle_def)
  ultimately have "handle s' = handle s" by (simp add: fun_upd_idem)
  then show ?thesis using s'(1,2,4-9) J by (intro exI [of _ s']) simp
qed

section \<open>Creating\<close>

text \<open>The inode of a file whose name could not be added is forgotten; its sectors stay reserved.\<close>

lemma forget_ok:
  assumes inv: "fs_inv C s (insert x J) R T" and x: "x \<notin> J" "{0, 1} \<subseteq> J"
    and unopened: "\<forall>q k. opened s q = Some k \<longrightarrow> sector k \<noteq> x" and names: "x \<notin> inode_sector ` set (used_entries (root_entries s))"
  shows "fs_inv C s J (insert x R) T"
proof -
  note I = fs_invD [OF inv]
  have "store_ok (fs_device s) (free_map s) (insert x J - {x}) (R \<union> owned (fs_device s) x)" by (rule store_drop [OF I(1)]) simp
  then have st: "store_ok (fs_device s) (free_map s) J (insert x R)" using x(1) by (auto intro: store_leak simp: owned_def)
  have t: "table_ok C s J T"
  proof (rule table_okI)
    note t = table_okD [OF I(2)]
    show "inode_ok C s J T q k" if k: "opened s q = Some k" for q k
      using t(5) [OF k] unopened k by (auto simp: inode_ok_def)
    show "0 < q \<and> q < mem_brk s" if "q \<in> dom (inodes s) \<union> dom (files s) \<union> dom (dirs s)" for q using t(4) that .
    show "q = q'" if "opened s q = Some k" "opened s q' = Some k'" "sector k = sector k'" for q q' k k' using t(6) that .
    show "f_inode g \<in> dom (opened s)" if "files s q = Some g" "q \<notin> C" for q g using t(7) that .
    show "dir_inode g \<in> dom (opened s)" if "dirs s q = Some g" "q \<notin> C" for q g using t(8) that .
  qed (use table_okD(1,2,3,9,10,11) [OF I(2)] in simp_all)
  have "entries_ok J (root_entries s)" using root_entries_ok [OF inv] names by (auto simp: entries_ok_def)
  then have "root_ok s J" using I(3) x(2) by (simp add: root_ok_def)
  then show ?thesis using st t I(4,11) by (simp add: fs_inv_def fs_wf_def)
qed


lemma handle_cong:
  assumes "files s' = files s" and "opened s' = opened s"
  shows "handle s' = handle s"
  unfolding handle_def assms ..

lemma same_tables_handle: "same_tables s s' \<Longrightarrow> handle s' = handle s"
  by (rule handle_cong) (simp add: same_tables_def, rule same_tables_opened)

lemma release_close_ok:
  assumes inv: "fs_inv {} s J (insert x R) T" and x: "x \<notin> R"
    and d: "dirs s dp = Some d" and p: "opened s (dir_inode d) = Some i" "sector i = 1"
  shows "\<exists>s1 s2. free_map_release s x 1 = Some s1 \<and> dir_close s1 dp = Some s2 \<and> fs_inv {} s2 J R T \<and> kept (J - {0}) s s2 \<and>
    synced s2 \<and> handle s2 = handle s \<and> free_map_file s2 = free_map_file s"
proof -
  have sl: "slots (x, 1) = {x}" by (auto simp: slots_def)
  have "x < block_size (fs_device s)"
    using store_okD(4) [OF fs_invD(1) [OF inv]] fs_invD(10) [OF inv] by (auto simp: bm_used_def)
  then obtain s1 where s1: "free_map_release s x 1 = Some s1" "same_tables s s1" "fs_inv {} s1 J R T" "kept (J - {0}) s s1" "synced s1"
    using free_map_release_ok [OF inv, of x 1] sl x by auto
  have d1: "dirs s1 dp = Some d" "opened s1 (dir_inode d) = Some i" "free_map_file s1 = free_map_file s"
    using d p(1) s1(2) same_tables_opened [OF s1(2)] by (simp_all add: same_tables_def)
  obtain s2 where s2: "dir_close s1 dp = Some s2" "fs_inv {} s2 J R T" "kept (J - {0}) s1 s2" "synced s1 \<longrightarrow> synced s2"
      "handle s2 = handle s1" "free_map_file s2 = free_map_file s1"
    using close_root_ok [OF s1(3) d1(1,2) p(2)] by blast
  show ?thesis
    using s1 s2 kept_trans [OF s1(4) s2(3)] same_tables_handle [OF s1(2)] d1(3) by auto
qed

lemma run_free_mono:
  assumes "run_free m n" and "k \<le> n"
  shows "run_free m k"
proof -
  obtain a where a: "a + n \<le> bit_cnt m" "slots (a, n) \<inter> bm_used m = {}" using assms(1) by (auto simp: run_free_def)
  have "slots (a, k) \<subseteq> slots (a, n)" using assms(2) by (auto simp: slots_def)
  then show ?thesis using a assms(2) unfolding run_free_def by (intro exI [of _ a]) auto
qed

lemma run_free_alloc:
  assumes "run_free m (Suc n)" and used: "bm_used m' = bm_used m \<union> slots (x, 1)" and "bit_cnt m' = bit_cnt m" and "first_fit m 1 x"
  shows "run_free m' n"
proof -
  obtain a where a: "a + Suc n \<le> bit_cnt m" "slots (a, Suc n) \<inter> bm_used m = {}" using assms(1) by (auto simp: run_free_def)
  have sub: "slots (a, 1) \<subseteq> slots (a, Suc n)" "slots (a + 1, n) \<subseteq> slots (a, Suc n)" by (auto simp: slots_def)
  then have "slots (a, 1) \<inter> bm_used m = {}" using a(2) by blast
  then have "x \<le> a" using assms(4) a(1) by (simp add: first_fit_def)
  then have "x \<notin> slots (a + 1, n)" by (simp add: slots_def)
  moreover have "bm_used m' = insert x (bm_used m)" using used by (simp add: slots_def)
  moreover have "slots (a + 1, n) \<inter> bm_used m = {}" using a(2) sub(2) by blast
  ultimately have "slots (a + 1, n) \<inter> bm_used m' = {}" by simp
  then show ?thesis using a(1) assms(3) unfolding run_free_def by (intro exI [of _ "a + 1"]) simp
qed

text \<open>The conditions under which a file can be created.\<close>

definition can_create :: "fs \<Rightarrow> u8 list \<Rightarrow> int \<Rightarrow> bool" where
  "can_create s nm sz \<longleftrightarrow> nm \<noteq> [] \<and> length nm \<le> 14 \<and> fs_names s nm = None \<and> (\<exists>e \<in> set (root_entries s). \<not> in_use e) \<and>
     run_free (free_map s) (bytes_to_sectors sz + 1)"

lemma fresh_sector:
  assumes inv: "fs_inv C s J R T" and x: "x \<in> R"
  shows "x \<notin> J" "\<forall>q k. opened s q = Some k \<longrightarrow> sector k \<noteq> x" "x \<notin> inode_sector ` set (used_entries (root_entries s))"
    "x \<notin> {0, 1}"
proof -
  show nJ: "x \<notin> J" using store_okD(9) [OF fs_invD(1) [OF inv], of x] x by (auto simp: owned_def)
  then show "x \<notin> {0, 1}" using fs_invD(6,7) [OF inv] by blast
  show "\<forall>q k. opened s q = Some k \<longrightarrow> sector k \<noteq> x" using fs_inv_open(1) [OF inv] nJ by blast
  show "x \<notin> inode_sector ` set (used_entries (root_entries s))" using root_entries_ok [OF inv] nJ by (auto simp: entries_ok_def)
qed


definition create_rest :: "fs \<Rightarrow> ptr \<Rightarrow> bool \<Rightarrow> nat \<Rightarrow> (bool \<times> fs) option" where
  "create_rest s dp success sec = do {
     s \<leftarrow> (if \<not> success \<and> sec \<noteq> 0 then free_map_release s sec 1 else Some s);
     s \<leftarrow> dir_close s dp;
     Some (success, s) }"

text \<open>The outcome of a failed creation: nothing that a user can see has changed.\<close>

definition unchanged :: "nat set \<Rightarrow> nat set \<Rightarrow> ptr multiset \<Rightarrow> fs \<Rightarrow> fs \<Rightarrow> bool" where
  "unchanged J R T s s' \<longleftrightarrow> fs_inv {} s' J R T \<and> kept (J - {0}) s s' \<and> (synced s \<longrightarrow> synced s') \<and> handle s' = handle s \<and>
     free_map_file s' = free_map_file s"

definition created :: "nat set \<Rightarrow> nat set \<Rightarrow> ptr multiset \<Rightarrow> fs \<Rightarrow> u8 list \<Rightarrow> int \<Rightarrow> nat \<Rightarrow> fs \<Rightarrow> bool" where
  "created J R T s nm sz x s' \<longleftrightarrow> fs_inv {} s' (insert x J) R T \<and> x \<notin> J \<and> kept (J - {0, 1}) s s' \<and> synced s' \<and>
     handle s' = handle s \<and> free_map_file s' = free_map_file s \<and> fs_names s' = (fs_names s)(nm \<mapsto> x) \<and>
     fbytes (fs_device s') x = replicate (nat sz) 0 \<and> nm \<noteq> [] \<and> length nm \<le> 14 \<and> fs_names s nm = None"

lemma add_created:
  assumes inv: "fs_inv {} s (insert x J) R T" and x: "x \<notin> J" "x \<notin> R" "{0, 1} \<subseteq> J" and sy: "synced s"
    and d: "dirs s dp = Some d" and p: "opened s (dir_inode d) = Some i" "sector i = 1"
    and new: "\<forall>q k. opened s q = Some k \<longrightarrow> sector k \<noteq> x" "x \<notin> inode_sector ` set (used_entries (root_entries s))"
    and zero: "fbytes (fs_device s) x = replicate (nat sz) 0" and nm: "0 \<notin> set nm"
  defines "ok \<equiv> nm \<noteq> [] \<and> length nm \<le> 14 \<and> fs_names s nm = None \<and> (\<exists>e \<in> set (root_entries s). \<not> in_use e)"
  shows "\<exists>s1 s2. dir_add s dp nm x = Some (ok, s1) \<and> create_rest s1 dp ok x = Some (ok, s2) \<and>
    (if ok then created J R T s nm sz x s2 else unchanged J R T s s2)"
proof -
  have xJ: "x \<in> insert x J - {0, 1}" using x by blast
  obtain s1 where s1: "dir_add s dp nm x = Some (ok, s1)" "io s s1" "fs_inv {} s1 (insert x J) R T" "kept (if ok then insert x J - {1} else insert x J) s s1"
      "fs_names s1 = (if ok then (fs_names s)(nm \<mapsto> x) else fs_names s)"
    using dir_add_ok [OF inv d p xJ new(2,1) nm] unfolding ok_def by blast
  note f = io_fields [OF s1(2)]
  have op: "opened s1 = opened s" by (simp add: opened_def f)
  have d1: "dirs s1 dp = Some d" "opened s1 (dir_inode d) = Some i" using d p op f by simp_all
  have h1: "handle s1 = handle s" by (rule handle_cong) (simp_all add: f op)
  have k1: "kept (insert x J - {1}) s s1" by (rule kept_mono [OF s1(4)]) auto
  have sy1: "synced s1" using sy k1 f x(3) by (simp add: synced_def kept_def)
  show ?thesis
  proof (cases ok)
    case True
    obtain s2 where s2: "dir_close s1 dp = Some s2" "fs_inv {} s2 (insert x J) R T" "kept (insert x J - {0}) s1 s2"
        "synced s1 \<longrightarrow> synced s2" "handle s2 = handle s1" "free_map_file s2 = free_map_file s1"
      using close_root_ok [OF s1(3) d1 p(2)] by blast
    have k2: "kept (insert x J - {0, 1}) s s2"
      by (rule kept_trans [OF kept_mono [OF k1] kept_mono [OF s2(3)]]) auto
    then have "fbytes (fs_device s2) x = fbytes (fs_device s) x" using xJ unfolding kept_def by blast
    moreover have "kept (J - {0, 1}) s s2" by (rule kept_mono [OF k2]) auto
    moreover have "1 \<in> insert x J - {0}" using x(3) by simp
    then have "fs_names s2 = fs_names s1" using kept_names [OF s2(3)] by blast
    then have "fs_names s2 = (fs_names s)(nm \<mapsto> x)" using True s1(5) by simp
    moreover have "nm \<noteq> []" "length nm \<le> 14" "fs_names s nm = None" using True unfolding ok_def by blast+
    ultimately have "created J R T s nm sz x s2"
      using s2(2,4,5,6) h1 sy1 x(1) f(4) zero by (simp add: created_def)
    then show ?thesis using True s1(1) s2(1) by (auto simp: create_rest_def)
  next
    case False
    have k: "kept (insert x J) s s1" using s1(4) False by simp
    have u1: "\<forall>q k. opened s1 q = Some k \<longrightarrow> sector k \<noteq> x" using new(1) op by simp
    have "root_entries s1 = root_entries s" using k x(3) by (simp add: kept_def root_entries_def)
    then have es: "x \<notin> inode_sector ` set (used_entries (root_entries s1))" using new(2) by simp
    have "fs_inv {} s1 J (insert x R) T" by (rule forget_ok [OF s1(3) x(1,3) u1 es])
    from release_close_ok [OF this x(2) d1 p(2)] obtain s2 s3 where s3: "free_map_release s1 x 1 = Some s2" "dir_close s2 dp = Some s3"
        "fs_inv {} s3 J R T" "kept (J - {0}) s1 s3" "synced s3" "handle s3 = handle s1" "free_map_file s3 = free_map_file s1" by blast
    have "kept (J - {0}) s s3" by (rule kept_trans [OF kept_mono [OF k] s3(4)]) auto
    then have "unchanged J R T s s3" using s3 h1 f by (simp add: unchanged_def)
    moreover have "x \<noteq> 0" using xJ by simp
    ultimately show ?thesis using False s1(1) s3(1,2) by (simp add: create_rest_def)
  qed
qed


text \<open>Steps before that change nothing a user can see.\<close>

definition silent :: "nat set \<Rightarrow> fs \<Rightarrow> fs \<Rightarrow> bool" where
  "silent J s s' \<longleftrightarrow> kept (J - {0}) s s' \<and> handle s' = handle s \<and> free_map_file s' = free_map_file s \<and> (synced s \<longrightarrow> synced s')"

lemma silent_trans: "silent J s s' \<Longrightarrow> silent J s' s'' \<Longrightarrow> silent J s s''"
  unfolding silent_def using kept_trans by auto

lemma silent_names: "silent J s s' \<Longrightarrow> 1 \<in> J \<Longrightarrow> fs_names s' = fs_names s \<and> root_entries s' = root_entries s"
  by (auto simp: silent_def kept_def fs_names_def root_entries_def)

lemma silent_disk:
  assumes "fs_inv {} s J R T" and "same_disk s s'" and "same_sectors s s'" and "files s' = files s"
  shows "silent J s s'"
proof -
  have "handle s' = handle s"
  proof
    fix fp show "handle s' fp = handle s fp" by (rule handle_same_sectors [OF assms(1,3)]) (simp add: assms(4))
  qed
  then show ?thesis using same_disk_fields(6,7) [OF assms(2)] assms(2) by (simp add: silent_def same_disk_def)
qed

lemma silent_tables: "same_tables s s' \<Longrightarrow> kept (J - {0}) s s' \<Longrightarrow> synced s \<longrightarrow> synced s' \<Longrightarrow> silent J s s'"
  by (simp add: silent_def same_tables_handle) (simp add: same_tables_def)

lemma created_silent:
  assumes "created J R T s1 nm sz x s'" and "silent J s s1" and "1 \<in> J"
  shows "created J R T s nm sz x s'"
proof -
  have "kept (J - {0, 1}) s s1" using assms(2) kept_mono [of "J - {0}" s s1 "J - {0, 1}"] by (auto simp: silent_def)
  moreover have "kept (J - {0, 1}) s1 s'" using assms(1) by (simp add: created_def)
  ultimately have "kept (J - {0, 1}) s s'" by (rule kept_trans)
  then show ?thesis using assms(1) silent_names [OF assms(2,3)] assms(2) by (simp add: created_def silent_def)
qed

lemma unchanged_silent:
  assumes "unchanged J R T s1 s'" and "silent J s s1"
  shows "unchanged J R T s s'"
proof -
  have "kept (J - {0}) s s'" using assms kept_trans [of "J - {0}" s s1 s'] by (simp add: unchanged_def silent_def)
  then show ?thesis using assms by (simp add: unchanged_def silent_def)
qed

definition create_inode :: "fs \<Rightarrow> ptr \<Rightarrow> u8 list \<Rightarrow> int \<Rightarrow> nat \<Rightarrow> (bool \<times> nat \<times> fs) option" where
  "create_inode s dp nm sz sec = do {
     (ok, s) \<leftarrow> inode_create s sec sz;
     if ok then do { (ok, s) \<leftarrow> dir_add s dp nm sec; Some (ok, sec, s) }
     else Some (False, sec, s) }"

lemma create_inode_ok:
  assumes inv: "fs_inv {} s J (insert x R) T" and x: "x \<notin> R" and sy: "synced s"
    and d: "dirs s dp = Some d" and p: "opened s (dir_inode d) = Some i" "sector i = 1"
    and nm: "0 \<notin> set nm" and sz: "0 \<le> sz" "sz < 2 ^ 31 - 511"
  shows "\<exists>ok s1 s2. create_inode s dp nm sz x = Some (ok, x, s1) \<and> create_rest s1 dp ok x = Some (ok, s2) \<and>
    (if ok then created J R T s nm sz x s2
     else unchanged J R T s s2 \<and> \<not> (nm \<noteq> [] \<and> length nm \<le> 14 \<and> fs_names s nm = None \<and> (\<exists>e \<in> set (root_entries s). \<not> in_use e) \<and>
       run_free (free_map s) (bytes_to_sectors sz)))"
proof -
  have xR: "x \<in> insert x R" by simp
  note fresh = fresh_sector [OF inv xR]
  have R: "insert x R - {x} = R" using x by simp
  have one: "1 \<in> J" "{0, 1} \<subseteq> J" using fs_invD(6,7) [OF inv] by auto
  consider (ok) s1 where "inode_create s x sz = Some (True, s1)" "same_tables s s1" "fs_inv {} s1 (insert x J) R T"
        "kept (J - {0}) s s1" "synced s1" "fbytes (fs_device s1) x = replicate (nat sz) 0"
    | (no) s1 where "inode_create s x sz = Some (False, s1)" "touch s s1" "\<not> run_free (free_map s) (bytes_to_sectors sz)"
    using inode_create_ok [OF inv xR sz] unfolding R by blast
  then show ?thesis
  proof cases
    case ok
    have q: "silent J s s1" by (rule silent_tables [OF ok(2,4)]) (use ok(5) in simp)
    note es = silent_names [OF q one(1)]
    have op: "opened s1 = opened s" by (rule same_tables_opened [OF ok(2)])
    have d1: "dirs s1 dp = Some d" "opened s1 (dir_inode d) = Some i" using ok(2) d p op by (simp_all add: same_tables_def)
    let ?ok = "nm \<noteq> [] \<and> length nm \<le> 14 \<and> fs_names s1 nm = None \<and> (\<exists>e \<in> set (root_entries s1). \<not> in_use e)"
    have "\<forall>q k. opened s1 q = Some k \<longrightarrow> sector k \<noteq> x" "x \<notin> inode_sector ` set (used_entries (root_entries s1))"
      using fresh(2,3) op es by simp_all
    from add_created [OF ok(3) fresh(1) x one(2) ok(5) d1 p(2) this ok(6) nm]
    obtain s2 s3 where s3: "dir_add s1 dp nm x = Some (?ok, s2)" "create_rest s2 dp ?ok x = Some (?ok, s3)"
      "if ?ok then created J R T s1 nm sz x s3 else unchanged J R T s1 s3" by blast
    have "create_inode s dp nm sz x = Some (?ok, x, s2)" using ok(1) s3(1) by (simp add: create_inode_def)
    moreover have "if ?ok then created J R T s nm sz x s3 else unchanged J R T s s3"
      using s3(3) created_silent [OF _ q one(1)] unchanged_silent [OF _ q] by metis
    ultimately show ?thesis using s3(2) es by (intro exI [of _ ?ok] exI [of _ s2] exI [of _ s3]) auto
  next
    case no
    have inv1: "fs_inv {} s1 J (insert x R) T" by (rule fs_inv_touch [OF inv no(2)])
    note f = io_fields [OF touch_io [OF no(2)]] and t = touch_root [OF no(2)]
    have d1: "dirs s1 dp = Some d" "opened s1 (dir_inode d) = Some i" using d p t f by simp_all
    obtain s2 s3 where s3: "free_map_release s1 x 1 = Some s2" "dir_close s2 dp = Some s3"
        "fs_inv {} s3 J R T" "kept (J - {0}) s1 s3" "synced s3" "handle s3 = handle s1" "free_map_file s3 = free_map_file s1"
      using release_close_ok [OF inv1 x d1 p(2)] by blast
    have "handle s1 = handle s" by (rule handle_cong) (simp_all add: f t)
    then have "unchanged J R T s s3"
      using s3 f(4) kept_trans [OF touch_kept [OF no(2)] s3(4)] by (simp add: unchanged_def)
    moreover have "create_rest s1 dp False x = Some (False, s3)" using s3(1,2) fresh(4) by (simp add: create_rest_def)
    moreover have "create_inode s dp nm sz x = Some (False, x, s1)" using no(1) by (simp add: create_inode_def)
    ultimately show ?thesis using no(3) by (intro exI [of _ False] exI [of _ s1] exI [of _ s3]) simp
  qed
qed

lemma filesys_create_ok:
  assumes inv: "fs_inv {} s J R T" and nm: "0 \<notin> set nm" and sz: "0 \<le> sz" "sz < 2 ^ 31 - 511"
  shows "(\<exists>x s'. filesys_create s nm sz = Some (True, s') \<and> created J R T s nm sz x s') \<or>
    (\<exists>s'. filesys_create s nm sz = Some (False, s') \<and> unchanged J R T s s' \<and> \<not> can_create s nm sz)"
proof -
  obtain dp p i s1 where s1: "dir_open_root s = Some (dp, s1)" "dp \<noteq> NULL" "fs_inv {} s1 J R T" "same_disk s s1" "same_sectors s s1"
      "files s1 = files s" "dirs s1 = (dirs s)(dp \<mapsto> \<lparr>dir_inode = p, dir_pos = 0\<rparr>)" "opened s1 p = Some i" "sector i = 1"
    using dir_open_root_ok [OF inv] by blast
  let ?d = "\<lparr>dir_inode = p, dir_pos = 0\<rparr>"
  have q1: "silent J s s1" by (rule silent_disk [OF inv s1(4,5,6)])
  have fm1: "free_map s1 = free_map s" using s1(4) by (simp add: same_disk_def)
  have d1: "dirs s1 dp = Some ?d" "opened s1 (dir_inode ?d) = Some i" using s1(7,8) by simp_all
  have sl: "slots (x, 1) = {x}" for x by (auto simp: slots_def)
  have one: "1 \<in> J" using fs_invD(7) [OF inv] .
  have eq: "filesys_create s nm sz = do { (success, sec, s) \<leftarrow>
       (do { (r, s) \<leftarrow> free_map_allocate s1 1;
          case r of None \<Rightarrow> Some (False, 0, s) | Some sec \<Rightarrow> create_inode s dp nm sz sec });
       create_rest s dp success sec }"
    unfolding filesys_create_def create_rest_def create_inode_def using s1(1,2) by simp
  consider (full) "free_map_allocate s1 1 = Some (None, s1)" "\<not> run_free (free_map s) 1"
    | (found) x s2 where "free_map_allocate s1 1 = Some (Some x, s2)" "same_tables s1 s2" "fs_inv {} s2 J (insert x R) T"
        "kept (J - {0}) s1 s2" "synced s2" "x \<notin> R" "bit_cnt (free_map s2) = bit_cnt (free_map s)"
        "bm_used (free_map s2) = bm_used (free_map s) \<union> slots (x, 1)" "first_fit (free_map s) 1 x"
    using free_map_allocate_ok [OF s1(3), of 1] fm1 sl by auto
  then show ?thesis
  proof cases
    case full
    obtain s2 where s2: "dir_close s1 dp = Some s2" "fs_inv {} s2 J R T" "kept (J - {0}) s1 s2" "synced s1 \<longrightarrow> synced s2"
        "handle s2 = handle s1" "free_map_file s2 = free_map_file s1"
      using close_root_ok [OF s1(3) d1 s1(9)] by blast
    have "unchanged J R T s s2" by (rule unchanged_silent [OF _ q1]) (use s2 in \<open>simp add: unchanged_def\<close>)
    moreover have "filesys_create s nm sz = Some (False, s2)" unfolding eq using full(1) s2(1) by (simp add: create_rest_def)
    moreover have "\<not> can_create s nm sz" using full(2) run_free_mono [of "free_map s" _ 1] by (auto simp: can_create_def)
    ultimately show ?thesis by blast
  next
    case found
    have q2: "silent J s s2" by (rule silent_trans [OF q1 silent_tables [OF found(2,4)]]) (use found(5) in simp)
    have d2: "dirs s2 dp = Some ?d" "opened s2 (dir_inode ?d) = Some i"
      using found(2) d1 same_tables_opened [OF found(2)] by (simp_all add: same_tables_def)
    obtain ok s3 s4 where s4: "create_inode s2 dp nm sz x = Some (ok, x, s3)" "create_rest s3 dp ok x = Some (ok, s4)"
      "if ok then created J R T s2 nm sz x s4
       else unchanged J R T s2 s4 \<and> \<not> (nm \<noteq> [] \<and> length nm \<le> 14 \<and> fs_names s2 nm = None \<and> (\<exists>e \<in> set (root_entries s2). \<not> in_use e) \<and>
         run_free (free_map s2) (bytes_to_sectors sz))"
      using create_inode_ok [OF found(3,6,5) d2 s1(9) nm sz] by blast
    have run: "filesys_create s nm sz = Some (ok, s4)" unfolding eq using found(1) s4(1,2) by simp
    show ?thesis
    proof (cases ok)
      case True
      then have "created J R T s nm sz x s4" using s4(3) by (intro created_silent [OF _ q2 one]) simp
      moreover have "filesys_create s nm sz = Some (True, s4)" using run True by simp
      ultimately show ?thesis by blast
    next
      case False
      then have "unchanged J R T s s4" using s4(3) unchanged_silent [OF _ q2] by simp
      moreover have "\<not> can_create s nm sz"
        using s4(3) False silent_names [OF q2 one] run_free_alloc [OF _ found(8,7,9)] by (auto simp: can_create_def)
      moreover have "filesys_create s nm sz = Some (False, s4)" using run False by simp
      ultimately show ?thesis by blast
    qed
  qed
qed


section \<open>Opening and removing\<close>

lemma file_open_null:
  assumes "fs_inv {} s J R T"
  shows "\<exists>s'. file_open s NULL = Some (NULL, s') \<and> unchanged J R T s s'"
proof -
  obtain q s1 where m: "fs_malloc s = (q, s1)" by fastforce
  note ml = fs_malloc_cases [OF fs_invD(5) [OF assms] m]
  note f = io_fields [OF touch_io [OF ml(1)]] and t = touch_root [OF ml(1)]
  have "handle s1 = handle s" by (rule handle_cong) (simp_all add: f t)
  then have "unchanged J R T s s1"
    using fs_inv_touch [OF assms ml(1)] touch_kept [OF ml(1)] f by (simp add: unchanged_def synced_def t)
  then show ?thesis using m by (simp add: file_open_def inode_close_def)
qed

lemma silent_unchanged: "silent J s s' \<Longrightarrow> fs_inv {} s' J R T \<Longrightarrow> unchanged J R T s s'"
  by (simp add: silent_def unchanged_def)

lemma filesys_open_ok:
  assumes inv: "fs_inv {} s J R T"
  shows "case fs_names s nm of
      None \<Rightarrow> \<exists>s'. filesys_open s nm = Some (NULL, s') \<and> unchanged J R T s s'
    | Some x \<Rightarrow> \<exists>fp s'. filesys_open s nm = Some (fp, s') \<and> fp \<noteq> NULL \<and> fp \<notin> dom (files s) \<and> fs_inv {} s' J R T \<and>
        kept (J - {0}) s s' \<and> (synced s \<longrightarrow> synced s') \<and> free_map_file s' = free_map_file s \<and> handle s' = (handle s)(fp \<mapsto> (x, 0, False))"
proof -
  obtain dp p i s1 where s1: "dir_open_root s = Some (dp, s1)" "dp \<noteq> NULL" "fs_inv {} s1 J R T" "same_disk s s1" "same_sectors s s1"
      "files s1 = files s" "dirs s1 = (dirs s)(dp \<mapsto> \<lparr>dir_inode = p, dir_pos = 0\<rparr>)" "opened s1 p = Some i" "sector i = 1"
    using dir_open_root_ok [OF inv] by blast
  let ?d = "\<lparr>dir_inode = p, dir_pos = 0\<rparr>"
  have q1: "silent J s s1" by (rule silent_disk [OF inv s1(4,5,6)])
  have d1: "dirs s1 dp = Some ?d" "opened s1 (dir_inode ?d) = Some i" using s1(7,8) by simp_all
  have n1: "fs_names s1 = fs_names s" using silent_names [OF q1] fs_invD(7) [OF inv] by simp
  note look = dir_lookup_ok [OF s1(3) d1 s1(9), of nm]
  show ?thesis
  proof (cases "fs_names s nm")
    case None
    then obtain s2 where s2: "dir_lookup s1 dp nm = Some (NULL, s2)" "touch s1 s2" using look n1 by auto
    note f2 = io_fields [OF touch_io [OF s2(2)]] and t2 = touch_root [OF s2(2)]
    have inv2: "fs_inv {} s2 J R T" by (rule fs_inv_touch [OF s1(3) s2(2)])
    have q2: "silent J s1 s2"
      by (rule silent_disk [OF s1(3) touch_same_disk [OF s2(2)] same_sectors_opened [OF t2(1)]]) (simp add: f2)
    obtain s3 where s3: "dir_close s2 dp = Some s3" "fs_inv {} s3 J R T" "kept (J - {0}) s2 s3" "synced s2 \<longrightarrow> synced s3"
        "handle s3 = handle s2" "free_map_file s3 = free_map_file s2"
      using close_root_ok [OF inv2, of dp ?d i] d1 s1(9) f2 t2 by auto
    have q3: "silent J s2 s3" using s3 by (simp add: silent_def)
    obtain s4 where s4: "file_open s3 NULL = Some (NULL, s4)" "unchanged J R T s3 s4" using file_open_null [OF s3(2)] by blast
    have "unchanged J R T s s4" by (rule unchanged_silent [OF s4(2) silent_trans [OF silent_trans [OF q1 q2] q3]])
    then show ?thesis using None s1(1,2) s2(1) s3(1) s4(1) by (simp add: filesys_open_def)
  next
    case (Some x)
    then obtain r k s2 where s2: "dir_lookup s1 dp nm = Some (r, s2)" "r \<noteq> NULL" "fs_inv {} s2 J R (add_mset r T)" "same_disk s1 s2"
        "same_sectors s1 s2" "files s2 = files s1" "dirs s2 = dirs s1" "opened s2 r = Some k" "sector k = x"
      using look n1 by auto
    have q2: "silent J s1 s2" by (rule silent_disk [OF s1(3) s2(4,5,6)])
    have d2: "dirs s2 dp = Some ?d" using d1 s2(7) by simp
    obtain i2 where i2: "opened s2 (dir_inode ?d) = Some i2" "sector i2 = 1" using same_sectorsD [OF s2(5) d1(2)] s1(9) by metis
    have x: "x \<notin> {0, 1}"
      using Some dir_names_iff [OF root_entries_ok [OF inv]] root_entries_ok [OF inv] by (fastforce simp: fs_names_eq entries_ok_def)
    obtain s3 where s3: "dir_close s2 dp = Some s3" "fs_inv {} s3 J R (add_mset r T)" "kept (J - {0}) s2 s3" "synced s2 \<longrightarrow> synced s3"
        "handle s3 = handle s2" "files s3 = files s2" "free_map_file s3 = free_map_file s2" "other_inodes (dir_inode ?d) s2 s3"
      using close_root_ok [OF s2(3) d2 i2] by blast
    have q: "silent J s s3"
      by (rule silent_trans [OF silent_trans [OF q1 q2]]) (use s3 in \<open>simp add: silent_def\<close>)
    have "r \<noteq> dir_inode ?d" using i2 s2(8,9) x by auto
    then have r3: "opened s3 r = Some k" using s3(8) s2(8) by (simp add: other_inodes_def)
    obtain fp s4 where s4: "file_open s3 r = Some (fp, s4)" "fp \<noteq> NULL" "fp \<notin> dom (files s3)" "fs_inv {} s4 J R T" "same_disk s3 s4"
        "opened s4 = opened s3" "files s4 = (files s3)(fp \<mapsto> \<lparr>f_inode = r, pos = 0, deny_write = False\<rparr>)"
      using file_open_ok [OF s3(2) r3] x s2(9) by auto
    have "handle s4 = (handle s3)(fp \<mapsto> (x, 0, False))" using handle_upd [OF s4(6,7)] r3 s2(9) by simp
    moreover have "kept (J - {0}) s s4" "synced s \<longrightarrow> synced s4" "free_map_file s4 = free_map_file s"
      using q same_disk_fields(2,6) [OF s4(5)] s4(5) same_disk_fields(1) [OF s4(5)] by (simp_all add: silent_def kept_def same_disk_def)
    moreover have "handle s3 = handle s" using q by (simp add: silent_def)
    moreover have "filesys_open s nm = Some (fp, s4)" using s1(1,2) s2(1) s3(1) s4(1) by (simp add: filesys_open_def)
    moreover have "fp \<notin> dom (files s)" using s4(3) s3(6) s2(6) s1(6) by simp
    ultimately show ?thesis using Some s4(2,4) by auto
  qed
qed

lemma filesys_remove_ok:
  assumes inv: "fs_inv {} s J R T"
  shows "\<exists>s' J'. filesys_remove s nm = Some (fs_names s nm \<noteq> None, s') \<and> fs_inv {} s' J' R T \<and>
    J - set_option (fs_names s nm) \<subseteq> J' \<and> J' \<subseteq> J \<and> kept (J' - {0, 1}) s s' \<and> (synced s \<longrightarrow> synced s') \<and>
    free_map_file s' = free_map_file s \<and> handle s' = handle s \<and> fs_names s' = (fs_names s)(nm := None)"
proof -
  obtain dp p i s1 where s1: "dir_open_root s = Some (dp, s1)" "dp \<noteq> NULL" "fs_inv {} s1 J R T" "same_disk s s1" "same_sectors s s1"
      "files s1 = files s" "dirs s1 = (dirs s)(dp \<mapsto> \<lparr>dir_inode = p, dir_pos = 0\<rparr>)" "opened s1 p = Some i" "sector i = 1"
    using dir_open_root_ok [OF inv] by blast
  let ?d = "\<lparr>dir_inode = p, dir_pos = 0\<rparr>"
  have q1: "silent J s s1" by (rule silent_disk [OF inv s1(4,5,6)])
  have d1: "dirs s1 dp = Some ?d" "opened s1 (dir_inode ?d) = Some i" using s1(7,8) by simp_all
  have n1: "fs_names s1 = fs_names s" using silent_names [OF q1] fs_invD(7) [OF inv] by simp
  obtain s2 J' where s2: "dir_remove s1 dp nm = Some (fs_names s nm \<noteq> None, s2)" "fs_inv {} s2 J' R T"
      "J - set_option (fs_names s nm) \<subseteq> J'" "J' \<subseteq> J" "kept (J' - {0, 1}) s1 s2" "synced s1 \<longrightarrow> synced s2"
      "files s2 = files s1" "dirs s2 = dirs s1" "free_map_file s2 = free_map_file s1" "same_sectors s1 s2"
      "fs_names s2 = (fs_names s)(nm := None)"
    using dir_remove_ok [OF s1(3) d1 s1(9), of nm] n1 by auto
  have d2: "dirs s2 dp = Some ?d" using d1 s2(8) by simp
  obtain i2 where i2: "opened s2 (dir_inode ?d) = Some i2" "sector i2 = 1" using same_sectorsD [OF s2(10) d1(2)] s1(9) by metis
  obtain s3 where s3: "dir_close s2 dp = Some s3" "fs_inv {} s3 J' R T" "kept (J' - {0}) s2 s3" "synced s2 \<longrightarrow> synced s3"
      "handle s3 = handle s2" "free_map_file s3 = free_map_file s2"
    using close_root_ok [OF s2(2) d2 i2] by blast
  have "handle s2 = handle s1"
  proof
    fix fp show "handle s2 fp = handle s1 fp" by (rule handle_same_sectors [OF s1(3) s2(10)]) (simp add: s2(7))
  qed
  then have "handle s3 = handle s" using s3(5) q1 by (simp add: silent_def)
  moreover have "kept (J' - {0, 1}) s s3"
  proof -
    have "kept (J' - {0, 1}) s s1" by (rule same_disk_fields(7) [OF s1(4)])
    moreover have "kept (J' - {0, 1}) s2 s3" by (rule kept_mono [OF s3(3)]) auto
    ultimately show ?thesis using s2(5) kept_trans by metis
  qed
  moreover have "1 \<in> J' - {0}" using fs_invD(7) [OF s2(2)] by simp
  then have "fs_names s3 = fs_names s2" using kept_names [OF s3(3)] by blast
  moreover have "filesys_remove s nm = Some (fs_names s nm \<noteq> None, s3)"
    using s1(1,2) s2(1) s3(1) by (simp add: filesys_remove_def)
  moreover have "free_map_file s3 = free_map_file s" "synced s \<longrightarrow> synced s3" using s3(4,6) s2(6,9) q1 by (simp_all add: silent_def)
  ultimately show ?thesis using s2(3,4,11) s3(2) by (intro exI [of _ s3] exI [of _ J']) simp
qed

end
