(* ===== verification/Filesys_Spec.thy ===== *)
theory Filesys_Spec
  imports Filesys
begin

text \<open>
  The specification of the file system and the proof that the code refines it.

  The abstract state has the names with the files they stand for, the bytes of every file
  that has a name or is open, and the open files with their positions.
\<close>

section \<open>The specification\<close>

type_synonym handles = "ptr \<Rightarrow> (nat \<times> nat \<times> bool) option"

record afs =
  anames :: "u8 list \<Rightarrow> nat option"
  ahandles :: handles
  abytes :: "nat \<Rightarrow> u8 list option"

definition live :: "(u8 list \<Rightarrow> nat option) \<Rightarrow> handles \<Rightarrow> nat set" where
  "live n h = ran n \<union> fst ` ran h"

text \<open>A file is gone once it has no name and is not open.\<close>

definition prune :: "afs \<Rightarrow> afs" where
  "prune a = a\<lparr>abytes := abytes a |` live (anames a) (ahandles a)\<rparr>"

definition denied :: "handles \<Rightarrow> nat \<Rightarrow> bool" where
  "denied h x \<longleftrightarrow> (\<exists>fp p. h fp = Some (x, p, True))"

datatype fs_req = Create "u8 list" int | Open "u8 list" | Remove "u8 list" | Read ptr nat | Write ptr "u8 list"
  | Seek ptr int | Close ptr | Deny ptr | Allow ptr

datatype fs_res = RBool bool | RHandle ptr | RBytes "u8 list" | RCount nat | RUnit

inductive fs_step :: "afs \<Rightarrow> fs_req \<Rightarrow> fs_res \<Rightarrow> afs \<Rightarrow> bool" where
  create: "nm \<noteq> [] \<Longrightarrow> length nm \<le> 14 \<Longrightarrow> anames a nm = None \<Longrightarrow> x \<notin> live (anames a) (ahandles a) \<Longrightarrow>
    fs_step a (Create nm sz) (RBool True)
      (a\<lparr>anames := (anames a)(nm \<mapsto> x), abytes := (abytes a)(x \<mapsto> replicate (nat sz) 0)\<rparr>)"
| create_fails: "fs_step a (Create nm sz) (RBool False) a"
| opens: "anames a nm = Some x \<Longrightarrow> fp \<noteq> NULL \<Longrightarrow> ahandles a fp = None \<Longrightarrow>
    fs_step a (Open nm) (RHandle fp) (a\<lparr>ahandles := (ahandles a)(fp \<mapsto> (x, 0, False))\<rparr>)"
| open_fails: "anames a nm = None \<Longrightarrow> fs_step a (Open nm) (RHandle NULL) a"
| remove: "anames a nm = Some x \<Longrightarrow> fs_step a (Remove nm) (RBool True) (prune (a\<lparr>anames := (anames a)(nm := None)\<rparr>))"
| remove_fails: "anames a nm = None \<Longrightarrow> fs_step a (Remove nm) (RBool False) a"
| read: "ahandles a fp = Some (x, p, b) \<Longrightarrow> abytes a x = Some c \<Longrightarrow> r = take n (drop p c) \<Longrightarrow>
    fs_step a (Read fp n) (RBytes r) (a\<lparr>ahandles := (ahandles a)(fp \<mapsto> (x, p + length r, b))\<rparr>)"
| writes: "ahandles a fp = Some (x, p, b) \<Longrightarrow> abytes a x = Some c \<Longrightarrow>
    n = (if denied (ahandles a) x then 0 else min (length buf) (length c - p)) \<Longrightarrow>
    fs_step a (Write fp buf) (RCount n)
      (a\<lparr>ahandles := (ahandles a)(fp \<mapsto> (x, p + n, b)), abytes := (abytes a)(x \<mapsto> overwrite c p (take n buf))\<rparr>)"
| seek: "ahandles a fp = Some (x, p, b) \<Longrightarrow>
    fs_step a (Seek fp n) RUnit (a\<lparr>ahandles := (ahandles a)(fp \<mapsto> (x, nat n, b))\<rparr>)"
| close: "ahandles a fp = Some (x, p, b) \<Longrightarrow>
    fs_step a (Close fp) RUnit (prune (a\<lparr>ahandles := (ahandles a)(fp := None)\<rparr>))"
| deny: "ahandles a fp = Some (x, p, b) \<Longrightarrow>
    fs_step a (Deny fp) RUnit (a\<lparr>ahandles := (ahandles a)(fp \<mapsto> (x, p, True))\<rparr>)"
| allow: "ahandles a fp = Some (x, p, b) \<Longrightarrow>
    fs_step a (Allow fp) RUnit (a\<lparr>ahandles := (ahandles a)(fp \<mapsto> (x, p, False))\<rparr>)"

text \<open>The requests a caller may make: names are C strings, sizes fit, and handles are open.\<close>

fun req_ok :: "afs \<Rightarrow> fs_req \<Rightarrow> bool" where
  "req_ok a (Create nm sz) = (0 \<notin> set nm \<and> 0 \<le> sz \<and> sz < 2 ^ 31 - 511)"
| "req_ok a (Open nm) = True"
| "req_ok a (Remove nm) = True"
| "req_ok a (Read fp n) = (ahandles a fp \<noteq> None)"
| "req_ok a (Write fp buf) = (ahandles a fp \<noteq> None)"
| "req_ok a (Seek fp n) = (ahandles a fp \<noteq> None \<and> 0 \<le> n)"
| "req_ok a (Close fp) = (ahandles a fp \<noteq> None)"
| "req_ok a (Deny fp) = (ahandles a fp \<noteq> None)"
| "req_ok a (Allow fp) = (ahandles a fp \<noteq> None)"

fun fs_call :: "fs \<Rightarrow> fs_req \<Rightarrow> (fs_res \<times> fs) option" where
  "fs_call s (Create nm sz) = map_option (\<lambda>(b, s). (RBool b, s)) (filesys_create s nm sz)"
| "fs_call s (Open nm) = map_option (\<lambda>(fp, s). (RHandle fp, s)) (filesys_open s nm)"
| "fs_call s (Remove nm) = map_option (\<lambda>(b, s). (RBool b, s)) (filesys_remove s nm)"
| "fs_call s (Read fp n) = map_option (\<lambda>(b, s). (RBytes b, s)) (file_read s fp n)"
| "fs_call s (Write fp buf) = map_option (\<lambda>(n, s). (RCount n, s)) (file_write s fp buf)"
| "fs_call s (Seek fp n) = map_option (\<lambda>s. (RUnit, s)) (file_seek s fp n)"
| "fs_call s (Close fp) = map_option (\<lambda>s. (RUnit, s)) (file_close s fp)"
| "fs_call s (Deny fp) = map_option (\<lambda>s. (RUnit, s)) (file_deny_write s fp)"
| "fs_call s (Allow fp) = map_option (\<lambda>s. (RUnit, s)) (file_allow_write s fp)"

section \<open>The abstraction\<close>

definition mk_afs :: "(u8 list \<Rightarrow> nat option) \<Rightarrow> handles \<Rightarrow> (nat \<Rightarrow> u8 list) \<Rightarrow> afs" where
  "mk_afs n h f = \<lparr>anames = n, ahandles = h, abytes = (\<lambda>x. if x \<in> live n h then Some (f x) else None)\<rparr>"

definition fs_abs :: "fs \<Rightarrow> afs" where
  "fs_abs s = mk_afs (fs_names s) ((handle s)(free_map_file s := None)) (fbytes (fs_device s))"

text \<open>A well-formed file system; and one that can run, as memory does not run out.\<close>

definition fs_ok :: "fs \<Rightarrow> bool" where
  "fs_ok s \<longleftrightarrow> (\<exists>J. fs_wf {} s J {} {#}) \<and> synced s"

definition fs_run :: "fs \<Rightarrow> bool" where
  "fs_run s \<longleftrightarrow> (\<exists>J. fs_inv {} s J {} {#}) \<and> synced s"

lemma fs_run_iff: "fs_run s \<longleftrightarrow> fs_ok s \<and> mem_good s"
  by (auto simp: fs_run_def fs_ok_def fs_inv_def)

lemma mk_afs_cong:
  assumes "n' = n" and "h' = h" and "\<And>x. x \<in> live n h \<Longrightarrow> f' x = f x"
  shows "mk_afs n' h' f' = mk_afs n h f"
  using assms by (auto simp: mk_afs_def)

lemma mk_afs_simps [simp]: "anames (mk_afs n h f) = n" "ahandles (mk_afs n h f) = h"
  "x \<in> live n h \<Longrightarrow> abytes (mk_afs n h f) x = Some (f x)"
  by (simp_all add: mk_afs_def)

lemma liveI:
  assumes "n nm = Some x \<or> h fp = Some (x, p, b)"
  shows "x \<in> live n h"
  using assms by (auto simp: live_def intro: ranI rev_image_eqI [OF ranI])

lemma liveE:
  assumes "x \<in> live n h"
  obtains nm where "n nm = Some x" | fp p b where "h fp = Some (x, p, b)"
  using assms by (auto simp: live_def ran_def)

lemma live_handle:
  assumes "h fp = Some (x, p, b)"
  shows "live n (h(fp \<mapsto> (x, p', b'))) = live n h"
proof (intro equalityI subsetI)
  fix y assume "y \<in> live n (h(fp \<mapsto> (x, p', b')))"
  then show "y \<in> live n h"
  proof (cases rule: liveE)
    case (2 fq q c)
    then show ?thesis using assms by (cases "fq = fp") (auto intro: liveI)
  qed (auto intro: liveI)
next
  fix y assume "y \<in> live n h"
  then show "y \<in> live n (h(fp \<mapsto> (x, p', b')))"
  proof (cases rule: liveE)
    case (2 fq q c)
    then show ?thesis using assms by (cases "fq = fp") (auto intro: liveI [of n undefined _ _ fq])
  qed (auto intro: liveI)
qed

lemma mk_afs_handle:
  assumes "h fp = Some (x, p, b)"
  shows "mk_afs n (h(fp \<mapsto> (x, p', b'))) f = (mk_afs n h f)\<lparr>ahandles := h(fp \<mapsto> (x, p', b'))\<rparr>"
  unfolding mk_afs_def live_handle [of h fp, OF assms] by simp

lemma mk_afs_create:
  assumes "n nm = None"
  shows "mk_afs (n(nm \<mapsto> x)) h (f(x := c)) = (mk_afs n h f)\<lparr>anames := n(nm \<mapsto> x), abytes := (abytes (mk_afs n h f))(x \<mapsto> c)\<rparr>"
  using assms by (auto simp: mk_afs_def live_def)

lemma mk_afs_open:
  assumes "n nm = Some x" and "h fp = None"
  shows "mk_afs n (h(fp \<mapsto> (x, p, b))) f = (mk_afs n h f)\<lparr>ahandles := h(fp \<mapsto> (x, p, b))\<rparr>"
proof -
  have "live n (h(fp \<mapsto> (x, p, b))) = live n h" using assms by (auto simp: live_def ranI)
  then show ?thesis by (simp add: mk_afs_def)
qed

lemma live_mono: "ran n' \<subseteq> ran n \<Longrightarrow> ran h' \<subseteq> ran h \<Longrightarrow> live n' h' \<subseteq> live n h"
  by (auto simp: live_def)

lemma prune_mk_afs:
  assumes "live n' h' \<subseteq> live n h"
  shows "prune ((mk_afs n h f)\<lparr>anames := n', ahandles := h'\<rparr>) = mk_afs n' h' f"
  using assms by (auto simp: prune_def mk_afs_def restrict_map_def fun_eq_iff)


lemma mk_afs_same:
  "(mk_afs n h f)\<lparr>anames := n', ahandles := h\<rparr> = (mk_afs n h f)\<lparr>anames := n'\<rparr>"
  "(mk_afs n h f)\<lparr>anames := n, ahandles := h'\<rparr> = (mk_afs n h f)\<lparr>ahandles := h'\<rparr>"
  by (simp_all add: mk_afs_def)

section \<open>The refinement\<close>

lemma live_owned:
  assumes inv: "fs_inv {} s J R T" and x: "x \<in> live (fs_names s) ((handle s)(free_map_file s := None))"
  shows "x \<in> J - {0, 1}"
  using x
proof (cases rule: liveE)
  case (1 nm)
  then show ?thesis
    using dir_names_iff [OF root_entries_ok [OF inv]] root_entries_ok [OF inv] by (fastforce simp: fs_names_eq entries_ok_def)
next
  case (2 fp p b)
  then have "handle s fp = Some (x, p, b)" "fp \<noteq> free_map_file s" by (auto split: if_splits)
  then show ?thesis using handle_sector [OF inv] by blast
qed

text \<open>A step that keeps the files of the new state.\<close>

lemma fs_abs_kept:
  assumes inv': "fs_inv {} s' J' R T" and kept: "kept (J' - {0, 1}) s s'" and fm: "free_map_file s' = free_map_file s"
  shows "fs_abs s' = mk_afs (fs_names s') ((handle s')(free_map_file s := None)) (fbytes (fs_device s))"
  unfolding fs_abs_def fm
proof (rule mk_afs_cong)
  fix x assume "x \<in> live (fs_names s') ((handle s')(free_map_file s := None))"
  then have "x \<in> J' - {0, 1}" using live_owned [OF inv'] fm by simp
  then show "fbytes (fs_device s') x = fbytes (fs_device s) x" using kept unfolding kept_def by blast
qed simp_all

lemma fs_abs_unchanged:
  assumes "unchanged J R T s s'"
  shows "fs_abs s' = fs_abs s"
proof -
  have u: "fs_inv {} s' J R T" "kept (J - {0}) s s'" "handle s' = handle s" "free_map_file s' = free_map_file s"
    using assms by (simp_all add: unchanged_def)
  have "1 \<in> J - {0}" using fs_invD(7) [OF u(1)] by simp
  then have "fs_names s' = fs_names s" using kept_names [OF u(2)] by blast
  moreover have "kept (J - {0, 1}) s s'" by (rule kept_mono [OF u(2)]) auto
  ultimately show ?thesis using fs_abs_kept [OF u(1) _ u(4)] u(3) unfolding fs_abs_def by simp
qed

lemma fs_abs_handle:
  assumes "fs_inv {} s' J R T" and "same_disk s s'" and "handle s' = (handle s)(fp \<mapsto> (x, p', b'))"
    and "handle s fp = Some (x, p, b)" and "fp \<noteq> free_map_file s"
  shows "fs_abs s' = (fs_abs s)\<lparr>ahandles := (ahandles (fs_abs s))(fp \<mapsto> (x, p', b'))\<rparr>"
proof -
  have "((handle s)(free_map_file s := None)) fp = Some (x, p, b)" using assms(4,5) by simp
  note m = mk_afs_handle [of "(handle s)(free_map_file s := None)" fp, OF this]
  have fm: "free_map_file s' = free_map_file s" using assms(2) by (simp add: same_disk_def)
  have "fs_abs s' = mk_afs (fs_names s) (((handle s)(free_map_file s := None))(fp \<mapsto> (x, p', b'))) (fbytes (fs_device s))"
    using same_disk_fields(2,5) [OF assms(2)] assms(3,5) fm by (simp add: fs_abs_def fun_upd_twist)
  then show ?thesis unfolding m by (simp add: fs_abs_def)
qed


lemma fs_runI: "fs_inv {} s J {} {#} \<Longrightarrow> synced s \<Longrightarrow> fs_run s"
  by (auto simp: fs_run_def)

lemma abs_handleD:
  assumes "ahandles (fs_abs s) fp = Some (x, p, b)"
  shows "handle s fp = Some (x, p, b)" "fp \<noteq> free_map_file s"
    "abytes (fs_abs s) x = Some (fbytes (fs_device s) x)"
proof -
  have h: "((handle s)(free_map_file s := None)) fp = Some (x, p, b)" using assms by (simp add: fs_abs_def)
  then show "handle s fp = Some (x, p, b)" "fp \<noteq> free_map_file s" by (auto split: if_splits)
  have "x \<in> live (fs_names s) ((handle s)(free_map_file s := None))" by (rule liveI) (use h in blast)
  then show "abytes (fs_abs s) x = Some (fbytes (fs_device s) x)" by (simp add: fs_abs_def)
qed

lemma create_refines:
  assumes inv: "fs_inv {} s J {} {#}" and sy: "synced s" and ok: "req_ok (fs_abs s) (Create nm sz)"
  shows "\<exists>r s'. fs_call s (Create nm sz) = Some (r, s') \<and> fs_run s' \<and> fs_step (fs_abs s) (Create nm sz) r (fs_abs s')"
proof -
  have ok: "0 \<notin> set nm" "0 \<le> sz" "sz < 2 ^ 31 - 511" using ok by simp_all
  from filesys_create_ok [OF inv ok] consider
      (new) x s' where "filesys_create s nm sz = Some (True, s')" "created J {} {#} s nm sz x s'"
    | (none) s' where "filesys_create s nm sz = Some (False, s')" "unchanged J {} {#} s s'" by blast
  then show ?thesis
  proof cases
    case new
    then have c: "fs_inv {} s' (insert x J) {} {#}" "x \<notin> J" "kept (J - {0, 1}) s s'" "synced s'" "handle s' = handle s"
        "free_map_file s' = free_map_file s" "fs_names s' = (fs_names s)(nm \<mapsto> x)"
        "fbytes (fs_device s') x = replicate (nat sz) 0" "nm \<noteq> []" "length nm \<le> 14" "fs_names s nm = None"
      by (simp_all add: created_def)
    let ?h = "(handle s)(free_map_file s := None)"
    have nl: "x \<notin> live (fs_names s) ?h" using live_owned [OF inv] c(2) by blast
    have "fs_abs s' = mk_afs ((fs_names s)(nm \<mapsto> x)) ?h ((fbytes (fs_device s))(x := replicate (nat sz) 0))"
      unfolding fs_abs_def c(5,6,7)
    proof (rule mk_afs_cong)
      fix y assume "y \<in> live ((fs_names s)(nm \<mapsto> x)) ?h"
      then have "y \<in> insert x J - {0, 1}" using live_owned [OF c(1)] c(5,6,7) by simp
      then show "fbytes (fs_device s') y = ((fbytes (fs_device s))(x := replicate (nat sz) 0)) y"
        using c(3,8) unfolding kept_def by (cases "y = x") auto
    qed simp_all
    then have "fs_abs s' = (fs_abs s)\<lparr>anames := (anames (fs_abs s))(nm \<mapsto> x), abytes := (abytes (fs_abs s))(x \<mapsto> replicate (nat sz) 0)\<rparr>"
      using mk_afs_create [of "fs_names s" nm, OF c(11)] by (simp add: fs_abs_def)
    moreover have "fs_step (fs_abs s) (Create nm sz) (RBool True)
        ((fs_abs s)\<lparr>anames := (anames (fs_abs s))(nm \<mapsto> x), abytes := (abytes (fs_abs s))(x \<mapsto> replicate (nat sz) 0)\<rparr>)"
      by (rule fs_step.create) (use c nl in \<open>simp_all add: fs_abs_def\<close>)
    ultimately show ?thesis using new(1) fs_runI [OF c(1,4)] by simp
  next
    case none
    then have "fs_run s'" using sy by (auto simp: unchanged_def intro: fs_runI)
    then show ?thesis using none(1) fs_abs_unchanged [OF none(2)] fs_step.create_fails [of "fs_abs s" nm sz] by simp
  qed
qed

lemma open_refines:
  assumes inv: "fs_inv {} s J {} {#}" and sy: "synced s"
  shows "\<exists>r s'. fs_call s (Open nm) = Some (r, s') \<and> fs_run s' \<and> fs_step (fs_abs s) (Open nm) r (fs_abs s')"
proof (cases "fs_names s nm")
  case None
  then obtain s' where s': "filesys_open s nm = Some (NULL, s')" "unchanged J {} {#} s s'"
    using filesys_open_ok [OF inv, of nm] by auto
  then have "fs_run s'" using sy by (auto simp: unchanged_def intro: fs_runI)
  moreover have "fs_step (fs_abs s) (Open nm) (RHandle NULL) (fs_abs s)" by (rule fs_step.open_fails) (simp add: fs_abs_def None)
  ultimately show ?thesis using s'(1) fs_abs_unchanged [OF s'(2)] by simp
next
  case (Some x)
  then obtain fp s' where s': "filesys_open s nm = Some (fp, s')" "fp \<noteq> NULL" "fp \<notin> dom (files s)" "fs_inv {} s' J {} {#}"
      "kept (J - {0}) s s'" "synced s \<longrightarrow> synced s'" "free_map_file s' = free_map_file s" "handle s' = (handle s)(fp \<mapsto> (x, 0, False))"
    using filesys_open_ok [OF inv, of nm] by auto
  have "files s fp = None" using s'(3) by blast
  then have hn: "handle s fp = None" by (simp add: handle_def)
  obtain f where "files s (free_map_file s) = Some f" by (rule free_map_file_open [OF inv])
  then have fpn: "fp \<noteq> free_map_file s" using s'(3) by auto
  have "1 \<in> J - {0}" using fs_invD(7) [OF inv] by simp
  then have nm: "fs_names s' = fs_names s" using kept_names [OF s'(5)] by blast
  have "kept (J - {0, 1}) s s'" by (rule kept_mono [OF s'(5)]) auto
  from fs_abs_kept [OF s'(4) this s'(7)]
  have "fs_abs s' = mk_afs (fs_names s) (((handle s)(free_map_file s := None))(fp \<mapsto> (x, 0, False))) (fbytes (fs_device s))"
    using s'(8) nm fpn by (simp add: fun_upd_twist)
  also have "\<dots> = (fs_abs s)\<lparr>ahandles := (ahandles (fs_abs s))(fp \<mapsto> (x, 0, False))\<rparr>"
    using mk_afs_open [of "fs_names s" nm x "(handle s)(free_map_file s := None)" fp] Some hn by (simp add: fs_abs_def)
  finally have "fs_abs s' = (fs_abs s)\<lparr>ahandles := (ahandles (fs_abs s))(fp \<mapsto> (x, 0, False))\<rparr>" .
  moreover have "fs_step (fs_abs s) (Open nm) (RHandle fp) ((fs_abs s)\<lparr>ahandles := (ahandles (fs_abs s))(fp \<mapsto> (x, 0, False))\<rparr>)"
    by (rule fs_step.opens) (use Some s'(2) hn in \<open>simp_all add: fs_abs_def\<close>)
  ultimately show ?thesis using s'(1,6) fs_runI [OF s'(4)] sy by simp
qed

lemma remove_refines:
  assumes inv: "fs_inv {} s J {} {#}" and sy: "synced s"
  shows "\<exists>r s'. fs_call s (Remove nm) = Some (r, s') \<and> fs_run s' \<and> fs_step (fs_abs s) (Remove nm) r (fs_abs s')"
proof -
  let ?h = "(handle s)(free_map_file s := None)"
  obtain s' J' where s': "filesys_remove s nm = Some (fs_names s nm \<noteq> None, s')" "fs_inv {} s' J' {} {#}"
      "kept (J' - {0, 1}) s s'" "synced s \<longrightarrow> synced s'" "free_map_file s' = free_map_file s" "handle s' = handle s"
      "fs_names s' = (fs_names s)(nm := None)"
    using filesys_remove_ok [OF inv, of nm] by blast
  have a: "fs_abs s' = mk_afs ((fs_names s)(nm := None)) ?h (fbytes (fs_device s))"
    using fs_abs_kept [OF s'(2,3,5)] s'(6,7) by simp
  have "ran ((fs_names s)(nm := None)) \<subseteq> ran (fs_names s)" by (auto simp: ran_def)
  then have "live ((fs_names s)(nm := None)) ?h \<subseteq> live (fs_names s) ?h" by (rule live_mono) simp
  from prune_mk_afs [OF this]
  have p: "prune ((fs_abs s)\<lparr>anames := (fs_names s)(nm := None)\<rparr>) = fs_abs s'" unfolding a unfolding fs_abs_def mk_afs_same .
  have "fs_step (fs_abs s) (Remove nm) (RBool (fs_names s nm \<noteq> None)) (fs_abs s')"
  proof (cases "fs_names s nm")
    case None
    then have e: "fs_abs s' = fs_abs s" unfolding a unfolding fs_abs_def by (simp add: fun_upd_idem)
    show ?thesis unfolding e using fs_step.remove_fails [of "fs_abs s" nm] None by (simp add: fs_abs_def)
  next
    case (Some x)
    then show ?thesis using fs_step.remove [of "fs_abs s" nm x] unfolding p [symmetric] by (simp add: fs_abs_def)
  qed
  then show ?thesis using s'(1,4) fs_runI [OF s'(2)] sy by simp
qed


lemma free_map_handle:
  assumes "fs_inv {} s J R T"
  shows "\<exists>p. handle s (free_map_file s) = Some (0, p, False)"
proof -
  have r: "root_tab s" using fs_invD(3) [OF assms] by (simp add: root_ok_def)
  obtain f i where f: "files s (free_map_file s) = Some f" "opened s (f_inode f) = Some i" "sector i = 0"
    using root_tabD(3) [OF r] by blast
  then have "\<not> deny_write f" using root_tabD(2) [OF r f(1,2)] by simp
  then show ?thesis using f by (simp add: handle_def)
qed

lemma write_refines:
  assumes inv: "fs_inv {} s J {} {#}" and sy: "synced s" and h: "ahandles (fs_abs s) fp = Some (x, p, b)"
  shows "\<exists>r s'. fs_call s (Write fp buf) = Some (r, s') \<and> fs_run s' \<and> fs_step (fs_abs s) (Write fp buf) r (fs_abs s')"
proof -
  note hd = abs_handleD [OF h]
  let ?h = "(handle s)(free_map_file s := None)" and ?c = "fbytes (fs_device s) x"
  define n where "n = (if denied ?h x then 0 else min (length buf) (length ?c - p))"
  define c' where "c' = overwrite ?c p (take n buf)"
  have x: "x \<in> J" "x \<notin> {0, 1}" by (rule handle_sector [OF inv hd(1,2)])+
  have den: "denied ?h x \<longleftrightarrow> (\<exists>fq q. handle s fq = Some (x, q, True))"
  proof -
    have "((handle s)(free_map_file s := None)) fq = Some (x, q, True) \<longleftrightarrow> handle s fq = Some (x, q, True)" for fq q
      using free_map_handle [OF inv] by auto
    then show ?thesis by (simp add: denied_def)
  qed
  obtain s' where s': "file_write s fp buf = Some (n, s')" "fs_inv {} s' J {} {#}" "kept (J - {x}) s s'"
      "free_map_file s' = free_map_file s" "free_map s' = free_map s" "fbytes (fs_device s') x = c'"
      "handle s' = (handle s)(fp \<mapsto> (x, p + n, b))"
    using file_write_ok [OF inv hd(1,2), of buf] unfolding n_def den c'_def by blast
  have "1 \<in> J - {x}" "0 \<in> J - {x}" using x fs_invD(6,7) [OF inv] by auto
  then have nm: "fs_names s' = fs_names s" and "synced s'"
    using kept_names [OF s'(3)] sy s'(3,5) by (auto simp: synced_def kept_def)
  have hf: "?h fp = Some (x, p, b)" using hd by simp
  have "fs_abs s' = mk_afs (fs_names s) (?h(fp \<mapsto> (x, p + n, b))) ((fbytes (fs_device s))(x := c'))"
    unfolding fs_abs_def
  proof (rule mk_afs_cong)
    show hh: "(handle s')(free_map_file s' := None) = ?h(fp \<mapsto> (x, p + n, b))" using s'(4,7) hd(2) by (simp add: fun_upd_twist)
    fix y assume y: "y \<in> live (fs_names s) (?h(fp \<mapsto> (x, p + n, b)))"
    have "y \<in> J - {0, 1}" using live_owned [OF s'(2)] y unfolding hh nm by blast
    then show "fbytes (fs_device s') y = ((fbytes (fs_device s))(x := c')) y"
      using s'(3,6) unfolding kept_def by (cases "y = x") auto
  qed (rule nm)
  also have "\<dots> = (fs_abs s)\<lparr>ahandles := (ahandles (fs_abs s))(fp \<mapsto> (x, p + n, b)), abytes := (abytes (fs_abs s))(x \<mapsto> c')\<rparr>"
  proof -
    have "x \<in> live (fs_names s) ?h" by (rule liveI) (use hf in blast)
    then show ?thesis unfolding mk_afs_handle [of ?h fp, OF hf] fs_abs_def by (auto simp: mk_afs_def fun_eq_iff)
  qed
  finally have a: "fs_abs s' = (fs_abs s)\<lparr>ahandles := (ahandles (fs_abs s))(fp \<mapsto> (x, p + n, b)), abytes := (abytes (fs_abs s))(x \<mapsto> c')\<rparr>" .
  have "fs_step (fs_abs s) (Write fp buf) (RCount n) (fs_abs s')"
    unfolding a c'_def by (rule fs_step.writes [OF h hd(3)]) (simp add: n_def fs_abs_def)
  then show ?thesis using s'(1) fs_runI [OF s'(2) \<open>synced s'\<close>] by simp
qed

lemma close_refines:
  assumes inv: "fs_inv {} s J {} {#}" and sy: "synced s" and h: "ahandles (fs_abs s) fp = Some (x, p, b)"
  shows "\<exists>r s'. fs_call s (Close fp) = Some (r, s') \<and> fs_run s' \<and> fs_step (fs_abs s) (Close fp) r (fs_abs s')"
proof -
  note hd = abs_handleD [OF h]
  let ?h = "(handle s)(free_map_file s := None)"
  obtain s' J' where s': "file_close s fp = Some s'" "fs_inv {} s' J' {} {#}" "J' \<subseteq> J" "kept (J' - {0}) s s'"
      "synced s \<longrightarrow> synced s'" "handle s' = (handle s)(fp := None)" "free_map_file s' = free_map_file s"
    using file_close_ok [OF inv hd(1,2)] by blast
  have "1 \<in> J' - {0}" using fs_invD(7) [OF s'(2)] by simp
  then have nm: "fs_names s' = fs_names s" using kept_names [OF s'(4)] by blast
  have "kept (J' - {0, 1}) s s'" by (rule kept_mono [OF s'(4)]) auto
  from fs_abs_kept [OF s'(2) this s'(7)]
  have a: "fs_abs s' = mk_afs (fs_names s) (?h(fp := None)) (fbytes (fs_device s))"
    using s'(6) nm hd(2) by (simp add: fun_upd_twist)
  have "ran (?h(fp := None)) \<subseteq> ran ?h" by (auto simp: ran_def)
  then have "live (fs_names s) (?h(fp := None)) \<subseteq> live (fs_names s) ?h" by (intro live_mono) simp_all
  from prune_mk_afs [OF this]
  have p: "prune ((fs_abs s)\<lparr>ahandles := ?h(fp := None)\<rparr>) = fs_abs s'" unfolding a unfolding fs_abs_def mk_afs_same .
  have "fs_step (fs_abs s) (Close fp) RUnit (prune ((fs_abs s)\<lparr>ahandles := (ahandles (fs_abs s))(fp := None)\<rparr>))"
    by (rule fs_step.close [OF h])
  then have "fs_step (fs_abs s) (Close fp) RUnit (fs_abs s')" unfolding p [symmetric] by (simp add: fs_abs_def)
  then show ?thesis using s'(1,5) fs_runI [OF s'(2)] sy by simp
qed

lemma handle_refines:
  assumes inv: "fs_inv {} s J {} {#}" and sy: "synced s" and h: "ahandles (fs_abs s) fp = Some (x, p, b)"
  shows "\<exists>r s'. fs_call s (Read fp n) = Some (r, s') \<and> fs_run s' \<and> fs_step (fs_abs s) (Read fp n) r (fs_abs s')"
    and "0 \<le> k \<Longrightarrow> \<exists>r s'. fs_call s (Seek fp k) = Some (r, s') \<and> fs_run s' \<and> fs_step (fs_abs s) (Seek fp k) r (fs_abs s')"
    and "\<exists>r s'. fs_call s (Deny fp) = Some (r, s') \<and> fs_run s' \<and> fs_step (fs_abs s) (Deny fp) r (fs_abs s')"
    and "\<exists>r s'. fs_call s (Allow fp) = Some (r, s') \<and> fs_run s' \<and> fs_step (fs_abs s) (Allow fp) r (fs_abs s')"
proof -
  note hd = abs_handleD [OF h]
  have ok: "fs_run s'" if "fs_inv {} s' J {} {#}" "same_disk s s'" for s'
    using that sy same_disk_fields(6) [OF that(2)] by (auto intro: fs_runI)
  note ab = fs_abs_handle [OF _ _ _ hd(1,2)]
  show "\<exists>r s'. fs_call s (Read fp n) = Some (r, s') \<and> fs_run s' \<and> fs_step (fs_abs s) (Read fp n) r (fs_abs s')"
    using file_read_ok [OF inv hd(1,2), of n] ok ab fs_step.read [OF h hd(3) refl] by fastforce
  show "\<exists>r s'. fs_call s (Seek fp k) = Some (r, s') \<and> fs_run s' \<and> fs_step (fs_abs s) (Seek fp k) r (fs_abs s')" if "0 \<le> k"
    using file_seek_ok [OF inv hd(1,2) that] ok ab fs_step.seek [OF h, of k] by fastforce
  show "\<exists>r s'. fs_call s (Deny fp) = Some (r, s') \<and> fs_run s' \<and> fs_step (fs_abs s) (Deny fp) r (fs_abs s')"
    using file_deny_write_ok [OF inv hd(1,2)] ok ab fs_step.deny [OF h] by fastforce
  show "\<exists>r s'. fs_call s (Allow fp) = Some (r, s') \<and> fs_run s' \<and> fs_step (fs_abs s) (Allow fp) r (fs_abs s')"
    using file_allow_write_ok [OF inv hd(1,2)] ok ab fs_step.allow [OF h] by fastforce
qed


lemma fs_call_refines:
  assumes "fs_run s" and "req_ok (fs_abs s) req"
  shows "\<exists>r s'. fs_call s req = Some (r, s') \<and> fs_run s' \<and> fs_step (fs_abs s) req r (fs_abs s')"
proof -
  obtain J where inv: "fs_inv {} s J {} {#}" and sy: "synced s" using assms(1) by (auto simp: fs_run_def)
  show ?thesis
  proof (cases req)
    case (Create nm sz)
    then show ?thesis using create_refines [OF inv sy] assms(2) by blast
  next
    case (Open nm)
    then show ?thesis using open_refines [OF inv sy] by blast
  next
    case (Remove nm)
    then show ?thesis using remove_refines [OF inv sy] by blast
  next
    case (Read fp n)
    then obtain x p b where "ahandles (fs_abs s) fp = Some (x, p, b)" using assms(2) by auto
    then show ?thesis using Read handle_refines(1) [OF inv sy] by blast
  next
    case (Write fp buf)
    then obtain x p b where "ahandles (fs_abs s) fp = Some (x, p, b)" using assms(2) by auto
    then show ?thesis using Write write_refines [OF inv sy] by blast
  next
    case (Seek fp n)
    then obtain x p b where "ahandles (fs_abs s) fp = Some (x, p, b)" "0 \<le> n" using assms(2) by auto
    then show ?thesis using Seek handle_refines(2) [OF inv sy] by blast
  next
    case (Close fp)
    then obtain x p b where "ahandles (fs_abs s) fp = Some (x, p, b)" using assms(2) by auto
    then show ?thesis using Close close_refines [OF inv sy] by blast
  next
    case (Deny fp)
    then obtain x p b where "ahandles (fs_abs s) fp = Some (x, p, b)" using assms(2) by auto
    then show ?thesis using Deny handle_refines(3) [OF inv sy] by blast
  next
    case (Allow fp)
    then obtain x p b where "ahandles (fs_abs s) fp = Some (x, p, b)" using assms(2) by auto
    then show ?thesis using Allow handle_refines(4) [OF inv sy] by blast
  qed
qed

section \<open>Sequences of requests\<close>

inductive fs_trace :: "afs \<Rightarrow> fs_req list \<Rightarrow> fs_res list \<Rightarrow> afs \<Rightarrow> bool" where
  nil: "fs_trace a [] [] a"
| cons: "fs_step a req r a' \<Longrightarrow> fs_trace a' reqs rs a'' \<Longrightarrow> fs_trace a (req # reqs) (r # rs) a''"

fun fs_calls :: "fs \<Rightarrow> fs_req list \<Rightarrow> (fs_res list \<times> fs) option" where
  "fs_calls s [] = Some ([], s)"
| "fs_calls s (req # reqs) = do {
     (r, s) \<leftarrow> fs_call s req;
     (rs, s) \<leftarrow> fs_calls s reqs;
     Some (r # rs, s) }"

text \<open>Every request respects the interface in the state in which it is made.\<close>

fun reqs_ok :: "fs \<Rightarrow> fs_req list \<Rightarrow> bool" where
  "reqs_ok s [] = True"
| "reqs_ok s (req # reqs) = (req_ok (fs_abs s) req \<and> (case fs_call s req of None \<Rightarrow> True | Some (r, s') \<Rightarrow> reqs_ok s' reqs))"

end
