(* ===== verification/Filesys_Init.thy ===== *)
theory Filesys_Init
  imports Filesys_Spec
begin

text \<open>
  Starting the file system: \<open>filesys_init\<close> establishes the invariant, with an empty directory
  when it formats the device and with the files that were on the device when it does not.
\<close>

section \<open>The free map file is the only open file\<close>

definition no_files :: "fs \<Rightarrow> bool" where
  "no_files s \<longleftrightarrow> inodes s = Map.empty \<and> open_inodes s = [] \<and> files s = Map.empty \<and> dirs s = Map.empty \<and> 0 < mem_brk s"

definition booting :: "fs \<Rightarrow> bool" where
  "booting s \<longleftrightarrow> no_files s \<and> mem_good s"

definition map_open :: "fs \<Rightarrow> bool" where
  "map_open s \<longleftrightarrow> (\<exists>p. inodes s = [p \<mapsto> \<lparr>sector = 0, open_cnt = 1, removed = False, deny_write_cnt = 0, data = idata (fs_device s) 0\<rparr>] \<and>
     open_inodes s = [p] \<and> files s = [free_map_file s \<mapsto> \<lparr>f_inode = p, pos = 0, deny_write = False\<rparr>] \<and> dirs s = Map.empty \<and>
     0 < p \<and> p < mem_brk s \<and> 0 < free_map_file s \<and> free_map_file s < mem_brk s) \<and> mem_good s"

lemma open_map_file:
  assumes "booting s" and dev: "dev_ok (fs_device s)" "0 < block_size (fs_device s)"
  shows "\<exists>ip s1 fp s2. inode_open s 0 = Some (ip, s1) \<and> file_open s1 ip = Some (fp, s2) \<and> fp \<noteq> NULL \<and>
    map_open (s2\<lparr>free_map_file := fp\<rparr>) \<and> free_map s2 = free_map s \<and>
    content (fs_device s2) = content (fs_device s) \<and> block_size (fs_device s2) = block_size (fs_device s) \<and> dev_ok (fs_device s2)"
proof -
  have n: "inodes s = Map.empty" "open_inodes s = []" "files s = Map.empty" "dirs s = Map.empty" "mem_good s" "0 < mem_brk s"
    using assms(1) by (simp_all add: booting_def no_files_def)
  obtain p s1 where m: "fs_malloc s = (p, s1)" by fastforce
  note ml = fs_malloc_cases [OF n(6) m]
  have p: "p \<noteq> NULL" "p = mem_brk s" "mem_brk s1 = mem_brk s + 1" using ml n(5) by auto
  note f1 = io_fields [OF touch_io [OF ml(1)]]
  let ?s = "s1\<lparr>open_inodes := p # open_inodes s1\<rparr>"
  have d1: "dev_ok (fs_device ?s)" "0 < block_size (fs_device ?s)" using dev touch_dev [OF ml(1)] f1 by simp_all
  obtain s2 where s2: "fs_read ?s 0 = Some (content (fs_device ?s) 0, s2)" "touch ?s s2" using fs_read_ok [OF d1(2)] by blast
  note f2 = io_fields [OF touch_io [OF s2(2)]]
  let ?i = "\<lparr>sector = 0, open_cnt = 1, removed = False, deny_write_cnt = 0, data = decode_inode (content (fs_device ?s) 0)\<rparr>"
  let ?s2 = "s2\<lparr>inodes := (inodes s2)(p \<mapsto> ?i)\<rparr>"
  have o: "inode_open s 0 = Some (p, ?s2)" using m p(1) n(2) s2(1) by (simp add: inode_open_def)
  have b2: "0 < mem_brk ?s2" using f2(10) p by simp
  obtain q s3 where m3: "fs_malloc ?s2 = (q, s3)" by fastforce
  note ml3 = fs_malloc_cases [OF b2 m3]
  have mg: "mem_good ?s2" using n(5) f1 f2 by (simp add: mem_good_def)
  have q: "q \<noteq> NULL" "q = mem_brk ?s2" "mem_brk s3 = mem_brk ?s2 + 1" using ml3 mg by auto
  note f3 = io_fields [OF touch_io [OF ml3(1)]]
  let ?s3 = "s3\<lparr>files := (files s3)(q \<mapsto> \<lparr>f_inode = p, pos = 0, deny_write = False\<rparr>)\<rparr>"
  have fo: "file_open ?s2 p = Some (q, ?s3)" using m3 p(1) q(1) by (simp add: file_open_def)
  have c: "content (fs_device ?s3) = content (fs_device s)"
    using ml(1) s2(2) ml3(1) by (simp add: touch_def)
  have "map_open (?s3\<lparr>free_map_file := q\<rparr>)"
    unfolding map_open_def using n f1 f2 f3 p q c mg ml(1)
    by (intro conjI exI [of _ p]) (auto simp: mem_good_def idata_def touch_def)
  moreover have "dev_ok (fs_device ?s3)" using dev c f1 f2 f3 by (simp add: dev_ok_def)
  ultimately show ?thesis using o fo q(1) c f1 f2 f3 by auto
qed


lemma map_openD:
  assumes "map_open s"
  obtains p i where "inodes s = [p \<mapsto> i]" "sector i = 0" "open_cnt i = 1" "\<not> removed i" "deny_write_cnt i = 0"
    "data i = idata (fs_device s) 0" "open_inodes s = [p]"
    "files s = [free_map_file s \<mapsto> \<lparr>f_inode = p, pos = 0, deny_write = False\<rparr>]" "dirs s = Map.empty"
    "0 < p" "p < mem_brk s" "0 < free_map_file s" "free_map_file s < mem_brk s" "mem_good s" "opened s = [p \<mapsto> i]"
  using assms by (fastforce simp: map_open_def opened_def)

lemma map_open_inv:
  assumes mo: "map_open s" and st: "store_ok (fs_device s) (free_map s) J R"
    and root: "{0, 1} \<subseteq> J" "20 dvd length (fbytes (fs_device s) 1)" "entries_ok J (root_entries s)"
    and len: "length (fbytes (fs_device s) 0) = byte_cnt (bit_cnt (free_map s))"
  shows "fs_inv {} s J R {#}"
proof -
  obtain p i where m: "inodes s = [p \<mapsto> i]" "sector i = 0" "open_cnt i = 1" "\<not> removed i" "deny_write_cnt i = 0"
    "data i = idata (fs_device s) 0" "open_inodes s = [p]"
    "files s = [free_map_file s \<mapsto> \<lparr>f_inode = p, pos = 0, deny_write = False\<rparr>]" "dirs s = Map.empty"
    "0 < p" "p < mem_brk s" "0 < free_map_file s" "free_map_file s < mem_brk s" "mem_good s" "opened s = [p \<mapsto> i]"
    by (rule map_openD [OF mo])
  have refs: "frefs {} s p = {free_map_file s}" "drefs {} s p = {}" "denials {} s p = {}"
    using m(8,9) by (auto simp: frefs_def drefs_def denials_def split: if_splits)
  have "table_ok {} s J {#}"
  proof (rule table_okI)
    show "inode_ok {} s J {#} q k" if "opened s q = Some k" for q k
      using that m(2-6,15) refs root(1) by (auto simp: inode_ok_def split: if_splits)
  qed (use m in \<open>auto split: if_splits\<close>)
  moreover have "root_tab s"
    by (rule root_tabI [of s "\<lparr>f_inode = p, pos = 0, deny_write = False\<rparr>" i]) (use m in \<open>auto split: if_splits\<close>)
  then have "root_ok s J" using root len by (simp add: root_ok_def)
  ultimately show ?thesis using st m(14) by (simp add: fs_inv_def fs_wf_def)
qed

lemma map_open_handle:
  assumes "map_open s"
  shows "handle s = [free_map_file s \<mapsto> (0, 0, False)]"
proof -
  obtain p i where "sector i = 0" "files s = [free_map_file s \<mapsto> \<lparr>f_inode = p, pos = 0, deny_write = False\<rparr>]" "opened s = [p \<mapsto> i]"
    by (rule map_openD [OF assms])
  then show ?thesis by (auto simp: handle_def fun_eq_iff)
qed

section \<open>Mounting\<close>

text \<open>The device holds a well-formed file system: \<open>J\<close> are its inodes and \<open>m\<close> its free map.\<close>

definition disk_fs :: "block \<Rightarrow> nat set \<Rightarrow> bitmap \<Rightarrow> bool" where
  "disk_fs dev J m \<longleftrightarrow> store_ok dev m J {} \<and> {0, 1} \<subseteq> J \<and> 20 dvd length (fbytes dev 1) \<and> entries_ok J (entries (fbytes dev 1)) \<and>
     (\<exists>m'. bm_ok m' \<and> bm_bits m' = bm_bits m \<and> fbytes dev 0 = bitmap_bytes m')"

lemma store_ok_map:
  assumes "store_ok dev m J R" and "bm_ok m'" and "bm_bits m' = bm_bits m"
  shows "store_ok dev m' J R"
proof -
  have "bit_cnt m' = bit_cnt m" using arg_cong [OF assms(3), of length] by simp
  moreover from this have "bm_used m' = bm_used m" using assms(3) by (simp add: bm_used_def)
  ultimately show ?thesis using assms(1,2) by (simp add: store_ok_def)
qed

lemma disk_fs_cong:
  assumes "disk_fs dev J m" and "content dev' = content dev" and "block_size dev' = block_size dev" and "dev_ok dev'"
  shows "disk_fs dev' J m"
proof -
  have "idata dev' = idata dev" "fbytes dev' = fbytes dev" "owned dev' = owned dev"
    using assms(2) by (auto simp: idata_def fun_eq_iff fbytes_def contents_def owned_def)
  then show ?thesis using assms by (simp add: disk_fs_def store_ok_def disk_ok_def)
qed

lemma map_open_touch:
  assumes "map_open s" and "touch s s'"
  shows "map_open s'"
proof -
  note f = io_fields [OF touch_io [OF assms(2)]] and t = touch_fields [OF assms(2)]
  show ?thesis using assms(1) f t by (auto simp: map_open_def mem_good_def intro: order_less_le_trans)
qed

lemma bitmap_read_bytes:
  assumes "bm_ok m" and "bm_ok m0" and "bit_cnt m0 = bit_cnt m"
  shows "\<exists>m'. bitmap_read m0 (bitmap_bytes m) = (True, m') \<and> bm_ok m' \<and> bm_bits m' = bm_bits m"
proof -
  have "snd (bitmap_write m 0) = bitmap_bytes m"
    using byte_cnt_eq [OF assms(1)] by (simp add: bitmap_write_def bitmap_bytes_length Let_def)
  then show ?thesis using bitmap_read_write_ok [OF assms, of 0] by auto
qed

lemma mount_ok:
  assumes nf: "booting s" and dk: "disk_fs (fs_device s) J m" and fm: "bm_ok (free_map s)" "bit_cnt (free_map s) = block_size (fs_device s)"
  shows "\<exists>s'. free_map_open s = Some s' \<and> fs_inv {} s' J {} {#} \<and> synced s' \<and> map_open s' \<and>
    content (fs_device s') = content (fs_device s) \<and> block_size (fs_device s') = block_size (fs_device s) \<and> bm_bits (free_map s') = bm_bits m"
proof -
  have st: "store_ok (fs_device s) m J {}" "{0, 1} \<subseteq> J" using dk by (simp_all add: disk_fs_def)
  have dev: "dev_ok (fs_device s)" "0 < block_size (fs_device s)" using store_okD(1) [OF st(1)] store_okD(11) [OF st(1), of 0] st(2) by auto
  obtain ip s1 fp s2 where o: "inode_open s 0 = Some (ip, s1)" "file_open s1 ip = Some (fp, s2)" "fp \<noteq> NULL"
      "map_open (s2\<lparr>free_map_file := fp\<rparr>)" "free_map s2 = free_map s" "content (fs_device s2) = content (fs_device s)"
      "block_size (fs_device s2) = block_size (fs_device s)" "dev_ok (fs_device s2)"
    using open_map_file [OF nf dev] by blast
  let ?s = "s2\<lparr>free_map_file := fp\<rparr>"
  have dk2: "disk_fs (fs_device ?s) J m" by (rule disk_fs_cong [OF dk]) (use o in simp_all)
  obtain m' where m': "bm_ok m'" "bm_bits m' = bm_bits m" "fbytes (fs_device ?s) 0 = bitmap_bytes m'" using dk2 by (auto simp: disk_fs_def)
  have bc: "bit_cnt m' = block_size (fs_device s)"
    using arg_cong [OF m'(2), of length] store_okD(3) [OF st(1)] by simp
  have len: "length (bitmap_bytes m') = byte_cnt (block_size (fs_device s))"
    using byte_cnt_eq [OF m'(1)] bc by (simp add: bitmap_bytes_length)
  have st2: "store_ok (fs_device ?s) m J {}" using dk2 by (simp add: disk_fs_def)
  obtain p i where mo: "inodes ?s = [p \<mapsto> i]" "data i = idata (fs_device ?s) 0"
      "files ?s = [free_map_file ?s \<mapsto> \<lparr>f_inode = p, pos = 0, deny_write = False\<rparr>]" "mem_good ?s" "0 < p" "p < mem_brk ?s"
    by (rule map_openD [OF o(4)])
  have rd: "dev_ok (fs_device ?s)" "inodes ?s p = Some i" "disk_ok (fs_device ?s) (data i)" "0 < mem_brk ?s"
    using store_okD(5) [OF st2] st(2) mo(1,2,5,6) o(8) by simp_all
  have "take (byte_cnt (block_size (fs_device s))) (drop 0 (contents (fs_device ?s) (data i))) = bitmap_bytes m'"
    using m'(3) len mo(2) by (simp add: fbytes_def)
  then obtain s3 where s3: "inode_read_at ?s p (byte_cnt (block_size (fs_device s))) 0 = Some (bitmap_bytes m', s3)" "touch ?s s3"
    using inode_read_all [OF rd(1-3) mo(4) rd(4), of "byte_cnt (block_size (fs_device s))" 0] by auto
  obtain m'' where m'': "bitmap_read (free_map s) (bitmap_bytes m') = (True, m'')" "bm_ok m''" "bm_bits m'' = bm_bits m'"
    using bitmap_read_bytes [OF m'(1) fm(1)] fm(2) bc by auto
  let ?s' = "s3\<lparr>free_map := m''\<rparr>"
  have "file_read_at ?s fp (bitmap_file_size (free_map s)) 0 = Some (bitmap_bytes m', s3)"
    using mo(3) s3(1) fm(2) by (simp add: file_read_at_def bitmap_file_size_def)
  then have "free_map_open s = Some ?s'" using o(1,2,3,5) m''(1) by (simp add: free_map_open_def read_free_map_def)
  moreover have d3: "disk_fs (fs_device ?s') J m"
    by (rule disk_fs_cong [OF dk2])
      (use s3(2) touch_dev [OF s3(2)] io_fields [OF touch_io [OF s3(2)]] o(8) in \<open>simp_all add: touch_def\<close>)
  moreover have mo': "map_open ?s'" using map_open_touch [OF o(4) s3(2)] by (simp add: map_open_def mem_good_def)
  moreover have "bit_cnt m'' = block_size (fs_device s)" using arg_cong [OF m''(3), of length] bc by simp
  then have "fs_inv {} ?s' J {} {#}"
    by (intro map_open_inv [OF mo'])
      (use d3 store_ok_map [of _ m J "{}" m''] m'' m' bc len touch_fields [OF s3(2)] in \<open>auto simp: disk_fs_def root_entries_def\<close>)
  moreover have "synced ?s'" using m'(1,3) m''(3) touch_fields [OF s3(2)] by (auto simp: synced_def)
  moreover have "content (fs_device ?s') = content (fs_device s)" "block_size (fs_device ?s') = block_size (fs_device s)"
    using s3(2) o(6,7) io_fields(8) [OF touch_io [OF s3(2)]] by (simp_all add: touch_def)
  ultimately show ?thesis using m''(3) m'(2) by (intro exI [of _ ?s']) simp
qed


section \<open>Formatting\<close>

lemma free_map_init_ok:
  assumes mem: "mem_good s" "0 < mem_brk s" and dev: "2 \<le> block_size (fs_device s)" "block_size (fs_device s) + 32 < 2 ^ 32"
    and junk: "length junk = elem_cnt (block_size (fs_device s))"
  shows "\<exists>s1 m. free_map_init s junk = Some (s1\<lparr>free_map := m\<rparr>) \<and> touch s s1 \<and> bm_ok m \<and> bit_cnt m = block_size (fs_device s) \<and>
    bm_used m = {0, 1}"
proof -
  let ?n = "block_size (fs_device s)"
  obtain p s1 where m1: "fs_malloc s = (p, s1)" by fastforce
  note ml1 = fs_malloc_cases [OF mem(2) m1]
  note f1 = io_fields [OF touch_io [OF ml1(1)]]
  have p: "p \<noteq> NULL" by (rule ml1(3) [OF mem(1)])
  obtain q s2 where m2: "fs_malloc s1 = (q, s2)" by fastforce
  have b1: "0 < mem_brk s1" using f1(10) mem(2) by simp
  note ml2 = fs_malloc_cases [OF b1 m2]
  have q: "q \<noteq> NULL" by (rule ml2(3)) (use mem(1) f1 in \<open>simp add: mem_good_def\<close>)
  have t: "touch s s2" by (rule touch_trans [OF ml1(1) ml2(1)])
  have n2: "block_size (fs_device s2) = ?n" using io_fields(8) [OF touch_io [OF t]] .
  obtain b where b: "bitmap_create ?n True (Some junk) = Some (Some b)" "bm_ok b" "bm_bits b = replicate ?n False"
    using bitmap_create_ok(1) [OF dev(2) junk] by blast
  have bc: "bit_cnt b = ?n" using arg_cong [OF b(3), of length] by simp
  obtain b1 where b1: "bitmap_mark b 0 = Some b1" "bm_ok b1" "bit_cnt b1 = ?n" "bm_bits b1 = (bm_bits b)[0 := True]"
    using bitmap_mark_ok [OF b(2), of 0] bc dev(1) by auto
  obtain b2 where b2: "bitmap_mark b1 1 = Some b2" "bm_ok b2" "bit_cnt b2 = ?n" "bm_bits b2 = (bm_bits b1)[1 := True]"
    using bitmap_mark_ok [OF b1(2), of 1] b1(3) dev(1) by auto
  have "bm_used b2 = {0, 1}" using b2(3,4) b1(4) b(3) dev(1) by (auto simp: bm_used_def nth_list_update split: if_splits)
  moreover have "free_map_init s junk = Some (s2\<lparr>free_map := b2\<rparr>)"
    using m1 m2 p q n2 b(1) b1(1) b2(1) by (simp add: free_map_init_def)
  ultimately show ?thesis using t b2 by blast
qed

text \<open>Writing the free map while its file is the only open one.\<close>

lemma write_map_ok:
  assumes mo: "map_open s" and st: "store_ok (fs_device s) (free_map s) J R" "0 \<in> J"
    and len: "length (fbytes (fs_device s) 0) = byte_cnt (bit_cnt (free_map s))"
  shows "\<exists>s'. write_free_map s = Some (True, s') \<and> io s s' \<and> map_open s' \<and> store_ok (fs_device s') (free_map s) J R \<and>
    kept (J - {0}) s s' \<and> fbytes (fs_device s') 0 = bitmap_bytes (free_map s)"
proof -
  obtain p i where m: "inodes s = [p \<mapsto> i]" "sector i = 0" "deny_write_cnt i = 0" "data i = idata (fs_device s) 0"
    "files s = [free_map_file s \<mapsto> \<lparr>f_inode = p, pos = 0, deny_write = False\<rparr>]" "mem_good s" "0 < p" "p < mem_brk s"
    by (rule map_openD [OF mo])
  let ?m = "free_map s" and ?c = "fbytes (fs_device s) 0"
  have bl: "byte_cnt (bit_cnt ?m) = length (bitmap_bytes ?m)"
    using byte_cnt_eq [of ?m] store_okD(2) [OF st(1)] by (simp add: bitmap_bytes_length)
  have w: "inodes s p = Some i" "sector i \<in> J" "data i = idata (fs_device s) (sector i)" "0 < mem_brk s" using m st(2) by simp_all
  obtain s' where s': "inode_write_at s p (bitmap_bytes ?m) 0 = Some (length ?c, s')" "io s s'"
      "store_ok (fs_device s') ?m J R" "\<forall>x \<in> J. idata (fs_device s') x = idata (fs_device s) x" "kept (J - {0}) s s'"
      "fbytes (fs_device s') 0 = overwrite ?c 0 (bitmap_bytes ?m)"
    using inode_write_store [OF st(1) w(1-3) m(3,6) w(4), of "bitmap_bytes ?m" 0] m(2) len bl by auto
  note f = io_fields [OF s'(2)]
  have "write_free_map s = Some (True, s')"
    using s'(1) m(5) bl len by (simp add: write_free_map_def file_write_at_def bitmap_write_def Let_def)
  moreover have "map_open s'" using mo f s'(4) st(2) by (auto simp: map_open_def mem_good_def intro: order_less_le_trans)
  moreover have "fbytes (fs_device s') 0 = bitmap_bytes ?m" using s'(6) len bl by (simp add: overwrite_def)
  ultimately show ?thesis using s'(2,3,5) by blast
qed


lemma boot_allocate:
  assumes ok: "bm_ok (free_map s)" and run: "run_free (free_map s) n" and null: "free_map_file s = NULL"
  shows "\<exists>x m. free_map_allocate s n = Some (Some x, s\<lparr>free_map := m\<rparr>) \<and> bm_ok m \<and> bit_cnt m = bit_cnt (free_map s) \<and>
    x + n \<le> bit_cnt m \<and> slots (x, n) \<inter> bm_used (free_map s) = {} \<and> bm_used m = bm_used (free_map s) \<union> slots (x, n)"
proof -
  have "\<not> no_group (bm_bits (free_map s)) 0 n False" using run no_group_run_free by blast
  then obtain x m where x: "bitmap_scan_and_flip (free_map s) 0 n False = Some (x, m)" "x \<noteq> BITMAP_ERROR"
    using bitmap_scan_and_flip_ok [OF ok, of 0 n False] by blast
  then have "bm_alloc (free_map s) () n = Some (Some x, m)" by (simp add: bm_alloc_def)
  moreover from x have "free_map_allocate s n = Some (Some x, s\<lparr>free_map := m\<rparr>)" using null by (simp add: free_map_allocate_def)
  ultimately show ?thesis using bm_alloc_law [OF ok, of "()" n] by (intro exI [of _ x] exI [of _ m]) simp
qed

text \<open>The first half of \<open>do_format\<close>: the free map file exists and is open.\<close>

lemma free_map_create_ok:
  assumes nf: "booting s" "free_map_file s = NULL" and dev: "dev_ok (fs_device s)"
    and m: "bm_ok (free_map s)" "bit_cnt (free_map s) = block_size (fs_device s)" "bm_used (free_map s) = {0, 1}"
    and space: "bytes_to_sectors (int (byte_cnt (block_size (fs_device s)))) + 3 \<le> block_size (fs_device s)"
  shows "\<exists>s'. free_map_create s = Some s' \<and> map_open s' \<and> store_ok (fs_device s') (free_map s') {0} {1} \<and>
    block_size (fs_device s') = block_size (fs_device s) \<and> fbytes (fs_device s') 0 = bitmap_bytes (free_map s') \<and> run_free (free_map s') 1 \<and>
    card (bm_used (free_map s')) \<le> bytes_to_sectors (int (byte_cnt (block_size (fs_device s)))) + 2"
proof -
  let ?bs = "block_size (fs_device s)"
  let ?len = "int (byte_cnt ?bs)"
  let ?n = "bytes_to_sectors ?len"
  have mem: "mem_good s" "0 < mem_brk s" using nf(1) by (simp_all add: booting_def no_files_def)
  obtain p s1 where m1: "fs_malloc s = (p, s1)" by fastforce
  note ml1 = fs_malloc_cases [OF mem(2) m1]
  note f1 = io_fields [OF touch_io [OF ml1(1)]]
  have p: "p \<noteq> NULL" by (rule ml1(3) [OF mem(1)])
  have d1: "dev_ok (fs_device s1)" using dev touch_dev [OF ml1(1)] by simp
  have "run_free (free_map s1) ?n"
    unfolding run_free_def by (rule exI [of _ 2]) (use m f1 space in \<open>auto simp: slots_def\<close>)
  then obtain x b where b: "free_map_allocate s1 ?n = Some (Some x, s1\<lparr>free_map := b\<rparr>)" "bm_ok b" "bit_cnt b = ?bs"
      "x + ?n \<le> ?bs" "slots (x, ?n) \<inter> {0, 1} = {}" "bm_used b = {0, 1} \<union> slots (x, ?n)"
    using boot_allocate [of s1 ?n] m nf(2) f1 by auto
  let ?s = "s1\<lparr>free_map := b\<rparr>"
  have len: "byte_cnt ?bs = 4 * length (bits b)" "length (bits b) < 2 ^ 27"
    using byte_cnt_eq [OF b(2)] b(2,3) by (auto simp: bm_ok_def)
  obtain s2 where s2: "inode_create s 0 ?len = Some (True, s2)" "io ?s s2" "dev_ok (fs_device s2)"
      "content (fs_device s2) = (\<lambda>y. if x \<le> y \<and> y < x + ?n then replicate 512 0
        else if y = 0 then encode_inode \<lparr>start = x, ilength = ?len, magic = INODE_MAGIC\<rparr> else content (fs_device ?s) y)"
    using inode_create_run [OF m1 p, of ?len x ?s 0] b(1,4) d1 f1 space by auto
  have st: "store_ok (fs_device ?s) b {} ({0, 1} \<union> slots (x, ?n))"
    using d1 b(2,3,6) f1 by (simp add: store_ok_def)
  note sd = store_stored [OF st, of 0 ?len, OF _ b(5) _ _ refl _ s2(2,3) refl s2(4)]
  have s2': "store_ok (fs_device s2) b {0} {1}" "fbytes (fs_device s2) 0 = replicate (byte_cnt ?bs) 0"
    using sd b(4) f1 len by (simp_all add: insert_Diff_if)
  note f2 = io_fields [OF s2(2)]
  have nf2: "booting s2" using nf(1) f1 f2 by (simp add: booting_def no_files_def mem_good_def)
  have bs2: "block_size (fs_device s2) = ?bs" using f2 f1 by simp
  obtain ip s3 fp s4 where o: "inode_open s2 0 = Some (ip, s3)" "file_open s3 ip = Some (fp, s4)" "fp \<noteq> NULL"
      "map_open (s4\<lparr>free_map_file := fp\<rparr>)" "free_map s4 = b" "content (fs_device s4) = content (fs_device s2)"
      "block_size (fs_device s4) = ?bs" "dev_ok (fs_device s4)"
    using open_map_file [OF nf2 s2(3)] bs2 space f2 by auto
  let ?s4 = "s4\<lparr>free_map_file := fp\<rparr>"
  have eq: "fbytes (fs_device s4) = fbytes (fs_device s2)" "idata (fs_device s4) = idata (fs_device s2)"
      "owned (fs_device s4) = owned (fs_device s2)"
    using o(6) by (auto simp: fbytes_def contents_def idata_def owned_def fun_eq_iff)
  have st4: "store_ok (fs_device ?s4) (free_map ?s4) {0} {1}"
    using s2'(1) eq o(5,7,8) bs2 by (simp add: store_ok_def disk_ok_def)
  obtain s5 where s5: "write_free_map ?s4 = Some (True, s5)" "io ?s4 s5" "map_open s5" "store_ok (fs_device s5) b {0} {1}"
      "fbytes (fs_device s5) 0 = bitmap_bytes b"
    using write_map_ok [OF o(4) st4] eq s2'(2) o(5) b(3) by auto
  note f5 = io_fields [OF s5(2)]
  have "free_map_create s = Some s5"
    using s2(1) o(1,2,3) s5(1) m(2) by (simp add: free_map_create_def bitmap_file_size_def)
  moreover have card: "card (bm_used b) \<le> ?n + 2"
    unfolding b(6) using card_Un_le [of "{0, 1}" "slots (x, ?n)"] by (simp add: slots_def)
  moreover have "run_free b 1"
  proof -
    have "\<not> {..<?bs} \<subseteq> bm_used b" using space card card_mono [of "bm_used b" "{..<?bs}"] b(6) by (auto simp: slots_def)
    then obtain a where "a < ?bs" "a \<notin> bm_used b" by auto
    then show ?thesis unfolding run_free_def by (intro exI [of _ a]) (use b(3) in \<open>auto simp: slots_def\<close>)
  qed
  ultimately show ?thesis using s5(3,4,5) f5(3,8) o(5,7) by (intro exI [of _ s5]) simp
qed


lemma map_allocate_ok:
  assumes mo: "map_open s" and st: "store_ok (fs_device s) (free_map s) {0} {1}"
    and len: "length (fbytes (fs_device s) 0) = byte_cnt (bit_cnt (free_map s))" and run: "run_free (free_map s) n"
  shows "\<exists>x s'. free_map_allocate s n = Some (Some x, s') \<and> map_open s' \<and> store_ok (fs_device s') (free_map s') {0} ({1} \<union> slots (x, n)) \<and>
    slots (x, n) \<inter> {1} = {} \<and> x + n \<le> block_size (fs_device s') \<and> fbytes (fs_device s') 0 = bitmap_bytes (free_map s') \<and>
    block_size (fs_device s') = block_size (fs_device s) \<and> bm_used (free_map s') = bm_used (free_map s) \<union> slots (x, n)"
proof -
  note ok = store_okD(2) [OF st]
  have "\<not> no_group (bm_bits (free_map s)) 0 n False" using run no_group_run_free by blast
  then obtain x m where x: "bitmap_scan_and_flip (free_map s) 0 n False = Some (x, m)" "x \<noteq> BITMAP_ERROR"
    using bitmap_scan_and_flip_ok [OF ok, of 0 n False] by blast
  then have "bm_alloc (free_map s) () n = Some (Some x, m)" by (simp add: bm_alloc_def)
  then have m: "bm_ok m" "bit_cnt m = bit_cnt (free_map s)" "x + n \<le> bit_cnt (free_map s)"
      "slots (x, n) \<inter> bm_used (free_map s) = {}" "bm_used m = bm_used (free_map s) \<union> slots (x, n)"
    using bm_alloc_law [OF ok, of "()" n] by simp_all
  let ?s = "s\<lparr>free_map := m\<rparr>"
  have mo': "map_open ?s" using mo by (simp add: map_open_def mem_good_def)
  have st': "store_ok (fs_device ?s) (free_map ?s) {0} ({1} \<union> slots (x, n))"
    using store_alloc [OF st m(1,2,5,4)] by simp
  obtain s' where s': "write_free_map ?s = Some (True, s')" "io ?s s'" "map_open s'" "store_ok (fs_device s') m {0} ({1} \<union> slots (x, n))"
      "fbytes (fs_device s') 0 = bitmap_bytes m"
    using write_map_ok [OF mo' st'] len m(2) by auto
  note f = io_fields [OF s'(2)]
  have "slots (x, n) \<inter> {1} = {}" using m(4) store_okD(4) [OF st] by auto
  moreover have "free_map_file s \<noteq> NULL" using mo by (auto simp: map_open_def)
  then have "free_map_allocate s n = Some (Some x, s')" using x s'(1) by (simp add: free_map_allocate_def)
  ultimately show ?thesis using s'(3,4,5) f(3,8) m(3,5) store_okD(3) [OF st] by (intro exI [of _ x] exI [of _ s']) simp
qed

lemma zero_entries: "used_entries (entries (replicate n 0)) = []"
proof -
  have "\<not> in_use (decode_entry (take 20 (drop (20 * k) (replicate n 0))))" if "k < n div 20" for k
  proof -
    have "20 * k + 20 \<le> n" using that by simp
    then have "take 20 (drop (20 * k) (replicate n (0 :: u8))) = replicate 20 0" by (simp add: min_def)
    then show ?thesis by (simp add: decode_entry_def)
  qed
  then show ?thesis by (auto simp: used_entries_def entries_def filter_empty_conv)
qed

lemma root_create_ok:
  assumes mo: "map_open s" and st: "store_ok (fs_device s) (free_map s) {0} {1}"
    and len: "length (fbytes (fs_device s) 0) = byte_cnt (bit_cnt (free_map s))" and run: "run_free (free_map s) 1"
  shows "\<exists>s'. dir_create s 1 16 = Some (True, s') \<and> map_open s' \<and> disk_fs (fs_device s') {0, 1} (free_map s') \<and>
    fbytes (fs_device s') 1 = replicate 320 0 \<and> block_size (fs_device s') = block_size (fs_device s) \<and> (\<exists>x. bm_used (free_map s') = insert x (bm_used (free_map s)))"
proof -
  have slot1: "slots (x, 1) = {x}" for x by (auto simp: slots_def)
  have n: "bytes_to_sectors 320 = 1" by (simp add: bytes_to_sectors_eq)
  have mem: "mem_good s" "0 < mem_brk s" using mo by (auto simp: map_open_def)
  obtain p s1 where m1: "fs_malloc s = (p, s1)" by fastforce
  note ml = fs_malloc_cases [OF mem(2) m1]
  note f1 = io_fields [OF touch_io [OF ml(1)]] and t1 = touch_fields [OF ml(1)]
  have p: "p \<noteq> NULL" by (rule ml(3) [OF mem(1)])
  have st1: "store_ok (fs_device s1) (free_map s1) {0} {1}" using st store_touch [OF ml(1)] f1 by simp
  obtain x s2 where s2: "free_map_allocate s1 1 = Some (Some x, s2)" "map_open s2"
      "store_ok (fs_device s2) (free_map s2) {0} ({1} \<union> slots (x, 1))" "slots (x, 1) \<inter> {1} = {}" "x + 1 \<le> block_size (fs_device s2)"
      "fbytes (fs_device s2) 0 = bitmap_bytes (free_map s2)" "bm_used (free_map s2) = bm_used (free_map s) \<union> slots (x, 1)"
      "block_size (fs_device s2) = block_size (fs_device s)"
    using map_allocate_ok [OF map_open_touch [OF mo ml(1)] st1, of 1] len run f1 t1 by auto
  have sec: "1 < block_size (fs_device s2)"
    using store_okD(3,4) [OF s2(3)] by (auto simp: bm_used_def)
  obtain s3 where s3: "inode_create s 1 320 = Some (True, s3)" "io s2 s3" "dev_ok (fs_device s3)"
      "content (fs_device s3) = (\<lambda>y. if x \<le> y \<and> y < x + 1 then replicate 512 0
        else if y = 1 then encode_inode \<lparr>start = x, ilength = 320, magic = INODE_MAGIC\<rparr> else content (fs_device s2) y)"
    using inode_create_run [OF m1 p, of 320 x s2 1] s2(1,5) store_okD(1) [OF s2(3)] sec n by auto
  note f3 = io_fields [OF s3(2)]
  note sd = store_stored [OF s2(3), of 1 320, OF _ s2(4) _ _ n [symmetric] s2(5) s3(2,3) refl s3(4)]
  have r: "store_ok (fs_device s3) (free_map s3) {0, 1} {}" "kept {0} s2 s3" "fbytes (fs_device s3) 1 = replicate 320 0"
    using sd f3 by (simp_all add: insert_commute)
  have "dir_create s 1 16 = Some (True, s3)" using s3(1) by (simp add: dir_create_def size_mul_def)
  moreover have "map_open s3" using s2(2) f3 r(2) by (auto simp: map_open_def mem_good_def kept_def intro: order_less_le_trans)
  moreover have "used_entries (entries (replicate 320 0)) = []" by (rule zero_entries)
  then have "disk_fs (fs_device s3) {0, 1} (free_map s3)"
    using r s2(6) f3 store_okD(2) [OF r(1)] unfolding disk_fs_def by (auto simp: entries_ok_def kept_def)
  ultimately show ?thesis using r(3) f3 s2(7,8) slot1 [of x] by (intro exI [of _ s3]) auto
qed

lemma close_map_ok:
  assumes "map_open s"
  shows "\<exists>s'. free_map_close s = Some s' \<and> booting s' \<and> fs_device s' = fs_device s \<and> free_map s' = free_map s"
proof -
  obtain p i where m: "inodes s = [p \<mapsto> i]" "open_cnt i = 1" "\<not> removed i" "open_inodes s = [p]"
    "files s = [free_map_file s \<mapsto> \<lparr>f_inode = p, pos = 0, deny_write = False\<rparr>]" "dirs s = Map.empty"
    "0 < p" "p < mem_brk s" "0 < free_map_file s" "mem_good s"
    by (rule map_openD [OF assms])
  let ?s = "s\<lparr>inodes := Map.empty, open_inodes := [], files := Map.empty\<rparr>"
  have "free_map_close s = Some ?s"
    using m by (simp add: free_map_close_def file_close_def file_allow_write_def inode_close_def upd_inode_def)
  moreover have "booting ?s" using m by (simp add: booting_def no_files_def mem_good_def)
  ultimately show ?thesis by simp
qed


section \<open>Starting\<close>

lemma names_empty: "fbytes (fs_device s) 1 = replicate n 0 \<Longrightarrow> fs_names s = Map.empty"
  by (simp add: fs_names_def root_entries_def zero_entries)

lemma mount_abs:
  assumes "map_open s"
  shows "fs_abs s = mk_afs (fs_names s) Map.empty (fbytes (fs_device s))"
  by (simp add: fs_abs_def map_open_handle [OF assms])

definition no_afs :: afs where
  "no_afs = \<lparr>anames = Map.empty, ahandles = Map.empty, abytes = Map.empty\<rparr>"

lemma mk_afs_empty: "mk_afs Map.empty Map.empty f = no_afs"
  by (simp add: mk_afs_def no_afs_def live_def)

lemma format_ok:
  assumes boot: "booting (s\<lparr>open_inodes := []\<rparr>)" "free_map_file s = NULL" and dev: "dev_ok d" "block_size d + 32 < 2 ^ 32"
    and space: "bytes_to_sectors (int (byte_cnt (block_size d))) + 3 \<le> block_size d"
    and junk: "length junk = elem_cnt (block_size d)"
  shows "\<exists>s'. filesys_init s (Some d) junk True = Some s' \<and> fs_run s' \<and> fs_abs s' = no_afs \<and>
    fbytes (fs_device s') 1 = replicate 320 0 \<and> block_size (fs_device s') = block_size d \<and>
    card (bm_used (free_map s')) \<le> bytes_to_sectors (int (byte_cnt (block_size d))) + 3"
proof -
  let ?s = "s\<lparr>fs_device := d, open_inodes := []\<rparr>"
  have nf: "booting ?s" using boot(1) by (simp add: booting_def no_files_def mem_good_def)
  then have mem: "mem_good ?s" "0 < mem_brk ?s" by (simp_all add: booting_def no_files_def)
  obtain s1 m where s1: "free_map_init ?s junk = Some (s1\<lparr>free_map := m\<rparr>)" "touch ?s s1" "bm_ok m" "bit_cnt m = block_size d" "bm_used m = {0, 1}"
    using free_map_init_ok [OF mem, of junk] dev space junk by auto
  note f1 = io_fields [OF touch_io [OF s1(2)]]
  let ?s1 = "s1\<lparr>free_map := m\<rparr>"
  have nf1: "booting ?s1" "free_map_file ?s1 = NULL" using nf boot(2) f1 by (simp_all add: booting_def no_files_def mem_good_def)
  have d1: "dev_ok (fs_device ?s1)" "block_size (fs_device ?s1) = block_size d" using touch_dev [OF s1(2)] f1 dev by simp_all
  obtain s2 where s2: "free_map_create ?s1 = Some s2" "map_open s2" "store_ok (fs_device s2) (free_map s2) {0} {1}"
      "block_size (fs_device s2) = block_size d" "fbytes (fs_device s2) 0 = bitmap_bytes (free_map s2)" "run_free (free_map s2) 1"
      "card (bm_used (free_map s2)) \<le> bytes_to_sectors (int (byte_cnt (block_size d))) + 2"
    using free_map_create_ok [OF nf1 d1(1)] s1(3,4,5) d1(2) space by auto
  have "length (fbytes (fs_device s2) 0) = byte_cnt (bit_cnt (free_map s2))"
    using s2(5) byte_cnt_eq [OF store_okD(2) [OF s2(3)]] by (simp add: bitmap_bytes_length)
  from root_create_ok [OF s2(2,3) this s2(6)] obtain s3 x where s3: "dir_create s2 1 16 = Some (True, s3)" "map_open s3"
      "disk_fs (fs_device s3) {0, 1} (free_map s3)" "fbytes (fs_device s3) 1 = replicate 320 0"
      "bm_used (free_map s3) = insert x (bm_used (free_map s2))" "block_size (fs_device s3) = block_size (fs_device s2)" by blast
  obtain s4 where s4: "free_map_close s3 = Some s4" "booting s4" "fs_device s4 = fs_device s3" "free_map s4 = free_map s3"
    using close_map_ok [OF s3(2)] by blast
  have m4: "bm_ok (free_map s4)" "bit_cnt (free_map s4) = block_size (fs_device s4)"
    using s3(3) s4(3,4) store_okD(2,3) [of "fs_device s3" "free_map s3"] by (auto simp: disk_fs_def)
  obtain s5 where s5: "free_map_open s4 = Some s5" "fs_inv {} s5 {0, 1} {} {#}" "synced s5" "map_open s5"
      "content (fs_device s5) = content (fs_device s4)" "block_size (fs_device s5) = block_size (fs_device s4)"
      "bm_bits (free_map s5) = bm_bits (free_map s3)"
    using mount_ok [OF s4(2) _ m4] s3(3) s4(3) by metis
  have "filesys_init s (Some d) junk True = Some s5"
    using s1(1) s2(1) s3(1) s4(1) s5(1) by (simp add: filesys_init_def do_format_def)
  moreover have fb: "fbytes (fs_device s5) 1 = replicate 320 0"
    using s3(4) s5(5) s4(3) by (simp add: fbytes_def contents_def idata_def)
  moreover have "fs_abs s5 = no_afs" using fb mount_abs [OF s5(4)] names_empty mk_afs_empty by simp
  moreover have "block_size (fs_device s5) = block_size d"
using s5(6) s4(3) s3(6) s2(4) by simp
  moreover have "card (bm_used (free_map s5)) \<le> bytes_to_sectors (int (byte_cnt (block_size d))) + 3"
  proof -
    have "bit_cnt (free_map s5) = bit_cnt (free_map s3)" using arg_cong [OF s5(7), of length] by simp
    then have "bm_used (free_map s5) = insert x (bm_used (free_map s2))" using s5(7) s3(5) by (simp add: bm_used_def)
    moreover have "finite (bm_used (free_map s2))" by (simp add: bm_used_def)
    ultimately show ?thesis using s2(7) by (simp add: card_insert_if)
  qed
  ultimately show ?thesis using fs_runI [OF s5(2,3)] by blast
qed

definition boot_fs :: fs where
  "boot_fs = \<lparr>fs_device = \<lparr>block_name = [], block_type = BLOCK_FILESYS, block_size = 64, content = (\<lambda>_. replicate 512 7),
       read_cnt = 0, write_cnt = 0\<rparr>, inodes = Map.empty, open_inodes = [], free_map = \<lparr>bit_cnt = 0, bits = []\<rparr>, free_map_file = 0,
     files = Map.empty, dirs = Map.empty, mem_ok = (\<lambda>_. True), mem_cnt = 0, mem_brk = 1\<rparr>"

lemma boot_fs_ok:
  "no_files (boot_fs\<lparr>open_inodes := []\<rparr>)" "free_map_file boot_fs = NULL" "dev_ok (fs_device boot_fs)"
  "block_size (fs_device boot_fs) + 32 < 2 ^ 32" "length [7, 7] = elem_cnt (block_size (fs_device boot_fs))"
  "bytes_to_sectors (int (byte_cnt (block_size (fs_device boot_fs)))) + 3 \<le> block_size (fs_device boot_fs)" "mem_good boot_fs"
  by (simp_all add: boot_fs_def no_files_def mem_good_def dev_ok_def elem_cnt_eq byte_cnt_def size_mul_def bytes_to_sectors_eq)

text \<open>A state with an empty file system, in which files can be created.\<close>

lemma formatted: "\<exists>s. fs_run s \<and> fs_abs s = no_afs \<and> can_create s [97] 0"
proof -
  have n: "bytes_to_sectors (int (byte_cnt (block_size (fs_device boot_fs)))) = 1" "block_size (fs_device boot_fs) = 64"
    by (simp_all add: boot_fs_def elem_cnt_eq byte_cnt_def size_mul_def bytes_to_sectors_eq)
  obtain s where s: "fs_run s" "fs_abs s = no_afs" "fbytes (fs_device s) 1 = replicate 320 0" "block_size (fs_device s) = 64"
      "card (bm_used (free_map s)) \<le> 4"
    using format_ok [OF _ boot_fs_ok(2,3,4,6), of "[7, 7]"] boot_fs_ok(1,5,7) n by (auto simp: booting_def mem_good_def)
  obtain J where inv: "fs_inv {} s J {} {#}" using s(1) by (auto simp: fs_run_def)
  have bc: "bit_cnt (free_map s) = 64" using fs_invD(10) [OF inv] s(4) by simp
  have "\<not> {..<64} \<subseteq> bm_used (free_map s)"
    using s(5) card_mono [of "bm_used (free_map s)" "{..<64}"] by (auto simp: bm_used_def)
  then obtain a where "a < 64" "a \<notin> bm_used (free_map s)" by auto
  then have "run_free (free_map s) 1" unfolding run_free_def by (intro exI [of _ a]) (use bc in \<open>auto simp: slots_def\<close>)
  moreover have "bytes_to_sectors 0 = 0" by (simp add: bytes_to_sectors_eq)
  moreover have "\<exists>e \<in> set (root_entries s). \<not> in_use e"
  proof -
    have "length (root_entries s) = 16" unfolding root_entries_def s(3) by simp
    then have "root_entries s ! 0 \<in> set (root_entries s)" by simp
    moreover have "used_entries (root_entries s) = []" unfolding root_entries_def s(3) by (rule zero_entries)
    ultimately show ?thesis by (auto simp: used_entries_def filter_empty_conv)
  qed
  moreover have "fs_names s = Map.empty" by (rule names_empty [OF s(3)])
  ultimately show ?thesis using s(1,2) by (intro exI [of _ s]) (simp add: can_create_def)
qed

lemma done_ok:
  assumes "fs_inv {} s J R T"
  shows "\<exists>s'. filesys_done s = Some s' \<and> fs_device s' = fs_device s"
proof -
  have r: "root_tab s" using fs_invD(3) [OF assms] by (simp add: root_ok_def)
  obtain f i where f: "files s (free_map_file s) = Some f" "opened s (f_inode f) = Some i" "sector i = 0" using root_tabD(3) [OF r] by blast
  have "\<not> deny_write f" "\<not> removed i" using root_tabD(2) [OF r f(1,2)] root_tabD(1) [OF r f(2)] f(3) by auto
  moreover have "free_map_file s \<noteq> NULL" "f_inode f \<noteq> NULL"
    using table_okD(4) [OF fs_invD(2) [OF assms], of "free_map_file s"] f(1) opened_not_null [OF assms f(2)] by auto
  ultimately show ?thesis
    using f(1) opened_inodes [OF f(2)]
    by (auto simp: filesys_done_def free_map_close_def file_close_def file_allow_write_def inode_close_def upd_inode_def Let_def)
qed

lemma fs_inv_disk:
  assumes "fs_inv {} s J {} T" and "synced s"
  shows "disk_fs (fs_device s) J (free_map s)"
  using assms fs_invD(1,3) [OF assms(1)] by (auto simp: disk_fs_def root_ok_def root_entries_def synced_def)

section \<open>Properties\<close>

text \<open>
  C18. Formatting: started with \<open>format\<close> on a device that has room for the free map and the
  root directory, with no file open yet and memory that does not run out, \<open>filesys_init\<close>
  does not panic and leaves a well-formed file system with no files and no open files.
\<close>

theorem filesys_init_format:
  assumes mem: "mem_good s"
    and boot: "no_files (s\<lparr>open_inodes := []\<rparr>)" "free_map_file s = NULL" and dev: "dev_ok d" "block_size d + 32 < 2 ^ 32"
    and space: "bytes_to_sectors (int (byte_cnt (block_size d))) + 3 \<le> block_size d"
    and junk: "length junk = elem_cnt (block_size d)"
  shows "\<exists>s'. filesys_init s (Some d) junk True = Some s' \<and> fs_ok s' \<and> fs_abs s' = no_afs"
proof -
  have "booting (s\<lparr>open_inodes := []\<rparr>)" using mem boot(1) by (simp add: booting_def mem_good_def)
  from format_ok [OF this boot(2) dev space junk] show ?thesis unfolding fs_run_iff by blast
qed

theorem filesys_init_format_witness:
  "\<exists>s'. filesys_init boot_fs (Some (fs_device boot_fs)) [7, 7] True = Some s' \<and> fs_ok s' \<and> fs_abs s' = no_afs"
  by (rule filesys_init_format) (use boot_fs_ok in simp_all)

text \<open>
  C2. The file system refines its specification. The calls of \<open>malloc\<close> are assumed to
  succeed. Then, from a well-formed state, every sequence of
  requests that respects the interface (names are C strings, sizes are below
  2147483137, handles are open) runs without a panic, keeps the state
  well-formed, and every answer is one the specification of files, names and handles allows.
\<close>

theorem filesys_refines_spec:
  assumes "mem_good s" and "fs_ok s" and "reqs_ok s reqs"
  shows "\<exists>rs s'. fs_calls s reqs = Some (rs, s') \<and> fs_ok s' \<and> fs_trace (fs_abs s) reqs rs (fs_abs s')"
proof -
  have "fs_run s" using assms(1,2) by (simp add: fs_run_iff)
  then have "\<exists>rs s'. fs_calls s reqs = Some (rs, s') \<and> fs_run s' \<and> fs_trace (fs_abs s) reqs rs (fs_abs s')"
    using assms(3)
  proof (induction reqs arbitrary: s)
    case Nil
    then show ?case by (auto intro: fs_trace.intros)
  next
    case (Cons req reqs)
    have "req_ok (fs_abs s) req" using Cons.prems(2) by simp
    from fs_call_refines [OF Cons.prems(1) this]
    obtain r s1 where s1: "fs_call s req = Some (r, s1)" "fs_run s1" "fs_step (fs_abs s) req r (fs_abs s1)" by blast
    then obtain rs s' where "fs_calls s1 reqs = Some (rs, s')" "fs_run s'" "fs_trace (fs_abs s1) reqs rs (fs_abs s')"
      using Cons.IH [OF s1(2)] Cons.prems(2) by auto
    then show ?case using s1 by (auto intro: fs_trace.intros)
  qed
  then show ?thesis unfolding fs_run_iff by blast
qed

theorem filesys_refines_spec_witness:
  "\<exists>s rs s'. fs_calls s [Create [97] 600, Open [97], Remove [98]] = Some (rs, s') \<and> fs_ok s' \<and>
     fs_trace no_afs [Create [97] 600, Open [97], Remove [98]] rs (fs_abs s')"
proof -
  obtain s where s: "mem_good s" "fs_ok s" "fs_abs s = no_afs" using formatted fs_run_iff by blast
  have "reqs_ok s [Create [97] 600, Open [97], Remove [98]]" by (auto split: option.split)
  from filesys_refines_spec [OF s(1,2) this] s(3) show ?thesis by auto
qed

text \<open>
  C17. Creation succeeds whenever it can: memory does not run out, the name is new and has
  1 to 14 characters, the root directory has a free entry, and there are enough free
  sectors in a row.
\<close>

theorem filesys_create_succeeds:
  assumes "mem_good s" and "fs_ok s" and "0 \<notin> set nm" and "0 \<le> sz" and "sz < 2 ^ 31 - 511" and "can_create s nm sz"
  shows "\<exists>x s'. filesys_create s nm sz = Some (True, s') \<and> fs_names s nm = None \<and> fs_names s' = (fs_names s)(nm \<mapsto> x) \<and>
    fbytes (fs_device s') x = replicate (nat sz) 0 \<and> (\<forall>y \<in> ran (fs_names s). fbytes (fs_device s') y = fbytes (fs_device s) y)"
proof -
  obtain J where inv: "fs_inv {} s J {} {#}" using assms(1,2) by (auto simp: fs_ok_def fs_inv_def)
  obtain x s' where c: "filesys_create s nm sz = Some (True, s')" "created J {} {#} s nm sz x s'"
    using filesys_create_ok [OF inv assms(3-5)] assms(6) by blast
  have "y \<in> J - {0, 1}" if "y \<in> ran (fs_names s)" for y
    by (rule live_owned [OF inv]) (use that in \<open>simp add: live_def\<close>)
  then show ?thesis using c by (auto simp: created_def kept_def)
qed

theorem filesys_create_succeeds_witness:
  "\<exists>s x s'. filesys_create s [97] 0 = Some (True, s') \<and> fs_names s' = (fs_names s)([97] \<mapsto> x) \<and> fbytes (fs_device s') x = []"
proof -
  obtain s where s: "mem_good s" "fs_ok s" "can_create s [97] 0" using formatted fs_run_iff by blast
  from filesys_create_succeeds [OF s(1,2) _ _ _ s(3)] show ?thesis by auto
qed

text \<open>
  C7. The files survive: whenever the machine stops between two operations, a later start
  without formatting finds exactly the files that had a name, with their bytes, whatever the
  memory holds then, provided memory does not run out before or after; \<open>filesys_done\<close>
  leaves the device as it is.
\<close>

theorem filesys_persistent:
  assumes mem: "mem_good s" "mem_good s0" and "fs_ok s" and boot: "no_files (s0\<lparr>open_inodes := []\<rparr>)" and junk: "length junk = elem_cnt (block_size (fs_device s))"
  shows "\<exists>s1 s2. filesys_done s = Some s1 \<and> fs_device s1 = fs_device s \<and>
    filesys_init s0 (Some (fs_device s1)) junk False = Some s2 \<and> fs_ok s2 \<and> fs_abs s2 = prune ((fs_abs s)\<lparr>ahandles := Map.empty\<rparr>)"
proof -
  obtain J where inv: "fs_inv {} s J {} {#}" and sy: "synced s" using mem(1) assms(3) by (auto simp: fs_ok_def fs_inv_def)
  obtain s1 where s1: "filesys_done s = Some s1" "fs_device s1 = fs_device s" using done_ok [OF inv] by blast
  let ?s = "s0\<lparr>fs_device := fs_device s1, open_inodes := []\<rparr>" and ?d = "fs_device s"
  have nf: "booting ?s" using boot mem(2) by (simp add: booting_def no_files_def mem_good_def)
  then have mg: "mem_good ?s" "0 < mem_brk ?s" by (simp_all add: booting_def no_files_def)
  have bs: "2 \<le> block_size ?d" "block_size ?d + 32 < 2 ^ 32"
    using store_okD(11) [OF fs_invD(1) [OF inv] fs_invD(7) [OF inv]] fs_invD(9,10) [OF inv] by (simp_all add: bm_ok_def)
  obtain s2 m where s2: "free_map_init ?s junk = Some (s2\<lparr>free_map := m\<rparr>)" "touch ?s s2" "bm_ok m" "bit_cnt m = block_size ?d"
    using free_map_init_ok [OF mg, of junk] bs junk s1(2) by auto
  note f2 = io_fields [OF touch_io [OF s2(2)]]
  let ?s2 = "s2\<lparr>free_map := m\<rparr>"
  have nf2: "booting ?s2" using nf f2 by (simp add: booting_def no_files_def mem_good_def)
  have c2: "content (fs_device ?s2) = content ?d" "block_size (fs_device ?s2) = block_size ?d" "dev_ok (fs_device ?s2)"
    using s2(2) f2 s1(2) fs_invD(8) [OF inv] touch_dev [OF s2(2)] by (simp_all add: touch_def)
  have "disk_fs (fs_device ?s2) J (free_map s)" by (rule disk_fs_cong [OF fs_inv_disk [OF inv sy] c2])
  from mount_ok [OF nf2 this] obtain s3 where s3: "free_map_open ?s2 = Some s3" "fs_inv {} s3 J {} {#}" "synced s3" "map_open s3"
      "content (fs_device s3) = content (fs_device ?s2)"
    using s2(3,4) c2(2) by auto
  have "filesys_init s0 (Some (fs_device s1)) junk False = Some s3" using s2(1) s3(1) by (simp add: filesys_init_def)
  moreover have fb: "fbytes (fs_device s3) = fbytes ?d" "fs_names s3 = fs_names s"
    using s3(5) c2(1) by (auto simp: fbytes_def contents_def idata_def fs_names_def root_entries_def fun_eq_iff)
  have "fs_abs s3 = prune ((fs_abs s)\<lparr>ahandles := Map.empty\<rparr>)"
    unfolding mount_abs [OF s3(4)] fb unfolding fs_abs_def
    using prune_mk_afs [of "fs_names s" Map.empty "fs_names s"] live_mono [of "fs_names s" "fs_names s" Map.empty]
    by (simp add: mk_afs_same)
  ultimately show ?thesis using s1 fs_runI [OF s3(2,3)] unfolding fs_run_iff by blast
qed

theorem filesys_persistent_witness:
  "\<exists>s s1 s2. fs_abs s = no_afs \<and> filesys_done s = Some s1 \<and>
     filesys_init boot_fs (Some (fs_device s1)) (replicate (elem_cnt (block_size (fs_device s))) 5) False = Some s2 \<and> fs_ok s2"
proof -
  obtain s where s: "mem_good s" "fs_ok s" "fs_abs s = no_afs" using formatted fs_run_iff by blast
  from filesys_persistent [OF s(1) boot_fs_ok(7) s(2) boot_fs_ok(1), of "replicate (elem_cnt (block_size (fs_device s))) 5"] s(3)
  show ?thesis by auto
qed

end
