(* ===== verification/Intq.thy ===== *)
theory Intq
  imports Machine
begin

text \<open>
  The interrupt queues of \<^verbatim>\<open>devices/intq.c\<close>: a ring of 64 bytes shared by
  threads and interrupt handlers, with the lock and the two waiter pointers through
  which threads sleep. Interrupts are off in every function of the queue, so a call
  runs in one piece up to the point where the thread blocks. The model keeps, for
  each thread, where in the queue's code it is, and whether it is blocked; a call that
  blocks goes on, from that place, when the thread is resumed. The caller \<open>NULL\<close> is an
  external interrupt handler (\<open>intr_context ()\<close> holds).
\<close>

section \<open>The queue\<close>

abbreviation (input) INTQ_BUFSIZE :: nat where "INTQ_BUFSIZE \<equiv> 64"

text \<open>The lock of the queue is its semaphore's value and waiters, and the holder.\<close>

record intq =
  lock_value :: nat
  lock_waiters :: "ptr list"
  lock_holder :: ptr
  not_full :: ptr
  not_empty :: ptr
  buf :: "u8 list"
  head :: nat
  tail :: nat

datatype call = Getc | Putc u8

datatype place = Outside | In_lock call | In_wait call

record monitor =
  queue :: intq
  place_of :: "ptr \<Rightarrow> place"
  blocked :: "ptr \<Rightarrow> bool"

definition next_pos :: "nat \<Rightarrow> nat" where
  "next_pos pos = (pos + 1) mod INTQ_BUFSIZE"

definition intq_init :: "intq \<Rightarrow> intq" where
  "intq_init q = q\<lparr>lock_value := 1, lock_waiters := [], lock_holder := NULL,
     not_full := NULL, not_empty := NULL, head := 0, tail := 0\<rparr>"

definition intq_empty :: "intq \<Rightarrow> bool" where
  "intq_empty q \<longleftrightarrow> head q = tail q"

definition intq_full :: "intq \<Rightarrow> bool" where
  "intq_full q \<longleftrightarrow> next_pos (head q) = tail q"

section \<open>Sleeping and waking\<close>

definition block_thread :: "ptr \<Rightarrow> place \<Rightarrow> monitor \<Rightarrow> monitor" where
  "block_thread t p m = m\<lparr>place_of := (place_of m)(t := p), blocked := (blocked m)(t := True)\<rparr>"

definition unblock_thread :: "ptr \<Rightarrow> monitor \<Rightarrow> monitor option" where
  "unblock_thread t m = do { ASSERT (blocked m t); Some (m\<lparr>blocked := (blocked m)(t := False)\<rparr>) }"

definition leave :: "ptr \<Rightarrow> monitor \<Rightarrow> monitor" where
  "leave t m = m\<lparr>place_of := (place_of m)(t := Outside)\<rparr>"

text \<open>\<open>wait\<close> for the condition of a call: not empty to get a byte, not full to put one.\<close>

definition wait :: "ptr \<Rightarrow> call \<Rightarrow> monitor \<Rightarrow> monitor option" where
  "wait t c m = do {
     ASSERT (t \<noteq> NULL);
     ASSERT (case c of Getc \<Rightarrow> intq_empty (queue m) | Putc _ \<Rightarrow> intq_full (queue m));
     let q = (case c of Getc \<Rightarrow> (queue m)\<lparr>not_empty := t\<rparr> | Putc _ \<Rightarrow> (queue m)\<lparr>not_full := t\<rparr>);
     Some (block_thread t (In_wait c) (m\<lparr>queue := q\<rparr>)) }"

definition signal_not_full :: "monitor \<Rightarrow> monitor option" where
  "signal_not_full m = do {
     ASSERT (\<not> intq_full (queue m));
     if not_full (queue m) \<noteq> NULL then do {
       m \<leftarrow> unblock_thread (not_full (queue m)) m;
       Some (m\<lparr>queue := (queue m)\<lparr>not_full := NULL\<rparr>\<rparr>) }
     else Some m }"

definition signal_not_empty :: "monitor \<Rightarrow> monitor option" where
  "signal_not_empty m = do {
     ASSERT (\<not> intq_empty (queue m));
     if not_empty (queue m) \<noteq> NULL then do {
       m \<leftarrow> unblock_thread (not_empty (queue m)) m;
       Some (m\<lparr>queue := (queue m)\<lparr>not_empty := NULL\<rparr>\<rparr>) }
     else Some m }"

text \<open>
  \<open>lock_acquire (&q->lock)\<close> and what follows it in the loop of a call. The loop of
  \<open>sema_down\<close> is evaluated on entry and again whenever the thread is resumed there.
\<close>

definition sema_down_wait :: "ptr \<Rightarrow> call \<Rightarrow> monitor \<Rightarrow> monitor option" where
  "sema_down_wait t c m =
     (let q = queue m in
      if lock_value q = 0
      then Some (block_thread t (In_lock c) (m\<lparr>queue := q\<lparr>lock_waiters := lock_waiters q @ [t]\<rparr>\<rparr>))
      else wait t c (m\<lparr>queue := q\<lparr>lock_value := lock_value q - 1, lock_holder := t\<rparr>\<rparr>))"

definition acquire_lock :: "ptr \<Rightarrow> call \<Rightarrow> monitor \<Rightarrow> monitor option" where
  "acquire_lock t c m = do {
     ASSERT (t \<noteq> NULL);
     ASSERT (lock_holder (queue m) \<noteq> t);
     sema_down_wait t c m }"

definition release_lock :: "ptr \<Rightarrow> monitor \<Rightarrow> monitor option" where
  "release_lock t m = do {
     ASSERT (lock_holder (queue m) = t);
     let q = (queue m)\<lparr>lock_holder := NULL\<rparr>;
     m \<leftarrow> (case lock_waiters q of
             [] \<Rightarrow> Some (m\<lparr>queue := q\<rparr>)
           | w # ws \<Rightarrow> unblock_thread w (m\<lparr>queue := q\<lparr>lock_waiters := ws\<rparr>\<rparr>));
     Some (m\<lparr>queue := (queue m)\<lparr>lock_value := size_add (lock_value (queue m)) 1\<rparr>\<rparr>) }"

section \<open>Getting and putting bytes\<close>

text \<open>
  A call returns \<open>Some\<close> its result, or \<open>None\<close> with the thread asleep. The first
  definitions are the parts of \<open>intq_getc\<close> and \<open>intq_putc\<close> after their loops.
\<close>

definition take_byte :: "monitor \<Rightarrow> (u8 \<times> monitor) option" where
  "take_byte m = do {
     ASSERT (tail (queue m) < length (buf (queue m)));
     let byte = buf (queue m) ! tail (queue m);
     m \<leftarrow> signal_not_full (m\<lparr>queue := (queue m)\<lparr>tail := next_pos (tail (queue m))\<rparr>\<rparr>);
     Some (byte, m) }"

definition store_byte :: "u8 \<Rightarrow> monitor \<Rightarrow> monitor option" where
  "store_byte byte m = do {
     let q = queue m;
     ASSERT (head q < length (buf q));
     let q = q\<lparr>buf := (buf q)[head q := byte]\<rparr>;
     signal_not_empty (m\<lparr>queue := q\<lparr>head := next_pos (head q)\<rparr>\<rparr>) }"

definition intq_getc :: "ptr \<Rightarrow> monitor \<Rightarrow> (u8 option \<times> monitor) option" where
  "intq_getc t m =
     (if intq_empty (queue m)
      then do { ASSERT (t \<noteq> NULL); m \<leftarrow> acquire_lock t Getc m; Some (None, m) }
      else do { (byte, m) \<leftarrow> take_byte (leave t m); Some (Some byte, m) })"

definition intq_putc :: "ptr \<Rightarrow> u8 \<Rightarrow> monitor \<Rightarrow> (unit option \<times> monitor) option" where
  "intq_putc t byte m =
     (if intq_full (queue m)
      then do { ASSERT (t \<noteq> NULL); m \<leftarrow> acquire_lock t (Putc byte) m; Some (None, m) }
      else do { m \<leftarrow> store_byte byte (leave t m); Some (Some (), m) })"

text \<open>
  A blocked call goes on when its thread is resumed: in \<open>sema_down\<close>, or after
  \<open>thread_block\<close> in \<open>wait\<close>, where it releases the lock and evaluates the
  condition of its loop again.
\<close>

definition resume_getc :: "ptr \<Rightarrow> monitor \<Rightarrow> (u8 option \<times> monitor) option" where
  "resume_getc t m =
     (if place_of m t = In_lock Getc then do { m \<leftarrow> sema_down_wait t Getc m; Some (None, m) }
      else do { m \<leftarrow> release_lock t m; intq_getc t m })"

definition resume_putc :: "ptr \<Rightarrow> u8 \<Rightarrow> monitor \<Rightarrow> (unit option \<times> monitor) option" where
  "resume_putc t byte m =
     (if place_of m t = In_lock (Putc byte)
      then do { m \<leftarrow> sema_down_wait t (Putc byte) m; Some (None, m) }
      else do { m \<leftarrow> release_lock t m; intq_putc t byte m })"

section \<open>The bytes in the queue\<close>

definition used :: "intq \<Rightarrow> nat" where
  "used q = (head q + INTQ_BUFSIZE - tail q) mod INTQ_BUFSIZE"

definition contents :: "intq \<Rightarrow> u8 list" where
  "contents q = map (\<lambda>i. buf q ! ((tail q + i) mod INTQ_BUFSIZE)) [0..<used q]"

definition intq_wf :: "intq \<Rightarrow> bool" where
  "intq_wf q \<longleftrightarrow> length (buf q) = INTQ_BUFSIZE \<and> head q < INTQ_BUFSIZE \<and> tail q < INTQ_BUFSIZE"

lemma used_cases:
  "intq_wf q \<Longrightarrow> used q = (if tail q \<le> head q then head q - tail q else head q + 64 - tail q)"
  unfolding intq_wf_def used_def by (auto simp: le_mod_geq)

lemma contents_length [simp]: "length (contents q) = used q"
  by (simp add: contents_def)

lemma next_pos_cases: "p < 64 \<Longrightarrow> next_pos p = (if p = 63 then 0 else p + 1)"
  by (auto simp: next_pos_def)

lemma contents_empty_iff: "intq_wf q \<Longrightarrow> contents q = [] \<longleftrightarrow> intq_empty q"
  by (auto simp: contents_def used_cases intq_empty_def intq_wf_def)

lemma intq_full_iff: "intq_wf q \<Longrightarrow> intq_full q \<longleftrightarrow> used q = 63"
  by (auto simp: used_cases intq_full_def intq_wf_def next_pos_cases)

lemma contents_put:
  assumes wf: "intq_wf q" and room: "\<not> intq_full q"
    and q': "q' = q\<lparr>buf := (buf q)[head q := b], head := next_pos (head q)\<rparr>"
  shows "contents q' = contents q @ [b]" and "intq_wf q'" and "\<not> intq_empty q'"
proof -
  have wf': "intq_wf q'" using wf by (simp add: intq_wf_def q' next_pos_def)
  have cnt: "used q' = Suc (used q)"
    using wf wf' room by (auto simp: used_cases q' intq_full_def next_pos_cases intq_wf_def)
  have lt: "used q < 63" using room wf intq_full_iff [OF wf] by (auto simp: used_cases intq_wf_def)
  have last: "(tail q + used q) mod 64 = head q"
    using wf by (auto simp: used_cases intq_wf_def le_mod_geq)
  have other: "(tail q + i) mod 64 \<noteq> head q" if "i < used q" for i
    using wf that lt by (auto simp: used_cases intq_wf_def mod_if split: if_splits)
  show "contents q' = contents q @ [b]"
    unfolding contents_def cnt using wf by (auto simp: q' last other other [THEN not_sym] intq_wf_def)
  show "intq_wf q'" by fact
  show "\<not> intq_empty q'" using contents_empty_iff [OF wf'] contents_length [of q'] cnt by force
qed

lemma contents_get:
  assumes wf: "intq_wf q" and some: "\<not> intq_empty q"
    and q': "q' = q\<lparr>tail := next_pos (tail q)\<rparr>"
  shows "contents q = buf q ! tail q # contents q'" and "intq_wf q'" and "\<not> intq_full q'"
proof -
  have wf': "intq_wf q'" using wf by (simp add: intq_wf_def q' next_pos_def)
  have cnt: "used q = Suc (used q')"
    using wf wf' some by (auto simp: used_cases q' intq_empty_def next_pos_cases intq_wf_def)
  have "(tail q + Suc i) mod 64 = (next_pos (tail q) + i) mod 64" for i
    by (simp add: next_pos_def mod_simps)
  then show "contents q = buf q ! tail q # contents q'"
    unfolding contents_def cnt using wf by (simp add: map_upt_Suc q' intq_wf_def del: upt_Suc)
  show "intq_wf q'" by fact
  have "used q < 64" using wf by (auto simp: used_cases intq_wf_def)
  then show "\<not> intq_full q'" using intq_full_iff [OF wf'] cnt by simp
qed

section \<open>A queue in use\<close>

text \<open>
  The events in the life of a queue: a thread calls an operation, a thread that was
  unblocked runs again, an interrupt handler calls an operation. The state has two
  histories: the bytes whose \<open>intq_putc\<close> has returned and those \<open>intq_getc\<close>
  has returned.
\<close>

datatype qevent = Call ptr call | Resume ptr | Handler call

type_synonym qstate = "monitor \<times> u8 list \<times> u8 list"

definition got :: "u8 option \<Rightarrow> u8 list" where
  "got r = (case r of None \<Rightarrow> [] | Some b \<Rightarrow> [b])"

definition enter :: "ptr \<Rightarrow> call \<Rightarrow> qstate \<Rightarrow> qstate option" where
  "enter t c = (\<lambda>(m, ps, gs). case c of
     Getc \<Rightarrow> do { (r, m) \<leftarrow> intq_getc t m; Some (m, ps, gs @ got r) }
   | Putc b \<Rightarrow> do { (r, m) \<leftarrow> intq_putc t b m; Some (m, (if r = None then ps else ps @ [b]), gs) })"

definition again :: "ptr \<Rightarrow> call \<Rightarrow> qstate \<Rightarrow> qstate option" where
  "again t c = (\<lambda>(m, ps, gs). case c of
     Getc \<Rightarrow> do { (r, m) \<leftarrow> resume_getc t m; Some (m, ps, gs @ got r) }
   | Putc b \<Rightarrow> do { (r, m) \<leftarrow> resume_putc t b m; Some (m, (if r = None then ps else ps @ [b]), gs) })"

fun q_run :: "qevent \<Rightarrow> qstate \<Rightarrow> qstate option" where
  "q_run (Call t c) s = enter t c s"
| "q_run (Handler c) s = enter NULL c s"
| "q_run (Resume t) s =
     (case place_of (fst s) t of Outside \<Rightarrow> None | In_lock c \<Rightarrow> again t c s | In_wait c \<Rightarrow> again t c s)"

text \<open>
  When an event can occur. A thread calls an operation when it is in none, and runs
  again when it is not blocked; a handler calls \<open>intq_getc\<close> on a queue that is not
  empty and \<open>intq_putc\<close> on one that is not full, as the handlers of the serial port
  and the keyboard check. \<open>users\<close> are the threads that use the queue.
\<close>

fun q_enabled :: "ptr set \<Rightarrow> qstate \<Rightarrow> qevent \<Rightarrow> bool" where
  "q_enabled users s (Call t c) \<longleftrightarrow> t \<in> users \<and> place_of (fst s) t = Outside"
| "q_enabled users s (Resume t) \<longleftrightarrow> t \<in> users \<and> place_of (fst s) t \<noteq> Outside \<and> \<not> blocked (fst s) t"
| "q_enabled users s (Handler Getc) \<longleftrightarrow> \<not> intq_empty (queue (fst s))"
| "q_enabled users s (Handler (Putc b)) \<longleftrightarrow> \<not> intq_full (queue (fst s))"

text \<open>The queues are static variables, zero before they are initialised.\<close>

definition bss_monitor :: monitor where
  "bss_monitor =
     \<lparr>queue = \<lparr>lock_value = 0, lock_waiters = [], lock_holder = NULL, not_full = NULL,
        not_empty = NULL, buf = replicate INTQ_BUFSIZE 0, head = 0, tail = 0\<rparr>,
      place_of = (\<lambda>_. Outside), blocked = (\<lambda>_. False)\<rparr>"

definition monitor_init :: "monitor \<Rightarrow> monitor" where
  "monitor_init m = m\<lparr>queue := intq_init (queue m)\<rparr>"

section \<open>One thread and the interrupt handlers\<close>

text \<open>The queue when no thread is inside: the lock is free and nobody waits.\<close>

definition unused :: "intq \<Rightarrow> bool" where
  "unused q \<longleftrightarrow> lock_value q = 1 \<and> lock_holder q = NULL \<and> lock_waiters q = [] \<and>
     not_full q = NULL \<and> not_empty q = NULL"

text \<open>The thread \<open>u\<close> holds the lock; while it is blocked, its condition is false.\<close>

definition waiting :: "ptr \<Rightarrow> call \<Rightarrow> bool \<Rightarrow> intq \<Rightarrow> bool" where
  "waiting u c b q \<longleftrightarrow> lock_value q = 0 \<and> lock_holder q = u \<and> lock_waiters q = [] \<and>
     (case c of
        Getc \<Rightarrow> not_full q = NULL \<and> (if b then not_empty q = u \<and> intq_empty q else not_empty q = NULL)
      | Putc _ \<Rightarrow> not_empty q = NULL \<and> (if b then not_full q = u \<and> intq_full q else not_full q = NULL))"

definition use_inv :: "ptr \<Rightarrow> monitor \<Rightarrow> bool" where
  "use_inv u m \<longleftrightarrow> intq_wf (queue m) \<and>
     (case place_of m u of Outside \<Rightarrow> unused (queue m) | In_lock _ \<Rightarrow> False
      | In_wait c \<Rightarrow> waiting u c (blocked m u) (queue m))"

lemma got_simps [simp]: "got None = []" "got (Some b) = [b]"
  by (simp_all add: got_def)

lemma waiter_fields [simp]:
  "contents (q\<lparr>not_empty := t\<rparr>) = contents q" "contents (q\<lparr>not_full := t\<rparr>) = contents q"
  "intq_wf (q\<lparr>not_empty := t\<rparr>) = intq_wf q" "intq_wf (q\<lparr>not_full := t\<rparr>) = intq_wf q"
  "intq_empty (q\<lparr>not_empty := t\<rparr>) = intq_empty q" "intq_full (q\<lparr>not_full := t\<rparr>) = intq_full q"
  by (simp_all add: contents_def used_def intq_wf_def intq_empty_def intq_full_def)

lemmas intq_code = intq_getc_def intq_putc_def take_byte_def store_byte_def
  signal_not_full_def signal_not_empty_def acquire_lock_def sema_down_wait_def wait_def
  block_thread_def unblock_thread_def leave_def Let_def

lemma intq_getc_unused:
  assumes wf: "intq_wf (queue m)" and i: "unused (queue m)" and u: "u \<noteq> NULL"
  shows "\<exists>r m'. intq_getc u m = Some (r, m') \<and> use_inv u m' \<and> place_of m' u = (if r = None then In_wait Getc else Outside) \<and>
    contents (queue m) = got r @ contents (queue m')"
proof (cases "intq_empty (queue m)")
  case True
  then show ?thesis using i u wf
    by (simp add: intq_code unused_def use_inv_def waiting_def intq_wf_def intq_empty_def contents_def used_def)
next
  case False
  note g = contents_get [OF wf False refl]
  show ?thesis using False i u wf g
    by (simp add: intq_code unused_def use_inv_def) (auto simp: intq_wf_def unused_def)
qed

lemma intq_putc_unused:
  assumes wf: "intq_wf (queue m)" and i: "unused (queue m)" and u: "u \<noteq> NULL"
  shows "\<exists>r m'. intq_putc u b m = Some (r, m') \<and> use_inv u m' \<and> place_of m' u = (if r = None then In_wait (Putc b) else Outside) \<and>
    contents (queue m') = contents (queue m) @ (if r = None then [] else [b])"
proof (cases "intq_full (queue m)")
  case True
  then show ?thesis using i u wf
    by (simp add: intq_code unused_def use_inv_def waiting_def intq_wf_def intq_full_def contents_def used_def)
next
  case False
  note g = contents_put [OF wf False refl, where b = b]
  show ?thesis using False i u wf g
    by (simp add: intq_code unused_def use_inv_def) (auto simp: intq_wf_def unused_def)
qed


text \<open>
  A caller that does not have to wait: a handler, or another thread. It finds the
  thread \<open>u\<close> outside, waiting for the other condition, or waiting for this one.
\<close>

lemma intq_getc_ready:
  assumes inv: "use_inv u m" and u: "u \<noteq> NULL" and some: "\<not> intq_empty (queue m)"
    and t: "t = u \<longrightarrow> place_of m u = Outside"
  shows "\<exists>b m'. intq_getc t m = Some (Some b, m') \<and> use_inv u m' \<and> place_of m' u = place_of m u \<and>
    contents (queue m) = b # contents (queue m')"
proof -
  have wf: "intq_wf (queue m)" using inv by (simp add: use_inv_def)
  have tl: "tail (queue m) < length (buf (queue m))" using wf by (simp add: intq_wf_def)
  have pl: "((place_of m)(t := Outside)) u = place_of m u" using t by auto
  note g = contents_get [OF wf some refl]
  have "not_full (queue m) = NULL \<or> (\<exists>b. not_full (queue m) = u \<and> place_of m u = In_wait (Putc b) \<and> blocked m u)"
    using inv by (auto simp: use_inv_def unused_def waiting_def split: place.splits call.splits if_splits)
  then show ?thesis
  proof
    assume "not_full (queue m) = NULL"
    then show ?thesis using inv some u g tl pl
      by (cases "place_of m u")
        (auto simp: intq_code use_inv_def unused_def waiting_def simp del: fun_upd_apply split: call.splits if_splits)
  next
    assume "\<exists>b. not_full (queue m) = u \<and> place_of m u = In_wait (Putc b) \<and> blocked m u"
    then show ?thesis using inv some u g tl pl t by (auto simp: intq_code use_inv_def waiting_def)
  qed
qed

lemma intq_putc_ready:
  assumes inv: "use_inv u m" and u: "u \<noteq> NULL" and room: "\<not> intq_full (queue m)"
    and t: "t = u \<longrightarrow> place_of m u = Outside"
  shows "\<exists>m'. intq_putc t b m = Some (Some (), m') \<and> use_inv u m' \<and> place_of m' u = place_of m u \<and>
    contents (queue m') = contents (queue m) @ [b]"
proof -
  have wf: "intq_wf (queue m)" using inv by (simp add: use_inv_def)
  have hd: "head (queue m) < length (buf (queue m))" using wf by (simp add: intq_wf_def)
  have pl: "((place_of m)(t := Outside)) u = place_of m u" using t by auto
  note g = contents_put [OF wf room refl, where b = b]
  have "not_empty (queue m) = NULL \<or> (not_empty (queue m) = u \<and> place_of m u = In_wait Getc \<and> blocked m u)"
    using inv by (auto simp: use_inv_def unused_def waiting_def split: place.splits call.splits if_splits)
  then show ?thesis
  proof
    assume "not_empty (queue m) = NULL"
    then show ?thesis using inv room u g hd pl
      by (cases "place_of m u")
        (auto simp: intq_code use_inv_def unused_def waiting_def simp del: fun_upd_apply split: call.splits if_splits)
  next
    assume "not_empty (queue m) = u \<and> place_of m u = In_wait Getc \<and> blocked m u"
    then show ?thesis using inv room u g hd pl t by (auto simp: intq_code use_inv_def waiting_def)
  qed
qed

lemma release_lock_waiting:
  assumes "use_inv u m" and "place_of m u = In_wait c" and "\<not> blocked m u"
  shows "\<exists>m'. release_lock u m = Some m' \<and> unused (queue m') \<and> intq_wf (queue m') \<and>
    contents (queue m') = contents (queue m)"
  using assms
  by (auto simp: use_inv_def waiting_def release_lock_def unused_def size_add_def Let_def intq_wf_def
      contents_def used_def split: call.splits)

text \<open>The thread is back in its loop.\<close>

lemma resume_getc_user:
  assumes "use_inv u m" and "place_of m u = In_wait Getc" and "\<not> blocked m u" and "u \<noteq> NULL"
  shows "\<exists>r m'. resume_getc u m = Some (r, m') \<and> use_inv u m' \<and> place_of m' u = (if r = None then In_wait Getc else Outside) \<and>
    contents (queue m) = got r @ contents (queue m')"
proof -
  obtain m1 where m1: "release_lock u m = Some m1" "unused (queue m1)" "intq_wf (queue m1)"
      "contents (queue m1) = contents (queue m)"
    using release_lock_waiting [OF assms(1-3)] by blast
  show ?thesis using intq_getc_unused [OF m1(3,2) assms(4)] m1(1,4) assms(2) by (simp add: resume_getc_def)
qed

lemma resume_putc_user:
  assumes "use_inv u m" and "place_of m u = In_wait (Putc b)" and "\<not> blocked m u" and "u \<noteq> NULL"
  shows "\<exists>r m'. resume_putc u b m = Some (r, m') \<and> use_inv u m' \<and> place_of m' u = (if r = None then In_wait (Putc b) else Outside) \<and>
    contents (queue m') = contents (queue m) @ (if r = None then [] else [b])"
proof -
  obtain m1 where m1: "release_lock u m = Some m1" "unused (queue m1)" "intq_wf (queue m1)"
      "contents (queue m1) = contents (queue m)"
    using release_lock_waiting [OF assms(1-3)] by blast
  show ?thesis using intq_putc_unused [OF m1(3,2) assms(4), of b] m1(1,4) assms(2) by (simp add: resume_putc_def)
qed


definition q_inv :: "ptr \<Rightarrow> qstate \<Rightarrow> bool" where
  "q_inv u = (\<lambda>(m, ps, gs). u \<noteq> NULL \<and> use_inv u m \<and> ps = gs @ contents (queue m))"

lemma q_invD: "q_inv u (m, ps, gs) \<Longrightarrow> u \<noteq> NULL \<and> use_inv u m"
  by (simp add: q_inv_def)

lemma use_inv_Outside: "use_inv u m \<Longrightarrow> place_of m u = Outside \<Longrightarrow> intq_wf (queue m) \<and> unused (queue m)"
  by (simp add: use_inv_def)

lemma enter_user:
  assumes inv: "q_inv u (m, ps, gs)" and p: "place_of m u = Outside"
  shows "\<exists>s'. enter u c (m, ps, gs) = Some s' \<and> q_inv u s'"
proof (cases c)
  case Getc
  obtain r m' where "intq_getc u m = Some (r, m')" "use_inv u m'" "contents (queue m) = got r @ contents (queue m')"
    using intq_getc_unused [of m u] use_inv_Outside [OF _ p] q_invD [OF inv] by blast
  then show ?thesis using inv Getc by (simp add: enter_def q_inv_def)
next
  case (Putc b)
  obtain r m' where "intq_putc u b m = Some (r, m')" "use_inv u m'"
      "contents (queue m') = contents (queue m) @ (if r = None then [] else [b])"
    using intq_putc_unused [of m u b] use_inv_Outside [OF _ p] q_invD [OF inv] by blast
  then show ?thesis using inv Putc by (simp add: enter_def q_inv_def)
qed

lemma again_user:
  assumes inv: "q_inv u (m, ps, gs)" and p: "place_of m u = In_wait c" and r: "\<not> blocked m u"
  shows "\<exists>s'. again u c (m, ps, gs) = Some s' \<and> q_inv u s'"
proof (cases c)
  case Getc
  obtain r m' where "resume_getc u m = Some (r, m')" "use_inv u m'" "contents (queue m) = got r @ contents (queue m')"
    using resume_getc_user [of u m] q_invD [OF inv] p r Getc by blast
  then show ?thesis using inv Getc by (simp add: again_def q_inv_def)
next
  case (Putc b)
  obtain r m' where "resume_putc u b m = Some (r, m')" "use_inv u m'"
      "contents (queue m') = contents (queue m) @ (if r = None then [] else [b])"
    using resume_putc_user [of u m b] q_invD [OF inv] p r Putc by blast
  then show ?thesis using inv Putc by (simp add: again_def q_inv_def)
qed

lemma enter_handler:
  assumes inv: "q_inv u (m, ps, gs)" and en: "q_enabled us (m, ps, gs) (Handler c)"
  shows "\<exists>s'. enter NULL c (m, ps, gs) = Some s' \<and> q_inv u s'"
proof (cases c)
  case Getc
  obtain r m' where "intq_getc NULL m = Some (r, m')" "use_inv u m'" "contents (queue m) = got r @ contents (queue m')"
    using intq_getc_ready [of u m NULL] q_invD [OF inv] en Getc got_simps(2) by fastforce
  then show ?thesis using inv Getc by (simp add: enter_def q_inv_def)
next
  case (Putc b)
  obtain r m' where "intq_putc NULL b m = Some (r, m')" "use_inv u m'"
      "contents (queue m') = contents (queue m) @ (if r = None then [] else [b])"
    using intq_putc_ready [of u m NULL b] q_invD [OF inv] en Putc by fastforce
  then show ?thesis using inv Putc by (simp add: enter_def q_inv_def)
qed

lemma q_inv_keeps:
  assumes inv: "q_inv u s" and en: "q_enabled {u} s e"
  shows "\<exists>s'. q_run e s = Some s' \<and> q_inv u s'"
proof -
  obtain m ps gs where s: "s = (m, ps, gs)" by (cases s)
  show ?thesis
  proof (cases e)
    case (Call t c)
    then show ?thesis using enter_user [of u m ps gs c] inv en s by (simp, blast)
  next
    case (Resume t)
    then have t: "t = u" "place_of m u \<noteq> Outside" "\<not> blocked m u" using en s by auto
    then obtain c where c: "place_of m u = In_wait c"
      using q_invD [of u m ps gs] inv s by (cases "place_of m u") (simp_all add: use_inv_def)
    then show ?thesis using again_user [of u m ps gs c] inv s t Resume by simp
  next
    case (Handler c)
    then show ?thesis using enter_handler [of u m ps gs "{u}" c] inv en s by simp
  qed
qed

interpretation single_user: safe_machine "q_enabled {u}" q_run "q_inv u" for u
  by unfold_locales (rule q_inv_keeps)

lemma q_inv_init: "u \<noteq> NULL \<Longrightarrow> q_inv u (monitor_init bss_monitor, [], [])"
  by (simp add: bss_monitor_def q_inv_def use_inv_def monitor_init_def intq_init_def unused_def intq_wf_def contents_def used_def)

lemmas intq_run = bss_monitor_def monitor_init_def intq_init_def enter_def again_def intq_code resume_getc_def
  release_lock_def intq_empty_def intq_full_def next_pos_def size_add_def

section \<open>Properties\<close>

text \<open>
  C37. An interrupt queue used by one thread and by the interrupt handlers: no
  assertion of the queue fails in any interleaving, the bytes come out in the order
  in which they went in, at most 63 are stored, and the thread is asleep only while
  the condition it waits for is false.
\<close>

theorem intq_single_thread:
  assumes "u \<noteq> NULL"
    and "reachable (q_enabled {u}) q_run (monitor_init bss_monitor, [], []) (m, ps, gs)"
  shows "(\<forall>e. q_enabled {u} (m, ps, gs) e \<longrightarrow> q_run e (m, ps, gs) \<noteq> None) \<and>
    (ps = gs @ contents (queue m)) \<and>
    (length (contents (queue m)) \<le> 63) \<and>
    (place_of m u = In_wait Getc \<longrightarrow> blocked m u \<longrightarrow> contents (queue m) = []) \<and>
    (place_of m u = In_wait (Putc b) \<longrightarrow> blocked m u \<longrightarrow> length (contents (queue m)) = 63)"
proof -
  have init: "q_inv u (monitor_init bss_monitor, [], [])" using assms(1) by (rule q_inv_init)
  have inv: "q_inv u (m, ps, gs)" using single_user.reachable_inv [OF assms(2) init] .
  then have wf: "intq_wf (queue m)" by (simp add: q_inv_def use_inv_def)
  have p1: "\<forall>e. q_enabled {u} (m, ps, gs) e \<longrightarrow> q_run e (m, ps, gs) \<noteq> None"
    using single_user.never_fails [OF assms(2) init] by blast
  have p2: "ps = gs @ contents (queue m)" using inv by (simp add: q_inv_def)
  have p3: "length (contents (queue m)) \<le> 63" using wf by (auto simp: used_cases intq_wf_def)
  have p4: "place_of m u = In_wait Getc \<longrightarrow> blocked m u \<longrightarrow> contents (queue m) = []"
    using inv contents_empty_iff [OF wf] by (auto simp: q_inv_def use_inv_def waiting_def)
  have p5: "place_of m u = In_wait (Putc b) \<longrightarrow> blocked m u \<longrightarrow> length (contents (queue m)) = 63"
    using inv intq_full_iff [OF wf] by (auto simp: q_inv_def use_inv_def waiting_def)
  show ?thesis using p1 p2 p3 p4 p5 by (intro conjI)
qed

text \<open>A thread waits for a byte and is woken by a handler that puts one.\<close>

theorem intq_single_thread_witness:
  "\<exists>m ps gs. reachable (q_enabled {1}) q_run (monitor_init bss_monitor, [], []) (m, ps, gs) \<and>
    ps = [65] \<and> ps = gs @ contents (queue m)"
proof -
  let ?s = "(monitor_init bss_monitor, [], [])" and ?es = "[Call 1 Getc, Handler (Putc 65)]"
  have "\<exists>ss. trace (q_enabled {1}) q_run ?s ?es = Some ss \<and> ss \<noteq> [] \<and> fst (snd (last ss)) = [65]"
    by (simp add: intq_run)
  then obtain ss where ss: "trace (q_enabled {1}) q_run ?s ?es = Some ss" "ss \<noteq> []" "fst (snd (last ss)) = [65]"
    by blast
  have r: "reachable (q_enabled {1}) q_run ?s (last ss)"
    using trace_reachable [OF reachable.start ss(1)] ss(2) by simp
  obtain m ps gs where l: "last ss = (m, ps, gs)" by (cases "last ss")
  show ?thesis using intq_single_thread [of 1 m ps gs] r ss(3) l by auto
qed

lemma next_pos_ne: "p < 64 \<Longrightarrow> next_pos p < 64 \<and> next_pos p \<noteq> p \<and> next_pos (next_pos p) \<noteq> p \<and> next_pos (next_pos (next_pos p)) \<noteq> p"
  by (auto simp: next_pos_cases)

text \<open>
  C38. Two threads that read the same queue can crash the kernel, wherever the empty
  queue is in its ring and whatever the bytes are: both readers call \<open>intq_getc\<close>, the
  second sleeps in \<open>lock_acquire\<close>, two bytes arrive, the first reader takes one and
  releases the lock, and the assertion of \<open>wait\<close> that the queue is empty fails for the
  second reader.
\<close>

theorem intq_two_readers_panic:
  assumes "intq_wf (queue m)" and "intq_empty (queue m)" and "unused (queue m)"
    and "t \<noteq> NULL" and "u \<noteq> NULL" and "t \<noteq> u"
    and "place_of m t = Outside" and "place_of m u = Outside"
  shows "\<exists>ss. trace (q_enabled {t, u}) q_run (m, ps, gs)
      [Call t Getc, Call u Getc, Handler (Putc a), Handler (Putc b), Resume t] = Some ss \<and>
    q_enabled {t, u} (last ss) (Resume u) \<and> q_run (Resume u) (last ss) = None"
proof -
  have q: "head (queue m) = tail (queue m)" "tail (queue m) < 64" "length (buf (queue m)) = 64"
    using assms(1,2) by (simp_all add: intq_wf_def intq_empty_def)
  note n = next_pos_ne [OF q(2)]
  show ?thesis
    using assms(3-8) q n next_pos_ne [of "next_pos (tail (queue m))"]
    by (simp add: enter_def again_def intq_code resume_getc_def release_lock_def intq_empty_def intq_full_def
        unused_def size_add_def)
qed

theorem intq_two_readers_panic_witness:
  "\<exists>ss. trace (q_enabled {1, 2}) q_run (monitor_init bss_monitor, [], [])
      [Call 1 Getc, Call 2 Getc, Handler (Putc 65), Handler (Putc 66), Resume 1] = Some ss \<and>
    q_enabled {1, 2} (last ss) (Resume 2) \<and> q_run (Resume 2) (last ss) = None"
  by (rule intq_two_readers_panic)
    (simp_all add: bss_monitor_def monitor_init_def intq_init_def intq_wf_def intq_empty_def unused_def)

end
