(* ===== verification/Console.thy ===== *)
theory Console
  imports Intq
begin

text \<open>
  The input buffer, the serial port and the keyboard: \<^verbatim>\<open>devices/input.c\<close>,
  \<^verbatim>\<open>devices/serial.c\<close> and \<^verbatim>\<open>devices/kbd.c\<close>, over two interrupt
  queues. The UART is given by the sequence of values its line status register
  yields when it is read and by the sequence of bytes its receiver delivers; the
  interrupt enable register and the bytes handed to the transmitter are part of the
  state.
\<close>

section \<open>State\<close>

datatype serial_mode = UNINIT | POLL | QUEUE

text \<open>\<open>lsr\<close> and \<open>rbr\<close> are the coming values of the two input registers of the UART.\<close>

record console =
  buffer :: monitor
  txq :: monitor
  mode :: serial_mode
  ier :: u8
  lsr :: "nat \<Rightarrow> u8"
  rbr :: "nat \<Rightarrow> u8"
  sent :: "u8 list"
  accepted :: "u8 list"
  left_shift :: bool
  right_shift :: bool
  left_alt :: bool
  right_alt :: bool
  left_ctrl :: bool
  right_ctrl :: bool
  caps_lock :: bool
  key_cnt :: int
  rebooting :: bool

abbreviation (input) IER_RECV :: u8 where "IER_RECV \<equiv> 0x01"
abbreviation (input) IER_XMIT :: u8 where "IER_XMIT \<equiv> 0x02"
abbreviation (input) LSR_DR :: u8 where "LSR_DR \<equiv> 0x01"
abbreviation (input) LSR_THRE :: u8 where "LSR_THRE \<equiv> 0x20"

definition inb_lsr :: "console \<Rightarrow> u8 \<times> console" where
  "inb_lsr c = (lsr c 0, c\<lparr>lsr := (\<lambda>n. lsr c (Suc n))\<rparr>)"

definition inb_rbr :: "console \<Rightarrow> u8 \<times> console" where
  "inb_rbr c = (rbr c 0, c\<lparr>rbr := (\<lambda>n. rbr c (Suc n))\<rparr>)"

definition outb_thr :: "u8 \<Rightarrow> console \<Rightarrow> console" where
  "outb_thr b c = c\<lparr>sent := sent c @ [b]\<rparr>"

section \<open>The interrupt enable register\<close>

definition write_ier :: "console \<Rightarrow> console" where
  "write_ier c =
     (let e = (0 :: u8);
          e = (if \<not> intq_empty (queue (txq c)) then e OR IER_XMIT else e);
          e = (if \<not> intq_full (queue (buffer c)) then e OR IER_RECV else e)
      in c\<lparr>ier := e\<rparr>)"

definition serial_notify :: "console \<Rightarrow> console" where
  "serial_notify c = (if mode c = QUEUE then write_ier c else c)"

section \<open>The input buffer\<close>

text \<open>The history \<open>accepted\<close> records the keys that were put into the buffer.\<close>

definition input_full :: "console \<Rightarrow> bool" where
  "input_full c \<longleftrightarrow> intq_full (queue (buffer c))"

definition input_putc :: "u8 \<Rightarrow> console \<Rightarrow> console option" where
  "input_putc key c = do {
     ASSERT (\<not> intq_full (queue (buffer c)));
     (r, b) \<leftarrow> intq_putc NULL key (buffer c);
     Some (serial_notify (c\<lparr>buffer := b, accepted := accepted c @ [key]\<rparr>)) }"

definition input_getc :: "ptr \<Rightarrow> console \<Rightarrow> (u8 option \<times> console) option" where
  "input_getc t c = do {
     (r, b) \<leftarrow> intq_getc t (buffer c);
     let c = c\<lparr>buffer := b\<rparr>;
     Some (r, if r = None then c else serial_notify c) }"

text \<open>The reader goes on inside \<open>intq_getc\<close>.\<close>

definition input_getc_resume :: "ptr \<Rightarrow> console \<Rightarrow> (u8 option \<times> console) option" where
  "input_getc_resume t c = do {
     (r, b) \<leftarrow> resume_getc t (buffer c);
     let c = c\<lparr>buffer := b\<rparr>;
     Some (r, if r = None then c else serial_notify c) }"

section \<open>The serial port\<close>

text \<open>\<open>putc_poll\<close> reads the status register until the transmitter is free.\<close>

partial_function (option) putc_poll :: "u8 \<Rightarrow> console \<Rightarrow> console option" where
  "putc_poll b c =
     (let (s, c) = inb_lsr c in
      if s AND LSR_THRE = 0 then putc_poll b c else Some (outb_thr b c))"

definition init_poll :: "console \<Rightarrow> console option" where
  "init_poll c = do {
     ASSERT (mode c = UNINIT);
     Some (c\<lparr>ier := 0, txq := monitor_init (txq c), mode := POLL\<rparr>) }"

definition serial_init_queue :: "console \<Rightarrow> console option" where
  "serial_init_queue c = do {
     c \<leftarrow> (if mode c = UNINIT then init_poll c else Some c);
     ASSERT (mode c = POLL);
     Some (write_ier (c\<lparr>mode := QUEUE\<rparr>)) }"

text \<open>
  \<open>serial_putc\<close> by the thread \<open>t\<close>; \<open>off\<close> tells that interrupts are off when it is
  called. The result is \<open>None\<close> when the thread went to sleep in \<open>intq_putc\<close>.
\<close>

definition serial_putc :: "ptr \<Rightarrow> bool \<Rightarrow> u8 \<Rightarrow> console \<Rightarrow> (unit option \<times> console) option" where
  "serial_putc t off byte c =
     (if mode c \<noteq> QUEUE then do {
        c \<leftarrow> (if mode c = UNINIT then init_poll c else Some c);
        c \<leftarrow> putc_poll byte c;
        Some (Some (), c) }
      else do {
        c \<leftarrow> (if off \<and> intq_full (queue (txq c)) then do {
                (r, q) \<leftarrow> intq_getc t (txq c);
                b \<leftarrow> r;
                putc_poll b (c\<lparr>txq := q\<rparr>) }
              else Some c);
        (r, q) \<leftarrow> intq_putc t byte (txq c);
        let c = c\<lparr>txq := q\<rparr>;
        Some (r, if r = None then c else write_ier c) })"

definition serial_putc_resume :: "ptr \<Rightarrow> u8 \<Rightarrow> console \<Rightarrow> (unit option \<times> console) option" where
  "serial_putc_resume t byte c = do {
     (r, q) \<leftarrow> resume_putc t byte (txq c);
     let c = c\<lparr>txq := q\<rparr>;
     Some (r, if r = None then c else write_ier c) }"

partial_function (option) serial_flush :: "ptr \<Rightarrow> console \<Rightarrow> console option" where
  "serial_flush t c =
     (if intq_empty (queue (txq c)) then Some c
      else do {
        (r, q) \<leftarrow> intq_getc t (txq c);
        b \<leftarrow> r;
        c \<leftarrow> putc_poll b (c\<lparr>txq := q\<rparr>);
        serial_flush t c })"

text \<open>The two loops of the interrupt handler.\<close>

partial_function (option) receive_loop :: "console \<Rightarrow> console option" where
  "receive_loop c =
     (if input_full c then Some c
      else let (s, c) = inb_lsr c in
        if s AND LSR_DR = 0 then Some c
        else do {
          let (b, c) = inb_rbr c;
          c \<leftarrow> input_putc b c;
          receive_loop c })"

partial_function (option) transmit_loop :: "console \<Rightarrow> console option" where
  "transmit_loop c =
     (if intq_empty (queue (txq c)) then Some c
      else let (s, c) = inb_lsr c in
        if s AND LSR_THRE = 0 then Some c
        else do {
          (r, q) \<leftarrow> intq_getc NULL (txq c);
          b \<leftarrow> r;
          transmit_loop (outb_thr b (c\<lparr>txq := q\<rparr>)) })"

definition serial_interrupt :: "console \<Rightarrow> console option" where
  "serial_interrupt c = do {
     c \<leftarrow> receive_loop c;
     c \<leftarrow> transmit_loop c;
     Some (write_ier c) }"

section \<open>The keyboard\<close>

text \<open>A key map is a table of first scan codes and of the characters from there on.\<close>

definition str :: "string \<Rightarrow> u8 list" where
  "str s = map of_char s"

definition invariant_keymap :: "(nat \<times> u8 list) list" where
  "invariant_keymap =
     [(0x01, [27]), (0x0e, [8]), (0x0f, 9 # str ''QWERTYUIOP''), (0x1c, [13]),
      (0x1e, str ''ASDFGHJKL''), (0x2c, str ''ZXCVBNM''), (0x37, str ''*''), (0x39, str '' ''),
      (0x53, [127])]"

definition unshifted_keymap :: "(nat \<times> u8 list) list" where
  "unshifted_keymap =
     [(0x02, str ''1234567890-=''), (0x1a, str ''[]''), (0x27, [59, 39, 96]), (0x2b, [92]),
      (0x33, str '',./'')]"

definition shifted_keymap :: "(nat \<times> u8 list) list" where
  "shifted_keymap =
     [(0x02, str ''!@#$%^&*()_+''), (0x1a, str ''{}''), (0x27, [58, 34, 126]), (0x2b, str ''|''),
      (0x33, str ''<>?'')]"

fun map_key :: "(nat \<times> u8 list) list \<Rightarrow> nat \<Rightarrow> u8 option" where
  "map_key [] scancode = None"
| "map_key ((first, chars) # k) scancode =
     (if first \<le> scancode \<and> scancode < first + length chars then Some (chars ! (scancode - first))
      else map_key k scancode)"

text \<open>\<open>tolower\<close> of \<^verbatim>\<open>lib/ctype.h\<close>.\<close>

definition tolower :: "u8 \<Rightarrow> u8" where
  "tolower c = (if 65 \<le> c \<and> c \<le> 90 then c - 65 + 97 else c)"

text \<open>The scan code read from the data register: \<open>d\<close>, or two bytes after the prefix 0xe0.\<close>

definition read_code :: "u8 \<Rightarrow> u8 \<Rightarrow> u32" where
  "read_code d d2 = (if d = 0xe0 then push_bit 8 (ucast d) OR ucast d2 else ucast d)"

definition shift_keys :: "(u32 \<times> (bool \<Rightarrow> console \<Rightarrow> console)) list" where
  "shift_keys =
     [(0x2a, \<lambda>b c. c\<lparr>left_shift := b\<rparr>), (0x36, \<lambda>b c. c\<lparr>right_shift := b\<rparr>),
      (0x38, \<lambda>b c. c\<lparr>left_alt := b\<rparr>), (0xe038, \<lambda>b c. c\<lparr>right_alt := b\<rparr>),
      (0x1d, \<lambda>b c. c\<lparr>left_ctrl := b\<rparr>), (0xe01d, \<lambda>b c. c\<lparr>right_ctrl := b\<rparr>)]"

text \<open>The character after Ctrl, Shift, Caps Lock and Alt.\<close>

definition key_char :: "bool \<Rightarrow> bool \<Rightarrow> bool \<Rightarrow> bool \<Rightarrow> u8 \<Rightarrow> u8" where
  "key_char ctrl shift caps alt ch =
     (let ch = (if ctrl \<and> 0x40 \<le> ch \<and> ch < 0x60 then ch - 0x40
                else if shift = caps then tolower ch else ch)
      in if alt then ch + 0x80 else ch)"

text \<open>The character of a key: the invariant map first, then the one for the Shift state.\<close>

definition lookup_key :: "bool \<Rightarrow> u32 \<Rightarrow> u8 option" where
  "lookup_key shift code =
     (case map_key invariant_keymap (unat code) of
        Some ch \<Rightarrow> Some ch
      | None \<Rightarrow> map_key (if shift then shifted_keymap else unshifted_keymap) (unat code))"

text \<open>
  \<open>keyboard_interrupt\<close>. On Ctrl+Alt+Del \<open>shutdown_reboot\<close> resets the machine and does
  not return; the member \<open>rebooting\<close> records it.
\<close>

definition keyboard_interrupt :: "u8 \<Rightarrow> u8 \<Rightarrow> console \<Rightarrow> console option" where
  "keyboard_interrupt d d2 c =
     (let shift = left_shift c \<or> right_shift c;
          alt = left_alt c \<or> right_alt c;
          ctrl = left_ctrl c \<or> right_ctrl c;
          code = read_code d d2;
          release = (code AND 0x80 \<noteq> 0);
          code = code AND NOT 0x80
      in if code = 0x3a then Some (if release then c else c\<lparr>caps_lock := \<not> caps_lock c\<rparr>)
         else case lookup_key shift code of
           Some ch \<Rightarrow>
             if release then Some c
             else if ch = 127 \<and> ctrl \<and> alt then Some (c\<lparr>rebooting := True\<rparr>)
             else if input_full c then Some c
             else input_putc (key_char ctrl shift (caps_lock c) alt ch) (c\<lparr>key_cnt := key_cnt c + 1\<rparr>)
         | None \<Rightarrow>
             (case map_of shift_keys code of
                Some set_var \<Rightarrow> Some (set_var (\<not> release) c)
              | None \<Rightarrow> Some c))"


section \<open>The console in use\<close>

text \<open>
  The events: the thread \<open>r\<close> reads keys, the thread \<open>w\<close> writes with interrupts on
  (the lock of \<^verbatim>\<open>lib/kernel/console.c\<close> lets one thread at a time write), any
  caller \<open>t\<close> writes with interrupts off or flushes the queue, and the two interrupts
  arrive. The histories are the bytes written, in the order in which \<open>serial_putc\<close>
  took them, and the keys that \<open>input_getc\<close> returned.
\<close>

datatype cevent =
    Read | Read_again | Write_byte u8 | Write_again | Urgent ptr u8 | Flush ptr
  | Init_queue | Serial_irq | Key_irq u8 u8

type_synonym cstate = "console \<times> u8 list \<times> u8 list"

fun c_run :: "ptr \<Rightarrow> ptr \<Rightarrow> cevent \<Rightarrow> cstate \<Rightarrow> cstate option" where
  "c_run r w Read (c, ws, rs) = do { (x, c) \<leftarrow> input_getc r c; Some (c, ws, rs @ got x) }"
| "c_run r w Read_again (c, ws, rs) = do { (x, c) \<leftarrow> input_getc_resume r c; Some (c, ws, rs @ got x) }"
| "c_run r w (Write_byte b) (c, ws, rs) = do {
     (x, c) \<leftarrow> serial_putc w False b c;
     Some (c, (if x = None then ws else ws @ [b]), rs) }"
| "c_run r w Write_again (c, ws, rs) = do {
     b \<leftarrow> (case place_of (txq c) w of In_wait (Putc b) \<Rightarrow> Some b | In_lock (Putc b) \<Rightarrow> Some b | _ \<Rightarrow> None);
     (x, c) \<leftarrow> serial_putc_resume w b c;
     Some (c, (if x = None then ws else ws @ [b]), rs) }"
| "c_run r w (Urgent t b) (c, ws, rs) = do {
     (x, c) \<leftarrow> serial_putc t True b c;
     Some (c, (if x = None then ws else ws @ [b]), rs) }"
| "c_run r w (Flush t) (c, ws, rs) = do { c \<leftarrow> serial_flush t c; Some (c, ws, rs) }"
| "c_run r w Init_queue (c, ws, rs) = do { c \<leftarrow> serial_init_queue c; Some (c, ws, rs) }"
| "c_run r w Serial_irq (c, ws, rs) = do { c \<leftarrow> serial_interrupt c; Some (c, ws, rs) }"
| "c_run r w (Key_irq d d2) (c, ws, rs) = do { c \<leftarrow> keyboard_interrupt d d2 c; Some (c, ws, rs) }"

fun c_enabled :: "ptr \<Rightarrow> ptr \<Rightarrow> cstate \<Rightarrow> cevent \<Rightarrow> bool" where
  "c_enabled r w (c, ws, rs) e \<longleftrightarrow> \<not> rebooting c \<and>
     (case e of
        Read \<Rightarrow> place_of (buffer c) r = Outside
      | Read_again \<Rightarrow> place_of (buffer c) r \<noteq> Outside \<and> \<not> blocked (buffer c) r
      | Write_byte b \<Rightarrow> place_of (txq c) w = Outside
      | Write_again \<Rightarrow> place_of (txq c) w \<noteq> Outside \<and> \<not> blocked (txq c) w
      | Urgent t b \<Rightarrow> t = w \<longrightarrow> place_of (txq c) w = Outside
      | Flush t \<Rightarrow> t = w \<longrightarrow> place_of (txq c) w = Outside
      | Init_queue \<Rightarrow> mode c \<noteq> QUEUE
      | Serial_irq \<Rightarrow> mode c = QUEUE
      | Key_irq d d2 \<Rightarrow> True)"

text \<open>At boot, after \<open>input_init\<close>; the variables of the serial port are zero.\<close>

definition console_boot :: "(nat \<Rightarrow> u8) \<Rightarrow> (nat \<Rightarrow> u8) \<Rightarrow> console" where
  "console_boot lsrs rbrs =
     \<lparr>buffer = monitor_init bss_monitor, txq = bss_monitor,
      mode = UNINIT, ier = 0, lsr = lsrs, rbr = rbrs, sent = [], accepted = [],
      left_shift = False, right_shift = False, left_alt = False, right_alt = False,
      left_ctrl = False, right_ctrl = False, caps_lock = False, key_cnt = 0, rebooting = False\<rparr>"

section \<open>Invariant\<close>

text \<open>The UART always becomes ready to transmit again.\<close>

definition uart_live :: "(nat \<Rightarrow> u8) \<Rightarrow> bool" where
  "uart_live f \<longleftrightarrow> (\<forall>n. \<exists>k. f (n + k) AND LSR_THRE \<noteq> 0)"

definition in_inv :: "ptr \<Rightarrow> u8 list \<Rightarrow> console \<Rightarrow> bool" where
  "in_inv r rs c \<longleftrightarrow> use_inv r (buffer c) \<and> place_of (buffer c) r \<in> {Outside, In_wait Getc} \<and>
     accepted c = rs @ contents (queue (buffer c))"

definition out_inv :: "ptr \<Rightarrow> u8 list \<Rightarrow> console \<Rightarrow> bool" where
  "out_inv w ws c \<longleftrightarrow>
     (mode c \<noteq> UNINIT \<longrightarrow> use_inv w (txq c)) \<and> place_of (txq c) w \<noteq> In_wait Getc \<and>
     (mode c = UNINIT \<longrightarrow> length (buf (queue (txq c))) = INTQ_BUFSIZE) \<and>
     (mode c \<noteq> QUEUE \<longrightarrow> intq_empty (queue (txq c)) \<and> place_of (txq c) w = Outside) \<and>
     ws = sent c @ contents (queue (txq c))"

text \<open>No interrupt that the drivers wait for is masked.\<close>

definition ier_inv :: "console \<Rightarrow> bool" where
  "ier_inv c \<longleftrightarrow> mode c = QUEUE \<longrightarrow>
     (\<not> intq_empty (queue (txq c)) \<longrightarrow> ier c AND IER_XMIT \<noteq> 0) \<and>
     (ier c AND IER_RECV \<noteq> 0 \<longleftrightarrow> \<not> intq_full (queue (buffer c)))"

definition c_inv :: "ptr \<Rightarrow> ptr \<Rightarrow> cstate \<Rightarrow> bool" where
  "c_inv r w = (\<lambda>(c, ws, rs). r \<noteq> NULL \<and> w \<noteq> NULL \<and> uart_live (lsr c) \<and>
     in_inv r rs c \<and> out_inv w ws c \<and> ier_inv c)"

lemma uart_live_shift: "uart_live f \<Longrightarrow> uart_live (\<lambda>n. f (n + k))"
  unfolding uart_live_def by (metis add.assoc add.commute)

lemma uart_live_Suc: "uart_live f \<Longrightarrow> uart_live (\<lambda>n. f (Suc n))"
  using uart_live_shift [of f 1] by simp

lemma putc_poll_ready:
  "lsr c k AND LSR_THRE \<noteq> 0 \<Longrightarrow>
    \<exists>j. putc_poll b c = Some (c\<lparr>lsr := \<lambda>n. lsr c (n + j), sent := sent c @ [b]\<rparr>)"
proof (induction k arbitrary: c)
  case 0
  then show ?case by (subst putc_poll.simps) (auto simp: inb_lsr_def outb_thr_def intro: exI [of _ 1])
next
  case (Suc k)
  show ?case
  proof (cases "lsr c 0 AND LSR_THRE = 0")
    case True
    have "\<exists>j. putc_poll b (c\<lparr>lsr := \<lambda>n. lsr c (Suc n)\<rparr>) = Some (c\<lparr>lsr := \<lambda>n. lsr c (Suc (n + j)), sent := sent c @ [b]\<rparr>)"
      using Suc.IH [of "c\<lparr>lsr := \<lambda>n. lsr c (Suc n)\<rparr>"] Suc.prems by simp
    then obtain j where "putc_poll b (c\<lparr>lsr := \<lambda>n. lsr c (Suc n)\<rparr>) = Some (c\<lparr>lsr := \<lambda>n. lsr c (n + Suc j), sent := sent c @ [b]\<rparr>)"
      by auto
    then show ?thesis using True by (subst putc_poll.simps) (auto simp: inb_lsr_def simp del: add_Suc_right)
  next
    case False
    then show ?thesis by (subst putc_poll.simps) (auto simp: inb_lsr_def outb_thr_def intro: exI [of _ 1])
  qed
qed

lemma putc_poll_sends:
  assumes "uart_live (lsr c)"
  shows "\<exists>f. putc_poll b c = Some (c\<lparr>lsr := f, sent := sent c @ [b]\<rparr>) \<and> uart_live f"
proof -
  obtain k where "lsr c k AND LSR_THRE \<noteq> 0" using assms unfolding uart_live_def by (metis add_0)
  then show ?thesis using putc_poll_ready [of c k b] uart_live_shift [OF assms] by blast
qed

lemma write_ier_fields [simp]:
  "buffer (write_ier c) = buffer c" "txq (write_ier c) = txq c" "mode (write_ier c) = mode c"
  "lsr (write_ier c) = lsr c" "sent (write_ier c) = sent c" "accepted (write_ier c) = accepted c"
  "rebooting (write_ier c) = rebooting c"
  by (simp_all add: write_ier_def Let_def)

lemma serial_notify_fields [simp]:
  "buffer (serial_notify c) = buffer c" "txq (serial_notify c) = txq c" "mode (serial_notify c) = mode c"
  "lsr (serial_notify c) = lsr c" "sent (serial_notify c) = sent c" "accepted (serial_notify c) = accepted c"
  "rebooting (serial_notify c) = rebooting c"
  by (simp_all add: serial_notify_def)

lemma ier_inv_write [simp]: "ier_inv (write_ier c)"
  by (simp add: ier_inv_def write_ier_def Let_def)

lemma ier_inv_notify [simp]: "ier_inv (serial_notify c)"
  by (simp add: serial_notify_def) (simp add: ier_inv_def)


lemma c_inv_input_regs:
  "c_inv r w (c, ws, rs) \<Longrightarrow> uart_live f \<Longrightarrow> c_inv r w (c\<lparr>lsr := f\<rparr>, ws, rs)"
  "c_inv r w (c, ws, rs) \<Longrightarrow> c_inv r w (c\<lparr>rbr := g\<rparr>, ws, rs)"
  by (simp_all add: c_inv_def in_inv_def out_inv_def ier_inv_def)

lemma c_inv_lsr_Suc: "c_inv r w (c, ws, rs) \<Longrightarrow> c_inv r w (c\<lparr>lsr := \<lambda>n. lsr c (Suc n)\<rparr>, ws, rs)"
  by (rule c_inv_input_regs(1)) (simp_all add: c_inv_def uart_live_Suc)

lemma in_wf: "in_inv r rs c \<Longrightarrow> intq_wf (queue (buffer c))"
  by (simp add: in_inv_def use_inv_def)

lemma input_putc_inv:
  assumes inv: "c_inv r w (c, ws, rs)" and room: "\<not> input_full c"
  shows "\<exists>c'. input_putc k c = Some c' \<and> c_inv r w (c', ws, rs) \<and>
    used (queue (buffer c')) = Suc (used (queue (buffer c))) \<and> mode c' = mode c"
proof -
  have i: "r \<noteq> NULL" "use_inv r (buffer c)" "\<not> intq_full (queue (buffer c))"
    using inv room by (simp_all add: c_inv_def in_inv_def input_full_def)
  obtain m where m: "intq_putc NULL k (buffer c) = Some (Some (), m)" "use_inv r m"
      "place_of m r = place_of (buffer c) r" "contents (queue m) = contents (queue (buffer c)) @ [k]"
    using intq_putc_ready [OF i(2,1,3), of NULL k] i(1) by auto
  have "used (queue m) = Suc (used (queue (buffer c)))"
    using m(4) contents_length [of "queue m"] by simp
  then show ?thesis using inv m i(3)
    by (simp add: input_putc_def c_inv_def in_inv_def out_inv_def)
qed

lemma receive_loop_inv:
  "c_inv r w (c, ws, rs) \<Longrightarrow> \<exists>c'. receive_loop c = Some c' \<and> c_inv r w (c', ws, rs) \<and> mode c' = mode c"
proof (induction "63 - used (queue (buffer c))" arbitrary: c rule: less_induct)
  case less
  let ?c = "c\<lparr>lsr := \<lambda>n. lsr c (Suc n)\<rparr>"
  let ?d = "?c\<lparr>rbr := \<lambda>n. rbr c (Suc n)\<rparr>"
  note c1 = c_inv_lsr_Suc [OF less.prems]
  show ?case
  proof (cases "input_full c \<or> lsr c 0 AND LSR_DR = 0")
    case True
    then show ?thesis using less.prems c1
      by (subst receive_loop.simps) (auto simp: inb_lsr_def)
  next
    case False
    then have room: "\<not> input_full ?d" by (simp add: input_full_def)
    obtain c' where c': "input_putc (rbr c 0) ?d = Some c'" "c_inv r w (c', ws, rs)"
        "used (queue (buffer c')) = Suc (used (queue (buffer c)))" "mode c' = mode c"
      using input_putc_inv [OF c_inv_input_regs(2) [OF c1] room] by auto
    have "used (queue (buffer c)) < 63"
      using room less.prems intq_full_iff [of "queue (buffer c)"]
      by (auto simp: c_inv_def input_full_def in_inv_def use_inv_def used_cases intq_wf_def)
    then have "63 - used (queue (buffer c')) < 63 - used (queue (buffer c))" using c'(3) by linarith
    then obtain c'' where "receive_loop c' = Some c''" "c_inv r w (c'', ws, rs)" "mode c'' = mode c"
      using less.hyps [of c'] c'(2,4) by auto
    then show ?thesis using False c'(1)
      by (subst receive_loop.simps) (auto simp: inb_lsr_def inb_rbr_def)
  qed
qed

text \<open>Taking a byte out of the transmit queue and sending it.\<close>

lemma tx_take:
  assumes inv: "c_inv r w (c, ws, rs)" and m: "mode c \<noteq> UNINIT" and ne: "\<not> intq_empty (queue (txq c))"
    and t: "t = w \<longrightarrow> place_of (txq c) w = Outside"
  shows "\<exists>b q. intq_getc t (txq c) = Some (Some b, q) \<and> place_of q w = place_of (txq c) w \<and>
    used (queue (txq c)) = Suc (used (queue q)) \<and> \<not> intq_full (queue q) \<and>
    (\<forall>f. uart_live f \<longrightarrow> c_inv r w (c\<lparr>txq := q, lsr := f, sent := sent c @ [b]\<rparr>, ws, rs))"
proof -
  have w: "use_inv w (txq c)" "w \<noteq> NULL" using inv m by (simp_all add: c_inv_def out_inv_def)
  obtain b q where q: "intq_getc t (txq c) = Some (Some b, q)" "use_inv w q"
      "place_of q w = place_of (txq c) w" "contents (queue (txq c)) = b # contents (queue q)"
    using intq_getc_ready [OF w ne t] by blast
  have u: "used (queue (txq c)) = Suc (used (queue q))"
    using q(4) contents_length [of "queue (txq c)"] by simp
  have "used (queue (txq c)) < 64" by (simp add: used_def)
  then have "\<not> intq_full (queue q)" using intq_full_iff [of "queue q"] q(2) u by (simp add: use_inv_def)
  then show ?thesis using inv q u ne m
    by (simp add: c_inv_def in_inv_def out_inv_def ier_inv_def)
qed

lemma transmit_loop_inv:
  "c_inv r w (c, ws, rs) \<Longrightarrow> mode c = QUEUE \<Longrightarrow>
    \<exists>c'. transmit_loop c = Some c' \<and> c_inv r w (c', ws, rs)"
proof (induction "used (queue (txq c))" arbitrary: c rule: less_induct)
  case less
  note c1 = c_inv_lsr_Suc [OF less.prems(1)]
  let ?f = "\<lambda>n. lsr c (Suc n)"
  have live: "uart_live ?f" using less.prems(1) by (simp add: c_inv_def uart_live_Suc)
  show ?case
  proof (cases "intq_empty (queue (txq c)) \<or> lsr c 0 AND LSR_THRE = 0")
    case True
    then show ?thesis using less.prems c1 by (subst transmit_loop.simps) (auto simp: inb_lsr_def)
  next
    case False
    then obtain b q where q: "intq_getc NULL (txq c) = Some (Some b, q)"
        "used (queue (txq c)) = Suc (used (queue q))"
        "c_inv r w (c\<lparr>txq := q, lsr := ?f, sent := sent c @ [b]\<rparr>, ws, rs)"
      using tx_take [OF less.prems(1), of NULL] less.prems live by (auto simp: c_inv_def)
    have eq: "c\<lparr>lsr := ?f, txq := q, sent := sent c @ [b]\<rparr> = c\<lparr>txq := q, lsr := ?f, sent := sent c @ [b]\<rparr>"
      by simp
    obtain c' where "transmit_loop (c\<lparr>lsr := ?f, txq := q, sent := sent c @ [b]\<rparr>) = Some c'"
        "c_inv r w (c', ws, rs)"
      using less.hyps [of "c\<lparr>txq := q, lsr := ?f, sent := sent c @ [b]\<rparr>"] less.prems(2) q(2,3) unfolding eq by auto
    then show ?thesis using False q(1)
      by (subst transmit_loop.simps) (simp add: inb_lsr_def outb_thr_def)
  qed
qed

lemma serial_interrupt_inv:
  assumes "c_inv r w (c, ws, rs)" and "mode c = QUEUE"
  shows "\<exists>c'. serial_interrupt c = Some c' \<and> c_inv r w (c', ws, rs)"
proof -
  obtain c1 where c1: "receive_loop c = Some c1" "c_inv r w (c1, ws, rs)" "mode c1 = QUEUE"
    using receive_loop_inv [OF assms(1)] assms(2) by auto
  obtain c2 where c2: "transmit_loop c1 = Some c2" "c_inv r w (c2, ws, rs)"
    using transmit_loop_inv [OF c1(2,3)] by blast
  have "c_inv r w (write_ier c2, ws, rs)"
    using c2(2) by (simp add: c_inv_def in_inv_def out_inv_def)
  then show ?thesis using c1(1) c2(1) by (simp add: serial_interrupt_def)
qed

lemma serial_flush_inv:
  "c_inv r w (c, ws, rs) \<Longrightarrow> t = w \<longrightarrow> place_of (txq c) w = Outside \<Longrightarrow>
    \<exists>c'. serial_flush t c = Some c' \<and> c_inv r w (c', ws, rs)"
proof (induction "used (queue (txq c))" arbitrary: c rule: less_induct)
  case less
  show ?case
  proof (cases "intq_empty (queue (txq c))")
    case True
    then show ?thesis using less.prems by (subst serial_flush.simps) simp
  next
    case False
    then have m: "mode c \<noteq> UNINIT" using less.prems(1) by (auto simp: c_inv_def out_inv_def)
    obtain b q where q: "intq_getc t (txq c) = Some (Some b, q)" "place_of q w = place_of (txq c) w"
        "used (queue (txq c)) = Suc (used (queue q))"
        "\<And>f. uart_live f \<Longrightarrow> c_inv r w (c\<lparr>txq := q, lsr := f, sent := sent c @ [b]\<rparr>, ws, rs)"
      using tx_take [OF less.prems(1) m False less.prems(2)] by blast
    have "uart_live (lsr (c\<lparr>txq := q\<rparr>))" using less.prems(1) by (simp add: c_inv_def)
    then obtain f where f: "putc_poll b (c\<lparr>txq := q\<rparr>) = Some (c\<lparr>txq := q, lsr := f, sent := sent c @ [b]\<rparr>)"
        "uart_live f"
      using putc_poll_sends [of "c\<lparr>txq := q\<rparr>" b] by auto
    then obtain c' where "serial_flush t (c\<lparr>txq := q, lsr := f, sent := sent c @ [b]\<rparr>) = Some c'"
        "c_inv r w (c', ws, rs)"
      using less.hyps [of "c\<lparr>txq := q, lsr := f, sent := sent c @ [b]\<rparr>"] less.prems(2) q(2,3) q(4) [OF f(2)] by auto
    then show ?thesis using False q(1) f(1) by (subst serial_flush.simps) simp
  qed
qed

text \<open>What a call on one of the queues leaves.\<close>

lemma same_contents:
  "use_inv u m \<Longrightarrow> use_inv v m' \<Longrightarrow> contents (queue m) = contents (queue m') \<Longrightarrow>
    intq_full (queue m) = intq_full (queue m') \<and> intq_empty (queue m) = intq_empty (queue m')"
  using intq_full_iff [of "queue m"] intq_full_iff [of "queue m'"]
    contents_empty_iff [of "queue m"] contents_empty_iff [of "queue m'"]
  by (metis contents_length use_inv_def)

lemma c_inv_read:
  assumes inv: "c_inv r w (c, ws, rs)" and m: "use_inv r m"
    "place_of m r = (if x = None then In_wait Getc else Outside)"
    "contents (queue (buffer c)) = got x @ contents (queue m)"
  shows "c_inv r w (if x = None then c\<lparr>buffer := m\<rparr> else serial_notify (c\<lparr>buffer := m\<rparr>), ws, rs @ got x)"
proof (cases x)
  case None
  then have "intq_full (queue (buffer c)) = intq_full (queue m)"
    using same_contents [of r "buffer c" r m] m(1,3) inv by (simp add: c_inv_def in_inv_def)
  then show ?thesis using inv m None by (simp add: c_inv_def in_inv_def out_inv_def ier_inv_def)
next
  case (Some b)
  then show ?thesis using inv m by (simp add: c_inv_def in_inv_def out_inv_def)
qed

lemma c_inv_write:
  assumes inv: "c_inv r w (c, ws, rs)" and q: "mode c = QUEUE" and m: "use_inv w m"
    "place_of m w \<noteq> In_wait Getc"
    "contents (queue m) = contents (queue (txq c)) @ (if x = None then [] else [b])"
  shows "c_inv r w (if x = None then c\<lparr>txq := m\<rparr> else write_ier (c\<lparr>txq := m\<rparr>),
    (if x = None then ws else ws @ [b]), rs)"
proof (cases x)
  case None
  then have "intq_empty (queue (txq c)) = intq_empty (queue m)"
    using same_contents [of w "txq c" w m] m(1,3) inv q by (simp add: c_inv_def out_inv_def)
  then show ?thesis using inv m None q by (simp add: c_inv_def in_inv_def out_inv_def ier_inv_def)
next
  case (Some u)
  then show ?thesis using inv m q by (simp add: c_inv_def in_inv_def out_inv_def)
qed

lemma input_getc_inv:
  assumes inv: "c_inv r w (c, ws, rs)" and p: "place_of (buffer c) r = Outside"
  shows "\<exists>x c'. input_getc r c = Some (x, c') \<and> c_inv r w (c', ws, rs @ got x)"
proof -
  have "intq_wf (queue (buffer c))" "unused (queue (buffer c))" "r \<noteq> NULL"
    using inv use_inv_Outside [OF _ p] by (simp_all add: c_inv_def in_inv_def)
  then obtain x m where "intq_getc r (buffer c) = Some (x, m)" "use_inv r m"
      "place_of m r = (if x = None then In_wait Getc else Outside)"
      "contents (queue (buffer c)) = got x @ contents (queue m)"
    using intq_getc_unused [of "buffer c" r] by blast
  then show ?thesis using c_inv_read [OF inv, of m x] by (auto simp: input_getc_def Let_def)
qed

lemma input_getc_resume_inv:
  assumes inv: "c_inv r w (c, ws, rs)" and p: "place_of (buffer c) r \<noteq> Outside" "\<not> blocked (buffer c) r"
  shows "\<exists>x c'. input_getc_resume r c = Some (x, c') \<and> c_inv r w (c', ws, rs @ got x)"
proof -
  have "use_inv r (buffer c)" "place_of (buffer c) r = In_wait Getc" "r \<noteq> NULL"
    using inv p(1) by (auto simp: c_inv_def in_inv_def)
  then obtain x m where "resume_getc r (buffer c) = Some (x, m)" "use_inv r m"
      "place_of m r = (if x = None then In_wait Getc else Outside)"
      "contents (queue (buffer c)) = got x @ contents (queue m)"
    using resume_getc_user [of r "buffer c"] p(2) by blast
  then show ?thesis using c_inv_read [OF inv, of m x] by (auto simp: input_getc_resume_def Let_def)
qed


lemma serial_putc_resume_inv:
  assumes inv: "c_inv r w (c, ws, rs)" and p: "place_of (txq c) w = In_wait (Putc b)" "\<not> blocked (txq c) w"
  shows "\<exists>x c'. serial_putc_resume w b c = Some (x, c') \<and> c_inv r w (c', (if x = None then ws else ws @ [b]), rs)"
proof -
  have q: "mode c = QUEUE" using inv p(1) by (auto simp: c_inv_def out_inv_def)
  then have "use_inv w (txq c)" "w \<noteq> NULL" using inv by (simp_all add: c_inv_def out_inv_def)
  then obtain x m where "resume_putc w b (txq c) = Some (x, m)" "use_inv w m"
      "place_of m w = (if x = None then In_wait (Putc b) else Outside)"
      "contents (queue m) = contents (queue (txq c)) @ (if x = None then [] else [b])"
    using resume_putc_user [of w "txq c" b] p by blast
  then show ?thesis using c_inv_write [OF inv q, of m x b] by (cases x) (auto simp: serial_putc_resume_def Let_def)
qed

lemma init_poll_inv:
  assumes inv: "c_inv r w (c, ws, rs)" and u: "mode c = UNINIT"
  shows "\<exists>c'. init_poll c = Some c' \<and> c_inv r w (c', ws, rs) \<and> mode c' = POLL"
proof -
  have "contents (queue (txq c)) = []"
    using inv u by (simp add: c_inv_def out_inv_def contents_def used_def intq_empty_def)
  then show ?thesis using inv u
    by (simp add: init_poll_def c_inv_def in_inv_def out_inv_def ier_inv_def monitor_init_def
        intq_init_def use_inv_def [of w] unused_def intq_wf_def intq_empty_def contents_def used_def)
qed

lemma putc_poll_inv:
  assumes inv: "c_inv r w (c, ws, rs)" and q: "mode c = POLL"
  shows "\<exists>c'. putc_poll b c = Some c' \<and> c_inv r w (c', ws @ [b], rs)"
proof -
  have "contents (queue (txq c)) = []"
    using inv q by (simp add: c_inv_def out_inv_def contents_def used_def intq_empty_def)
  moreover obtain f where "putc_poll b c = Some (c\<lparr>lsr := f, sent := sent c @ [b]\<rparr>)" "uart_live f"
    using putc_poll_sends [of c b] inv by (auto simp: c_inv_def)
  ultimately show ?thesis using inv by (simp add: c_inv_def in_inv_def out_inv_def ier_inv_def)
qed

lemma serial_putc_poll_inv:
  assumes inv: "c_inv r w (c, ws, rs)" and q: "mode c \<noteq> QUEUE"
  shows "\<exists>c'. serial_putc t off b c = Some (Some (), c') \<and> c_inv r w (c', ws @ [b], rs)"
proof -
  obtain c1 where "(if mode c = UNINIT then init_poll c else Some c) = Some c1"
      "c_inv r w (c1, ws, rs)" "mode c1 = POLL"
    using init_poll_inv [OF inv] inv q by (cases "mode c") auto
  then show ?thesis using putc_poll_inv [of r w c1 ws rs b] q by (auto simp: serial_putc_def)
qed

lemma serial_init_queue_inv:
  assumes inv: "c_inv r w (c, ws, rs)" and q: "mode c \<noteq> QUEUE"
  shows "\<exists>c'. serial_init_queue c = Some c' \<and> c_inv r w (c', ws, rs)"
proof -
  obtain c1 where c1: "(if mode c = UNINIT then init_poll c else Some c) = Some c1"
      "c_inv r w (c1, ws, rs)" "mode c1 = POLL"
    using init_poll_inv [OF inv] inv q by (cases "mode c") auto
  then have "c_inv r w (write_ier (c1\<lparr>mode := QUEUE\<rparr>), ws, rs)"
    by (simp add: c_inv_def in_inv_def out_inv_def)
  then show ?thesis using c1 by (simp add: serial_init_queue_def)
qed

lemma serial_putc_thread_inv:
  assumes inv: "c_inv r w (c, ws, rs)" and q: "mode c = QUEUE" and p: "place_of (txq c) w = Outside"
  shows "\<exists>x c'. serial_putc w False b c = Some (x, c') \<and>
    c_inv r w (c', (if x = None then ws else ws @ [b]), rs)"
proof -
  have "intq_wf (queue (txq c))" "unused (queue (txq c))" "w \<noteq> NULL"
    using inv q use_inv_Outside [OF _ p] by (simp_all add: c_inv_def out_inv_def)
  then obtain x m where "intq_putc w b (txq c) = Some (x, m)" "use_inv w m"
      "place_of m w = (if x = None then In_wait (Putc b) else Outside)"
      "contents (queue m) = contents (queue (txq c)) @ (if x = None then [] else [b])"
    using intq_putc_unused [of "txq c" w b] by blast
  then show ?thesis using c_inv_write [OF inv q, of m x b] q
    by (cases x) (auto simp: serial_putc_def Let_def)
qed

text \<open>With interrupts off a byte is sent by polling when the queue is full, so there is room.\<close>

lemma serial_putc_store:
  assumes inv: "c_inv r w (c, ws, rs)" and q: "mode c = QUEUE" and room: "\<not> intq_full (queue (txq c))"
    and t: "t = w \<longrightarrow> place_of (txq c) w = Outside"
  shows "\<exists>m. intq_putc t b (txq c) = Some (Some (), m) \<and> c_inv r w (write_ier (c\<lparr>txq := m\<rparr>), ws @ [b], rs)"
proof -
  have w: "use_inv w (txq c)" "w \<noteq> NULL" "place_of (txq c) w \<noteq> In_wait Getc"
    using inv q by (simp_all add: c_inv_def out_inv_def)
  obtain m where "intq_putc t b (txq c) = Some (Some (), m)" "use_inv w m"
      "place_of m w = place_of (txq c) w" "contents (queue m) = contents (queue (txq c)) @ [b]"
    using intq_putc_ready [OF w(1,2) room t, of b] by blast
  then show ?thesis using c_inv_write [OF inv q, of m "Some ()" b] w(3) by simp
qed

lemma serial_putc_urgent_inv:
  assumes inv: "c_inv r w (c, ws, rs)" and q: "mode c = QUEUE"
    and t: "t = w \<longrightarrow> place_of (txq c) w = Outside"
  shows "\<exists>c'. serial_putc t True b c = Some (Some (), c') \<and> c_inv r w (c', ws @ [b], rs)"
proof (cases "intq_full (queue (txq c))")
  case False
  then show ?thesis using serial_putc_store [OF inv q False t, of b] q by (auto simp: serial_putc_def Let_def)
next
  case True
  have wf: "intq_wf (queue (txq c))" using inv q by (simp add: c_inv_def out_inv_def use_inv_def)
  have ne: "\<not> intq_empty (queue (txq c))"
    using True intq_full_iff [OF wf] by (auto simp: used_def intq_empty_def)
  obtain a m where m: "intq_getc t (txq c) = Some (Some a, m)" "place_of m w = place_of (txq c) w"
      "\<not> intq_full (queue m)"
      "\<And>f. uart_live f \<Longrightarrow> c_inv r w (c\<lparr>txq := m, lsr := f, sent := sent c @ [a]\<rparr>, ws, rs)"
    using tx_take [OF inv _ ne t] q by auto
  have "uart_live (lsr (c\<lparr>txq := m\<rparr>))" using inv by (simp add: c_inv_def)
  then obtain f where f: "putc_poll a (c\<lparr>txq := m\<rparr>) = Some (c\<lparr>txq := m, lsr := f, sent := sent c @ [a]\<rparr>)"
      "uart_live f"
    using putc_poll_sends [of "c\<lparr>txq := m\<rparr>" a] by auto
  let ?c = "c\<lparr>txq := m, lsr := f, sent := sent c @ [a]\<rparr>"
  obtain m' where "intq_putc t b (txq ?c) = Some (Some (), m')" "c_inv r w (write_ier (?c\<lparr>txq := m'\<rparr>), ws @ [b], rs)"
    using serial_putc_store [OF m(4) [OF f(2)], of t b] q m(2,3) t by auto
  then show ?thesis using True q m(1) f(1) by (simp add: serial_putc_def Let_def)
qed


lemma c_inv_keys:
  "c_inv r w (c\<lparr>caps_lock := b\<rparr>, ws, rs) = c_inv r w (c, ws, rs)"
  "c_inv r w (c\<lparr>rebooting := b\<rparr>, ws, rs) = c_inv r w (c, ws, rs)"
  "c_inv r w (c\<lparr>key_cnt := n\<rparr>, ws, rs) = c_inv r w (c, ws, rs)"
  "c_inv r w (c\<lparr>left_shift := b\<rparr>, ws, rs) = c_inv r w (c, ws, rs)"
  "c_inv r w (c\<lparr>right_shift := b\<rparr>, ws, rs) = c_inv r w (c, ws, rs)"
  "c_inv r w (c\<lparr>left_alt := b\<rparr>, ws, rs) = c_inv r w (c, ws, rs)"
  "c_inv r w (c\<lparr>right_alt := b\<rparr>, ws, rs) = c_inv r w (c, ws, rs)"
  "c_inv r w (c\<lparr>left_ctrl := b\<rparr>, ws, rs) = c_inv r w (c, ws, rs)"
  "c_inv r w (c\<lparr>right_ctrl := b\<rparr>, ws, rs) = c_inv r w (c, ws, rs)"
  by (simp_all add: c_inv_def in_inv_def out_inv_def ier_inv_def)

lemma c_inv_shift_keys:
  assumes "map_of shift_keys code = Some set_var"
  shows "c_inv r w (set_var b c, ws, rs) = c_inv r w (c, ws, rs)"
proof -
  have "\<forall>(k, f) \<in> set shift_keys. c_inv r w (f b c, ws, rs) = c_inv r w (c, ws, rs)"
    by (simp add: shift_keys_def c_inv_keys)
  then show ?thesis using map_of_SomeD [OF assms] by blast
qed

lemma keyboard_interrupt_inv:
  assumes inv: "c_inv r w (c, ws, rs)"
  shows "\<exists>c'. keyboard_interrupt d d2 c = Some c' \<and> c_inv r w (c', ws, rs)"
proof -
  have put: "\<exists>c'. input_putc ch (c\<lparr>key_cnt := key_cnt c + 1\<rparr>) = Some c' \<and> c_inv r w (c', ws, rs)"
    if "\<not> input_full c" for ch
    using input_putc_inv [of r w "c\<lparr>key_cnt := key_cnt c + 1\<rparr>" ws rs ch] inv that
    by (auto simp: c_inv_keys input_full_def)
  let ?code = "read_code d d2 AND NOT 0x80"
  let ?ch = "lookup_key (left_shift c \<or> right_shift c) ?code"
  consider "?code = 0x3a" | ch where "?code \<noteq> 0x3a" "?ch = Some ch" | "?code \<noteq> 0x3a" "?ch = None" by blast
  then show ?thesis
  proof cases
    case 1
    then show ?thesis using inv unfolding keyboard_interrupt_def Let_def
      by (simp add: c_inv_keys)
  next
    case 2
    then show ?thesis using inv put unfolding keyboard_interrupt_def Let_def
      by (simp add: c_inv_keys)
  next
    case 3
    then show ?thesis using inv c_inv_shift_keys unfolding keyboard_interrupt_def Let_def
      by (simp split: option.split)
  qed
qed

lemma c_run_keeps:
  assumes inv: "c_inv r w s" and en: "c_enabled r w s e"
  shows "\<exists>s'. c_run r w e s = Some s' \<and> c_inv r w s'"
proof -
  obtain c ws rs where s: "s = (c, ws, rs)" by (cases s)
  note inv = inv [unfolded s]
  note en = en [unfolded s]
  show ?thesis
  proof (cases e)
    case Read
    then show ?thesis using input_getc_inv [OF inv] en s by auto
  next
    case Read_again
    then show ?thesis using input_getc_resume_inv [OF inv] en s by auto
  next
    case (Write_byte b)
    then show ?thesis
      using serial_putc_thread_inv [OF inv, of b] serial_putc_poll_inv [OF inv, of w False b] en s
      by (cases "mode c = QUEUE") auto
  next
    case Write_again
    then obtain b where "place_of (txq c) w = In_wait (Putc b)"
      using inv en by (cases "place_of (txq c) w"; cases "mode c")
        (auto simp: c_inv_def out_inv_def use_inv_def, (metis call.exhaust)+)
    then show ?thesis using serial_putc_resume_inv [OF inv, of b] en s Write_again by auto
  next
    case (Urgent t b)
    then show ?thesis
      using serial_putc_urgent_inv [OF inv, of t b] serial_putc_poll_inv [OF inv, of t True b] en s
      by (cases "mode c = QUEUE") auto
  next
    case (Flush t)
    then show ?thesis using serial_flush_inv [OF inv, of t] en s by auto
  next
    case Init_queue
    then show ?thesis using serial_init_queue_inv [OF inv] en s by auto
  next
    case Serial_irq
    then show ?thesis using serial_interrupt_inv [OF inv] en s by auto
  next
    case (Key_irq d d2)
    then show ?thesis using keyboard_interrupt_inv [OF inv, of d d2] s by auto
  qed
qed

interpretation console: safe_machine "c_enabled r w" "c_run r w" "c_inv r w" for r w
  by unfold_locales (rule c_run_keeps)

lemma c_inv_boot:
  assumes "r \<noteq> NULL" and "w \<noteq> NULL" and "uart_live lsrs"
  shows "c_inv r w (console_boot lsrs rbrs, [], [])"
  using assms by (simp add: c_inv_def console_boot_def bss_monitor_def in_inv_def out_inv_def ier_inv_def use_inv_def
      monitor_init_def intq_init_def unused_def intq_wf_def intq_empty_def contents_def used_def)


lemma reachable_boot_inv:
  assumes "r \<noteq> NULL" and "w \<noteq> NULL" and "uart_live lsrs"
    and "reachable (c_enabled r w) (c_run r w) (console_boot lsrs rbrs, [], []) s"
  shows "c_inv r w s" and "c_enabled r w s e \<Longrightarrow> c_run r w e s \<noteq> None"
  using console.reachable_inv [OF assms(4) c_inv_boot [OF assms(1-3)]]
    console.never_fails [OF assms(4) c_inv_boot [OF assms(1-3)], of e] by auto

section \<open>Properties\<close>

text \<open>
  C36. The console with one reading and one writing thread, from boot on: whatever
  the order of calls and interrupts, no assertion fails and no loop runs forever; the
  bytes leave through the transmitter in the order in which they were written; the
  keys are read in the order in which they were accepted; and once the port is
  interrupt-driven, the interrupt the driver depends on is enabled: transmit while
  bytes are queued, receive exactly while there is room.
\<close>

theorem console_safe:
  assumes "r \<noteq> NULL" and "w \<noteq> NULL" and "uart_live lsrs"
    and "reachable (c_enabled r w) (c_run r w) (console_boot lsrs rbrs, [], []) (c, ws, rs)"
  shows "(\<forall>e. c_enabled r w (c, ws, rs) e \<longrightarrow> c_run r w e (c, ws, rs) \<noteq> None) \<and>
    (ws = sent c @ contents (queue (txq c))) \<and>
    (accepted c = rs @ contents (queue (buffer c))) \<and>
    (mode c = QUEUE \<longrightarrow> contents (queue (txq c)) \<noteq> [] \<longrightarrow> ier c AND IER_XMIT \<noteq> 0) \<and>
    (mode c = QUEUE \<longrightarrow> (ier c AND IER_RECV \<noteq> 0 \<longleftrightarrow> length (contents (queue (buffer c))) < 63))"
proof -
  note r = reachable_boot_inv [OF assms]
  have i: "in_inv r rs c" "out_inv w ws c" "ier_inv c" using r(1) by (simp_all add: c_inv_def)
  note wf = in_wf [OF i(1)]
  have p1: "\<forall>e. c_enabled r w (c, ws, rs) e \<longrightarrow> c_run r w e (c, ws, rs) \<noteq> None" using r(2) by blast
  have p2: "ws = sent c @ contents (queue (txq c))" using i(2) by (simp add: out_inv_def)
  have p3: "accepted c = rs @ contents (queue (buffer c))" using i(1) by (simp add: in_inv_def)
  have p4: "mode c = QUEUE \<longrightarrow> contents (queue (txq c)) \<noteq> [] \<longrightarrow> ier c AND IER_XMIT \<noteq> 0"
    using i(2,3) contents_empty_iff [of "queue (txq c)"] by (auto simp: ier_inv_def out_inv_def use_inv_def)
  have "used (queue (buffer c)) < 64" by (simp add: used_def)
  then have p5: "mode c = QUEUE \<longrightarrow> (ier c AND IER_RECV \<noteq> 0 \<longleftrightarrow> length (contents (queue (buffer c))) < 63)"
    using i(3) intq_full_iff [OF wf] by (auto simp: ier_inv_def)
  show ?thesis using p1 p2 p3 p4 p5 by (intro conjI)
qed

text \<open>A byte is queued for transmission, a key is pressed and read.\<close>

theorem console_safe_witness:
  "\<exists>c ws rs. reachable (c_enabled 1 2) (c_run 1 2) (console_boot (\<lambda>_. 0x20) (\<lambda>_. 0), [], []) (c, ws, rs) \<and>
    ws = [72] \<and> rs = [97] \<and> accepted c = rs @ contents (queue (buffer c)) \<and> ws = sent c @ contents (queue (txq c))"
proof -
  let ?s = "(console_boot (\<lambda>_. 0x20) (\<lambda>_. 0), [], [])"
  let ?es = "[Init_queue, Write_byte 72, Key_irq 0x1e 0, Read]"
  have "\<exists>ss. trace (c_enabled 1 2) (c_run 1 2) ?s ?es = Some ss \<and> ss \<noteq> [] \<and> snd (last ss) = ([72], [97])"
    by (simp add: console_boot_def intq_run serial_init_queue_def init_poll_def write_ier_def serial_putc_def
        keyboard_interrupt_def read_code_def lookup_key_def invariant_keymap_def str_def input_full_def
        input_putc_def serial_notify_def key_char_def tolower_def input_getc_def of_char_def)
  then obtain ss where ss: "trace (c_enabled 1 2) (c_run 1 2) ?s ?es = Some ss" "ss \<noteq> []" "snd (last ss) = ([72], [97])"
    by blast
  have r: "reachable (c_enabled 1 2) (c_run 1 2) ?s (last ss)"
    using trace_reachable [OF reachable.start ss(1)] ss(2) by simp
  obtain c ws rs where l: "last ss = (c, ws, rs)" by (cases "last ss")
  have "uart_live (\<lambda>_. 0x20)" by (simp add: uart_live_def)
  then show ?thesis
    using console_safe [of 1 2 "\<lambda>_. 0x20" "\<lambda>_. 0" c ws rs] r ss(3) l
    by (intro exI [of _ c] exI [of _ ws] exI [of _ rs]) simp
qed

end
