(* ===== verification/Vaddr.thy ===== *)
theory Vaddr
  imports Bitmap Strings
begin

text \<open>
  Virtual addresses and page table entries: \<^verbatim>\<open>threads/vaddr.h\<close> and
  \<^verbatim>\<open>threads/pte.h\<close>. An address is a number below \<open>2 ^ 32\<close>; the functions
  compute on its 32-bit word, as the code does after the cast to \<open>uintptr_t\<close>. Page
  table entries are 32-bit words in memory.
\<close>

section \<open>Addresses\<close>

definition BITMASK :: "nat \<Rightarrow> nat \<Rightarrow> u32" where
  "BITMASK shift cnt = push_bit shift (push_bit cnt 1 - 1)"

abbreviation (input) PGBITS :: nat where "PGBITS \<equiv> 12"
abbreviation (input) PGSIZE :: nat where "PGSIZE \<equiv> 4096"
abbreviation (input) PTBITS :: nat where "PTBITS \<equiv> 10"
abbreviation (input) PTSHIFT :: nat where "PTSHIFT \<equiv> 12"
abbreviation (input) PDSHIFT :: nat where "PDSHIFT \<equiv> 22"
abbreviation (input) PHYS_BASE :: ptr where "PHYS_BASE \<equiv> 0xc0000000"

definition PGMASK :: u32 where "PGMASK = BITMASK 0 PGBITS"
definition PTMASK :: u32 where "PTMASK = BITMASK PTSHIFT PTBITS"

definition uintptr :: "ptr \<Rightarrow> u32" where
  "uintptr p = word_of_nat p"

definition pg_ofs :: "ptr \<Rightarrow> nat" where
  "pg_ofs va = unat (uintptr va AND PGMASK)"

definition pg_no :: "ptr \<Rightarrow> nat" where
  "pg_no va = unat (drop_bit PGBITS (uintptr va))"

definition pg_round_up :: "ptr \<Rightarrow> ptr" where
  "pg_round_up va = unat ((uintptr va + word_of_nat PGSIZE - 1) AND NOT PGMASK)"

definition pg_round_down :: "ptr \<Rightarrow> ptr" where
  "pg_round_down va = unat (uintptr va AND NOT PGMASK)"

definition is_user_vaddr :: "ptr \<Rightarrow> bool" where
  "is_user_vaddr va \<longleftrightarrow> va < PHYS_BASE"

definition is_kernel_vaddr :: "ptr \<Rightarrow> bool" where
  "is_kernel_vaddr va \<longleftrightarrow> PHYS_BASE \<le> va"

definition ptov :: "u32 \<Rightarrow> ptr option" where
  "ptov paddr = do { ASSERT (unat paddr < PHYS_BASE); Some (unat (paddr + uintptr PHYS_BASE)) }"

definition vtop :: "ptr \<Rightarrow> u32 option" where
  "vtop va = do { ASSERT (is_kernel_vaddr va); Some (uintptr va - uintptr PHYS_BASE) }"

section \<open>Page directory and page table entries\<close>

definition pt_no :: "ptr \<Rightarrow> nat" where
  "pt_no va = unat (drop_bit PTSHIFT (uintptr va AND PTMASK))"

definition pd_no :: "ptr \<Rightarrow> nat" where
  "pd_no va = unat (drop_bit PDSHIFT (uintptr va))"

abbreviation (input) PTE_ADDR :: u32 where "PTE_ADDR \<equiv> 0xfffff000"
abbreviation (input) PTE_P :: u32 where "PTE_P \<equiv> 0x1"
abbreviation (input) PTE_W :: u32 where "PTE_W \<equiv> 0x2"
abbreviation (input) PTE_U :: u32 where "PTE_U \<equiv> 0x4"
abbreviation (input) PTE_A :: u32 where "PTE_A \<equiv> 0x20"
abbreviation (input) PTE_D :: u32 where "PTE_D \<equiv> 0x40"

definition pde_create :: "ptr \<Rightarrow> u32 option" where
  "pde_create pt = do {
     ASSERT (pg_ofs pt = 0);
     p \<leftarrow> vtop pt;
     Some (p OR PTE_U OR PTE_P OR PTE_W) }"

definition pde_get_pt :: "u32 \<Rightarrow> ptr option" where
  "pde_get_pt pde = do {
     ASSERT (pde AND PTE_P \<noteq> 0);
     ptov (pde AND PTE_ADDR) }"

definition pte_create_kernel :: "ptr \<Rightarrow> bool \<Rightarrow> u32 option" where
  "pte_create_kernel page writable = do {
     ASSERT (pg_ofs page = 0);
     p \<leftarrow> vtop page;
     Some (p OR PTE_P OR (if writable then PTE_W else 0)) }"

definition pte_create_user :: "ptr \<Rightarrow> bool \<Rightarrow> u32 option" where
  "pte_create_user page writable = do {
     e \<leftarrow> pte_create_kernel page writable;
     Some (e OR PTE_U) }"

definition pte_get_page :: "u32 \<Rightarrow> ptr option" where
  "pte_get_page pte = ptov (pte AND PTE_ADDR)"

text \<open>Words in memory, least significant byte first.\<close>

definition load32 :: "mem \<Rightarrow> ptr \<Rightarrow> u32" where
  "load32 m a = hd (bytes_u32s (map m [a, a + 1, a + 2, a + 3]))"

definition store32 :: "mem \<Rightarrow> ptr \<Rightarrow> u32 \<Rightarrow> mem" where
  "store32 m a w = (\<lambda>x. if a \<le> x \<and> x < a + 4 then u32_bytes w ! (x - a) else m x)"

section \<open>Address arithmetic\<close>

lemma PGMASK_eq: "PGMASK = mask 12"
  by (simp add: PGMASK_def BITMASK_def mask_eq_exp_minus_1)

lemma PTMASK_eq: "PTMASK = push_bit 12 (mask 10)"
  by (simp add: PTMASK_def BITMASK_def mask_eq_exp_minus_1)

lemma unat_uintptr: "p < 2 ^ 32 \<Longrightarrow> unat (uintptr p) = p"
  by (simp add: uintptr_def unsigned_of_nat take_bit_nat_eq_self)

lemma uintptr_unat [simp]: "uintptr (unat w) = w"
  by (simp add: uintptr_def)

lemma and_PGMASK: "w AND PGMASK = w mod 4096"
  by (simp add: PGMASK_eq take_bit_eq_mask [symmetric] take_bit_eq_mod)

lemma pg_ofs_eq: "va < 2 ^ 32 \<Longrightarrow> pg_ofs va = va mod 4096"
  by (simp add: pg_ofs_def and_PGMASK unat_mod unat_uintptr)

lemma pg_no_eq: "va < 2 ^ 32 \<Longrightarrow> pg_no va = va div 4096"
  by (simp add: pg_no_def drop_bit_eq_div unat_div unat_uintptr)

lemma pd_no_eq: "va < 2 ^ 32 \<Longrightarrow> pd_no va = va div 2 ^ 22"
  by (simp add: pd_no_def drop_bit_eq_div unat_div unat_uintptr)

lemma pt_no_eq: "va < 2 ^ 32 \<Longrightarrow> pt_no va = va div 4096 mod 1024"
proof -
  assume va: "va < 2 ^ 32"
  have "drop_bit 12 (uintptr va AND PTMASK) = take_bit 10 (drop_bit 12 (uintptr va))"
    by (rule bit_eqI) (auto simp: PTMASK_eq bit_simps)
  then show ?thesis using va
    by (simp add: pt_no_def take_bit_eq_mod drop_bit_eq_div unat_div unat_mod unat_uintptr)
qed

lemma word_round_down: "w AND NOT PGMASK = w - w mod 4096" for w :: u32
proof -
  have "(w AND NOT PGMASK) + (w AND PGMASK) = (w AND NOT PGMASK) OR (w AND PGMASK)"
    by (rule disjunctive_add) (simp add: bit_simps)
  also have "\<dots> = w" by (rule bit_eqI) (auto simp: bit_simps)
  finally show ?thesis by (metis add_diff_cancel_right' and_PGMASK)
qed

lemma unat_round_down: "unat (w - w mod 4096) = unat w - unat w mod 4096" for w :: u32
proof -
  have "w mod 4096 \<le> w" by (simp add: word_le_nat_alt unat_mod)
  then show ?thesis by (simp add: unat_sub unat_mod)
qed

lemma pg_round_down_eq: "va < 2 ^ 32 \<Longrightarrow> pg_round_down va = va - va mod 4096"
  by (simp add: pg_round_down_def word_round_down unat_round_down unat_uintptr)

lemma vtop_eq: "PHYS_BASE \<le> va \<Longrightarrow> va < 2 ^ 32 \<Longrightarrow> vtop va = Some (uintptr (va - PHYS_BASE))"
  by (simp add: vtop_def is_kernel_vaddr_def uintptr_def of_nat_diff)

lemma ptov_eq: "unat p < 2 ^ 30 \<Longrightarrow> ptov p = Some (unat p + PHYS_BASE)"
proof -
  assume p: "unat p < 2 ^ 30"
  then have "unat (p + uintptr PHYS_BASE) = unat p + PHYS_BASE"
    by (simp add: unat_word_ariths uintptr_def)
  then show ?thesis using p by (simp add: ptov_def)
qed

section \<open>Entries\<close>

lemma PTE_ADDR_eq: "(PTE_ADDR :: u32) = NOT PGMASK"
  by (simp add: PGMASK_def BITMASK_def)

lemma aligned_word: "va < 2 ^ 32 \<Longrightarrow> va mod 4096 = 0 \<Longrightarrow> uintptr va AND PGMASK = 0"
  by (simp add: and_PGMASK word_unat_eq_iff unat_mod unat_uintptr)

lemma entry_parts:
  fixes q f :: u32
  assumes q: "q AND PGMASK = 0" and f: "f AND NOT PGMASK = 0"
  shows "(q OR f) AND PTE_ADDR = q" and "(q OR f) AND PGMASK = f"
proof -
  have qb: "\<not> (bit q n \<and> bit PGMASK n)" for n using q by (metis bit_0_eq bit_and_iff bot_apply bot_bool_def)
  have fb: "\<not> (bit f n \<and> \<not> bit PGMASK n \<and> n < 32)" for n
    using arg_cong [OF f, of "\<lambda>w. bit w n"] by (auto simp: bit_simps)
  show "(q OR f) AND PTE_ADDR = q"
    unfolding PTE_ADDR_eq by (rule bit_word_eqI) (use qb fb in \<open>auto simp: bit_simps\<close>)
  show "(q OR f) AND PGMASK = f"
    by (rule bit_word_eqI) (use qb fb in \<open>auto simp: bit_simps\<close>)
qed

text \<open>A page of the kernel's address space.\<close>

definition is_kpage :: "ptr \<Rightarrow> bool" where
  "is_kpage p \<longleftrightarrow> PHYS_BASE \<le> p \<and> p < 2 ^ 32 \<and> p mod 4096 = 0"

lemma is_kpage_word:
  assumes "is_kpage p"
  shows "vtop p = Some (uintptr (p - PHYS_BASE))" and "uintptr (p - PHYS_BASE) AND PGMASK = 0"
    and "ptov (uintptr (p - PHYS_BASE)) = Some p" and "pg_ofs p = 0"
    and "unat (uintptr (p - PHYS_BASE)) + PHYS_BASE = p"
proof -
  have p: "PHYS_BASE \<le> p" "p < 2 ^ 32" "p mod 4096 = 0" using assms by (simp_all add: is_kpage_def)
  then have d: "(p - PHYS_BASE) mod 4096 = 0" by (simp add: mod_eq_0_iff_dvd dvd_diff_nat)
  have u: "unat (uintptr (p - PHYS_BASE)) = p - PHYS_BASE" using p(2) by (simp add: unat_uintptr)
  show "vtop p = Some (uintptr (p - PHYS_BASE))" using p by (simp add: vtop_eq)
  show "uintptr (p - PHYS_BASE) AND PGMASK = 0" using aligned_word [of "p - PHYS_BASE"] p(2) d by simp
  show "ptov (uintptr (p - PHYS_BASE)) = Some p" using ptov_eq [of "uintptr (p - PHYS_BASE)"] u p by simp
  show "pg_ofs p = 0" using p by (simp add: pg_ofs_eq)
  show "unat (uintptr (p - PHYS_BASE)) + PHYS_BASE = p" using u p by simp
qed

text \<open>The flags of an entry, and the page it points to.\<close>

lemma pde_create_ok:
  assumes "is_kpage pt"
  shows "\<exists>e. pde_create pt = Some e \<and> e \<noteq> 0 \<and> e AND PGMASK = 7 \<and> pde_get_pt e = Some pt \<and>
    unat (e AND PTE_ADDR) + PHYS_BASE = pt"
proof -
  let ?q = "uintptr (pt - PHYS_BASE)"
  have f: "(?q OR 7) AND PTE_ADDR = ?q" "(?q OR 7) AND PGMASK = 7"
    using entry_parts [OF is_kpage_word(2) [OF assms], of 7] by (simp_all add: PGMASK_def BITMASK_def)
  have P: "(?q OR 7) AND 1 = 1" by (simp add: bit.conj_disj_distrib2)
  have e: "pde_create pt = Some (?q OR 7)"
    using is_kpage_word [OF assms] by (simp add: pde_create_def or.assoc)
  have "pde_get_pt (?q OR 7) = Some pt" using f(1) P is_kpage_word(3) [OF assms] by (simp add: pde_get_pt_def)
  moreover have "?q OR 7 \<noteq> 0" by (rule notI) (use P in simp)
  moreover have "unat ((?q OR 7) AND PTE_ADDR) + PHYS_BASE = pt" unfolding f(1) by (rule is_kpage_word(5) [OF assms])
  ultimately show ?thesis using e f(2) by blast
qed

lemma pte_create_user_ok:
  assumes "is_kpage p"
  shows "\<exists>e. pte_create_user p w = Some e \<and> e AND PGMASK = (if w then 7 else 5) \<and> pte_get_page e = Some p \<and>
    unat (e AND PTE_ADDR) + PHYS_BASE = p"
proof -
  let ?q = "uintptr (p - PHYS_BASE)" and ?f = "if w then 7 else 5 :: u32"
  have f: "(?q OR ?f) AND PTE_ADDR = ?q" "(?q OR ?f) AND PGMASK = ?f"
    using entry_parts [OF is_kpage_word(2) [OF assms], of ?f] by (simp_all add: PGMASK_def BITMASK_def)
  have "pte_create_user p w = Some (?q OR ?f)"
    using is_kpage_word [OF assms] by (simp add: pte_create_user_def pte_create_kernel_def or.assoc)
  then show ?thesis using f is_kpage_word(3,5) [OF assms] by (simp add: pte_get_page_def)
qed

section \<open>Words in memory\<close>

lemma load32_store32 [simp]: "load32 (store32 m a w) a = w"
proof -
  have "map (store32 m a w) [a, a + 1, a + 2, a + 3] = u32_bytes w"
    by (simp add: store32_def u32_bytes_def)
  then show ?thesis using bytes_u32s_u32_bytes [of w "[]"] by (simp add: load32_def)
qed

lemma load32_cong: "(\<And>x. a \<le> x \<Longrightarrow> x < a + 4 \<Longrightarrow> m x = m' x) \<Longrightarrow> load32 m a = load32 m' a"
  by (simp add: load32_def)

lemma load32_store32_other: "b + 4 \<le> a \<or> a + 4 \<le> b \<Longrightarrow> load32 (store32 m a w) b = load32 m b"
  by (rule load32_cong) (auto simp: store32_def)

lemma store32_other: "x < a \<or> a + 4 \<le> x \<Longrightarrow> store32 m a w x = m x"
  by (auto simp: store32_def)

lemma load32_zero: "(\<And>x. a \<le> x \<Longrightarrow> x < a + 4 \<Longrightarrow> m x = 0) \<Longrightarrow> load32 m a = 0"
  by (simp add: load32_def)

lemma memset_loop_apply:
  "memset_loop dst v n m x = (if dst \<le> x \<and> x < dst + n then v else m x)"
  by (induction n arbitrary: dst m) auto

end
