(* ===== verification/Palloc.thy ===== *)
theory Palloc
  imports Vaddr
begin

text \<open>
  The page allocator: \<^verbatim>\<open>threads/palloc.c\<close>. The two pools hand out pages of
  the memory \<open>ram\<close>. The bitmap of a pool lies in the pages before its base; the model
  keeps its words in \<open>used_map\<close>. Each operation holds the lock of its pool or touches a
  single bit at a time, and is one step. The record is open: the components that own more
  state extend it.
\<close>

section \<open>State and operations\<close>

record pool =
  used_map :: bitmap
  base :: ptr

record palloc =
  kernel_pool :: pool
  user_pool :: pool
  ram :: mem

abbreviation (input) PAL_ASSERT :: u32 where "PAL_ASSERT \<equiv> 1"
abbreviation (input) PAL_ZERO :: u32 where "PAL_ZERO \<equiv> 2"
abbreviation (input) PAL_USER :: u32 where "PAL_USER \<equiv> 4"

definition page_from_pool :: "pool \<Rightarrow> ptr \<Rightarrow> bool" where
  "page_from_pool p page =
     (let page_no = pg_no page; start_page = pg_no (base p);
          end_page = size_add start_page (bitmap_size (used_map p))
      in start_page \<le> page_no \<and> page_no < end_page)"

text \<open>The words of the buffer the bitmap is created in, after its 8-byte header.\<close>

definition buf_words :: "mem \<Rightarrow> ptr \<Rightarrow> nat \<Rightarrow> u32 list" where
  "buf_words m a n = map (\<lambda>i. load32 m (a + 8 + 4 * i)) [0..<n]"

definition init_pool :: "mem \<Rightarrow> ptr \<Rightarrow> nat \<Rightarrow> pool option" where
  "init_pool m start page_cnt = do {
     let bm_pages = DIV_ROUND_UP (bitmap_buf_size page_cnt) PGSIZE;
     ASSERT (bm_pages \<le> page_cnt);
     let page_cnt = page_cnt - bm_pages;
     b \<leftarrow> bitmap_create_in_buf page_cnt (buf_words m start (elem_cnt page_cnt)) (size_mul bm_pages PGSIZE);
     Some \<lparr>used_map = b, base = size_add start (size_mul bm_pages PGSIZE)\<rparr> }"

definition palloc_init :: "nat \<Rightarrow> nat \<Rightarrow> 'a palloc_scheme \<Rightarrow> 'a palloc_scheme option" where
  "palloc_init init_ram_pages user_page_limit s = do {
     free_start \<leftarrow> ptov (word_of_nat (1024 * 1024));
     free_end \<leftarrow> ptov (word_of_nat (size_mul init_ram_pages PGSIZE));
     let free_pages = size_sub free_end free_start div PGSIZE;
     let user_pages = free_pages div 2;
     let user_pages = (if user_page_limit < user_pages then user_page_limit else user_pages);
     let kernel_pages = free_pages - user_pages;
     k \<leftarrow> init_pool (ram s) free_start kernel_pages;
     u \<leftarrow> init_pool (ram s) (size_add free_start (size_mul kernel_pages PGSIZE)) user_pages;
     Some (s\<lparr>kernel_pool := k, user_pool := u\<rparr>) }"

text \<open>The pool that flags select (\<open>True\<close>: the user pool).\<close>

definition pool_of :: "bool \<Rightarrow> 'a palloc_scheme \<Rightarrow> pool" where
  "pool_of u s = (if u then user_pool s else kernel_pool s)"

definition set_map :: "bool \<Rightarrow> bitmap \<Rightarrow> 'a palloc_scheme \<Rightarrow> 'a palloc_scheme" where
  "set_map u b s =
     (if u then s\<lparr>user_pool := (user_pool s)\<lparr>used_map := b\<rparr>\<rparr>
      else s\<lparr>kernel_pool := (kernel_pool s)\<lparr>used_map := b\<rparr>\<rparr>)"

definition palloc_get_multiple :: "u32 \<Rightarrow> nat \<Rightarrow> 'a palloc_scheme \<Rightarrow> (ptr \<times> 'a palloc_scheme) option" where
  "palloc_get_multiple flags page_cnt s =
     (let u = (flags AND PAL_USER \<noteq> 0) in
      if page_cnt = 0 then Some (NULL, s)
      else do {
        (page_idx, b) \<leftarrow> bitmap_scan_and_flip (used_map (pool_of u s)) 0 page_cnt False;
        let s = set_map u b s;
        let pages = (if page_idx \<noteq> BITMAP_ERROR then size_add (base (pool_of u s)) (size_mul PGSIZE page_idx)
                     else NULL);
        if pages \<noteq> NULL then
          if flags AND PAL_ZERO \<noteq> 0 then do {
            (_, m) \<leftarrow> memset pages 0 (size_mul PGSIZE page_cnt) (ram s);
            Some (pages, s\<lparr>ram := m\<rparr>) }
          else Some (pages, s)
        else do { ASSERT (flags AND PAL_ASSERT = 0); Some (pages, s) } })"

definition palloc_get_page :: "u32 \<Rightarrow> 'a palloc_scheme \<Rightarrow> (ptr \<times> 'a palloc_scheme) option" where
  "palloc_get_page flags s = palloc_get_multiple flags 1 s"

definition palloc_free_multiple :: "ptr \<Rightarrow> nat \<Rightarrow> 'a palloc_scheme \<Rightarrow> 'a palloc_scheme option" where
  "palloc_free_multiple pages page_cnt s = do {
     ASSERT (pg_ofs pages = 0);
     if pages = NULL \<or> page_cnt = 0 then Some s
     else do {
       u \<leftarrow> (if page_from_pool (kernel_pool s) pages then Some False
             else if page_from_pool (user_pool s) pages then Some True else None);
       let page_idx = size_sub (pg_no pages) (pg_no (base (pool_of u s)));
       (_, m) \<leftarrow> memset pages 0xcc (size_mul PGSIZE page_cnt) (ram s);
       all_used \<leftarrow> bitmap_all (used_map (pool_of u s)) page_idx page_cnt;
       ASSERT all_used;
       b \<leftarrow> bitmap_set_multiple (used_map (pool_of u s)) page_idx page_cnt False;
       Some (set_map u b (s\<lparr>ram := m\<rparr>)) } }"

definition palloc_free_page :: "ptr \<Rightarrow> 'a palloc_scheme \<Rightarrow> 'a palloc_scheme option" where
  "palloc_free_page page s = palloc_free_multiple page 1 s"

section \<open>Invariant\<close>

definition pool_ok :: "pool \<Rightarrow> bool" where
  "pool_ok p \<longleftrightarrow> bm_ok (used_map p) \<and> base p mod 4096 = 0 \<and> PHYS_BASE \<le> base p \<and>
     base p + 4096 * bit_cnt (used_map p) \<le> 2 ^ 32"

text \<open>There is at least one page, that of the user pool's bitmap, between the pools.\<close>

definition palloc_ok :: "'a palloc_scheme \<Rightarrow> bool" where
  "palloc_ok s \<longleftrightarrow> pool_ok (kernel_pool s) \<and> pool_ok (user_pool s) \<and>
     base (kernel_pool s) + 4096 * bit_cnt (used_map (kernel_pool s)) < base (user_pool s)"

text \<open>Pages by number: those of a pool, and those in use.\<close>

definition pool_pages :: "pool \<Rightarrow> nat set" where
  "pool_pages p = {base p div 4096 ..< base p div 4096 + bit_cnt (used_map p)}"

definition pool_used :: "pool \<Rightarrow> nat set" where
  "pool_used p = (\<lambda>i. base p div 4096 + i) ` bm_used (used_map p)"

definition pages_used :: "'a palloc_scheme \<Rightarrow> nat set" where
  "pages_used s = pool_used (kernel_pool s) \<union> pool_used (user_pool s)"

section \<open>Lemmas\<close>

lemma pool_of_set_map:
  "pool_of v (set_map u b s) = (if v = u then (pool_of u s)\<lparr>used_map := b\<rparr> else pool_of v s)"
  "ram (set_map u b s) = ram s"
  by (auto simp: pool_of_def set_map_def)

lemma pool_of_ram [simp]: "pool_of v (s\<lparr>ram := m\<rparr>) = pool_of v s"
  by (simp add: pool_of_def)

lemma set_map_same: "set_map u (used_map (pool_of u s)) s = s"
  by (simp add: set_map_def pool_of_def)

lemma palloc_ok_pools: "palloc_ok s \<Longrightarrow> pool_ok (pool_of u s)"
  by (simp add: palloc_ok_def pool_of_def)

lemma palloc_ok_iff:
  "palloc_ok s \<longleftrightarrow> pool_ok (pool_of False s) \<and> pool_ok (pool_of True s) \<and>
     base (pool_of False s) + 4096 * bit_cnt (used_map (pool_of False s)) < base (pool_of True s)"
  by (simp add: palloc_ok_def pool_of_def)

lemma palloc_ok_set_map:
  "palloc_ok s \<Longrightarrow> bm_ok b \<Longrightarrow> bit_cnt b = bit_cnt (used_map (pool_of u s)) \<Longrightarrow> palloc_ok (set_map u b s)"
  by (cases u) (simp_all add: palloc_ok_iff pool_of_set_map pool_ok_def)

lemma palloc_ok_ram [simp]: "palloc_ok (s\<lparr>ram := m\<rparr>) = palloc_ok s"
  by (simp add: palloc_ok_def)

lemma pages_used_eq: "pages_used s = pool_used (pool_of u s) \<union> pool_used (pool_of (\<not> u) s)"
  by (cases u) (auto simp: pages_used_def pool_of_def)

lemma pool_used_pages: "pool_used p \<subseteq> pool_pages p"
  by (auto simp: pool_used_def pool_pages_def bm_used_def)

lemma pools_disjoint:
  assumes "palloc_ok s"
  shows "pool_pages (pool_of u s) \<inter> pool_pages (pool_of (\<not> u) s) = {}"
proof -
  have b: "base (pool_of False s) + 4096 * bit_cnt (used_map (pool_of False s)) \<le> base (pool_of True s)"
    "base (pool_of False s) mod 4096 = 0"
    using assms by (simp_all add: palloc_ok_iff pool_ok_def)
  then have "base (pool_of False s) div 4096 + bit_cnt (used_map (pool_of False s)) \<le> base (pool_of True s) div 4096"
    by (metis (no_types, lifting) add.commute div_le_mono div_mult_self2 zero_neq_numeral)
  then have "pool_pages (pool_of False s) \<inter> pool_pages (pool_of True s) = {}"
    by (auto simp: pool_pages_def)
  then show ?thesis by (cases u) (simp_all add: Int_commute)
qed

text \<open>The address of a page of a pool.\<close>

lemma pool_addr:
  assumes "pool_ok p" and "i + n \<le> bit_cnt (used_map p)"
  shows "base p + 4096 * i = 4096 * (base p div 4096 + i)" and "base p + 4096 * (i + n) \<le> 2 ^ 32"
    and "n \<noteq> 0 \<Longrightarrow> size_add (base p) (size_mul PGSIZE i) = base p + 4096 * i"
    and "size_mul PGSIZE n = 4096 * n"
proof -
  have p: "base p mod 4096 = 0" "base p + 4096 * bit_cnt (used_map p) \<le> 2 ^ 32" "PHYS_BASE \<le> base p"
    using assms(1) by (simp_all add: pool_ok_def)
  show "base p + 4096 * i = 4096 * (base p div 4096 + i)" using p(1) by auto
  have "4096 * (i + n) \<le> 4096 * bit_cnt (used_map p)" using assms(2) by simp
  then show le: "base p + 4096 * (i + n) \<le> 2 ^ 32" using p(2) by simp
  show "size_mul PGSIZE n = 4096 * n" using le p(3) by (intro size_mul_id) (simp add: add_mult_distrib2)
  assume "n \<noteq> 0"
  then show "size_add (base p) (size_mul PGSIZE i) = base p + 4096 * i"
    using le p(3) by (simp add: size_mul_id size_add_id)
qed

definition zeroed :: "bool \<Rightarrow> nat \<Rightarrow> nat \<Rightarrow> mem \<Rightarrow> mem" where
  "zeroed z k n m = (\<lambda>x. if z \<and> 4096 * k \<le> x \<and> x < 4096 * (k + n) then 0 else m x)"

lemma zeroed_simps: "zeroed False k n m = m" "memset_loop (4096 * k) 0 (4096 * n) m = zeroed True k n m"
  by (simp_all add: zeroed_def memset_loop_apply fun_eq_iff add_mult_distrib2)

lemma set_map_ram [simp]: "(set_map u b s)\<lparr>ram := ram s\<rparr> = set_map u b s"
  by (simp add: set_map_def)

lemma pool_used_set:
  assumes "bm_used b = bm_used (used_map p) \<union> slots (i, n)"
  shows "pool_used (p\<lparr>used_map := b\<rparr>) = pool_used p \<union> slots (base p div 4096 + i, n)"
proof -
  have "(\<lambda>i. base p div 4096 + i) ` slots (i, n) = slots (base p div 4096 + i, n)"
    by (simp add: slots_def image_add_atLeastLessThan ac_simps)
  then show ?thesis using assms by (simp add: pool_used_def image_Un)
qed

lemma slots_pool_pages:
  "slots (base p div 4096 + i, n) \<subseteq> pool_pages p" if "i + n \<le> bit_cnt (used_map p)"
  using that by (auto simp: slots_def pool_pages_def)

lemma slots_pool_free:
  assumes "slots (i, n) \<inter> bm_used (used_map p) = {}"
  shows "slots (base p div 4096 + i, n) \<inter> pool_used p = {}"
  using assms by (auto simp: slots_def pool_used_def)

definition got_pages :: "bool \<Rightarrow> bool \<Rightarrow> nat \<Rightarrow> 'a palloc_scheme \<Rightarrow> nat \<Rightarrow> 'a palloc_scheme \<Rightarrow> bool" where
  "got_pages u z n s k s' \<longleftrightarrow> 0 < k \<and> palloc_ok s' \<and> slots (k, n) \<subseteq> pool_pages (pool_of u s) \<and>
     slots (k, n) \<inter> pages_used s = {} \<and> pages_used s' = pages_used s \<union> slots (k, n) \<and>
     pool_used (pool_of u s') = pool_used (pool_of u s) \<union> slots (k, n) \<and>
     pool_of (\<not> u) s' = pool_of (\<not> u) s \<and>
     (\<forall>v. pool_pages (pool_of v s') = pool_pages (pool_of v s)) \<and>
     (\<exists>K U. s' = s\<lparr>kernel_pool := K, user_pool := U, ram := zeroed z k n (ram s)\<rparr>)"

lemma got_pagesI:
  assumes ok: "palloc_ok s" and n: "n \<noteq> 0" and i: "i + n \<le> bit_cnt (used_map (pool_of u s))"
    and fr: "slots (i, n) \<inter> bm_used (used_map (pool_of u s)) = {}"
    and b: "bm_ok b" "bit_cnt b = bit_cnt (used_map (pool_of u s))"
      "bm_used b = bm_used (used_map (pool_of u s)) \<union> slots (i, n)"
    and k: "k = base (pool_of u s) div 4096 + i"
  shows "got_pages u z n s k ((set_map u b s)\<lparr>ram := zeroed z k n (ram s)\<rparr>)"
proof -
  let ?p = "pool_of u s" and ?s = "(set_map u b s)\<lparr>ram := zeroed z k n (ram s)\<rparr>"
  have po: "pool_of u ?s = ?p\<lparr>used_map := b\<rparr>" "pool_of (\<not> u) ?s = pool_of (\<not> u) s"
    by (simp_all add: pool_of_set_map)
  have u: "pool_used (pool_of u ?s) = pool_used ?p \<union> slots (k, n)"
    using pool_used_set [OF b(3)] po k by simp
  have sub: "slots (k, n) \<subseteq> pool_pages ?p" using slots_pool_pages [OF i] k by simp
  have "slots (k, n) \<inter> pool_used (pool_of (\<not> u) s) = {}"
    using sub pools_disjoint [OF ok, of u] pool_used_pages [of "pool_of (\<not> u) s"] by blast
  moreover have "slots (k, n) \<inter> pool_used ?p = {}" using slots_pool_free [OF fr] k by simp
  ultimately have free: "slots (k, n) \<inter> pages_used s = {}" by (auto simp: pages_used_eq [of s u])
  have "pages_used ?s = pages_used s \<union> slots (k, n)"
    unfolding pages_used_eq [of ?s u] pages_used_eq [of s u] u po(2) by blast
  moreover have "pool_pages (pool_of v ?s) = pool_pages (pool_of v s)" for v
    using b(2) by (simp add: pool_of_set_map pool_pages_def)
  moreover have "0 < k" using palloc_ok_pools [OF ok, of u] k by (simp add: pool_ok_def div_greater_zero_iff)
  moreover have "palloc_ok ?s" using palloc_ok_set_map [OF ok b(1,2)] by simp
  moreover have "\<exists>K U. ?s = s\<lparr>kernel_pool := K, user_pool := U, ram := zeroed z k n (ram s)\<rparr>"
    by (cases u; intro exI [of _ "kernel_pool (set_map u b s)"] exI [of _ "user_pool (set_map u b s)"])
      (simp_all add: set_map_def)
  ultimately show ?thesis unfolding got_pages_def using sub free u po(2) by simp
qed


definition no_run :: "bool \<Rightarrow> nat \<Rightarrow> 'a palloc_scheme \<Rightarrow> bool" where
  "no_run u n s \<longleftrightarrow> (\<forall>k. slots (k, n) \<subseteq> pool_pages (pool_of u s) \<longrightarrow> slots (k, n) \<inter> pages_used s \<noteq> {})"

lemma no_group_no_run:
  assumes ok: "palloc_ok s" and n: "n \<noteq> 0" and g: "no_group (bm_bits (used_map (pool_of u s))) 0 n False"
  shows "no_run u n s"
  unfolding no_run_def
proof (intro allI impI)
  let ?p = "pool_of u s"
  fix k
  assume sub: "slots (k, n) \<subseteq> pool_pages ?p"
  have "k \<in> slots (k, n)" "k + n - 1 \<in> slots (k, n)" using n by (auto simp: slots_def)
  then have k: "base ?p div 4096 \<le> k" "k + n - 1 < base ?p div 4096 + bit_cnt (used_map ?p)"
    using sub by (auto simp: pool_pages_def)
  define i where "i = k - base ?p div 4096"
  have i: "i + n \<le> bit_cnt (used_map ?p)" "k = base ?p div 4096 + i" using k n by (auto simp: i_def)
  then obtain j where j: "j < n" "bm_bits (used_map ?p) ! (i + j)"
    using g unfolding no_group_def range_eq_def by auto
  then have "i + j \<in> bm_used (used_map ?p)" using i(1) by (simp add: bm_used_def)
  then have "k + j \<in> pages_used s" using i(2) by (auto simp: pool_used_def pages_used_eq [of s u])
  moreover have "k + j \<in> slots (k, n)" using j(1) by (simp add: slots_def)
  ultimately show "slots (k, n) \<inter> pages_used s \<noteq> {}" by blast
qed

lemma palloc_get_multiple_ok:
  assumes ok: "palloc_ok s" and n: "n \<noteq> 0" and u: "u = (flags AND PAL_USER \<noteq> 0)"
  shows "(\<exists>k s'. palloc_get_multiple flags n s = Some (4096 * k, s') \<and> got_pages u (flags AND PAL_ZERO \<noteq> 0) n s k s') \<or>
    palloc_get_multiple flags n s = (if flags AND PAL_ASSERT = 0 then Some (NULL, s) else None) \<and> no_run u n s"
proof -
  let ?p = "pool_of u s"
  note p = palloc_ok_pools [OF ok, of u]
  have bm: "bm_ok (used_map ?p)" using p by (simp add: pool_ok_def)
  consider (found) i b where "bitmap_scan_and_flip (used_map ?p) 0 n False = Some (i, b)" "i \<noteq> BITMAP_ERROR"
      "first_group (bm_bits (used_map ?p)) 0 n False i" "bm_ok b" "bit_cnt b = bit_cnt (used_map ?p)"
      "bm_alloc (used_map ?p) () n = Some (Some i, b)"
    | (none) "bitmap_scan_and_flip (used_map ?p) 0 n False = Some (BITMAP_ERROR, used_map ?p)"
      "no_group (bm_bits (used_map ?p)) 0 n False"
    using bitmap_scan_and_flip_ok [OF bm, of 0 n False] by (auto simp: bm_alloc_def)
  then show ?thesis
  proof cases
    case found
    have law: "i + n \<le> bit_cnt (used_map ?p)" "slots (i, n) \<inter> bm_used (used_map ?p) = {}"
      "bm_used b = bm_used (used_map ?p) \<union> slots (i, n)"
      using bm_alloc_law [OF bm, of "()" n] found(6) by auto
    define k where "k = base ?p div 4096 + i"
    note ad = pool_addr [OF p law(1)]
    have a: "size_add (base ?p) (size_mul PGSIZE i) = 4096 * k" using ad(1,3) n by (simp add: k_def)
    note g = got_pagesI [OF ok n law(1,2) found(4,5) law(3) k_def]
    have k0: "0 < k" using g by (simp add: got_pages_def)
    have "palloc_get_multiple flags n s = Some (4096 * k, (set_map u b s)\<lparr>ram := zeroed (flags AND PAL_ZERO \<noteq> 0) k n (ram s)\<rparr>)"
      using found(1,2) a k0 n ad(4)
      by (cases "flags AND PAL_ZERO = 0")
        (simp_all add: palloc_get_multiple_def Let_def u [symmetric] pool_of_set_map memset_def zeroed_simps)
    then show ?thesis using g by blast
  next
    case none
    have "palloc_get_multiple flags n s = (if flags AND PAL_ASSERT = 0 then Some (NULL, s) else None)"
      using none(1) n u by (simp add: palloc_get_multiple_def Let_def set_map_same)
    then show ?thesis using no_group_no_run [OF ok n none(2)] by simp
  qed
qed


section \<open>Freeing\<close>

definition freed_pages :: "bool \<Rightarrow> nat \<Rightarrow> 'a palloc_scheme \<Rightarrow> nat \<Rightarrow> 'a palloc_scheme \<Rightarrow> bool" where
  "freed_pages u n s k s' \<longleftrightarrow> palloc_ok s' \<and> pages_used s' = pages_used s - slots (k, n) \<and>
     pool_used (pool_of u s') = pool_used (pool_of u s) - slots (k, n) \<and>
     pool_of (\<not> u) s' = pool_of (\<not> u) s \<and>
     (\<forall>v. pool_pages (pool_of v s') = pool_pages (pool_of v s)) \<and>
     (\<exists>K U. s' = s\<lparr>kernel_pool := K, user_pool := U, ram := memset_loop (4096 * k) 0xcc (4096 * n) (ram s)\<rparr>)"

lemma page_from_pool_iff:
  assumes "pool_ok p" and "k < 2 ^ 20"
  shows "page_from_pool p (4096 * k) \<longleftrightarrow> k \<in> pool_pages p"
proof -
  have p: "base p mod 4096 = 0" "base p + 4096 * bit_cnt (used_map p) \<le> 2 ^ 32" "bm_ok (used_map p)" "PHYS_BASE \<le> base p"
    using assms(1) by (simp_all add: pool_ok_def)
  have "base p \<le> 2 ^ 32" using p(2) by simp
  show ?thesis
  proof (cases "base p = 2 ^ 32")
    case True
    then have "bit_cnt (used_map p) = 0" using p(2) by simp
    then show ?thesis using True assms(2)
      by (simp add: page_from_pool_def pool_pages_def Let_def bitmap_size_def pg_no_eq size_add_def)
  next
    case False
    then have b: "base p < 2 ^ 32" using p(2) by simp
    have "base p div 4096 + bit_cnt (used_map p) < 2 ^ 32"
      using p(2,3) b by (auto simp: bm_ok_def)
    then show ?thesis using b assms(2)
      by (simp add: page_from_pool_def pool_pages_def Let_def bitmap_size_def pg_no_eq size_add_id)
  qed
qed

lemma freed_pagesI:
  assumes ok: "palloc_ok s" and n: "n \<noteq> 0" and sub: "slots (k, n) \<subseteq> pool_used (pool_of u s)"
    and b: "bm_ok b" "bit_cnt b = bit_cnt (used_map (pool_of u s))"
      "bm_used b = bm_used (used_map (pool_of u s)) - slots (i, n)"
    and k: "k = base (pool_of u s) div 4096 + i"
  shows "freed_pages u n s k (set_map u b (s\<lparr>ram := memset_loop (4096 * k) 0xcc (4096 * n) (ram s)\<rparr>))"
proof -
  let ?p = "pool_of u s" and ?s = "set_map u b (s\<lparr>ram := memset_loop (4096 * k) 0xcc (4096 * n) (ram s)\<rparr>)"
  have po: "pool_of u ?s = ?p\<lparr>used_map := b\<rparr>" "pool_of (\<not> u) ?s = pool_of (\<not> u) s"
    by (simp_all add: pool_of_set_map)
  have "(\<lambda>i. base ?p div 4096 + i) ` slots (i, n) = slots (k, n)"
    by (simp add: slots_def image_add_atLeastLessThan ac_simps k)
  then have u: "pool_used (pool_of u ?s) = pool_used ?p - slots (k, n)"
    using b(3) po(1) by (simp add: pool_used_def image_set_diff)
  have "slots (k, n) \<inter> pool_used (pool_of (\<not> u) s) = {}"
    using sub pools_disjoint [OF ok, of u] pool_used_pages [of "pool_of u s"] pool_used_pages [of "pool_of (\<not> u) s"] by blast
  then have "pages_used ?s = pages_used s - slots (k, n)"
    unfolding pages_used_eq [of ?s u] pages_used_eq [of s u] u po(2) by blast
  moreover have "pool_pages (pool_of v ?s) = pool_pages (pool_of v s)" for v
    using b(2) by (simp add: pool_of_set_map pool_pages_def)
  moreover have "palloc_ok ?s" using palloc_ok_set_map [of "s\<lparr>ram := _\<rparr>" b u] ok b(1,2) by simp
  moreover have "\<exists>K U. ?s = s\<lparr>kernel_pool := K, user_pool := U, ram := memset_loop (4096 * k) 0xcc (4096 * n) (ram s)\<rparr>"
    by (cases u; intro exI [of _ "kernel_pool ?s"] exI [of _ "user_pool ?s"]) (simp_all add: set_map_def)
  ultimately show ?thesis unfolding freed_pages_def using u po(2) by simp
qed

lemma palloc_free_multiple_ok:
  assumes ok: "palloc_ok s" and n: "n \<noteq> 0" and sub: "slots (k, n) \<subseteq> pool_used (pool_of u s)"
  shows "\<exists>s'. palloc_free_multiple (4096 * k) n s = Some s' \<and> freed_pages u n s k s'"
proof -
  let ?p = "pool_of u s"
  note p = palloc_ok_pools [OF ok, of u]
  have bm: "bm_ok (used_map ?p)" and b0: "PHYS_BASE \<le> base ?p" using p by (simp_all add: pool_ok_def)
  have "k \<in> slots (k, n)" "k + n - 1 \<in> slots (k, n)" using n by (auto simp: slots_def)
  then have k: "k \<in> pool_pages ?p" "k + n - 1 \<in> pool_pages ?p" using sub pool_used_pages by blast+
  define i where "i = k - base ?p div 4096"
  have i: "i + n \<le> bit_cnt (used_map ?p)" "k = base ?p div 4096 + i"
    using k n by (auto simp: i_def pool_pages_def)
  note ad = pool_addr [OF p i(1)]
  have k20: "4096 * k + 4096 * n \<le> 2 ^ 32" using ad(1,2) i(2) by (simp add: add_mult_distrib2)
  have kk: "k < 2 ^ 20" "0 < k" "4096 * k < 2 ^ 32" using k20 n b0 i(2) by auto
  have used: "\<forall>j<n. bm_bits (used_map ?p) ! (i + j)"
  proof (intro allI impI)
    fix j assume "j < n"
    then have "k + j \<in> pool_used ?p" using sub by (auto simp: slots_def)
    then show "bm_bits (used_map ?p) ! (i + j)" using i(2) by (auto simp: pool_used_def bm_used_def)
  qed
  have sel: "(if page_from_pool (kernel_pool s) (4096 * k) then Some False
      else if page_from_pool (user_pool s) (4096 * k) then Some True else None) = Some u"
    using page_from_pool_iff [OF palloc_ok_pools [OF ok, of False] kk(1)]
      page_from_pool_iff [OF palloc_ok_pools [OF ok, of True] kk(1)] k(1) pools_disjoint [OF ok, of u]
    by (cases u) (auto simp: pool_of_def)
  have bb: "base ?p < 2 ^ 32" using ad(2) n by simp
  have idx: "size_sub (pg_no (4096 * k)) (pg_no (base ?p)) = i"
    using kk(1,3) bb i(2) by (simp add: pg_no_eq size_sub_id)
  have all: "bitmap_all (used_map ?p) i n = Some True"
    using bitmap_contains_ok [OF bm i(1), of False] used by (simp add: bitmap_all_def range_eq_def)
  obtain b where b: "bitmap_set_multiple (used_map ?p) i n False = Some b" "bm_ok b"
      "bit_cnt b = bit_cnt (used_map ?p)" "bm_used b = bm_used (used_map ?p) - slots (i, n)"
    using bm_release_law [OF bm i(1)] by (auto simp: bm_release_def)
  let ?s = "set_map u b (s\<lparr>ram := memset_loop (4096 * k) 0xcc (4096 * n) (ram s)\<rparr>)"
  have run: "palloc_free_multiple (4096 * k) n s = Some ?s"
    using sel idx all b(1) kk n ad(4)
    by (simp add: palloc_free_multiple_def pg_ofs_eq Let_def memset_def del: bind_split)
  show ?thesis using run freed_pagesI [OF ok n sub b(2,3,4) i(2)] by blast
qed


text \<open>A run of used pages lies in one pool, because a page that is in no pool lies between them.\<close>

lemma run_in_pool:
  assumes ok: "palloc_ok s" and n: "n \<noteq> 0" and sub: "slots (k, n) \<subseteq> pages_used s"
  shows "\<exists>u. slots (k, n) \<subseteq> pool_used (pool_of u s)"
proof -
  let ?K = "pool_of False s" and ?U = "pool_of True s"
  let ?e = "base ?K div 4096 + bit_cnt (used_map ?K)"
  have lt: "?e < base ?U div 4096"
    using ok by (auto simp: palloc_ok_iff pool_ok_def)
  have used: "pages_used s = pool_used ?K \<union> pool_used ?U" using pages_used_eq [of s False] by simp
  have K: "x < ?e" if "x \<in> pool_used ?K" for x using that pool_used_pages [of ?K] by (auto simp: pool_pages_def)
  have U: "base ?U div 4096 \<le> x" if "x \<in> pool_used ?U" for x
    using that pool_used_pages [of ?U] by (auto simp: pool_pages_def)
  have ne: "?e \<notin> pages_used s" using K [of ?e] U [of ?e] lt used by auto
  have k: "k \<in> pages_used s" using sub n by (auto simp: slots_def)
  show ?thesis
  proof (cases "k < ?e")
    case True
    have "x < ?e" if "x \<in> slots (k, n)" for x
      using ne sub True that by (auto simp: slots_def subset_iff) (meson leI le_less_trans less_imp_le_nat)
    then have "slots (k, n) \<subseteq> pool_used ?K" using sub used U lt by fastforce
    then show ?thesis by blast
  next
    case False
    then have "slots (k, n) \<subseteq> pool_used ?U" using sub used K by (fastforce simp: slots_def)
    then show ?thesis by blast
  qed
qed

lemma pool_pages_bound:
  assumes "pool_ok p" and "k \<in> pool_pages p"
  shows "0xc0000 \<le> k" and "k < 2 ^ 20"
proof -
  obtain q where q: "base p = 4096 * q" using assms(1) by (auto simp: pool_ok_def)
  then show "0xc0000 \<le> k" "k < 2 ^ 20" using assms by (auto simp: pool_ok_def pool_pages_def)
qed

lemma pages_used_bound: "palloc_ok s \<Longrightarrow> k \<in> pages_used s \<Longrightarrow> 0xc0000 \<le> k \<and> k < 2 ^ 20"
  using pool_used_pages [of "pool_of True s"] pool_used_pages [of "pool_of False s"]
    pool_pages_bound [OF palloc_ok_pools [of s True]] pool_pages_bound [OF palloc_ok_pools [of s False]]
  by (auto simp: pages_used_eq [of s True])

section \<open>Initialization\<close>

lemma bitmap_buf_size_eq: "n \<le> 2 ^ 20 \<Longrightarrow> bitmap_buf_size n = 8 + 4 * ((n + 31) div 32)"
  by (simp add: bitmap_buf_size_def byte_cnt_def elem_cnt_eq size_add_id size_mul_id)

lemma init_pool_ok:
  assumes c: "1 \<le> cnt" "cnt \<le> 2 ^ 20" and st: "start mod 4096 = 0" "PHYS_BASE \<le> start" "start + 4096 * cnt < 2 ^ 32"
  shows "\<exists>p. init_pool m start cnt = Some p \<and> pool_ok p \<and> start < base p \<and>
    base p + 4096 * bit_cnt (used_map p) = start + 4096 * cnt \<and> pool_used p = {} \<and>
    cnt \<le> bit_cnt (used_map p) + cnt div 32768 + 2"
proof -
  define bp where "bp = (8 + 4 * ((cnt + 31) div 32) + 4095) div 4096"
  have bp: "DIV_ROUND_UP (bitmap_buf_size cnt) PGSIZE = bp"
    using c by (simp add: DIV_ROUND_UP_eq bitmap_buf_size_eq bp_def)
  have b: "1 \<le> bp" "bp \<le> cnt" using c by (simp_all add: bp_def)
  have few: "bp \<le> cnt div 32768 + 2" unfolding bp_def by linarith
  have room: "8 + 4 * ((cnt - bp + 31) div 32) \<le> bp * 4096"
  proof -
    have "8 + 4 * ((cnt - bp + 31) div 32) \<le> 8 + 4 * ((cnt + 31) div 32)" by (simp add: div_le_mono)
    also have "\<dots> \<le> bp * 4096" using round_up_div_bounds(1) [of 4096 "8 + 4 * ((cnt + 31) div 32)"] by (simp add: bp_def)
    finally show ?thesis .
  qed
  let ?n = "cnt - bp"
  let ?b = "\<lparr>bit_cnt = ?n, bits = buf_words m start (elem_cnt ?n)\<rparr>"
  have "bm_ok ?b" using c by (simp add: bm_ok_def buf_words_def elem_cnt_eq)
  then obtain b' where b': "bitmap_set_all ?b False = Some b'" "bm_ok b'" "bit_cnt b' = ?n"
      "bm_bits b' = replicate ?n False"
    using bitmap_set_all_ok [of ?b False] by auto
  have sz: "size_mul bp PGSIZE = bp * 4096" "size_add start (bp * 4096) = start + bp * 4096"
    using b c st by (simp_all add: size_mul_id size_add_id)
  have "bitmap_create_in_buf ?n (buf_words m start (elem_cnt ?n)) (bp * 4096) = Some b'"
    using room b'(1) c by (simp add: bitmap_create_in_buf_def bitmap_buf_size_eq)
  then have "init_pool m start cnt = Some \<lparr>used_map = b', base = start + bp * 4096\<rparr>"
    using bp b sz by (simp add: init_pool_def Let_def)
  moreover have "bm_used b' = {}" using b'(3,4) by (simp add: bm_used_def)
  moreover have "start + bp * 4096 + 4096 * ?n = start + 4096 * cnt" using b by (simp add: algebra_simps)
  ultimately show ?thesis using b' st b few by (simp add: pool_ok_def pool_used_def)
qed

lemma pool_pages_range:
  assumes "pool_ok p" and "4096 * a \<le> base p" and "base p + 4096 * bit_cnt (used_map p) \<le> 4096 * b"
  shows "pool_pages p \<subseteq> {a ..< b}"
proof -
  obtain q where "base p = 4096 * q" using assms(1) by (auto simp: pool_ok_def)
  then show ?thesis using assms(2,3) by (simp add: pool_pages_def)
qed

text \<open>
  At least two megabytes and at most half a gigabyte of memory, and a user pool that is not
  empty. The kernel pool then has room for the page tables of the whole memory.
\<close>

lemma palloc_init_ok:
  assumes r: "512 \<le> init_ram_pages" "init_ram_pages \<le> 2 ^ 17" and l: "1 \<le> user_page_limit"
  shows "\<exists>s'. palloc_init init_ram_pages user_page_limit s = Some s' \<and> palloc_ok s' \<and> pages_used s' = {} \<and>
    (\<forall>v. pool_pages (pool_of v s') \<subseteq> {0xc0100 ..< 0xc0000 + init_ram_pages}) \<and>
    init_ram_pages div 1024 + 3 < bit_cnt (used_map (kernel_pool s')) \<and>
    (\<exists>K U. s' = s\<lparr>kernel_pool := K, user_pool := U\<rparr>)"
proof -
  have fs: "ptov (word_of_nat (1024 * 1024)) = Some 0xc0100000" by (simp add: ptov_def uintptr_def)
  have u: "unat (word_of_nat (size_mul init_ram_pages PGSIZE) :: u32) = init_ram_pages * 4096"
    using unat_uintptr [of "init_ram_pages * 4096"] r by (simp add: uintptr_def size_mul_id)
  have fe: "ptov (word_of_nat (size_mul init_ram_pages PGSIZE)) = Some (init_ram_pages * 4096 + PHYS_BASE)"
    using ptov_eq [of "word_of_nat (size_mul init_ram_pages PGSIZE)"] u r by simp
  define f where "f = init_ram_pages - 256"
  have fp: "size_sub (init_ram_pages * 4096 + PHYS_BASE) 0xc0100000 div PGSIZE = f"
    using r by (simp add: size_sub_id f_def)
  define up where "up = (if user_page_limit < f div 2 then user_page_limit else f div 2)"
  have up: "1 \<le> up" "up \<le> f div 2" "1 \<le> f - up" "f - up \<le> 2 ^ 20" using r l by (auto simp: up_def f_def)
  have fl: "f \<le> 2 ^ 17" using r by (simp add: f_def)
  have en: "0xc0100000 + 4096 * (f - up) < (2 :: nat) ^ 32" using fl by simp
  obtain k where k: "init_pool (ram s) 0xc0100000 (f - up) = Some k" "pool_ok k" "0xc0100000 < base k"
      "base k + 4096 * bit_cnt (used_map k) = 0xc0100000 + 4096 * (f - up)" "pool_used k = {}"
      "f - up \<le> bit_cnt (used_map k) + (f - up) div 32768 + 2"
    using init_pool_ok [of "f - up" "0xc0100000" "ram s"] up(3,4) en by auto
  let ?us = "0xc0100000 + (f - up) * 4096"
  have us: "size_add 0xc0100000 (size_mul (f - up) PGSIZE) = ?us"
    using r by (simp add: size_mul_id size_add_id f_def)
  have "?us + 4096 * up = 0xc0100000 + 4096 * f" using up(2) by (simp add: algebra_simps)
  moreover have "0xc0100000 + 4096 * f < (2 :: nat) ^ 32" using fl by simp
  ultimately obtain v where v: "init_pool (ram s) ?us up = Some v" "pool_ok v" "?us < base v"
      "base v + 4096 * bit_cnt (used_map v) = 0xc0100000 + 4096 * f" "pool_used v = {}"
    using init_pool_ok [of up ?us "ram s"] up fl by auto
  let ?s = "s\<lparr>kernel_pool := k, user_pool := v\<rparr>"
  have run: "palloc_init init_ram_pages user_page_limit s = Some ?s"
    unfolding palloc_init_def Let_def fs fe Option.bind_lunit fp up_def [symmetric] us
    using k(1) v(1) by simp
  have ok: "palloc_ok ?s" using k v by (simp add: palloc_ok_def)
  have "pool_pages (pool_of w ?s) \<subseteq> {0xc0100 ..< 0xc0000 + init_ram_pages}" for w
    using pool_pages_range [OF k(2), of "0xc0100" "0xc0000 + init_ram_pages"]
      pool_pages_range [OF v(2), of "0xc0100" "0xc0000 + init_ram_pages"] k(3,4) v(3,4) r up
    by (cases w) (simp_all add: pool_of_def f_def)
  moreover have "pages_used ?s = {}" using k(5) v(5) by (simp add: pages_used_def)
  moreover have "init_ram_pages div 1024 + 3 < bit_cnt (used_map k)" using k(6) up(2) r unfolding f_def by linarith
  ultimately show ?thesis using run ok by (intro exI [of _ ?s]) auto
qed


section \<open>Allocation sequences\<close>

text \<open>Requests for pages of the user pool or of the kernel pool, zeroed or not; \<open>PAL_ASSERT\<close> is not set.\<close>

definition pal_flags :: "bool \<times> bool \<Rightarrow> u32" where
  "pal_flags f = (if fst f then PAL_USER else 0) OR (if snd f then PAL_ZERO else 0)"

definition pa_alloc :: "'a palloc_scheme \<Rightarrow> bool \<times> bool \<Rightarrow> nat \<Rightarrow> (nat option \<times> 'a palloc_scheme) option" where
  "pa_alloc s f n = do {
     (a, s) \<leftarrow> palloc_get_multiple (pal_flags f) n s;
     Some (if a = NULL then None else Some (a div 4096), s) }"

definition pa_release :: "'a palloc_scheme \<Rightarrow> nat \<Rightarrow> nat \<Rightarrow> 'a palloc_scheme option" where
  "pa_release s k n = palloc_free_multiple (4096 * k) n s"

lemma pal_flags_bits:
  "pal_flags f AND PAL_USER \<noteq> 0 \<longleftrightarrow> fst f" "pal_flags f AND PAL_ZERO \<noteq> 0 \<longleftrightarrow> snd f"
  "pal_flags f AND PAL_ASSERT = 0"
  by (auto simp: pal_flags_def)

lemma slots_bound:
  assumes "slots (k, n) \<subseteq> S" and "\<And>x. x \<in> S \<Longrightarrow> x < b" and "n \<noteq> 0"
  shows "k + n \<le> b"
proof -
  have "k + n - 1 \<in> slots (k, n)" using assms(3) by (auto simp: slots_def)
  then show ?thesis using assms(1) assms(2) [of "k + n - 1"] assms(3) by auto
qed

text \<open>The pools are well-formed and have no page outside the range \<open>R\<close>.\<close>

definition pools_in :: "nat set \<Rightarrow> 'a palloc_scheme \<Rightarrow> bool" where
  "pools_in R s \<longleftrightarrow> palloc_ok s \<and> (\<forall>v. pool_pages (pool_of v s) \<subseteq> R)"

lemma pa_alloc_law:
  assumes pi: "pools_in R s"
  shows "(\<exists>i s'. pa_alloc s f n = Some (Some i, s') \<and> pools_in R s' \<and> (2 :: nat) ^ 20 = 2 ^ 20 \<and> i + n \<le> 2 ^ 20 \<and>
      slots (i, n) \<inter> pages_used s = {} \<and> pages_used s' = pages_used s \<union> slots (i, n)) \<or>
    pa_alloc s f n = Some (None, s)"
proof (cases "n = 0")
  case True
  then show ?thesis by (simp add: pa_alloc_def palloc_get_multiple_def)
next
  case False
  have ok: "palloc_ok s" using pi by (simp add: pools_in_def)
  note g = palloc_get_multiple_ok [OF ok False pal_flags_bits(1) [of f, symmetric]]
  from g show ?thesis
  proof (elim disjE exE conjE)
    fix k s' assume r: "palloc_get_multiple (pal_flags f) n s = Some (4096 * k, s')"
      and got: "got_pages (fst f) (pal_flags f AND PAL_ZERO \<noteq> 0) n s k s'"
    have "slots (k, n) \<subseteq> pool_pages (pool_of (fst f) s)" using got by (simp add: got_pages_def)
    then have "k + n \<le> 2 ^ 20"
      using slots_bound [OF _ _ False] pool_pages_bound(2) [OF palloc_ok_pools [OF ok]] by blast
    then show ?thesis using got r pi by (simp add: pa_alloc_def got_pages_def pools_in_def)
  qed (use pal_flags_bits(3) [of f] in \<open>simp add: pa_alloc_def\<close>)
qed

lemma pa_release_law:
  assumes pi: "pools_in R s" and b: "k + n \<le> 2 ^ 20" and sub: "slots (k, n) \<subseteq> pages_used s"
  shows "\<exists>s'. pa_release s k n = Some s' \<and> pools_in R s' \<and> (2 :: nat) ^ 20 = 2 ^ 20 \<and> pages_used s' = pages_used s - slots (k, n)"
proof (cases "n = 0")
  case True
  have "pg_ofs (4096 * k) = 0"
    using b by (cases "k = 2 ^ 20") (simp_all add: pg_ofs_eq, simp add: pg_ofs_def uintptr_def and_PGMASK)
  then show ?thesis using True pi by (simp add: pa_release_def palloc_free_multiple_def slots_def)
next
  case False
  have ok: "palloc_ok s" using pi by (simp add: pools_in_def)
  obtain u where "slots (k, n) \<subseteq> pool_used (pool_of u s)" using run_in_pool [OF ok False sub] by blast
  then obtain s' where "palloc_free_multiple (4096 * k) n s = Some s'" "freed_pages u n s k s'"
    using palloc_free_multiple_ok [OF ok False] by blast
  then show ?thesis using pi by (simp add: pa_release_def freed_pages_def pools_in_def)
qed

interpretation page_pools: range_allocator "pools_in R" pages_used "\<lambda>_. 2 ^ 20" pa_alloc pa_release for R
  by unfold_locales (rule pa_alloc_law pa_release_law; assumption)+


section \<open>Properties\<close>

text \<open>
  C10. The page allocator on a machine with 2 to 512 megabytes: \<open>palloc_init\<close> succeeds
  with every page free, and every sequence of requests for runs of pages of either
  pool and of releases of live runs goes through without a panic. The live runs never
  overlap, consist of pages above the first megabyte of physical memory and below its
  end, and are exactly the pages marked as used.
\<close>

theorem palloc_runs_disjoint:
  fixes s :: palloc
  assumes "512 \<le> init_ram_pages" and "init_ram_pages \<le> 2 ^ 17" and "1 \<le> user_page_limit"
  shows "\<exists>s0. palloc_init init_ram_pages user_page_limit s = Some s0 \<and>
    (\<forall>qs. \<exists>s' live. serve_all pa_alloc pa_release (s0, []) qs = Some (s', live) \<and> disjoint_spans live \<and>
      pages_used s' = \<Union> (slots ` set live) \<and> pages_used s' \<subseteq> {0xc0100 ..< 0xc0000 + init_ram_pages})"
proof -
  let ?R = "{0xc0100 ..< 0xc0000 + init_ram_pages}"
  obtain s0 where s0: "palloc_init init_ram_pages user_page_limit s = Some s0" "pages_used s0 = {}" "pools_in ?R s0"
    using palloc_init_ok [OF assms, of s] by (auto simp: pools_in_def)
  have sub: "pages_used s' \<subseteq> ?R" if "pools_in ?R s'" for s' :: palloc
    using that pool_used_pages [of "pool_of True s'"] pool_used_pages [of "pool_of False s'"]
    by (auto simp: pools_in_def pages_used_eq [of s' True])
  have "\<exists>s' live. serve_all pa_alloc pa_release (s0, []) qs = Some (s', live) \<and> disjoint_spans live \<and>
      pages_used s' = \<Union> (slots ` set live) \<and> pages_used s' \<subseteq> ?R" for qs
  proof -
    obtain s' live where "serve_all pa_alloc pa_release (s0, []) qs = Some (s', live)" "pools_in ?R s'"
        "disjoint_spans live" "pages_used s' = \<Union> (slots ` set live)"
      using page_pools.no_overlap [OF s0(3), of qs] s0(2) by auto
    then show ?thesis using sub by blast
  qed
  then show ?thesis using s0(1) by blast
qed

text \<open>A machine of four megabytes: a zeroed run of the user pool and one of the kernel pool, the first freed.\<close>

theorem palloc_runs_disjoint_witness:
  "\<exists>s0 s' live. palloc_init 1024 SIZE_MAX \<lparr>kernel_pool = undefined, user_pool = undefined, ram = (\<lambda>_. 0)\<rparr> = Some s0 \<and>
    serve_all pa_alloc pa_release (s0, []) [Alloc (True, True) 3, Alloc (False, False) 2, Release 1] = Some (s', live) \<and>
    disjoint_spans live \<and> pages_used s' = \<Union> (slots ` set live)"
proof -
  let ?s = "\<lparr>kernel_pool = undefined, user_pool = undefined, ram = (\<lambda>_. 0)\<rparr>"
  have "512 \<le> (1024 :: nat)" "(1024 :: nat) \<le> 2 ^ 17" "1 \<le> SIZE_MAX" by (simp_all add: SIZE_MAX_def)
  from palloc_runs_disjoint [OF this, of ?s] show ?thesis by blast
qed

end
