(* ===== verification/Pagedir.thy ===== *)
theory Pagedir
  imports Palloc
begin

text \<open>
  Page directories: \<^verbatim>\<open>userprog/pagedir.c\<close>. Page directories and page tables are
  pages of words in memory, obtained from the page allocator. The state also has the page
  directory base register and the translation look-aside buffer (TLB) of the processor,
  which caches page table entries by virtual page number until the register is loaded.
\<close>

section \<open>State and operations\<close>

record machine = palloc +
  init_page_dir :: ptr
  init_ram_pages :: nat
  cr3 :: u32
  tlb :: "nat \<rightharpoonup> u32"

definition pagedir_activate :: "ptr \<Rightarrow> machine \<Rightarrow> machine option" where
  "pagedir_activate pd s = do {
     let pd = (if pd = NULL then init_page_dir s else pd);
     p \<leftarrow> vtop pd;
     Some (s\<lparr>cr3 := p, tlb := Map.empty\<rparr>) }"

definition active_pd :: "machine \<Rightarrow> ptr option" where
  "active_pd s = ptov (cr3 s)"

definition invalidate_pagedir :: "ptr \<Rightarrow> machine \<Rightarrow> machine option" where
  "invalidate_pagedir pd s = do {
     a \<leftarrow> active_pd s;
     if a = pd then pagedir_activate pd s else Some s }"

definition pagedir_create :: "machine \<Rightarrow> (ptr \<times> machine) option" where
  "pagedir_create s = do {
     (pd, s) \<leftarrow> palloc_get_page 0 s;
     if pd \<noteq> NULL then do {
       (_, m) \<leftarrow> memcpy pd (init_page_dir s) PGSIZE (ram s);
       Some (pd, s\<lparr>ram := m\<rparr>) }
     else Some (pd, s) }"

fun destroy_loop :: "ptr \<Rightarrow> nat list \<Rightarrow> machine \<Rightarrow> machine option" where
  "destroy_loop pd [] s = Some s"
| "destroy_loop pd (i # is) s =
     (let pde = load32 (ram s) (pd + 4 * i) in
      if pde AND PTE_P \<noteq> 0 then do {
        pt \<leftarrow> pde_get_pt pde;
        s \<leftarrow> palloc_free_page pt s;
        destroy_loop pd is s }
      else destroy_loop pd is s)"

definition pagedir_destroy :: "ptr \<Rightarrow> machine \<Rightarrow> machine option" where
  "pagedir_destroy pd s =
     (if pd = NULL then Some s
      else do {
        ASSERT (pd \<noteq> init_page_dir s);
        s \<leftarrow> destroy_loop pd [0..<pd_no PHYS_BASE] s;
        palloc_free_page pd s })"

definition lookup_page :: "ptr \<Rightarrow> ptr \<Rightarrow> bool \<Rightarrow> machine \<Rightarrow> (ptr \<times> machine) option" where
  "lookup_page pd vaddr create s = do {
     ASSERT (pd \<noteq> NULL);
     ASSERT (\<not> create \<or> is_user_vaddr vaddr);
     let pde = pd + 4 * pd_no vaddr;
     (found, s) \<leftarrow>
       (if load32 (ram s) pde = 0 then
          if create then do {
            (pt, s) \<leftarrow> palloc_get_page PAL_ZERO s;
            if pt = NULL then Some (False, s)
            else do {
              e \<leftarrow> pde_create pt;
              Some (True, s\<lparr>ram := store32 (ram s) pde e\<rparr>) } }
          else Some (False, s)
        else Some (True, s));
     if found then do {
       pt \<leftarrow> pde_get_pt (load32 (ram s) pde);
       Some (pt + 4 * pt_no vaddr, s) }
     else Some (NULL, s) }"

definition pagedir_set_page :: "ptr \<Rightarrow> ptr \<Rightarrow> ptr \<Rightarrow> bool \<Rightarrow> machine \<Rightarrow> (bool \<times> machine) option" where
  "pagedir_set_page pd upage kpage writable s = do {
     ASSERT (pg_ofs upage = 0);
     ASSERT (pg_ofs kpage = 0);
     ASSERT (is_user_vaddr upage);
     p \<leftarrow> vtop kpage;
     ASSERT (unat (drop_bit PTSHIFT p) < init_ram_pages s);
     ASSERT (pd \<noteq> init_page_dir s);
     (pte, s) \<leftarrow> lookup_page pd upage True s;
     if pte \<noteq> NULL then do {
       ASSERT (load32 (ram s) pte AND PTE_P = 0);
       e \<leftarrow> pte_create_user kpage writable;
       Some (True, s\<lparr>ram := store32 (ram s) pte e\<rparr>) }
     else Some (False, s) }"

definition pagedir_get_page :: "ptr \<Rightarrow> ptr \<Rightarrow> machine \<Rightarrow> ptr option" where
  "pagedir_get_page pd uaddr s = do {
     ASSERT (is_user_vaddr uaddr);
     (pte, s) \<leftarrow> lookup_page pd uaddr False s;
     if pte \<noteq> NULL \<and> load32 (ram s) pte AND PTE_P \<noteq> 0 then do {
       page \<leftarrow> pte_get_page (load32 (ram s) pte);
       Some (page + pg_ofs uaddr) }
     else Some NULL }"

definition pagedir_clear_page :: "ptr \<Rightarrow> ptr \<Rightarrow> machine \<Rightarrow> machine option" where
  "pagedir_clear_page pd upage s = do {
     ASSERT (pg_ofs upage = 0);
     ASSERT (is_user_vaddr upage);
     (pte, s) \<leftarrow> lookup_page pd upage False s;
     if pte \<noteq> NULL \<and> load32 (ram s) pte AND PTE_P \<noteq> 0
     then invalidate_pagedir pd (s\<lparr>ram := store32 (ram s) pte (load32 (ram s) pte AND NOT PTE_P)\<rparr>)
     else Some s }"

text \<open>The accessed and dirty bits; \<open>bit\<close> is \<open>PTE_A\<close> or \<open>PTE_D\<close>.\<close>

definition pte_test :: "u32 \<Rightarrow> ptr \<Rightarrow> ptr \<Rightarrow> machine \<Rightarrow> bool option" where
  "pte_test bt pd vpage s = do {
     (pte, s) \<leftarrow> lookup_page pd vpage False s;
     Some (pte \<noteq> NULL \<and> load32 (ram s) pte AND bt \<noteq> 0) }"

definition pte_change :: "u32 \<Rightarrow> ptr \<Rightarrow> ptr \<Rightarrow> bool \<Rightarrow> machine \<Rightarrow> machine option" where
  "pte_change bt pd vpage v s = do {
     (pte, s) \<leftarrow> lookup_page pd vpage False s;
     if pte \<noteq> NULL then
       if v then Some (s\<lparr>ram := store32 (ram s) pte (load32 (ram s) pte OR bt)\<rparr>)
       else invalidate_pagedir pd (s\<lparr>ram := store32 (ram s) pte (load32 (ram s) pte AND NOT bt)\<rparr>)
     else Some s }"

definition pagedir_is_dirty :: "ptr \<Rightarrow> ptr \<Rightarrow> machine \<Rightarrow> bool option" where
  "pagedir_is_dirty pd vpage s = pte_test PTE_D pd vpage s"

definition pagedir_set_dirty :: "ptr \<Rightarrow> ptr \<Rightarrow> bool \<Rightarrow> machine \<Rightarrow> machine option" where
  "pagedir_set_dirty pd vpage dirty s = pte_change PTE_D pd vpage dirty s"

definition pagedir_is_accessed :: "ptr \<Rightarrow> ptr \<Rightarrow> machine \<Rightarrow> bool option" where
  "pagedir_is_accessed pd vpage s = pte_test PTE_A pd vpage s"

definition pagedir_set_accessed :: "ptr \<Rightarrow> ptr \<Rightarrow> bool \<Rightarrow> machine \<Rightarrow> machine option" where
  "pagedir_set_accessed pd vpage accessed s = pte_change PTE_A pd vpage accessed s"

section \<open>Page directories in memory\<close>

text \<open>The directory entry \<open>i\<close>, and the table entry of the user page number \<open>v\<close> (0 if there is no table).\<close>

definition pde_at :: "mem \<Rightarrow> ptr \<Rightarrow> nat \<Rightarrow> u32" where
  "pde_at m pd i = load32 m (pd + 4 * i)"

definition pt_at :: "mem \<Rightarrow> ptr \<Rightarrow> nat \<Rightarrow> ptr" where
  "pt_at m pd i = unat (pde_at m pd i AND PTE_ADDR) + PHYS_BASE"

definition entry :: "mem \<Rightarrow> ptr \<Rightarrow> nat \<Rightarrow> u32" where
  "entry m pd v =
     (if pde_at m pd (v div 1024) = 0 then 0
      else load32 m (pt_at m pd (v div 1024) + 4 * (v mod 1024)))"

text \<open>The pages a directory consists of: itself and its page tables for user addresses.\<close>

definition tables :: "mem \<Rightarrow> ptr \<Rightarrow> nat set" where
  "tables m pd = (\<lambda>i. pt_at m pd i div 4096) ` {i. i < 768 \<and> pde_at m pd i \<noteq> 0}"

definition owned :: "mem \<Rightarrow> ptr \<Rightarrow> nat set" where
  "owned m pd = insert (pd div 4096) (tables m pd)"

text \<open>
  The typing of a page directory: its user entries are zero or point, with the flags
  present, writable and user, to pages of its own, all different.
\<close>

definition pd_wf :: "mem \<Rightarrow> ptr \<Rightarrow> bool" where
  "pd_wf m pd \<longleftrightarrow> is_kpage pd \<and>
     (\<forall>i<768. pde_at m pd i \<noteq> 0 \<longrightarrow>
        pde_at m pd i AND PGMASK = 7 \<and> is_kpage (pt_at m pd i) \<and> pt_at m pd i \<noteq> pd) \<and>
     (\<forall>i<768. \<forall>j<768. pde_at m pd i \<noteq> 0 \<longrightarrow> pde_at m pd j \<noteq> 0 \<longrightarrow> pt_at m pd i = pt_at m pd j \<longrightarrow> i = j)"

section \<open>Reading and changing entries\<close>

lemma page_addr: "p mod 4096 = 0 \<Longrightarrow> x < 4096 \<Longrightarrow> (p + x) div 4096 = p div (4096 :: nat)"
  by auto

lemma word_in_page:
  assumes "p mod 4096 = 0" and "i < 1024" and "p + 4 * i \<le> x" and "x < p + 4 * i + 4"
  shows "x div 4096 = p div (4096 :: nat)"
proof -
  have "x = p + (x - p)" "x - p < 4096" using assms(2-4) by linarith+
  then show ?thesis using assms(1) page_addr [of p "x - p"] by simp
qed

lemma load32_page:
  assumes "p mod 4096 = 0" and "i < 1024" and "\<And>x. x div 4096 = p div 4096 \<Longrightarrow> m' x = m x"
  shows "load32 m' (p + 4 * i) = load32 m (p + 4 * i)"
  using word_in_page [OF assms(1,2)] assms(3) by (intro load32_cong) simp

lemma store32_page:
  assumes "p mod 4096 = 0" and "i < 1024" and "x div 4096 \<noteq> p div 4096"
  shows "store32 m (p + 4 * i) w x = m x"
  using word_in_page [OF assms(1,2), of x] assms(3) by (intro store32_other) linarith

lemma load32_store32_word:
  assumes "i \<noteq> j"
  shows "load32 (store32 m (p + 4 * i) w) (p + 4 * j) = load32 m (p + 4 * j)"
proof -
  have "4 * j + 4 \<le> 4 * i \<or> 4 * i + 4 \<le> 4 * j" using assms by linarith
  then show ?thesis by (intro load32_store32_other) linarith
qed

lemma pd_wfD:
  assumes "pd_wf m pd"
  shows "is_kpage pd" and "pd mod 4096 = 0"
    and "i < 768 \<Longrightarrow> pde_at m pd i \<noteq> 0 \<Longrightarrow> pde_at m pd i AND PGMASK = 7"
    and "i < 768 \<Longrightarrow> pde_at m pd i \<noteq> 0 \<Longrightarrow> is_kpage (pt_at m pd i)"
    and "i < 768 \<Longrightarrow> pde_at m pd i \<noteq> 0 \<Longrightarrow> pt_at m pd i mod 4096 = 0"
    and "i < 768 \<Longrightarrow> pde_at m pd i \<noteq> 0 \<Longrightarrow> pt_at m pd i \<noteq> pd"
  using assms by (auto simp: pd_wf_def is_kpage_def)

lemma owned_table: "i < 768 \<Longrightarrow> pde_at m pd i \<noteq> 0 \<Longrightarrow> pt_at m pd i div 4096 \<in> owned m pd"
  by (auto simp: owned_def tables_def)

lemma owned_pd: "pd div 4096 \<in> owned m pd"
  by (simp add: owned_def)

text \<open>A page directory depends only on the pages it owns.\<close>

lemma pd_frame:
  assumes wf: "pd_wf m pd" and eq: "\<And>x. x div 4096 \<in> owned m pd \<Longrightarrow> m' x = m x"
  shows "i < 1024 \<Longrightarrow> pde_at m' pd i = pde_at m pd i" and "owned m' pd = owned m pd" and "pd_wf m' pd"
    and "v < 0xc0000 \<Longrightarrow> entry m' pd v = entry m pd v"
proof -
  have pde: "pde_at m' pd i = pde_at m pd i" if "i < 1024" for i
    unfolding pde_at_def using load32_page [OF pd_wfD(2) [OF wf] that] eq owned_pd [of pd m] by metis
  then show "i < 1024 \<Longrightarrow> pde_at m' pd i = pde_at m pd i" .
  have pt: "pt_at m' pd i = pt_at m pd i" if "i < 1024" for i using pde [OF that] by (simp add: pt_at_def)
  have set: "{i. i < 768 \<and> pde_at m' pd i \<noteq> 0} = {i. i < 768 \<and> pde_at m pd i \<noteq> 0}" using pde by auto
  show "owned m' pd = owned m pd"
    unfolding owned_def tables_def set using pt by (intro arg_cong [of _ _ "insert _"] image_cong) auto
  show "pd_wf m' pd" using wf pde pt by (simp add: pd_wf_def)
  assume v: "v < 0xc0000"
  then have i: "v div 1024 < 768" by simp
  show "entry m' pd v = entry m pd v"
  proof (cases "pde_at m pd (v div 1024) = 0")
    case True
    then show ?thesis using pde i by (simp add: entry_def)
  next
    case False
    have "load32 m' (pt_at m pd (v div 1024) + 4 * (v mod 1024)) = load32 m (pt_at m pd (v div 1024) + 4 * (v mod 1024))"
      using load32_page [OF pd_wfD(5) [OF wf i False], of "v mod 1024" m' m] eq owned_table [OF i False] by simp
    then show ?thesis using False pde pt i by (simp add: entry_def)
  qed
qed

text \<open>Changing one table entry.\<close>

lemma entry_store:
  assumes wf: "pd_wf m pd" and v: "v < 0xc0000" and pde: "pde_at m pd (v div 1024) \<noteq> 0"
    and m': "m' = store32 m (pt_at m pd (v div 1024) + 4 * (v mod 1024)) e"
  shows "pd_wf m' pd" and "owned m' pd = owned m pd"
    and "w < 0xc0000 \<Longrightarrow> entry m' pd w = (if w = v then e else entry m pd w)"
    and "x div 4096 \<noteq> pt_at m pd (v div 1024) div 4096 \<Longrightarrow> m' x = m x"
proof -
  let ?i = "v div 1024" and ?j = "v mod 1024"
  have i: "?i < 768" using v by simp
  note pt = pd_wfD(5) [OF wf i pde]
  show out: "m' x = m x" if "x div 4096 \<noteq> pt_at m pd ?i div 4096" for x
    unfolding m' using store32_page [OF pt, of ?j x] that by simp
  have "pt_at m pd ?i div 4096 \<noteq> pd div 4096"
    using pt pd_wfD(2,6) [OF wf] i pde by (metis mod_eq_0_iff_dvd dvd_div_eq_cancel zero_neq_numeral)
  then have same: "pde_at m' pd k = pde_at m pd k" if "k < 1024" for k
    unfolding pde_at_def using load32_page [OF pd_wfD(2) [OF wf] that] out by metis
  have pt': "pt_at m' pd k = pt_at m pd k" if "k < 1024" for k using same [OF that] by (simp add: pt_at_def)
  have set: "{i. i < 768 \<and> pde_at m' pd i \<noteq> 0} = {i. i < 768 \<and> pde_at m pd i \<noteq> 0}" using same by auto
  show "owned m' pd = owned m pd"
    unfolding owned_def tables_def set using pt' by (intro arg_cong [of _ _ "insert _"] image_cong) auto
  show "pd_wf m' pd" using wf same pt' by (simp add: pd_wf_def)
  assume w: "w < 0xc0000"
  then have iw: "w div 1024 < 768" by simp
  consider "pde_at m pd (w div 1024) = 0" | "pde_at m pd (w div 1024) \<noteq> 0" "w div 1024 = ?i" |
    "pde_at m pd (w div 1024) \<noteq> 0" "w div 1024 \<noteq> ?i" by blast
  then show "entry m' pd w = (if w = v then e else entry m pd w)"
  proof cases
    case 1
    then show ?thesis using same iw pde by (auto simp: entry_def)
  next
    case 2
    show ?thesis
    proof (cases "w = v")
      case True
      then show ?thesis using 2 same [of ?i] pt' [of ?i] i by (simp add: entry_def m')
    next
      case False
      then have "?j \<noteq> w mod 1024" using 2(2) by (metis div_mod_decomp)
      then show ?thesis using 2 False same [of ?i] pt' [of ?i] i load32_store32_word [of ?j "w mod 1024" m]
        by (simp add: entry_def m')
    qed
  next
    case 3
    then have "pt_at m pd (w div 1024) \<noteq> pt_at m pd ?i" using wf i iw pde by (auto simp: pd_wf_def)
    then have "pt_at m pd (w div 1024) div 4096 \<noteq> pt_at m pd ?i div 4096"
      using pt pd_wfD(5) [OF wf iw 3(1)] by (metis mod_eq_0_iff_dvd dvd_div_eq_cancel zero_neq_numeral)
    then have "load32 m' (pt_at m pd (w div 1024) + 4 * (w mod 1024)) = load32 m (pt_at m pd (w div 1024) + 4 * (w mod 1024))"
      using load32_page [OF pd_wfD(5) [OF wf iw 3(1)], of "w mod 1024" m' m] out by simp
    then show ?thesis using 3 same pt' iw by (auto simp: entry_def)
  qed
qed


text \<open>
  Adding a page table: page \<open>k\<close> is zeroed and becomes the table of the entry \<open>i\<close>. The new
  page is zero, so no mapping changes.
\<close>

definition add_table :: "mem \<Rightarrow> ptr \<Rightarrow> nat \<Rightarrow> nat \<Rightarrow> u32 \<Rightarrow> mem \<Rightarrow> bool" where
  "add_table m pd i k e m' \<longleftrightarrow> pd_wf m pd \<and> i < 768 \<and> pde_at m pd i = 0 \<and> k \<notin> owned m pd \<and>
     is_kpage (4096 * k) \<and> pde_create (4096 * k) = Some e \<and> m' = store32 (zeroed True k 1 m) (pd + 4 * i) e"

lemma zeroed_page: "zeroed True k (Suc 0) m x = (if x div 4096 = k then 0 else m x)"
  by (auto simp: zeroed_def)

lemma add_table_pdes:
  assumes "add_table m pd i k e m'"
  shows "pde_at m' pd i = e" and "e \<noteq> 0" and "e AND PGMASK = 7" and "pt_at m' pd i = 4096 * k"
    and "j \<noteq> i \<Longrightarrow> j < 1024 \<Longrightarrow> pde_at m' pd j = pde_at m pd j"
    and "j \<noteq> i \<Longrightarrow> j < 1024 \<Longrightarrow> pt_at m' pd j = pt_at m pd j"
    and "x div 4096 \<noteq> k \<Longrightarrow> x div 4096 \<noteq> pd div 4096 \<Longrightarrow> m' x = m x"
proof -
  note A = assms [unfolded add_table_def]
  have pd: "pd mod 4096 = 0" using A pd_wfD(2) by blast
  have ee: "e \<noteq> 0" "e AND PGMASK = 7" "unat (e AND PTE_ADDR) + PHYS_BASE = 4096 * k"
    using pde_create_ok [of "4096 * k"] A by auto
  show "e \<noteq> 0" "e AND PGMASK = 7" by (rule ee)+
  have npd: "k \<noteq> pd div 4096" using A owned_pd by metis
  show p: "pde_at m' pd i = e" using A by (simp add: pde_at_def)
  show "pt_at m' pd i = 4096 * k" using p ee(3) by (simp add: pt_at_def)
  show same: "pde_at m' pd j = pde_at m pd j" if "j \<noteq> i" "j < 1024" for j
  proof -
    have "pde_at m' pd j = load32 (zeroed True k 1 m) (pd + 4 * j)"
      unfolding pde_at_def using A that(1) load32_store32_word [of i j] by simp
    also have "\<dots> = load32 m (pd + 4 * j)"
      using load32_page [OF pd that(2), of "zeroed True k 1 m" m] npd by (simp add: zeroed_page)
    finally show ?thesis by (simp add: pde_at_def)
  qed
  show "j \<noteq> i \<Longrightarrow> j < 1024 \<Longrightarrow> pt_at m' pd j = pt_at m pd j" using same by (simp add: pt_at_def)
  assume "x div 4096 \<noteq> k" "x div 4096 \<noteq> pd div 4096"
  then show "m' x = m x" using A store32_page [OF pd, of i x] by (simp add: zeroed_page)
qed

lemma add_table_old:
  assumes "add_table m pd i k e m'" and "j < 768" and "pde_at m pd j \<noteq> 0"
  shows "j \<noteq> i" and "pt_at m pd j div 4096 \<noteq> k" and "pde_at m' pd j = pde_at m pd j" and "pt_at m' pd j = pt_at m pd j"
proof -
  note A = assms(1) [unfolded add_table_def]
  show j: "j \<noteq> i" using A assms(3) by auto
  show "pt_at m pd j div 4096 \<noteq> k" using A owned_table [OF assms(2,3)] by metis
  show "pde_at m' pd j = pde_at m pd j" "pt_at m' pd j = pt_at m pd j"
    using add_table_pdes(5,6) [OF assms(1) j] assms(2) by simp_all
qed

lemma add_table_nonzero:
  assumes "add_table m pd i k e m'" and "j < 768"
  shows "pde_at m' pd j \<noteq> 0 \<longleftrightarrow> j = i \<or> pde_at m pd j \<noteq> 0"
  using add_table_pdes(1,2) [OF assms(1)] add_table_pdes(5) [OF assms(1), of j] assms(2) by (cases "j = i") auto

lemma add_table_wf:
  assumes A: "add_table m pd i k e m'"
  shows "pd_wf m' pd"
proof -
  have wf: "pd_wf m pd" and kp: "is_kpage (4096 * k)" and npd: "k \<noteq> pd div 4096"
    using A owned_pd by (auto simp: add_table_def)
  have old: "pt_at m pd j \<noteq> 4096 * k" if "j < 768" "pde_at m pd j \<noteq> 0" for j
    using add_table_old(2) [OF A that] by auto
  note N = add_table_nonzero [OF A] and P = add_table_pdes(1,3,4) [OF A]
  show ?thesis
    unfolding pd_wf_def
  proof (intro conjI allI impI)
    show "is_kpage pd" using wf by (simp add: pd_wf_def)
    fix j assume j: "j < 768" "pde_at m' pd j \<noteq> 0"
    then consider "j = i" | "pde_at m pd j \<noteq> 0" using N by blast
    then have "pde_at m' pd j AND PGMASK = 7 \<and> is_kpage (pt_at m' pd j) \<and> pt_at m' pd j \<noteq> pd"
    proof cases
      case 1
      then show ?thesis using P kp npd by auto
    next
      case 2
      then show ?thesis using pd_wfD(3,4,6) [OF wf j(1) 2] add_table_old(3,4) [OF A j(1) 2] by simp
    qed
    then show "pde_at m' pd j AND PGMASK = 7" "is_kpage (pt_at m' pd j)" "pt_at m' pd j \<noteq> pd" by blast+
  next
    fix j l assume j: "j < 768" "l < 768" "pde_at m' pd j \<noteq> 0" "pde_at m' pd l \<noteq> 0" "pt_at m' pd j = pt_at m' pd l"
    consider "j = i" "l = i" | "j = i" "pde_at m pd l \<noteq> 0" | "l = i" "pde_at m pd j \<noteq> 0" |
      "pde_at m pd j \<noteq> 0" "pde_at m pd l \<noteq> 0" using N j by blast
    then show "j = l"
      using j wf P(3) old [of j] old [of l] add_table_old(4) [OF A j(1)] add_table_old(4) [OF A j(2)]
      by cases (auto simp: pd_wf_def)
  qed
qed

lemma add_table_owned:
  assumes A: "add_table m pd i k e m'"
  shows "owned m' pd = insert k (owned m pd)"
proof -
  have i: "i < 768" using A by (simp add: add_table_def)
  have set: "{j. j < 768 \<and> pde_at m' pd j \<noteq> 0} = insert i {j. j < 768 \<and> pde_at m pd j \<noteq> 0}"
    using add_table_nonzero [OF A] i by auto
  have img: "(\<lambda>j. pt_at m' pd j div 4096) ` {j. j < 768 \<and> pde_at m pd j \<noteq> 0} = tables m pd"
    unfolding tables_def using add_table_old(4) [OF A] by (intro image_cong) auto
  show ?thesis
    unfolding owned_def tables_def [of m'] set image_insert img add_table_pdes(4) [OF A] by auto
qed

lemma add_table_entry:
  assumes A: "add_table m pd i k e m'" and v: "v < 0xc0000"
  shows "entry m' pd v = entry m pd v"
proof -
  have wf: "pd_wf m pd" and i: "i < 768" "pde_at m pd i = 0" and npd: "k \<noteq> pd div 4096"
    using A owned_pd by (auto simp: add_table_def)
  have iv: "v div 1024 < 768" using v by simp
  consider "v div 1024 = i" | "v div 1024 \<noteq> i" "pde_at m pd (v div 1024) = 0" |
    "v div 1024 \<noteq> i" "pde_at m pd (v div 1024) \<noteq> 0" by blast
  then show ?thesis
  proof cases
    case 1
    have "m' x = 0" if "x div 4096 = k" for x
      using A that npd store32_page [OF pd_wfD(2) [OF wf], of i x "zeroed True k 1 m" e]
      by (simp add: add_table_def zeroed_page)
    then have "load32 m' (4096 * k + 4 * (v mod 1024)) = 0"
      using word_in_page [of "4096 * k" "v mod 1024"] by (intro load32_zero) simp
    then show ?thesis using 1 i add_table_pdes(1,2,4) [OF A] by (simp add: entry_def)
  next
    case 2
    then show ?thesis using add_table_pdes(5) [OF A] iv by (simp add: entry_def)
  next
    case 3
    note old = add_table_old [OF A iv 3(2)]
    have "pt_at m pd (v div 1024) div 4096 \<noteq> pd div 4096"
      using pd_wfD(2,5,6) [OF wf] iv 3(2) by (metis mod_eq_0_iff_dvd dvd_div_eq_cancel zero_neq_numeral)
    then have "load32 m' (pt_at m pd (v div 1024) + 4 * (v mod 1024)) = load32 m (pt_at m pd (v div 1024) + 4 * (v mod 1024))"
      using load32_page [OF pd_wfD(5) [OF wf iv 3(2)], of "v mod 1024" m' m] add_table_pdes(7) [OF A] old(2) by simp
    then show ?thesis using old 3 by (simp add: entry_def)
  qed
qed

section \<open>Looking up an entry\<close>

lemma user_index:
  assumes "a < PHYS_BASE"
  shows "pd_no a = a div 4096 div 1024" and "pt_no a = a div 4096 mod 1024" and "a div 4096 < 0xc0000"
    and "pd_no a < 768"
  using assms by (simp_all add: pd_no_eq pt_no_eq div_mult2_eq [symmetric])

lemma pde_get_pt_at:
  assumes "pd_wf m pd" and "i < 768" and "pde_at m pd i \<noteq> 0"
  shows "pde_get_pt (pde_at m pd i) = Some (pt_at m pd i)"
proof -
  have "(pde_at m pd i AND PGMASK) AND 1 = 1" using pd_wfD(3) [OF assms] by simp
  moreover have "PGMASK AND 1 = 1" by (simp add: PGMASK_def BITMASK_def)
  ultimately have "pde_at m pd i AND PTE_P = 1" by (simp add: and.assoc)
  moreover have "unat (pde_at m pd i AND PTE_ADDR) < 2 ^ 30"
    using pd_wfD(4) [OF assms] by (simp add: is_kpage_def pt_at_def)
  ultimately show ?thesis using ptov_eq by (simp add: pde_get_pt_def pt_at_def)
qed

text \<open>The address of the table entry of a user page.\<close>

definition pte_addr :: "mem \<Rightarrow> ptr \<Rightarrow> nat \<Rightarrow> ptr" where
  "pte_addr m pd v = pt_at m pd (v div 1024) + 4 * (v mod 1024)"

lemma lookup_page_read:
  assumes wf: "pd_wf (ram s) pd" and a: "a < PHYS_BASE"
  shows "lookup_page pd a False s =
    Some (if pde_at (ram s) pd (a div 4096 div 1024) = 0 then NULL else pte_addr (ram s) pd (a div 4096), s)"
proof -
  note u = user_index [OF a]
  have pd: "pd \<noteq> NULL" using pd_wfD(1) [OF wf] by (auto simp: is_kpage_def)
  show ?thesis
  proof (cases "pde_at (ram s) pd (pd_no a) = 0")
    case True
    then show ?thesis using pd u by (simp add: lookup_page_def pde_at_def Let_def)
  next
    case False
    have "pde_get_pt (load32 (ram s) (pd + 4 * pd_no a)) = Some (pt_at (ram s) pd (pd_no a))"
      using pde_get_pt_at [OF wf u(4) False] by (simp add: pde_at_def)
    then show ?thesis using False pd u by (simp add: lookup_page_def pde_at_def Let_def pte_addr_def)
  qed
qed

lemma pte_addr_nonnull: "pd_wf m pd \<Longrightarrow> v < 0xc0000 \<Longrightarrow> pde_at m pd (v div 1024) \<noteq> 0 \<Longrightarrow> pte_addr m pd v \<noteq> NULL"
  by (simp add: pte_addr_def pt_at_def)

lemma entry_pte: "pde_at m pd (v div 1024) \<noteq> 0 \<Longrightarrow> load32 m (pte_addr m pd v) = entry m pd v"
  by (simp add: entry_def pte_addr_def)

section \<open>The page directories of the system\<close>

definition pds_ok :: "ptr set \<Rightarrow> machine \<Rightarrow> bool" where
  "pds_ok D s \<longleftrightarrow> palloc_ok s \<and>
     is_kpage (init_page_dir s) \<and> init_page_dir s div 4096 \<in> pool_used (kernel_pool s) \<and>
     (\<forall>i<768. pde_at (ram s) (init_page_dir s) i = 0) \<and>
     (\<forall>pd\<in>D. pd_wf (ram s) pd \<and> owned (ram s) pd \<subseteq> pool_used (kernel_pool s) \<and>
        init_page_dir s div 4096 \<notin> owned (ram s) pd) \<and>
     (\<forall>pd\<in>D. \<forall>pd'\<in>D. pd \<noteq> pd' \<longrightarrow> owned (ram s) pd \<inter> owned (ram s) pd' = {})"


text \<open>What an operation on page directories leaves alone.\<close>

definition pd_quiet :: "machine \<Rightarrow> machine \<Rightarrow> bool" where
  "pd_quiet s s' \<longleftrightarrow> user_pool s' = user_pool s \<and> init_page_dir s' = init_page_dir s \<and>
     init_ram_pages s' = init_ram_pages s \<and>
     (\<forall>x. x div 4096 \<in> pool_pages (user_pool s) \<longrightarrow> ram s' x = ram s x)"

lemma pd_quiet_refl [simp]: "pd_quiet s s"
  by (simp add: pd_quiet_def)

lemma pd_quiet_trans: "pd_quiet s s' \<Longrightarrow> pd_quiet s' s'' \<Longrightarrow> pd_quiet s s''"
  by (simp add: pd_quiet_def)

lemma pds_okD:
  assumes "pds_ok D s"
  shows "palloc_ok s" and "is_kpage (init_page_dir s)"
    and "pd \<in> D \<Longrightarrow> pd_wf (ram s) pd" and "pd \<in> D \<Longrightarrow> owned (ram s) pd \<subseteq> pool_used (kernel_pool s)"
    and "pd \<in> D \<Longrightarrow> pd \<noteq> init_page_dir s" and "pd \<in> D \<Longrightarrow> init_page_dir s div 4096 \<notin> owned (ram s) pd"
proof -
  show "palloc_ok s" "is_kpage (init_page_dir s)"
    "pd \<in> D \<Longrightarrow> pd_wf (ram s) pd" "pd \<in> D \<Longrightarrow> owned (ram s) pd \<subseteq> pool_used (kernel_pool s)"
    "pd \<in> D \<Longrightarrow> init_page_dir s div 4096 \<notin> owned (ram s) pd"
    using assms by (simp_all add: pds_ok_def)
  show "pd \<in> D \<Longrightarrow> pd \<noteq> init_page_dir s" using assms owned_pd [of pd "ram s"] by (auto simp: pds_ok_def)
qed

lemma kernel_not_user: "palloc_ok s \<Longrightarrow> k \<in> pool_used (kernel_pool s) \<Longrightarrow> k \<notin> pool_pages (user_pool s)"
  using pools_disjoint [of s False] pool_used_pages [of "kernel_pool s"] by (auto simp: pool_of_def)

text \<open>
  A step that changes memory only in the pages of one directory and in pages that were
  free keeps the others.
\<close>

lemma pds_ok_change:
  assumes ok: "pds_ok D s" and pd: "pd \<in> D" and q: "palloc_ok s'" "init_page_dir s' = init_page_dir s"
    "pool_used (kernel_pool s) \<subseteq> pool_used (kernel_pool s')"
    and wf: "pd_wf (ram s') pd" "owned (ram s') pd \<subseteq> owned (ram s) pd \<union> F" "owned (ram s') pd \<subseteq> pool_used (kernel_pool s')"
    and F: "F \<inter> pool_used (kernel_pool s) = {}"
    and out: "\<And>x. x div 4096 \<notin> owned (ram s) pd \<Longrightarrow> x div 4096 \<notin> F \<Longrightarrow> ram s' x = ram s x"
  shows "pds_ok D s'" and "pd' \<in> D \<Longrightarrow> pd' \<noteq> pd \<Longrightarrow> v < 0xc0000 \<Longrightarrow> entry (ram s') pd' v = entry (ram s) pd' v"
proof -
  let ?i = "init_page_dir s"
  have init: "is_kpage ?i" "?i div 4096 \<in> pool_used (kernel_pool s)" "?i div 4096 \<notin> owned (ram s) pd"
    "\<forall>i<768. pde_at (ram s) ?i i = 0"
    using ok pd by (simp_all add: pds_ok_def)
  have fr: "ram s' x = ram s x" if "pd' \<in> D" "pd' \<noteq> pd" "x div 4096 \<in> owned (ram s) pd'" for pd' x
  proof -
    have "owned (ram s) pd' \<inter> owned (ram s) pd = {}" "owned (ram s) pd' \<subseteq> pool_used (kernel_pool s)"
      using ok pd that by (simp_all add: pds_ok_def)
    then show ?thesis using out [of x] that(3) F by blast
  qed
  note other = pd_frame [OF pds_okD(3) [OF ok], of _ "ram s'"]
  show "pd' \<in> D \<Longrightarrow> pd' \<noteq> pd \<Longrightarrow> v < 0xc0000 \<Longrightarrow> entry (ram s') pd' v = entry (ram s) pd' v"
    using other(4) fr by blast
  have ow: "owned (ram s') pd' = owned (ram s) pd'" "pd_wf (ram s') pd'" if "pd' \<in> D" "pd' \<noteq> pd" for pd'
    using other(2,3) fr that by blast+
  have iF: "?i div 4096 \<notin> F" using init(2) F by blast
  have "pde_at (ram s') ?i i = pde_at (ram s) ?i i" if "i < 768" for i
    unfolding pde_at_def using that init(1,3) out iF
    by (intro load32_page) (simp_all add: is_kpage_def)
  then have i0: "\<forall>i<768. pde_at (ram s') ?i i = 0" using init(4) by simp
  have own: "owned (ram s') a \<subseteq> pool_used (kernel_pool s') \<and> ?i div 4096 \<notin> owned (ram s') a \<and> pd_wf (ram s') a"
    if "a \<in> D" for a
  proof (cases "a = pd")
    case True
    then show ?thesis using wf init(2,3) F by blast
  next
    case False
    then show ?thesis using ow [OF that False] pds_okD(4,6) [OF ok that] q(3) by auto
  qed
  have dis: "owned (ram s') a \<inter> owned (ram s') b = {}" if "a \<in> D" "b \<in> D" "a \<noteq> b" for a b
  proof -
    have old: "owned (ram s) a \<inter> owned (ram s) b = {}" using ok that by (simp add: pds_ok_def)
    have nF: "owned (ram s) c \<inter> F = {}" if "c \<in> D" for c using pds_okD(4) [OF ok that] F by blast
    consider "a = pd" | "b = pd" | "a \<noteq> pd" "b \<noteq> pd" by blast
    then show ?thesis
      by cases (use old nF [OF that(1)] nF [OF that(2)] wf(2) ow that in blast)+
  qed
  show "pds_ok D s'" unfolding pds_ok_def q(2) using q(1,3) init(1,2) i0 own dis by blast
qed

definition upd_entry :: "ptr set \<Rightarrow> ptr \<Rightarrow> nat \<Rightarrow> u32 \<Rightarrow> machine \<Rightarrow> machine \<Rightarrow> bool" where
  "upd_entry D pd w e s s' \<longleftrightarrow> pds_ok D s' \<and> pd_quiet s s' \<and>
     (\<forall>pd'\<in>D. \<forall>v<0xc0000. entry (ram s') pd' v = (if pd' = pd \<and> v = w then e else entry (ram s) pd' v))"

lemma store_entry:
  assumes ok: "pds_ok D s" and pd: "pd \<in> D" and w: "w < 0xc0000" and pde: "pde_at (ram s) pd (w div 1024) \<noteq> 0"
  shows "upd_entry D pd w e s (s\<lparr>ram := store32 (ram s) (pte_addr (ram s) pd w) e\<rparr>)"
proof -
  let ?m = "store32 (ram s) (pte_addr (ram s) pd w) e" and ?pt = "pt_at (ram s) pd (w div 1024)"
  note E = entry_store [OF pds_okD(3) [OF ok pd] w pde, of ?m e, unfolded pte_addr_def, OF refl, folded pte_addr_def]
  have pt: "?pt div 4096 \<in> owned (ram s) pd" using owned_table [OF _ pde] w by simp
  note C = pds_ok_change [OF ok pd, of "s\<lparr>ram := ?m\<rparr>" "{}", simplified]
  have out: "?m x = ram s x" if "x div 4096 \<notin> owned (ram s) pd" for x using E(4) pt that by metis
  have ok': "pds_ok D (s\<lparr>ram := ?m\<rparr>)"
    using C(1) pds_okD(1) [OF ok] E(1,2) pds_okD(4) [OF ok pd] out by simp
  have "entry ?m a v = entry (ram s) a v" if "a \<in> D" "a \<noteq> pd" "v < 0xc0000" for a v
    using C(2) [of a v] that pds_okD(1) [OF ok] E(1,2) pds_okD(4) [OF ok pd] out by simp
  then have ent: "\<forall>a\<in>D. \<forall>v<0xc0000. entry ?m a v = (if a = pd \<and> v = w then e else entry (ram s) a v)"
    using E(3) by (metis (no_types))
  have "?m x = ram s x" if "x div 4096 \<in> pool_pages (user_pool s)" for x
    using that out [of x] kernel_not_user [OF pds_okD(1) [OF ok]] pds_okD(4) [OF ok pd] by blast
  then show ?thesis unfolding upd_entry_def pd_quiet_def using ok' ent by simp
qed


text \<open>Looking up with creation: an existing table, a new one, or no memory for one.\<close>

lemma no_entry_change:
  assumes "pds_ok D s'" and "pd_quiet s s'" and "\<And>pd' v. pd' \<in> D \<Longrightarrow> v < 0xc0000 \<Longrightarrow> entry (ram s') pd' v = entry (ram s) pd' v"
    and "upd_entry D pd w e s' s''"
  shows "upd_entry D pd w e s s''"
  using assms pd_quiet_trans by (auto simp: upd_entry_def)

lemma add_table_step:
  assumes ok: "pds_ok D s" and pd: "pd \<in> D" and g: "got_pages False True 1 s k s1"
    and A: "add_table (ram s) pd i k e m"
  shows "pds_ok D (s1\<lparr>ram := m\<rparr>)" and "pd_quiet s (s1\<lparr>ram := m\<rparr>)"
    and "pd' \<in> D \<Longrightarrow> v < 0xc0000 \<Longrightarrow> entry m pd' v = entry (ram s) pd' v"
proof -
  let ?s = "s1\<lparr>ram := m\<rparr>"
  obtain K U where s1: "s1 = s\<lparr>kernel_pool := K, user_pool := U, ram := zeroed True k 1 (ram s)\<rparr>"
    using g by (auto simp: got_pages_def)
  have G: "palloc_ok s1" "pool_used (kernel_pool s1) = pool_used (kernel_pool s) \<union> {k}" "user_pool s1 = user_pool s"
    "k \<in> pool_pages (kernel_pool s)" "k \<notin> pages_used s"
    using g by (auto simp: got_pages_def pool_of_def slots_def)
  note pa = pds_okD(1) [OF ok]
  have nk: "k \<notin> pool_used (kernel_pool s)" using G(5) by (simp add: pages_used_def)
  have out: "m x = ram s x" if "x div 4096 \<notin> owned (ram s) pd" "x div 4096 \<notin> {k}" for x
    using add_table_pdes(7) [OF A, of x] that owned_pd [of pd "ram s"] by (metis singletonI)
  have C: "palloc_ok ?s" "init_page_dir ?s = init_page_dir s" "pool_used (kernel_pool s) \<subseteq> pool_used (kernel_pool ?s)"
    "pd_wf (ram ?s) pd" "owned (ram ?s) pd \<subseteq> owned (ram s) pd \<union> {k}" "owned (ram ?s) pd \<subseteq> pool_used (kernel_pool ?s)"
    "{k} \<inter> pool_used (kernel_pool s) = {}"
    using G(1,2) s1 add_table_wf [OF A] add_table_owned [OF A] pds_okD(4) [OF ok pd] nk by auto
  note ch = pds_ok_change [OF ok pd C]
  show "pds_ok D ?s" using ch(1) out by simp
  show "pd' \<in> D \<Longrightarrow> v < 0xc0000 \<Longrightarrow> entry m pd' v = entry (ram s) pd' v"
    using ch(2) [of pd' v] out add_table_entry [OF A, of v] by (cases "pd' = pd") auto
  have "m x = ram s x" if "x div 4096 \<in> pool_pages (user_pool s)" for x
    using out [of x] that kernel_not_user [OF pa] pds_okD(4) [OF ok pd] pools_disjoint [OF pa, of False] G(4)
    by (auto simp: pool_of_def)
  then show "pd_quiet s ?s" using s1 G(3) by (simp add: pd_quiet_def)
qed

lemma lookup_page_create:
  assumes ok: "pds_ok D s" and pd: "pd \<in> D" and a: "a < PHYS_BASE"
  shows "(\<exists>s'. lookup_page pd a True s = Some (pte_addr (ram s') pd (a div 4096), s') \<and>
      pds_ok D s' \<and> pd_quiet s s' \<and> pde_at (ram s') pd (a div 4096 div 1024) \<noteq> 0 \<and>
      (\<forall>pd'\<in>D. \<forall>v<0xc0000. entry (ram s') pd' v = entry (ram s) pd' v) \<and>
      (\<exists>K m. s' = s\<lparr>kernel_pool := K, ram := m\<rparr>)) \<or>
    lookup_page pd a True s = Some (NULL, s) \<and> no_run False 1 s"
proof -
  let ?v = "a div 4096" and ?m = "ram s" and ?i = "pd_no a"
  note wf = pds_okD(3) [OF ok pd] and u = user_index [OF a] and pa = pds_okD(1) [OF ok]
  have n0: "pd \<noteq> NULL" using pd_wfD(1) [OF wf] by (auto simp: is_kpage_def)
  show ?thesis
  proof (cases "pde_at ?m pd ?i = 0")
    case False
    then have "lookup_page pd a True s = Some (pte_addr ?m pd ?v, s)"
      using pde_get_pt_at [OF wf u(4) False] n0 u a
      by (simp add: lookup_page_def is_user_vaddr_def Let_def pde_at_def pte_addr_def)
    moreover have "\<exists>K m. s = s\<lparr>kernel_pool := K, ram := m\<rparr>"
      by (intro exI [of _ "kernel_pool s"] exI [of _ "ram s"]) simp
    ultimately show ?thesis using False u(1) ok by (intro disjI1 exI [of _ s] conjI) simp_all
  next
    case True
    then have z: "load32 ?m (pd + 4 * ?i) = 0" by (simp add: pde_at_def)
    from palloc_get_multiple_ok [OF pa, of 1 False PAL_ZERO]
    consider (got) k s1 where "palloc_get_multiple PAL_ZERO 1 s = Some (4096 * k, s1)" "got_pages False True 1 s k s1" |
      (full) "palloc_get_multiple PAL_ZERO 1 s = Some (NULL, s)" "no_run False 1 s" by auto
    then show ?thesis
    proof cases
      case full
      then show ?thesis using z n0 a by (simp add: lookup_page_def is_user_vaddr_def Let_def palloc_get_page_def)
    next
      case got
      have k: "0 < k" "k \<in> pool_pages (kernel_pool s)" "k \<notin> pages_used s"
        using got(2) by (auto simp: got_pages_def pool_of_def slots_def)
      have kp: "is_kpage (4096 * k)"
        using pool_pages_bound [OF palloc_ok_pools [OF pa, of False]] k(2) by (auto simp: pool_of_def is_kpage_def)
      obtain e where e: "pde_create (4096 * k) = Some e" "pde_get_pt e = Some (4096 * k)"
        using pde_create_ok [OF kp] by blast
      obtain K U where s1: "s1 = s\<lparr>kernel_pool := K, user_pool := U, ram := zeroed True k 1 ?m\<rparr>"
        using got(2) by (auto simp: got_pages_def)
      have us: "user_pool s1 = user_pool s" using got(2) by (simp add: got_pages_def pool_of_def)
      define m where "m = store32 (ram s1) (pd + 4 * ?i) e"
      have A: "add_table ?m pd ?i k e m"
        using wf u(4) True kp e(1) k(3) pds_okD(4) [OF ok pd] s1
        by (auto simp: add_table_def m_def pages_used_def)
      have "lookup_page pd a True s = Some (pte_addr m pd ?v, s1\<lparr>ram := m\<rparr>)"
        using z n0 a got(1) k(1) e u add_table_pdes(4) [OF A]
        by (simp add: lookup_page_def is_user_vaddr_def Let_def palloc_get_page_def m_def pte_addr_def)
      moreover have "s1\<lparr>ram := m\<rparr> = s\<lparr>kernel_pool := K, ram := m\<rparr>" using s1 us by simp
      ultimately show ?thesis
        using add_table_step [OF ok pd got(2) A] add_table_pdes(1,2) [OF A] u(1)
        by (intro disjI1 exI [of _ "s1\<lparr>ram := m\<rparr>"]) (simp, blast)
    qed
  qed
qed

end
