(* ===== verification/Pagedir_Spec.thy ===== *)
theory Pagedir_Spec
  imports Pagedir Machine
begin

text \<open>
  What page directories promise: each is a map from user pages to frames, with the right
  to write. The state of the specification is the map of each page directory and which
  one is active. Besides the calls of the kernel there are the accesses of the processor,
  which translates through its TLB and sets the accessed and dirty bits.
\<close>

section \<open>The processor\<close>

text \<open>
  The translation of an access to the user page \<open>v\<close>: a cached entry is used if it already
  has the bits the access sets; otherwise the tables are walked, the bits are set in
  memory and the entry is cached. The result is the frame, or \<open>NULL\<close> for a page fault.
\<close>

definition frame_of :: "u32 \<Rightarrow> ptr" where
  "frame_of e = unat (e AND PTE_ADDR) + PHYS_BASE"

definition permits :: "u32 \<Rightarrow> bool \<Rightarrow> bool" where
  "permits e wr \<longleftrightarrow> e AND PTE_P \<noteq> 0 \<and> (wr \<longrightarrow> e AND PTE_W \<noteq> 0)"

definition cpu_translate :: "nat \<Rightarrow> bool \<Rightarrow> machine \<Rightarrow> (ptr \<times> machine) option" where
  "cpu_translate v wr s = do {
     a \<leftarrow> active_pd s;
     let need = PTE_A OR (if wr then PTE_D else 0);
     case tlb s v of
       Some e \<Rightarrow>
         if permits e wr \<and> e AND need = need then Some (frame_of e, s)
         else if \<not> permits e wr then Some (NULL, s)
         else let f = entry (ram s) a v OR need in
           Some (frame_of f, s\<lparr>ram := store32 (ram s) (pte_addr (ram s) a v) f, tlb := (tlb s)(v \<mapsto> f)\<rparr>)
     | None \<Rightarrow>
         if permits (entry (ram s) a v) wr then
           let f = entry (ram s) a v OR need in
           Some (frame_of f, s\<lparr>ram := store32 (ram s) (pte_addr (ram s) a v) f, tlb := (tlb s)(v \<mapsto> f)\<rparr>)
         else Some (NULL, s) }"

text \<open>An access reads, or writes a byte at an offset in the page: the byte goes to the frame.\<close>

definition cpu_access :: "nat \<Rightarrow> (nat \<times> u8) option \<Rightarrow> machine \<Rightarrow> (ptr \<times> machine) option" where
  "cpu_access v wr s = do {
     (k, s) \<leftarrow> cpu_translate v (wr \<noteq> None) s;
     Some (k, if k = NULL then s
              else case wr of None \<Rightarrow> s | Some (ofs, b) \<Rightarrow> s\<lparr>ram := (ram s)(k + ofs := b)\<rparr>) }"

section \<open>Specification\<close>

type_synonym aspace = "nat \<rightharpoonup> ptr \<times> bool"

type_synonym aspaces = "(ptr \<rightharpoonup> aspace) \<times> ptr"

datatype pd_call =
    Create | Destroy ptr | Map ptr nat ptr bool | Unmap ptr nat | Get ptr ptr
  | Accessed ptr nat bool | Dirty ptr nat bool | Activate ptr | Access nat "(nat \<times> u8) option"

text \<open>The call in the code; truth values are the numbers 0 and 1.\<close>

fun pd_run :: "pd_call \<Rightarrow> machine \<Rightarrow> (nat \<times> machine) option" where
  "pd_run Create s = pagedir_create s"
| "pd_run (Destroy pd) s = map_option (Pair 0) (pagedir_destroy pd s)"
| "pd_run (Map pd v k w) s =
     map_option (\<lambda>(b, s). (of_bool b, s)) (pagedir_set_page pd (4096 * v) k w s)"
| "pd_run (Unmap pd v) s = map_option (Pair 0) (pagedir_clear_page pd (4096 * v) s)"
| "pd_run (Get pd a) s = map_option (\<lambda>r. (r, s)) (pagedir_get_page pd a s)"
| "pd_run (Accessed pd v b) s = map_option (Pair 0) (pagedir_set_accessed pd (4096 * v) b s)"
| "pd_run (Dirty pd v b) s = map_option (Pair 0) (pagedir_set_dirty pd (4096 * v) b s)"
| "pd_run (Activate pd) s = map_option (Pair 0) (pagedir_activate pd s)"
| "pd_run (Access v wr) s = cpu_access v wr s"

text \<open>The answer a map allows; creation and mapping may fail for lack of memory.\<close>

definition translate :: "aspace option \<Rightarrow> nat \<Rightarrow> bool \<Rightarrow> ptr" where
  "translate f v wr =
     (case f of None \<Rightarrow> NULL
      | Some g \<Rightarrow> (case g v of None \<Rightarrow> NULL | Some (k, w) \<Rightarrow> if wr \<and> \<not> w then NULL else k))"

fun pd_next :: "aspaces \<Rightarrow> pd_call \<Rightarrow> nat \<Rightarrow> aspaces option" where
  "pd_next (M, a) Create r =
     (if r = NULL then Some (M, a) else if M r = None then Some (M(r \<mapsto> Map.empty), a) else None)"
| "pd_next (M, a) (Destroy pd) r = Some (M(pd := None), a)"
| "pd_next (M, a) (Map pd v k w) r =
     (if r = 0 then Some (M, a) else map_option (\<lambda>f. (M(pd \<mapsto> f(v \<mapsto> (k, w))), a)) (M pd))"
| "pd_next (M, a) (Unmap pd v) r = map_option (\<lambda>f. (M(pd \<mapsto> f(v := None)), a)) (M pd)"
| "pd_next (M, a) (Get pd x) r =
     (case M pd of None \<Rightarrow> None
      | Some f \<Rightarrow>
          if r = (case f (x div 4096) of None \<Rightarrow> NULL | Some (k, w) \<Rightarrow> k + x mod 4096) then Some (M, a) else None)"
| "pd_next (M, a) (Accessed pd v b) r = Some (M, a)"
| "pd_next (M, a) (Dirty pd v b) r = Some (M, a)"
| "pd_next (M, a) (Activate pd) r = Some (M, pd)"
| "pd_next (M, a) (Access v wr) r = (if r = translate (M a) v (wr \<noteq> None) then Some (M, a) else None)"

text \<open>
  What the callers respect: they use live page directories and user addresses, map only
  pages that are not mapped, to frames of the user pool within the machine's memory, and
  do not destroy the active directory. \<open>F\<close> are the frames that may be mapped.
\<close>

definition user_frames :: "machine \<Rightarrow> ptr set" where
  "user_frames s = {k. is_kpage k \<and> k < PHYS_BASE + 4096 * init_ram_pages s \<and> k div 4096 \<in> pool_pages (user_pool s)}"

fun pd_can :: "ptr set \<Rightarrow> aspaces \<Rightarrow> pd_call \<Rightarrow> bool" where
  "pd_can F (M, a) Create \<longleftrightarrow> True"
| "pd_can F (M, a) (Destroy pd) \<longleftrightarrow> M pd \<noteq> None \<and> pd \<noteq> a"
| "pd_can F (M, a) (Map pd v k w) \<longleftrightarrow>
     (case M pd of None \<Rightarrow> False | Some f \<Rightarrow> f v = None) \<and> v < 0xc0000 \<and> k \<in> F"
| "pd_can F (M, a) (Unmap pd v) \<longleftrightarrow> M pd \<noteq> None \<and> v < 0xc0000"
| "pd_can F (M, a) (Get pd x) \<longleftrightarrow> M pd \<noteq> None \<and> x < PHYS_BASE"
| "pd_can F (M, a) (Accessed pd v b) \<longleftrightarrow> M pd \<noteq> None \<and> v < 0xc0000"
| "pd_can F (M, a) (Dirty pd v b) \<longleftrightarrow> M pd \<noteq> None \<and> v < 0xc0000"
| "pd_can F (M, a) (Activate pd) \<longleftrightarrow> pd = NULL \<or> M pd \<noteq> None"
| "pd_can F (M, a) (Access v wr) \<longleftrightarrow> v < 0xc0000 \<and> (\<forall>ofs b. wr = Some (ofs, b) \<longrightarrow> ofs < 4096)"

section \<open>Simulation\<close>

definition eview :: "u32 \<Rightarrow> (ptr \<times> bool) option" where
  "eview e = (if e AND PTE_P \<noteq> 0 then Some (frame_of e, e AND PTE_W \<noteq> 0) else None)"

definition aview :: "mem \<Rightarrow> ptr \<Rightarrow> aspace" where
  "aview m pd v = (if v < 0xc0000 then eview (entry m pd v) else None)"

text \<open>A cached entry differs from the one in memory at most in accessed and dirty bits not yet seen.\<close>

definition cached :: "u32 \<Rightarrow> u32 \<Rightarrow> bool" where
  "cached e f \<longleftrightarrow> e AND NOT 0x60 = f AND NOT 0x60 \<and> e AND PTE_P \<noteq> 0"

text \<open>The active directory is \<open>a\<close> (\<open>NULL\<close> for the initial one), and the TLB agrees with it.\<close>

definition act_ok :: "ptr set \<Rightarrow> ptr \<Rightarrow> machine \<Rightarrow> bool" where
  "act_ok D a s \<longleftrightarrow> (a = NULL \<or> a \<in> D) \<and>
     active_pd s = Some (if a = NULL then init_page_dir s else a) \<and>
     (\<forall>v e. tlb s v = Some e \<longrightarrow> v < 0xc0000 \<and> a \<noteq> NULL \<and> cached e (entry (ram s) a v))"

text \<open>The maps of the specification have frames of the user pool only.\<close>

definition frames_ok :: "ptr set \<Rightarrow> (ptr \<rightharpoonup> aspace) \<Rightarrow> bool" where
  "frames_ok F M \<longleftrightarrow> (\<forall>pd f v k w. M pd = Some f \<longrightarrow> f v = Some (k, w) \<longrightarrow> k \<in> F)"

definition pd_sim :: "aspaces \<Rightarrow> machine \<Rightarrow> bool" where
  "pd_sim S s \<longleftrightarrow> pds_ok (dom (fst S)) s \<and> act_ok (dom (fst S)) (snd S) s \<and>
     (\<forall>pd f. fst S pd = Some f \<longrightarrow> f = aview (ram s) pd) \<and> frames_ok (user_frames s) (fst S)"


lemma same_bits:
  fixes e f b :: u32
  assumes "e AND NOT 0x60 = f AND NOT 0x60" and "b AND NOT 0x60 = b"
  shows "e AND b = f AND b"
proof -
  have "x AND b = (x AND NOT 0x60) AND b" for x
  proof -
    have "x AND b = x AND (b AND NOT 0x60)" by (simp only: assms(2))
    then show ?thesis by (simp only: and.assoc and.commute [of b])
  qed
  then show ?thesis using assms(1) by metis
qed

lemma cached_bits:
  assumes "e AND NOT 0x60 = f AND NOT 0x60"
  shows "e AND PTE_P = f AND PTE_P" and "e AND PTE_W = f AND PTE_W" and "e AND PTE_ADDR = f AND PTE_ADDR"
  by (rule same_bits [OF assms], simp)+

lemma cached_eview: "e AND NOT 0x60 = f AND NOT 0x60 \<Longrightarrow> eview e = eview f"
  unfolding eview_def frame_of_def using cached_bits [of e f] by metis

lemma or_bits:
  fixes e n :: u32
  assumes "n AND NOT 0x60 = 0"
  shows "(e OR n) AND NOT 0x60 = e AND NOT 0x60"
  using assms by (simp add: bit.conj_disj_distrib2)

lemma and_not_bits:
  fixes e n :: u32
  assumes "NOT n AND NOT 0x60 = NOT 0x60"
  shows "(e AND NOT n) AND NOT 0x60 = e AND NOT 0x60"
  using assms by (simp only: and.assoc)

lemma pds_ok_cpu [simp]:
  "pds_ok D (s\<lparr>cr3 := c, tlb := t\<rparr>) = pds_ok D s" "pds_ok D (s\<lparr>tlb := t\<rparr>) = pds_ok D s"
  "pds_ok D (s\<lparr>cr3 := c\<rparr>) = pds_ok D s"
  by (simp_all add: pds_ok_def palloc_ok_def)

lemma activate_ok:
  assumes "is_kpage pd"
  shows "\<exists>c. pagedir_activate pd s = Some (s\<lparr>cr3 := c, tlb := Map.empty\<rparr>) \<and> ptov c = Some pd"
  using is_kpage_word(1,3) [OF assms] assms by (auto simp: pagedir_activate_def is_kpage_def)

lemma upd_view:
  assumes "upd_entry D pd w e s s'" and "pd' \<in> D" and "w < 0xc0000"
  shows "aview (ram s') pd' = (if pd' = pd then (aview (ram s) pd)(w := eview e) else aview (ram s) pd')"
  using assms by (auto simp: aview_def upd_entry_def fun_eq_iff)

lemma act_upd:
  assumes act: "act_ok D a s" and u: "upd_entry D pd w e s s'" and c: "tlb s' = tlb s" "cr3 s' = cr3 s"
    and x: "\<And>x. a = pd \<Longrightarrow> tlb s w = Some x \<Longrightarrow> cached x e"
  shows "act_ok D a s'"
proof -
  have "init_page_dir s' = init_page_dir s" using u by (simp add: upd_entry_def pd_quiet_def)
  then show ?thesis using assms by (auto simp: act_ok_def upd_entry_def active_pd_def)
qed

lemma act_invalidate:
  assumes act: "act_ok D a s" and ok: "pds_ok D s" and pd: "pd \<in> D" and u: "upd_entry D pd w e s s'"
    and c: "tlb s' = tlb s" "cr3 s' = cr3 s"
  shows "\<exists>s''. invalidate_pagedir pd s' = Some s'' \<and> act_ok D a s'' \<and> upd_entry D pd w e s s''"
proof -
  have i: "init_page_dir s' = init_page_dir s" and ok': "pds_ok D s'"
    using u by (simp_all add: upd_entry_def pd_quiet_def)
  have kp: "is_kpage pd" using pd_wfD(1) [OF pds_okD(3) [OF ok pd]] .
  have av: "active_pd s' = Some (if a = NULL then init_page_dir s else a)"
    using act c by (simp add: act_ok_def active_pd_def)
  have n: "pd \<noteq> NULL" "pd \<noteq> init_page_dir s" using kp pds_okD(5) [OF ok pd] by (auto simp: is_kpage_def)
  show ?thesis
  proof (cases "a = pd")
    case True
    obtain k where "pagedir_activate pd s' = Some (s'\<lparr>cr3 := k, tlb := Map.empty\<rparr>)" "ptov k = Some pd"
      using activate_ok [OF kp] by blast
    then show ?thesis using True av n pd ok' u
      by (auto simp: invalidate_pagedir_def act_ok_def active_pd_def upd_entry_def pd_quiet_def)
  next
    case False
    have "act_ok D a s'" using act_upd [OF act u c] False by blast
    then show ?thesis using False av n u by (auto simp: invalidate_pagedir_def split: if_splits)
  qed
qed

lemma sim_upd:
  assumes sim: "pd_sim (M, a) s" and M: "M pd = Some f" and w: "w < 0xc0000"
    and u: "upd_entry (dom M) pd w e s s'" and act: "act_ok (dom M) a s'"
    and fr: "\<And>k b. eview e = Some (k, b) \<Longrightarrow> k \<in> user_frames s"
  shows "pd_sim (M(pd \<mapsto> f(w := eview e)), a) s'" and "user_frames s' = user_frames s"
proof -
  let ?M = "M(pd \<mapsto> f(w := eview e))"
  have f: "f = aview (ram s) pd" using sim M by (simp add: pd_sim_def)
  have D: "dom ?M = dom M" using M by auto
  have n: "user_frames s' = user_frames s" using u by (simp add: upd_entry_def pd_quiet_def user_frames_def)
  then show "user_frames s' = user_frames s" .
  have "g = aview (ram s') p" if "?M p = Some g" for p g
  proof (cases "p = pd")
    case True
    then show ?thesis using that upd_view [OF u _ w, of pd] M f by (auto simp: dom_def)
  next
    case False
    then have "g = aview (ram s) p" "p \<in> dom M" using that sim by (auto simp: pd_sim_def)
    then show ?thesis using upd_view [OF u _ w, of p] False by simp
  qed
  moreover have "frames_ok (user_frames s) M" using sim by (simp add: pd_sim_def)
  then have "frames_ok (user_frames s') ?M"
    unfolding frames_ok_def n using fr M by (auto split: if_splits)
  ultimately show "pd_sim (?M, a) s'"
    using u act unfolding pd_sim_def fst_conv snd_conv D by (simp add: upd_entry_def)
qed


text \<open>The part of a step that the following lemmas prove for each call.\<close>

definition pd_step :: "aspaces \<Rightarrow> machine \<Rightarrow> pd_call \<Rightarrow> bool" where
  "pd_step S s c \<longleftrightarrow> (\<exists>r s' S'. pd_run c s = Some (r, s') \<and> pd_next S c r = Some S' \<and> pd_sim S' s' \<and>
     user_frames s' = user_frames s)"

lemma pd_stepI:
  "pd_run c s = Some (r, s') \<Longrightarrow> pd_next S c r = Some S' \<Longrightarrow> pd_sim S' s' \<Longrightarrow>
    user_frames s' = user_frames s \<Longrightarrow> pd_step S s c"
  unfolding pd_step_def by blast

lemma pd_simD:
  assumes "pd_sim (M, a) s"
  shows "pds_ok (dom M) s" and "act_ok (dom M) a s" and "M pd = Some f \<Longrightarrow> f = aview (ram s) pd"
    and "M pd = Some f \<Longrightarrow> f v = Some (k, w) \<Longrightarrow> k \<in> user_frames s"
    and "M pd = Some f \<Longrightarrow> pd \<in> dom M"
proof -
  show "pds_ok (dom M) s" "act_ok (dom M) a s" "M pd = Some f \<Longrightarrow> f = aview (ram s) pd" "M pd = Some f \<Longrightarrow> pd \<in> dom M"
    using assms by (auto simp: pd_sim_def)
  show "M pd = Some f \<Longrightarrow> f v = Some (k, w) \<Longrightarrow> k \<in> user_frames s"
    using assms unfolding pd_sim_def frames_ok_def fst_conv by blast
qed

lemma user_frames_cpu [simp]:
  "user_frames (s\<lparr>cr3 := c\<rparr>) = user_frames s" "user_frames (s\<lparr>tlb := t\<rparr>) = user_frames s"
  "user_frames (s\<lparr>ram := m\<rparr>) = user_frames s" "user_frames (s\<lparr>kernel_pool := K\<rparr>) = user_frames s"
  by (simp_all add: user_frames_def)

lemma page_number: "v < 0xc0000 \<Longrightarrow> 4096 * v < PHYS_BASE \<and> pg_ofs (4096 * v) = 0 \<and> 4096 * v div 4096 = v"
  by (simp add: pg_ofs_eq)

lemma eview_user:
  assumes "e AND PGMASK = (if w then 7 else 5)"
  shows "eview e = Some (frame_of e, w)"
proof -
  have m: "PGMASK AND 1 = 1" "PGMASK AND 2 = 2" by (simp_all add: PGMASK_def BITMASK_def)
  have "e AND 1 = (e AND PGMASK) AND 1" "e AND 2 = (e AND PGMASK) AND 2" using m by (simp_all only: and.assoc)
  then show ?thesis unfolding eview_def assms by auto
qed

lemma Map_step:
  assumes sim: "pd_sim (M, a) s" and can: "pd_can (user_frames s) (M, a) (Map pd v k w)"
  shows "pd_step (M, a) s (Map pd v k w)"
proof -
  obtain f where f: "M pd = Some f" "f v = None" using can by (auto split: option.splits)
  have v: "v < 0xc0000" and kF: "k \<in> user_frames s" and k: "is_kpage k" "k < PHYS_BASE + 4096 * init_ram_pages s"
    using can by (simp_all add: user_frames_def)
  note S = pd_simD [OF sim] and pn = page_number [OF v]
  have pd: "pd \<in> dom M" using f by blast
  have np: "entry (ram s) pd v AND PTE_P = 0"
    using S(3) [OF f(1)] f(2) v by (auto simp: aview_def eview_def split: if_splits)
  have p: "vtop k = Some (uintptr (k - PHYS_BASE))" "unat (drop_bit PTSHIFT (uintptr (k - PHYS_BASE))) < init_ram_pages s"
    using is_kpage_word(1) [OF k(1)] k by (auto simp: is_kpage_def drop_bit_eq_div unat_div unat_uintptr)
  have pre: "pagedir_set_page pd (4096 * v) k w s = do {
      (pte, s) \<leftarrow> lookup_page pd (4096 * v) True s;
      if pte \<noteq> NULL then do {
        ASSERT (load32 (ram s) pte AND PTE_P = 0);
        e \<leftarrow> pte_create_user k w;
        Some (True, s\<lparr>ram := store32 (ram s) pte e\<rparr>) }
      else Some (False, s) }"
    using pn p is_kpage_word(4) [OF k(1)] pds_okD(5) [OF S(1) pd] by (simp add: pagedir_set_page_def is_user_vaddr_def)
  from lookup_page_create [OF S(1) pd conjunct1 [OF pn]] show ?thesis
  proof (elim disjE exE conjE)
    assume "lookup_page pd (4096 * v) True s = Some (NULL, s)"
    then have "pd_run (Map pd v k w) s = Some (0, s)" by (simp add: pre)
    then show ?thesis using sim by (intro pd_stepI [of _ _ 0 s]) simp_all
  next
    fix s1 K m
    assume l: "lookup_page pd (4096 * v) True s = Some (pte_addr (ram s1) pd (4096 * v div 4096), s1)"
      and ok1: "pds_ok (dom M) s1" and q: "pd_quiet s s1" and pde: "pde_at (ram s1) pd (4096 * v div 4096 div 1024) \<noteq> 0"
      and en: "\<forall>pd'\<in>dom M. \<forall>v<0xc0000. entry (ram s1) pd' v = entry (ram s) pd' v"
      and s1: "s1 = s\<lparr>kernel_pool := K, ram := m\<rparr>"
    have pde: "pde_at (ram s1) pd (v div 1024) \<noteq> 0" using pde pn by simp
    obtain e where e: "pte_create_user k w = Some e" "e AND PGMASK = (if w then 7 else 5)" "frame_of e = k"
      using pte_create_user_ok [OF k(1), of w] by (auto simp: frame_of_def)
    note ev = eview_user [OF e(2), unfolded e(3)]
    let ?s = "s1\<lparr>ram := store32 (ram s1) (pte_addr (ram s1) pd v) e\<rparr>"
    have nn: "pte_addr (ram s1) pd v \<noteq> NULL" using pte_addr_nonnull [OF pds_okD(3) [OF ok1 pd] v pde] .
    have "load32 (ram s1) (pte_addr (ram s1) pd v) AND PTE_P = 0" using entry_pte [OF pde] en pd v np by simp
    then have run: "pd_run (Map pd v k w) s = Some (1, ?s)" using l nn e(1) pn by (simp add: pre)
    have u: "upd_entry (dom M) pd v e s ?s"
      using no_entry_change [OF ok1 q _ store_entry [OF ok1 pd v pde]] en by blast
    have "act_ok (dom M) a ?s"
    proof (rule act_upd [OF S(2) u])
      show "tlb ?s = tlb s" "cr3 ?s = cr3 s" using s1 by simp_all
      fix x assume "a = pd" "tlb s v = Some x"
      then have "cached x (entry (ram s) pd v)" using S(2) by (auto simp: act_ok_def)
      then show "cached x e" using np cached_bits(1) by (metis cached_def)
    qed
    then show ?thesis using sim_upd [OF sim f(1) v u] ev kF run f(1) by (intro pd_stepI [OF run]) auto
  qed
qed


lemma sim_same:
  assumes sim: "pd_sim (M, a) s" and f: "M pd = Some f" and v: "v < 0xc0000" and e: "eview e = f v"
    and u: "upd_entry (dom M) pd v e s s'" and act: "act_ok (dom M) a s'"
  shows "pd_sim (M, a) s'" and "user_frames s' = user_frames s"
proof -
  have "M(pd \<mapsto> f(v := eview e)) = M" using f e by (simp add: fun_upd_idem_iff)
  then show "pd_sim (M, a) s'" "user_frames s' = user_frames s"
    using sim_upd [OF sim f v u act] pd_simD(4) [OF sim f] e by auto
qed

lemma lookup_entry:
  assumes sim: "pd_sim (M, a) s" and f: "M pd = Some f" and x: "x < PHYS_BASE"
  shows "(lookup_page pd x False s = Some (NULL, s) \<and> f (x div 4096) = None \<and> entry (ram s) pd (x div 4096) = 0) \<or>
    (\<exists>p. lookup_page pd x False s = Some (p, s) \<and> p \<noteq> NULL \<and> p = pte_addr (ram s) pd (x div 4096) \<and>
      pde_at (ram s) pd (x div 4096 div 1024) \<noteq> 0 \<and> load32 (ram s) p = entry (ram s) pd (x div 4096) \<and>
      f (x div 4096) = eview (entry (ram s) pd (x div 4096)))"
proof -
  let ?v = "x div 4096"
  note S = pd_simD [OF sim]
  have wf: "pd_wf (ram s) pd" using pds_okD(3) [OF S(1)] f by blast
  have v: "?v < 0xc0000" using user_index(3) [OF x] .
  have fv: "f ?v = eview (entry (ram s) pd ?v)" using S(3) [OF f] v by (simp add: aview_def)
  show ?thesis
  proof (cases "pde_at (ram s) pd (?v div 1024) = 0")
    case True
    then show ?thesis using lookup_page_read [OF wf x] fv by (simp add: entry_def eview_def)
  next
    case False
    then show ?thesis
      using lookup_page_read [OF wf x] fv pte_addr_nonnull [OF wf v False] entry_pte [OF False] by simp
  qed
qed

lemma Unmap_step:
  assumes sim: "pd_sim (M, a) s" and can: "pd_can (user_frames s) (M, a) (Unmap pd v)"
  shows "pd_step (M, a) s (Unmap pd v)"
proof -
  obtain f where f: "M pd = Some f" using can by auto
  have v: "v < 0xc0000" and pd: "pd \<in> dom M" using can by auto
  note S = pd_simD [OF sim] and pn = page_number [OF v]
  have idle: "pd_step (M, a) s (Unmap pd v)" if "pd_run (Unmap pd v) s = Some (0, s)" "f v = None"
  proof -
    have e: "f(v := None) = f" using that(2) by (rule fun_upd_idem)
    have "M(pd \<mapsto> f(v := None)) = M" unfolding e using f by (rule fun_upd_idem)
    then show ?thesis using that sim f by (intro pd_stepI [of _ _ 0 s]) simp_all
  qed
  from lookup_entry [OF sim f conjunct1 [OF pn]] show ?thesis
  proof (elim disjE exE conjE)
    assume "lookup_page pd (4096 * v) False s = Some (NULL, s)" "f (4096 * v div 4096) = None"
    then show ?thesis using pn by (intro idle) (simp_all add: pagedir_clear_page_def is_user_vaddr_def)
  next
    fix p
    let ?e = "entry (ram s) pd v"
    assume l: "lookup_page pd (4096 * v) False s = Some (p, s)" "p \<noteq> NULL" and p: "p = pte_addr (ram s) pd (4096 * v div 4096)"
      and pde: "pde_at (ram s) pd (4096 * v div 4096 div 1024) \<noteq> 0" and ld: "load32 (ram s) p = entry (ram s) pd (4096 * v div 4096)"
      and fv: "f (4096 * v div 4096) = eview (entry (ram s) pd (4096 * v div 4096))"
    show ?thesis
    proof (cases "?e AND PTE_P = 0")
      case True
      then show ?thesis using l ld fv pn
        by (intro idle) (simp_all add: pagedir_clear_page_def is_user_vaddr_def eview_def)
    next
      case False
      let ?x = "?e AND NOT PTE_P" and ?s = "s\<lparr>ram := store32 (ram s) p (?e AND NOT PTE_P)\<rparr>"
      have u: "upd_entry (dom M) pd v ?x s ?s" using store_entry [OF S(1) pd v] pde p pn by simp
      obtain s2 where s2: "invalidate_pagedir pd ?s = Some s2" "act_ok (dom M) a s2" "upd_entry (dom M) pd v ?x s s2"
        using act_invalidate [OF S(2,1) pd u] by auto
      have ev: "eview ?x = None" by (simp add: eview_def and.assoc)
      have "pd_run (Unmap pd v) s = Some (0, s2)"
        using l ld False s2(1) pn by (simp add: pagedir_clear_page_def is_user_vaddr_def)
      then show ?thesis using sim_upd [OF sim f v s2(3,2)] ev f by (intro pd_stepI [of _ _ 0 s2]) auto
    qed
  qed
qed

lemma Get_step:
  assumes sim: "pd_sim (M, a) s" and can: "pd_can (user_frames s) (M, a) (Get pd x)"
  shows "pd_step (M, a) s (Get pd x)"
proof -
  obtain f where f: "M pd = Some f" using can by auto
  have x: "x < PHYS_BASE" "is_user_vaddr x" using can by (simp_all add: is_user_vaddr_def)
  have ofs: "pg_ofs x = x mod 4096" using x by (simp add: pg_ofs_eq)
  have "pagedir_get_page pd x s = Some (case f (x div 4096) of None \<Rightarrow> NULL | Some (k, w) \<Rightarrow> k + x mod 4096)"
    using lookup_entry [OF sim f x(1)]
  proof (elim disjE exE conjE)
    fix p
    let ?e = "entry (ram s) pd (x div 4096)"
    assume l: "lookup_page pd x False s = Some (p, s)" "p \<noteq> NULL" "load32 (ram s) p = ?e" and fv: "f (x div 4096) = eview ?e"
    show ?thesis
    proof (cases "?e AND PTE_P = 0")
      case True
      then show ?thesis using l fv x by (simp add: pagedir_get_page_def eview_def)
    next
      case False
      then have "is_kpage (frame_of ?e)" using pd_simD(4) [OF sim f] fv by (auto simp: eview_def user_frames_def)
      then have "unat (?e AND PTE_ADDR) < 2 ^ 30" by (simp add: is_kpage_def frame_of_def)
      then have "pte_get_page ?e = Some (frame_of ?e)" using ptov_eq by (simp add: pte_get_page_def frame_of_def)
      then show ?thesis using l fv x False ofs by (simp add: pagedir_get_page_def eview_def)
    qed
  qed (use x in \<open>simp add: pagedir_get_page_def\<close>)
  then show ?thesis using sim f by (intro pd_stepI [of _ _ _ s]) auto
qed


lemma Mark_step:
  assumes sim: "pd_sim (M, a) s" and f: "M pd = Some f" and v: "v < 0xc0000"
    and bt: "bt AND NOT 0x60 = 0" "NOT bt AND NOT 0x60 = (NOT 0x60 :: u32)"
  shows "\<exists>s'. pte_change bt pd (4096 * v) b s = Some s' \<and> pd_sim (M, a) s' \<and> user_frames s' = user_frames s"
proof -
  have pd: "pd \<in> dom M" using f by blast
  note S = pd_simD [OF sim] and pn = page_number [OF v]
  from lookup_entry [OF sim f conjunct1 [OF pn]] show ?thesis
  proof (elim disjE exE conjE)
    assume "lookup_page pd (4096 * v) False s = Some (NULL, s)"
    then show ?thesis using sim by (simp add: pte_change_def)
  next
    fix p
    let ?e = "entry (ram s) pd v"
    assume l: "lookup_page pd (4096 * v) False s = Some (p, s)" "p \<noteq> NULL" and p: "p = pte_addr (ram s) pd (4096 * v div 4096)"
      and pde: "pde_at (ram s) pd (4096 * v div 4096 div 1024) \<noteq> 0" and ld: "load32 (ram s) p = entry (ram s) pd (4096 * v div 4096)"
      and fv: "f (4096 * v div 4096) = eview (entry (ram s) pd (4096 * v div 4096))"
    have u: "upd_entry (dom M) pd v x s (s\<lparr>ram := store32 (ram s) p x\<rparr>)" for x
      using store_entry [OF S(1) pd v] pde p pn by simp
    have ev: "eview (?e OR bt) = f v" "eview (?e AND NOT bt) = f v"
      using cached_eview [OF or_bits [OF bt(1)], of ?e] cached_eview [OF and_not_bits [OF bt(2)], of ?e] fv pn by simp_all
    show ?thesis
    proof (cases b)
      case True
      let ?s = "s\<lparr>ram := store32 (ram s) p (?e OR bt)\<rparr>"
      have "act_ok (dom M) a ?s"
      proof (rule act_upd [OF S(2) u])
        fix x assume "a = pd" "tlb s v = Some x"
        then have "cached x ?e" using S(2) by (auto simp: act_ok_def)
        then show "cached x (?e OR bt)" using or_bits [OF bt(1), of ?e] by (simp add: cached_def)
      qed simp_all
      then show ?thesis using True sim_same [OF sim f v ev(1) u] l ld pn by (simp add: pte_change_def)
    next
      case False
      obtain s2 where s2: "invalidate_pagedir pd (s\<lparr>ram := store32 (ram s) p (?e AND NOT bt)\<rparr>) = Some s2"
          "act_ok (dom M) a s2" "upd_entry (dom M) pd v (?e AND NOT bt) s s2"
        using act_invalidate [OF S(2,1) pd u] by auto
      then show ?thesis using False sim_same [OF sim f v ev(2) s2(3,2)] l ld pn by (simp add: pte_change_def)
    qed
  qed
qed

lemma Activate_step:
  assumes sim: "pd_sim (M, a) s" and can: "pd_can (user_frames s) (M, a) (Activate pd)"
  shows "pd_step (M, a) s (Activate pd)"
proof -
  note S = pd_simD [OF sim]
  let ?p = "if pd = NULL then init_page_dir s else pd"
  have kp: "is_kpage ?p"
    using can pds_okD(2) [OF S(1)] pd_wfD(1) [OF pds_okD(3) [OF S(1)], of pd] by auto
  then have n0: "?p \<noteq> NULL" by (simp add: is_kpage_def)
  have eq: "pagedir_activate pd s = pagedir_activate ?p s"
    unfolding pagedir_activate_def Let_def using n0 by simp
  obtain k where k: "pagedir_activate pd s = Some (s\<lparr>cr3 := k, tlb := Map.empty\<rparr>)" "ptov k = Some ?p"
    using activate_ok [OF kp, of s] unfolding eq [symmetric] by blast
  let ?s = "s\<lparr>cr3 := k, tlb := Map.empty\<rparr>"
  have "pd_sim (M, pd) ?s"
    using sim can k(2) by (auto simp: pd_sim_def act_ok_def active_pd_def)
  then show ?thesis using k(1) by (intro pd_stepI [of _ _ 0 ?s]) simp_all
qed


text \<open>An access through the TLB finds what the map says.\<close>

lemma translate_eview:
  "translate (Some g) v wr = (case g v of None \<Rightarrow> NULL | Some (k, w) \<Rightarrow> if wr \<and> \<not> w then NULL else k)"
  by (simp add: translate_def)

lemma translate_permits:
  assumes "g v = eview e"
  shows "translate (Some g) v wr = (if permits e wr then frame_of e else NULL)"
  using assms by (auto simp: translate_def eview_def permits_def)

lemma permits_or: "e AND NOT 0x60 = f AND NOT 0x60 \<Longrightarrow> permits e wr = permits f wr \<and> frame_of e = frame_of f"
  using cached_bits [of e f] by (simp add: permits_def frame_of_def)

lemma Access_walk:
  assumes sim: "pd_sim (M, a) s" and f: "M a = Some f" and v: "v < 0xc0000" and a0: "a \<noteq> NULL"
    and p: "permits (entry (ram s) a v) wr" and n: "need AND NOT 0x60 = (0 :: u32)"
    and g: "g = entry (ram s) a v OR need"
    and s': "s' = s\<lparr>ram := store32 (ram s) (pte_addr (ram s) a v) g, tlb := (tlb s)(v \<mapsto> g)\<rparr>"
  shows "pd_sim (M, a) s'" and "frame_of g = translate (M a) v wr" and "user_frames s' = user_frames s"
proof -
  let ?e = "entry (ram s) a v" and ?s = "s\<lparr>ram := store32 (ram s) (pte_addr (ram s) a v) g\<rparr>"
  note S = pd_simD [OF sim]
  have pd: "a \<in> dom M" using f by blast
  have fv: "f v = eview ?e" using S(3) [OF f] v by (simp add: aview_def)
  have bits: "g AND NOT 0x60 = ?e AND NOT 0x60" using or_bits [OF n] g by simp
  have "?e \<noteq> 0" using p by (auto simp: permits_def)
  then have pde: "pde_at (ram s) a (v div 1024) \<noteq> 0" by (auto simp: entry_def)
  have u: "upd_entry (dom M) a v g s ?s" using store_entry [OF S(1) pd v pde] .
  have act: "act_ok (dom M) a ?s"
  proof (rule act_upd [OF S(2) u])
    fix x assume "tlb s v = Some x"
    then have "cached x ?e" using S(2) by (auto simp: act_ok_def)
    then show "cached x g" using bits by (simp add: cached_def)
  qed simp_all
  have same: "pd_sim (M, a) ?s" "user_frames ?s = user_frames s"
    using sim_same [OF sim f v _ u act] cached_eview [OF bits] fv by simp_all
  have eg: "entry (ram ?s) a v = g" using u pd v by (auto simp: upd_entry_def)
  have "g AND PTE_P \<noteq> 0" using cached_bits(1) [OF bits] p by (simp add: permits_def)
  then have "cached g (entry (ram ?s) a v)" unfolding eg by (simp add: cached_def)
  then have "act_ok (dom M) a (?s\<lparr>tlb := (tlb s)(v \<mapsto> g)\<rparr>)"
    using act a0 v by (simp add: act_ok_def active_pd_def)
  then show "pd_sim (M, a) s'" "user_frames s' = user_frames s"
    using same unfolding s' pd_sim_def by simp_all
  show "frame_of g = translate (M a) v wr"
    using translate_permits [of f v ?e wr, OF fv] f p permits_or [OF bits, of wr] by simp
qed

lemma translate_step:
  assumes sim: "pd_sim (M, a) s" and v: "v < 0xc0000"
  shows "\<exists>s'. cpu_translate v wr s = Some (translate (M a) v wr, s') \<and> pd_sim (M, a) s' \<and> user_frames s' = user_frames s"
proof -
  note S = pd_simD [OF sim]
  let ?need = "PTE_A OR (if wr then PTE_D else 0)"
  have n: "?need AND NOT 0x60 = 0" by simp
  have act: "active_pd s = Some (if a = NULL then init_page_dir s else a)" using S(2) by (simp add: act_ok_def)
  show ?thesis
  proof (cases "a = NULL")
    case True
    then have "tlb s v = None" using S(2) by (auto simp: act_ok_def)
    moreover have "entry (ram s) (init_page_dir s) v = 0"
      using S(1) v by (simp add: entry_def pds_ok_def)
    moreover have "M a = None"
      using True pd_wfD(1) [OF pds_okD(3) [OF S(1)], of a] by (auto simp: is_kpage_def)
    ultimately show ?thesis using act True sim by (simp add: cpu_translate_def permits_def translate_def)
  next
    case False
    then obtain f where f: "M a = Some f" using S(2) by (auto simp: act_ok_def)
    let ?e = "entry (ram s) a v" and ?g = "entry (ram s) a v OR ?need"
    let ?s = "s\<lparr>ram := store32 (ram s) (pte_addr (ram s) a v) ?g, tlb := (tlb s)(v \<mapsto> ?g)\<rparr>"
    have fv: "f v = eview ?e" using S(3) [OF f] v by (simp add: aview_def)
    note tr = translate_permits [of f v ?e wr, OF fv]
    have walk: ?thesis if "permits ?e wr" "cpu_translate v wr s = Some (frame_of ?g, ?s)"
      using Access_walk [OF sim f v False that(1) n refl refl] that(2) by simp
    have stay: ?thesis if "cpu_translate v wr s = Some (translate (M a) v wr, s)"
      using sim that by simp
    show ?thesis
    proof (cases "tlb s v")
      case None
      then show ?thesis using walk stay act False tr f
        by (cases "permits ?e wr") (simp_all add: cpu_translate_def Let_def)
    next
      case (Some x)
      then have bits: "x AND NOT 0x60 = ?e AND NOT 0x60" using S(2) by (auto simp: act_ok_def cached_def)
      note px = permits_or [OF bits, of wr]
      show ?thesis
      proof (cases "permits x wr \<and> x AND ?need \<noteq> ?need")
        case True
        then show ?thesis using Some act False px by (intro walk) (simp_all add: cpu_translate_def Let_def)
      next
        case no: False
        then show ?thesis using Some act False px tr f by (intro stay) (auto simp: cpu_translate_def Let_def)
      qed
    qed
  qed
qed


text \<open>A step that leaves the pages of the directories alone keeps them.\<close>

lemma pds_frame:
  assumes ok: "pds_ok D s" and sub: "D' \<subseteq> D" and q: "palloc_ok s'" "init_page_dir s' = init_page_dir s"
    and init: "init_page_dir s div 4096 \<in> pool_used (kernel_pool s')"
    and own: "\<And>pd. pd \<in> D' \<Longrightarrow> owned (ram s) pd \<subseteq> pool_used (kernel_pool s')"
    and out: "\<And>x. x div 4096 \<in> \<Union> (owned (ram s) ` D') \<Longrightarrow> ram s' x = ram s x"
    and outi: "\<And>x. x div 4096 = init_page_dir s div 4096 \<Longrightarrow> ram s' x = ram s x"
  shows "pds_ok D' s'" and "pd \<in> D' \<Longrightarrow> v < 0xc0000 \<Longrightarrow> entry (ram s') pd v = entry (ram s) pd v"
    and "pd \<in> D' \<Longrightarrow> owned (ram s') pd = owned (ram s) pd"
proof -
  let ?i = "init_page_dir s"
  have wf: "pd_wf (ram s) pd" if "pd \<in> D'" for pd using that sub pds_okD(3) [OF ok] by blast
  have fr: "entry (ram s') pd v = entry (ram s) pd v" "owned (ram s') pd = owned (ram s) pd" "pd_wf (ram s') pd"
    if "pd \<in> D'" "v < 0xc0000" for pd v
    using pd_frame [OF wf [OF that(1)], of "ram s'"] out that by blast+
  show "pd \<in> D' \<Longrightarrow> v < 0xc0000 \<Longrightarrow> entry (ram s') pd v = entry (ram s) pd v"
    "pd \<in> D' \<Longrightarrow> owned (ram s') pd = owned (ram s) pd"
    using fr(1) fr(2) [of pd 0] by simp_all
  have "pde_at (ram s') ?i i = pde_at (ram s) ?i i" if "i < 768" for i
    unfolding pde_at_def using that pds_okD(2) [OF ok] outi by (intro load32_page) (simp_all add: is_kpage_def)
  then have i0: "\<forall>i<768. pde_at (ram s') ?i i = 0" using ok by (simp add: pds_ok_def)
  have a: "pd_wf (ram s') pd \<and> owned (ram s') pd \<subseteq> pool_used (kernel_pool s') \<and> ?i div 4096 \<notin> owned (ram s') pd"
    if "pd \<in> D'" for pd
    using fr(2,3) [OF that, of 0] own [OF that] pds_okD(6) [OF ok] sub that by auto
  have b: "owned (ram s') pd \<inter> owned (ram s') pd' = {}" if "pd \<in> D'" "pd' \<in> D'" "pd \<noteq> pd'" for pd pd'
  proof -
    have "owned (ram s) pd \<inter> owned (ram s) pd' = {}" using ok sub that unfolding pds_ok_def by blast
    then show ?thesis using fr(2) [of _ 0] that by simp
  qed
  show "pds_ok D' s'" unfolding pds_ok_def q(2) using q(1) pds_okD(2) [OF ok] init i0 a b by simp
qed

lemma act_frame:
  assumes "act_ok D a s" and "a = NULL \<or> a \<in> D'" and "cr3 s' = cr3 s" "tlb s' = tlb s" "init_page_dir s' = init_page_dir s"
    and "\<And>v. a \<in> D' \<Longrightarrow> v < 0xc0000 \<Longrightarrow> entry (ram s') a v = entry (ram s) a v"
  shows "act_ok D' a s'"
  using assms by (auto simp: act_ok_def active_pd_def)

text \<open>A byte written to a frame of the user pool is in no page of a directory.\<close>

lemma user_store:
  assumes sim: "pd_sim (M, a) s" and k: "k \<in> user_frames s" and o: "ofs < 4096"
  shows "pd_sim (M, a) (s\<lparr>ram := (ram s)(k + ofs := b)\<rparr>)"
proof -
  note S = pd_simD [OF sim]
  let ?s = "s\<lparr>ram := (ram s)(k + ofs := b)\<rparr>"
  have pg: "(k + ofs) div 4096 \<in> pool_pages (user_pool s)"
    using k o page_addr [of k ofs] by (auto simp: user_frames_def is_kpage_def)
  have nk: "(k + ofs) div 4096 \<notin> pool_used (kernel_pool s)" using pg kernel_not_user [OF pds_okD(1) [OF S(1)]] by blast
  have out: "ram ?s x = ram s x" if "x div 4096 \<in> pool_used (kernel_pool s)" for x using that nk by auto
  have own: "owned (ram s) pd \<subseteq> pool_used (kernel_pool ?s)" if "pd \<in> dom M" for pd using pds_okD(4) [OF S(1) that] by simp
  have i: "init_page_dir s div 4096 \<in> pool_used (kernel_pool ?s)" using S(1) by (simp add: pds_ok_def)
  have q: "palloc_ok ?s" using pds_okD(1) [OF S(1)] by (simp add: palloc_ok_def)
  have fr: "ram ?s x = ram s x" if "x div 4096 \<in> \<Union> (owned (ram s) ` dom M)" for x
    using own that by (intro out) auto
  have fri: "ram ?s x = ram s x" if "x div 4096 = init_page_dir s div 4096" for x using i that by (intro out) simp
  note F = pds_frame [OF S(1) subset_refl q _ i own fr fri]
  have F2: "entry (ram ?s) pd v = entry (ram s) pd v" if "pd \<in> dom M" "v < 0xc0000" for pd v using F(2) that by simp
  have "aview (ram ?s) pd = aview (ram s) pd" if "pd \<in> dom M" for pd using F2 [OF that] by (auto simp: aview_def fun_eq_iff)
  moreover have "act_ok (dom M) a ?s"
    using S(2) F2 by (intro act_frame [OF S(2)]) (auto simp: act_ok_def)
  ultimately have "f = aview (ram ?s) pd" if "M pd = Some f" for pd f using S(3) [OF that] domI [of M, OF that] by simp
  then show ?thesis using \<open>act_ok (dom M) a ?s\<close> F(1) sim by (simp add: pd_sim_def)
qed

lemma Access_step:
  assumes sim: "pd_sim (M, a) s" and can: "pd_can (user_frames s) (M, a) (Access v wr)"
  shows "pd_step (M, a) s (Access v wr)"
proof -
  let ?k = "translate (M a) v (wr \<noteq> None)"
  obtain s1 where s1: "cpu_translate v (wr \<noteq> None) s = Some (?k, s1)" "pd_sim (M, a) s1" "user_frames s1 = user_frames s"
    using translate_step [OF sim, of v "wr \<noteq> None"] can by auto
  show ?thesis
  proof (cases "?k = NULL \<or> wr = None")
    case True
    then have "cpu_access v wr s = Some (?k, s1)" using s1(1) by (auto simp: cpu_access_def)
    then show ?thesis using s1(2,3) by (intro pd_stepI [of _ _ ?k s1]) simp_all
  next
    case False
    then obtain ofs b where w: "wr = Some (ofs, b)" by auto
    let ?s = "s1\<lparr>ram := (ram s1)(?k + ofs := b)\<rparr>"
    have "?k \<in> user_frames s1"
      using False pd_simD(4) [OF s1(2)] by (auto simp: translate_def split: option.splits if_splits)
    then have "pd_sim (M, a) ?s" using user_store [OF s1(2)] can w by simp
    moreover have "cpu_access v wr s = Some (?k, ?s)" using s1(1) False w by (simp add: cpu_access_def)
    ultimately show ?thesis using s1(3) by (intro pd_stepI [of _ _ ?k ?s]) simp_all
  qed
qed

lemma pds_add:
  assumes "pds_ok D s" and "pd_wf (ram s) pd" and "owned (ram s) pd = {k}" and "k \<in> pool_used (kernel_pool s)"
    and "k \<noteq> init_page_dir s div 4096" and "\<And>pd'. pd' \<in> D \<Longrightarrow> k \<notin> owned (ram s) pd'"
  shows "pds_ok (insert pd D) s"
proof -
  have "owned (ram s) pd \<inter> owned (ram s) pd' = {}" "owned (ram s) pd' \<inter> owned (ram s) pd = {}" if "pd' \<in> D" for pd'
    using assms(3,6) that by auto
  moreover have "owned (ram s) pd \<subseteq> pool_used (kernel_pool s)" "init_page_dir s div 4096 \<notin> owned (ram s) pd"
    using assms(3-5) by simp_all
  ultimately show ?thesis using assms(1,2) by (simp add: pds_ok_def)
qed

text \<open>A copy of the initial page directory: no user entries, so it owns only itself.\<close>

lemma copied_directory:
  assumes i: "i mod 4096 = 0" and ne: "i \<noteq> 4096 * k" and z: "\<forall>j<768. pde_at m i j = 0" and kp: "is_kpage (4096 * k)"
    and m': "m' = copy_up 4096 (4096 * k) i m"
  shows "x div 4096 \<noteq> k \<Longrightarrow> m' x = m x" and "j < 768 \<Longrightarrow> pde_at m' (4096 * k) j = 0"
    and "pd_wf m' (4096 * k)" and "owned m' (4096 * k) = {k}" and "aview m' (4096 * k) = Map.empty"
proof -
  obtain q where q: "i = 4096 * q" using i by auto
  then have "4096 * k \<le> i \<or> i + 4096 \<le> 4096 * k" using ne by (cases q k rule: linorder_cases) simp_all
  note A = copy_up_apply [OF this, of m, folded m']
  show "x div 4096 \<noteq> k \<Longrightarrow> m' x = m x" unfolding A by auto
  have p: "pde_at m' (4096 * k) j = 0" if "j < 768" for j
  proof -
    have "pde_at m' (4096 * k) j = pde_at m i j"
      unfolding pde_at_def load32_def using that by (simp add: A add.assoc)
    then show ?thesis using z that by simp
  qed
  then show "j < 768 \<Longrightarrow> pde_at m' (4096 * k) j = 0" .
  show "pd_wf m' (4096 * k)" "owned m' (4096 * k) = {k}" using p kp by (auto simp: pd_wf_def owned_def tables_def)
  show "aview m' (4096 * k) = Map.empty" using p by (auto simp: aview_def entry_def eview_def)
qed

lemma Create_step:
  assumes sim: "pd_sim (M, a) s"
  shows "pd_step (M, a) s Create"
proof -
  note S = pd_simD [OF sim] and pa = pds_okD(1) [OF pd_simD(1) [OF sim]]
  let ?i = "init_page_dir s"
  have i: "is_kpage ?i" "?i mod 4096 = 0" "?i \<noteq> NULL" "?i div 4096 \<in> pool_used (kernel_pool s)" "\<forall>j<768. pde_at (ram s) ?i j = 0"
    using S(1) by (auto simp: pds_ok_def is_kpage_def)
  from palloc_get_multiple_ok [OF pa, of 1 False 0]
  consider (got) k s1 where "palloc_get_multiple 0 1 s = Some (4096 * k, s1)" "got_pages False False 1 s k s1" |
    (full) "palloc_get_multiple 0 1 s = Some (NULL, s)" by auto
  then show ?thesis
  proof cases
    case full
    then show ?thesis using sim by (intro pd_stepI [of _ _ 0 s]) (simp_all add: pagedir_create_def palloc_get_page_def)
  next
    case got
    obtain K where s1: "s1 = s\<lparr>kernel_pool := K\<rparr>" and G: "palloc_ok s1" "pool_used K = insert k (pool_used (kernel_pool s))"
      "k \<in> pool_pages (kernel_pool s)" "k \<notin> pages_used s"  "0 < k"
      using got(2) by (auto simp: got_pages_def pool_of_def slots_def zeroed_simps)
    have nk: "k \<notin> pool_used (kernel_pool s)" using G(4) by (simp add: pages_used_def)
    have kp: "is_kpage (4096 * k)"
      using pool_pages_bound [OF palloc_ok_pools [OF pa, of False]] G(3) by (auto simp: pool_of_def is_kpage_def)
    define m where "m = copy_up 4096 (4096 * k) ?i (ram s)"
    have "?i \<noteq> 4096 * k" using nk i(4) by auto
    note C = copied_directory [OF i(2) this i(5) kp m_def]
    let ?s = "s\<lparr>kernel_pool := K, ram := m\<rparr>"
    have run: "pd_run Create s = Some (4096 * k, ?s)"
      using got(1) G(5) i(3) s1 by (simp add: pagedir_create_def palloc_get_page_def memcpy_def m_def)
    have D: "k \<notin> owned (ram s) pd" if "pd \<in> dom M" for pd using pds_okD(4) [OF S(1) that] nk by blast
    have sub: "owned (ram s) pd \<subseteq> pool_used (kernel_pool ?s)" if "pd \<in> dom M" for pd
      using pds_okD(4) [OF S(1) that] G(2) by auto
    have fr: "ram ?s x = ram s x" if "x div 4096 \<in> \<Union> (owned (ram s) ` dom M)" for x
      using C(1) [of x] D that by auto
    have fri: "ram ?s x = ram s x" if "x div 4096 = ?i div 4096" for x using C(1) [of x] that nk i(4) by auto
    have q: "palloc_ok ?s" "init_page_dir ?s = ?i" "?i div 4096 \<in> pool_used (kernel_pool ?s)"
      using G(1,2) s1 i(4) by (simp_all add: palloc_ok_def)
    note F = pds_frame [OF S(1) subset_refl q sub fr fri]
    have F1: "pds_ok (dom M) ?s" using F(1) by simp
    have F2: "entry m pd v = entry (ram s) pd v" "owned m pd = owned (ram s) pd" if "pd \<in> dom M" "v < 0xc0000" for pd v
      using F(2,3) that by simp_all
    have n: "M (4096 * k) = None" using D owned_pd [of "4096 * k" "ram s"] by fastforce
    have 1: "pds_ok (insert (4096 * k) (dom M)) ?s"
      using pds_add [OF F1, of "4096 * k" k] C(3,4) G(2) nk i(4) D F2(2) [of _ 0] by auto
    have 2: "act_ok (insert (4096 * k) (dom M)) a ?s"
      using S(2) F2(1) G(5) by (intro act_frame [OF S(2)]) (auto simp: act_ok_def)
    have 3: "f = aview m pd" if "(M(4096 * k \<mapsto> Map.empty)) pd = Some f" for pd f
    proof (cases "pd = 4096 * k")
      case False
      then have "pd \<in> dom M" "f = aview (ram s) pd" using that S(3) [of pd f] by auto
      then show ?thesis using F2(1) [of pd] by (auto simp: aview_def fun_eq_iff)
    qed (use that C(5) in simp)
    have "pd_sim (M(4096 * k \<mapsto> Map.empty), a) ?s"
      unfolding pd_sim_def using 1 2 3 sim by (auto simp: pd_sim_def frames_ok_def split: if_splits)
    then show ?thesis using G(5) n by (intro pd_stepI [OF run]) simp_all
  qed
qed

lemma free_kernel_page:
  assumes "palloc_ok s" and "k \<in> pool_used (kernel_pool s)"
  shows "\<exists>K m. palloc_free_page (4096 * k) s = Some (s\<lparr>kernel_pool := K, ram := m\<rparr>) \<and>
    palloc_ok (s\<lparr>kernel_pool := K, ram := m\<rparr>) \<and> pool_used K = pool_used (kernel_pool s) - {k} \<and>
    (\<forall>x. x div 4096 \<noteq> k \<longrightarrow> m x = ram s x)"
proof -
  have sl: "slots (k, 1) = {k}" by (auto simp: slots_def)
  obtain s' where s': "palloc_free_multiple (4096 * k) 1 s = Some s'" "freed_pages False 1 s k s'"
    using palloc_free_multiple_ok [OF assms(1), of 1 k False] assms(2) sl by (auto simp: pool_of_def)
  define m where "m = memset_loop (4096 * k) 0xcc (4096 * 1) (ram s)"
  obtain K where K: "s' = s\<lparr>kernel_pool := K, ram := m\<rparr>"
    using s'(2) by (auto simp: freed_pages_def pool_of_def m_def)
  have "m x = ram s x" if "x div 4096 \<noteq> k" for x unfolding m_def using that by (auto simp: memset_loop_apply)
  then show ?thesis using s' sl unfolding K
    by (intro exI [of _ K] exI [of _ m]) (simp add: palloc_free_page_def freed_pages_def pool_of_def)
qed

text \<open>The tables of some of the entries, and the loop that frees them.\<close>

definition tables_of :: "mem \<Rightarrow> ptr \<Rightarrow> nat set \<Rightarrow> nat set" where
  "tables_of m pd I = (\<lambda>i. pt_at m pd i div 4096) ` {i \<in> I. pde_at m pd i \<noteq> 0}"

lemma destroy_loop_ok:
  assumes wf: "pd_wf m0 pd"
  shows "set is \<subseteq> {..<768} \<Longrightarrow> distinct is \<Longrightarrow> palloc_ok s \<Longrightarrow>
    (\<And>x. x div 4096 = pd div 4096 \<Longrightarrow> ram s x = m0 x) \<Longrightarrow>
    tables_of m0 pd (set is) \<subseteq> pool_used (kernel_pool s) \<Longrightarrow>
    \<exists>K m. destroy_loop pd is s = Some (s\<lparr>kernel_pool := K, ram := m\<rparr>) \<and> palloc_ok (s\<lparr>kernel_pool := K, ram := m\<rparr>) \<and>
      pool_used K = pool_used (kernel_pool s) - tables_of m0 pd (set is) \<and>
      (\<forall>x. x div 4096 \<notin> tables_of m0 pd (set is) \<longrightarrow> m x = ram s x)"
proof (induction "is" arbitrary: s)
  case Nil
  then show ?case by (intro exI [of _ "kernel_pool s"] exI [of _ "ram s"]) (simp add: tables_of_def)
next
  case (Cons i "is")
  have i: "i < 768" "i < 1024" using Cons.prems(1) by auto
  have pde: "load32 (ram s) (pd + 4 * i) = pde_at m0 pd i"
    unfolding pde_at_def using load32_page [OF pd_wfD(2) [OF wf] i(2), of "ram s" m0] Cons.prems(4) by blast
  show ?case
  proof (cases "pde_at m0 pd i = 0")
    case True
    have "tables_of m0 pd (set (i # is)) = tables_of m0 pd (set is)" using True by (auto simp: tables_of_def)
    then show ?thesis using Cons.IH [of s] Cons.prems True pde by (simp add: Let_def)
  next
    case False
    let ?k = "pt_at m0 pd i div 4096" and ?T = "tables_of m0 pd (set is)"
    have T: "tables_of m0 pd (set (i # is)) = insert ?k ?T" using False by (auto simp: tables_of_def)
    note P = pd_wfD(3-6) [OF wf i(1) False]
    have k: "4096 * ?k = pt_at m0 pd i" using P(3) by auto
    have npd: "?k \<noteq> pd div 4096" using P(3,4) pd_wfD(2) [OF wf] by auto
    have nT: "?k \<notin> ?T"
    proof
      assume "?k \<in> ?T"
      then obtain j where j: "j \<in> set is" "pde_at m0 pd j \<noteq> 0" "pt_at m0 pd i div 4096 = pt_at m0 pd j div 4096"
        by (auto simp: tables_of_def)
      have "j < 768" using j(1) Cons.prems(1) by auto
      then have "pt_at m0 pd i = pt_at m0 pd j" using j(3) P(3) pd_wfD(5) [OF wf _ j(2)] by auto
      then show False using wf i(1) \<open>j < 768\<close> j(1,2) False Cons.prems(2) by (auto simp: pd_wf_def)
    qed
    obtain K m where F: "palloc_free_page (4096 * ?k) s = Some (s\<lparr>kernel_pool := K, ram := m\<rparr>)"
      "palloc_ok (s\<lparr>kernel_pool := K, ram := m\<rparr>)" "pool_used K = pool_used (kernel_pool s) - {?k}"
      "\<forall>x. x div 4096 \<noteq> ?k \<longrightarrow> m x = ram s x"
      using free_kernel_page [OF Cons.prems(3), of ?k] Cons.prems(5) T by auto
    let ?s = "s\<lparr>kernel_pool := K, ram := m\<rparr>"
    have sub: "?T \<subseteq> pool_used (kernel_pool ?s)" using Cons.prems(5) F(3) nT T by auto
    obtain K' m' where R: "destroy_loop pd is ?s = Some (?s\<lparr>kernel_pool := K', ram := m'\<rparr>)"
      "palloc_ok (?s\<lparr>kernel_pool := K', ram := m'\<rparr>)" "pool_used K' = pool_used K - ?T"
      "\<forall>x. x div 4096 \<notin> ?T \<longrightarrow> m' x = m x"
      using Cons.IH [OF _ _ F(2) _ sub] Cons.prems F(4) npd by auto
    have "pde_at m0 pd i AND PTE_P \<noteq> 0" using pde_get_pt_at [OF wf i(1) False] by (auto simp: pde_get_pt_def)
    then have "destroy_loop pd (i # is) s = Some (s\<lparr>kernel_pool := K', ram := m'\<rparr>)"
      using pde pde_get_pt_at [OF wf i(1) False] F(1) R(1) by (simp add: Let_def k)
    then show ?thesis unfolding T using R F(3,4)
      by (intro exI [of _ K'] exI [of _ m']) auto
  qed
qed

lemma tables_of_all: "tables m pd = tables_of m pd (set [0..<768])"
  by (simp add: tables_def tables_of_def)

lemma pagedir_destroy_ok:
  assumes ok: "pds_ok D s" and pd: "pd \<in> D"
  shows "\<exists>K m. pagedir_destroy pd s = Some (s\<lparr>kernel_pool := K, ram := m\<rparr>) \<and> palloc_ok (s\<lparr>kernel_pool := K, ram := m\<rparr>) \<and>
    pool_used K = pool_used (kernel_pool s) - owned (ram s) pd \<and>
    (\<forall>x. x div 4096 \<notin> owned (ram s) pd \<longrightarrow> m x = ram s x)"
proof -
  note wf = pds_okD(3) [OF ok pd]
  let ?T = "tables (ram s) pd" and ?k = "pd div 4096"
  have sub: "?T \<subseteq> pool_used (kernel_pool s)" "?k \<in> pool_used (kernel_pool s)"
    using pds_okD(4) [OF ok pd] by (auto simp: owned_def)
  have nT: "?k \<notin> ?T"
  proof
    assume "?k \<in> ?T"
    then obtain i where "i < 768" "pde_at (ram s) pd i \<noteq> 0" "?k = pt_at (ram s) pd i div 4096" by (auto simp: tables_def)
    then show False using pd_wfD(2,5,6) [OF wf] by fastforce
  qed
  have r: "set [0..<768] \<subseteq> {..<768 :: nat}" by (auto simp only: set_upt atLeastLessThan_iff lessThan_iff)
  obtain K m where L: "destroy_loop pd [0..<768] s = Some (s\<lparr>kernel_pool := K, ram := m\<rparr>)"
    "palloc_ok (s\<lparr>kernel_pool := K, ram := m\<rparr>)" "pool_used K = pool_used (kernel_pool s) - ?T"
    "\<forall>x. x div 4096 \<notin> ?T \<longrightarrow> m x = ram s x"
    using destroy_loop_ok [OF wf r distinct_upt pds_okD(1) [OF ok]] sub(1) unfolding tables_of_all by blast
  let ?s = "s\<lparr>kernel_pool := K, ram := m\<rparr>"
  obtain K' m' where F: "palloc_free_page (4096 * ?k) ?s = Some (?s\<lparr>kernel_pool := K', ram := m'\<rparr>)"
    "palloc_ok (?s\<lparr>kernel_pool := K', ram := m'\<rparr>)" "pool_used K' = pool_used K - {?k}"
    "\<forall>x. x div 4096 \<noteq> ?k \<longrightarrow> m' x = m x"
    using free_kernel_page [OF L(2), of ?k] sub(2) nT L(3) by auto
  have "4096 * ?k = pd" using pd_wfD(2) [OF wf] by auto
  moreover have "pd_no PHYS_BASE = 768" by (simp add: pd_no_eq)
  moreover have "pd \<noteq> NULL" "pd \<noteq> init_page_dir s" using pds_okD(5) [OF ok pd] pd_wfD(1) [OF wf] by (auto simp: is_kpage_def)
  ultimately have "pagedir_destroy pd s = Some (s\<lparr>kernel_pool := K', ram := m'\<rparr>)"
    using L(1) F(1) by (simp add: pagedir_destroy_def)
  then show ?thesis using F(2,3,4) L(3,4) by (intro exI [of _ K'] exI [of _ m']) (auto simp: owned_def)
qed

lemma Destroy_step:
  assumes sim: "pd_sim (M, a) s" and can: "pd_can (user_frames s) (M, a) (Destroy pd)"
  shows "pd_step (M, a) s (Destroy pd)"
proof -
  note S = pd_simD [OF sim]
  have pd: "pd \<in> dom M" "pd \<noteq> a" using can by auto
  obtain K m where R: "pagedir_destroy pd s = Some (s\<lparr>kernel_pool := K, ram := m\<rparr>)" "palloc_ok (s\<lparr>kernel_pool := K, ram := m\<rparr>)"
    "pool_used K = pool_used (kernel_pool s) - owned (ram s) pd" "\<forall>x. x div 4096 \<notin> owned (ram s) pd \<longrightarrow> m x = ram s x"
    using pagedir_destroy_ok [OF S(1) pd(1)] by blast
  let ?s = "s\<lparr>kernel_pool := K, ram := m\<rparr>" and ?D = "dom (M(pd := None))"
  have D: "?D \<subseteq> dom M" by auto
  have dis: "owned (ram s) pd \<inter> owned (ram s) p = {}" if "p \<in> ?D" for p
    using S(1) pd(1) that unfolding pds_ok_def by (auto split: if_splits)
  have q: "init_page_dir ?s = init_page_dir s" "init_page_dir s div 4096 \<in> pool_used (kernel_pool ?s)"
    using R(3) S(1) pd(1) by (auto simp: pds_ok_def)
  have own: "owned (ram s) p \<subseteq> pool_used (kernel_pool ?s)" if "p \<in> ?D" for p
    using R(3) dis [OF that] pds_okD(4) [OF S(1)] that D by auto
  have fr: "ram ?s x = ram s x" if "x div 4096 \<in> \<Union> (owned (ram s) ` ?D)" for x
    using R(4) dis that by auto
  have fri: "ram ?s x = ram s x" if "x div 4096 = init_page_dir s div 4096" for x
    using R(4) pds_okD(6) [OF S(1) pd(1)] that by auto
  note F = pds_frame [OF S(1) D R(2) q own fr fri]
  have 2: "act_ok ?D a ?s"
    using S(2) F(2) pd(2) by (intro act_frame [OF S(2)]) (auto simp: act_ok_def)
  have 3: "f = aview m p" if "(M(pd := None)) p = Some f" for p f
  proof -
    have "p \<in> ?D" "f = aview (ram s) p" using that S(3) [of p f] by (auto split: if_splits)
    then show ?thesis using F(2) [of p] by (auto simp: aview_def fun_eq_iff)
  qed
  have "pd_sim (M(pd := None), a) ?s"
    unfolding pd_sim_def using F(1) 2 3 sim by (auto simp: pd_sim_def frames_ok_def split: if_splits)
  then show ?thesis using R(1) by (intro pd_stepI [of _ _ 0 ?s]) simp_all
qed

section \<open>The calls as a machine\<close>

lemma pd_step_any:
  assumes sim: "pd_sim S s" and can: "pd_can (user_frames s) S c"
  shows "pd_step S s c"
proof -
  obtain M a where S: "S = (M, a)" by (cases S)
  note sim = sim [unfolded S] and can = can [unfolded S]
  have bits: "PTE_A AND NOT 0x60 = 0" "NOT PTE_A AND NOT 0x60 = (NOT 0x60 :: u32)"
    "PTE_D AND NOT 0x60 = 0" "NOT PTE_D AND NOT 0x60 = (NOT 0x60 :: u32)" by simp_all
  show ?thesis unfolding S
  proof (cases c)
    case (Accessed pd v b)
    then obtain f where "M pd = Some f" "v < 0xc0000" using can by auto
    then show "pd_step (M, a) s c"
      using Mark_step [OF sim _ _ bits(1,2), of pd f v b] Accessed by (auto simp: pd_step_def pagedir_set_accessed_def)
  next
    case (Dirty pd v b)
    then obtain f where "M pd = Some f" "v < 0xc0000" using can by auto
    then show "pd_step (M, a) s c"
      using Mark_step [OF sim _ _ bits(3,4), of pd f v b] Dirty by (auto simp: pd_step_def pagedir_set_dirty_def)
  qed (use can in \<open>auto intro: Create_step [OF sim] Destroy_step [OF sim] Map_step [OF sim] Unmap_step [OF sim]
      Get_step [OF sim] Activate_step [OF sim] Access_step [OF sim] simp del: pd_can.simps\<close>)
qed

text \<open>A call is run on the specification and on the machine; the answer of the machine must be one the specification allows.\<close>

definition pd_enabled :: "aspaces \<times> machine \<Rightarrow> pd_call \<Rightarrow> bool" where
  "pd_enabled x c = pd_can (user_frames (snd x)) (fst x) c"

definition pd_event :: "pd_call \<Rightarrow> aspaces \<times> machine \<Rightarrow> (aspaces \<times> machine) option" where
  "pd_event c x = do {
     (r, s') \<leftarrow> pd_run c (snd x);
     S' \<leftarrow> pd_next (fst x) c r;
     Some (S', s') }"

interpretation paging: safe_machine pd_enabled pd_event "\<lambda>x. pd_sim (fst x) (snd x)"
proof
  fix x c
  assume "pd_sim (fst x) (snd x)" "pd_enabled x c"
  then have "pd_step (fst x) (snd x) c" using pd_step_any by (simp add: pd_enabled_def)
  then show "\<exists>x'. pd_event c x = Some x' \<and> pd_sim (fst x') (snd x')"
    by (auto simp: pd_step_def pd_event_def)
qed

end
