(* ===== verification/Paging_Init.thy ===== *)
theory Paging_Init
  imports Pagedir_Spec
begin

text \<open>
  The first page directory: \<^verbatim>\<open>paging_init\<close> of \<^verbatim>\<open>threads/init.c\<close>, which maps
  all of the machine's memory at \<open>PHYS_BASE\<close>, read-only where the kernel's text is. The
  bounds of the text come from the linker script and are parameters. The properties of
  page directories, from this first one on, end the theory.
\<close>

section \<open>The initial page directory\<close>

definition paging_step :: "ptr \<Rightarrow> ptr \<Rightarrow> nat \<Rightarrow> ptr \<Rightarrow> machine \<Rightarrow> (ptr \<times> machine) option" where
  "paging_step start etext page pt s = do {
     let pd = init_page_dir s;
     let paddr = uintptr (size_mul page PGSIZE);
     vaddr \<leftarrow> ptov paddr;
     let pde_idx = pd_no vaddr;
     let pte_idx = pt_no vaddr;
     let in_kernel_text = (start \<le> vaddr \<and> vaddr < etext);
     (pt, s) \<leftarrow>
       (if load32 (ram s) (pd + 4 * pde_idx) = 0 then do {
          (pt, s) \<leftarrow> palloc_get_page (PAL_ASSERT OR PAL_ZERO) s;
          e \<leftarrow> pde_create pt;
          Some (pt, s\<lparr>ram := store32 (ram s) (pd + 4 * pde_idx) e\<rparr>) }
        else Some (pt, s));
     e \<leftarrow> pte_create_kernel vaddr (\<not> in_kernel_text);
     Some (pt, s\<lparr>ram := store32 (ram s) (pt + 4 * pte_idx) e\<rparr>) }"

fun paging_loop :: "ptr \<Rightarrow> ptr \<Rightarrow> nat list \<Rightarrow> ptr \<Rightarrow> machine \<Rightarrow> machine option" where
  "paging_loop start etext [] pt s = Some s"
| "paging_loop start etext (page # pages) pt s = do {
     (pt, s) \<leftarrow> paging_step start etext page pt s;
     paging_loop start etext pages pt s }"

definition paging_init :: "ptr \<Rightarrow> ptr \<Rightarrow> machine \<Rightarrow> machine option" where
  "paging_init start etext s = do {
     (pd, s) \<leftarrow> palloc_get_page (PAL_ASSERT OR PAL_ZERO) s;
     s \<leftarrow> paging_loop start etext [0..<init_ram_pages s] NULL (s\<lparr>init_page_dir := pd\<rparr>);
     c \<leftarrow> vtop (init_page_dir s);
     Some (s\<lparr>cr3 := c, tlb := Map.empty\<rparr>) }"

section \<open>The loop\<close>

text \<open>The entry of the physical page \<open>p\<close>, and the table that has it.\<close>

definition kernel_pte :: "ptr \<Rightarrow> ptr \<Rightarrow> nat \<Rightarrow> u32" where
  "kernel_pte start etext p =
     (uintptr (4096 * p) OR PTE_P OR
      (if start \<le> PHYS_BASE + 4096 * p \<and> PHYS_BASE + 4096 * p < etext then 0 else PTE_W))"

definition ktable :: "mem \<Rightarrow> ptr \<Rightarrow> nat \<Rightarrow> ptr" where
  "ktable m pd i = pt_at m pd (768 + i)"

definition kentry :: "mem \<Rightarrow> ptr \<Rightarrow> nat \<Rightarrow> u32" where
  "kentry m pd p = load32 m (ktable m pd (p div 1024) + 4 * (p mod 1024))"

text \<open>The directory with \<open>t\<close> tables, the last of them \<open>pt\<close>, in which \<open>n\<close> pages are mapped.\<close>

definition kmap :: "ptr \<Rightarrow> ptr \<Rightarrow> nat \<Rightarrow> nat \<Rightarrow> ptr \<Rightarrow> machine \<Rightarrow> bool" where
  "kmap start etext t n pt s \<longleftrightarrow>
     (let pd = init_page_dir s; m = ram s; U = pool_used (kernel_pool s) in
      palloc_ok s \<and> is_kpage pd \<and> pd div 4096 \<in> U \<and> card U \<le> 1 + t \<and> t \<le> 128 \<and> n \<le> 1024 * t \<and>
      (\<forall>i<768. pde_at m pd i = 0) \<and> (\<forall>i<128. pde_at m pd (768 + i) \<noteq> 0 \<longleftrightarrow> i < t) \<and>
      (\<forall>i<t. pde_get_pt (pde_at m pd (768 + i)) = Some (ktable m pd i)) \<and>
      (\<forall>i<t. is_kpage (ktable m pd i) \<and> ktable m pd i div 4096 \<in> U \<and> ktable m pd i \<noteq> pd) \<and>
      (\<forall>i<t. \<forall>j<t. ktable m pd i = ktable m pd j \<longrightarrow> i = j) \<and>
      (t \<noteq> 0 \<longrightarrow> pt = ktable m pd (t - 1)) \<and>
      (\<forall>p<n. kentry m pd p = kernel_pte start etext p))"

lemma same_page: "a mod 4096 = 0 \<Longrightarrow> b mod 4096 = 0 \<Longrightarrow> a div 4096 = b div 4096 \<Longrightarrow> a = (b :: nat)"
  by auto

lemma kmapD:
  assumes "kmap start etext t n pt s"
  shows "palloc_ok s" and "is_kpage (init_page_dir s)" and "init_page_dir s mod 4096 = 0"
    and "i < t \<Longrightarrow> is_kpage (ktable (ram s) (init_page_dir s) i)"
    and "i < t \<Longrightarrow> ktable (ram s) (init_page_dir s) i mod 4096 = 0"
    and "i < t \<Longrightarrow> ktable (ram s) (init_page_dir s) i div 4096 \<in> pool_used (kernel_pool s)"
    and "i < t \<Longrightarrow> ktable (ram s) (init_page_dir s) i div 4096 \<noteq> init_page_dir s div 4096"
    and "i < t \<Longrightarrow> j < t \<Longrightarrow>
      ktable (ram s) (init_page_dir s) i div 4096 = ktable (ram s) (init_page_dir s) j div 4096 \<Longrightarrow> i = j"
    and "init_page_dir s div 4096 \<in> pool_used (kernel_pool s)"
proof -
  note K = assms [unfolded kmap_def Let_def]
  show "palloc_ok s" "is_kpage (init_page_dir s)" "init_page_dir s div 4096 \<in> pool_used (kernel_pool s)" using K by blast+
  show pd: "init_page_dir s mod 4096 = 0" using K by (simp add: is_kpage_def)
  show kp: "is_kpage (ktable (ram s) (init_page_dir s) i)" if "i < t" for i using K that by blast
  then show al: "ktable (ram s) (init_page_dir s) i mod 4096 = 0" if "i < t" for i using that by (simp add: is_kpage_def)
  show "i < t \<Longrightarrow> ktable (ram s) (init_page_dir s) i div 4096 \<in> pool_used (kernel_pool s)" using K by blast
  show "i < t \<Longrightarrow> ktable (ram s) (init_page_dir s) i div 4096 \<noteq> init_page_dir s div 4096"
    using K same_page [OF al pd, of i] by blast
  show "i < t \<Longrightarrow> j < t \<Longrightarrow>
      ktable (ram s) (init_page_dir s) i div 4096 = ktable (ram s) (init_page_dir s) j div 4096 \<Longrightarrow> i = j"
    using K same_page [OF al al, of i j] by blast
qed

text \<open>Writing an entry of the last table.\<close>

lemma kmap_store:
  assumes K: "kmap start etext t n pt s" and n: "n div 1024 = t - 1" "t \<noteq> 0" and e: "e = kernel_pte start etext n"
  shows "kmap start etext t (Suc n) pt (s\<lparr>ram := store32 (ram s) (pt + 4 * (n mod 1024)) e\<rparr>)"
proof -
  let ?pd = "init_page_dir s" and ?m = "store32 (ram s) (pt + 4 * (n mod 1024)) e"
  have pt: "pt = ktable (ram s) ?pd (t - 1)" using K n(2) by (simp add: kmap_def Let_def)
  have t: "t - 1 < t" using n(2) by simp
  note D = kmapD [OF K]
  have out: "?m x = ram s x" if "x div 4096 \<noteq> pt div 4096" for x
    using store32_page [of pt "n mod 1024" x] D(5) [OF t] that pt by simp
  have pde: "pde_at ?m ?pd i = pde_at (ram s) ?pd i" if "i < 1024" for i
    unfolding pde_at_def using load32_page [OF D(3) that, of ?m "ram s"] out D(7) [OF t] pt by simp
  have kt: "ktable ?m ?pd i = ktable (ram s) ?pd i" if "i < 256" for i
    using pde [of "768 + i"] that by (simp add: ktable_def pt_at_def)
  have le: "n < 1024 * t" "t \<le> 128" using n K by (auto simp: kmap_def Let_def)
  have en: "kentry ?m ?pd p = (if p = n then e else kentry (ram s) ?pd p)" if "p \<le> n" for p
  proof -
    have p: "p div 1024 < t" using that le by (simp add: div_less_iff_less_mult)
    have k: "ktable ?m ?pd (p div 1024) = ktable (ram s) ?pd (p div 1024)" using kt p le by simp
    consider "p = n" | "p \<noteq> n" "p div 1024 = t - 1" | "p div 1024 \<noteq> t - 1" by blast
    then show ?thesis
    proof cases
      case 2
      then have "n mod 1024 \<noteq> p mod 1024" using n(1) by (metis div_mod_decomp)
      then show ?thesis using 2 k pt load32_store32_word [of "n mod 1024" "p mod 1024"] by (simp add: kentry_def)
    next
      case 3
      then have "ktable (ram s) ?pd (p div 1024) div 4096 \<noteq> pt div 4096" using D(8) [OF p t] pt by blast
      then have "load32 ?m (ktable (ram s) ?pd (p div 1024) + 4 * (p mod 1024)) =
          load32 (ram s) (ktable (ram s) ?pd (p div 1024) + 4 * (p mod 1024))"
        using out D(5) [OF p] by (intro load32_page) simp_all
      then show ?thesis using 3 n(1) k by (auto simp: kentry_def)
    qed (use k pt n in \<open>simp add: kentry_def\<close>)
  qed
  have "\<forall>i<768. pde_at ?m ?pd i = 0" "\<forall>i<128. pde_at ?m ?pd (768 + i) \<noteq> 0 \<longleftrightarrow> i < t"
    using K pde by (simp_all add: kmap_def Let_def)
  moreover have "\<forall>i<t. ktable ?m ?pd i = ktable (ram s) ?pd i" "\<forall>i<t. pde_at ?m ?pd (768 + i) = pde_at (ram s) ?pd (768 + i)"
    using kt pde le by simp_all
  moreover have "\<forall>p<Suc n. kentry ?m ?pd p = kernel_pte start etext p"
    using K en e by (auto simp: kmap_def Let_def less_Suc_eq_le)
  ultimately show ?thesis using K le n(2) by (simp add: kmap_def Let_def)
qed

text \<open>Adding a table.\<close>

lemma kmap_table:
  assumes K: "kmap start etext t n pt s" and t: "t < 128" and g: "got_pages False True 1 s k s1"
    and e: "pde_create (4096 * k) = Some e"
  shows "kmap start etext (Suc t) n (4096 * k) (s1\<lparr>ram := store32 (ram s1) (init_page_dir s + 4 * (768 + t)) e\<rparr>)"
proof -
  let ?pd = "init_page_dir s" and ?m = "store32 (ram s1) (init_page_dir s + 4 * (768 + t)) e"
  let ?s = "s1\<lparr>ram := ?m\<rparr>"
  note D = kmapD [OF K]
  obtain P U where s1: "s1 = s\<lparr>kernel_pool := P, user_pool := U, ram := zeroed True k 1 (ram s)\<rparr>"
    using g by (auto simp: got_pages_def)
  have G: "palloc_ok s1" "pool_used (kernel_pool s1) = insert k (pool_used (kernel_pool s))"
    "k \<in> pool_pages (kernel_pool s)" "k \<notin> pages_used s"
    using g by (auto simp: got_pages_def pool_of_def slots_def)
  have nk: "k \<notin> pool_used (kernel_pool s)" using G(4) by (simp add: pages_used_def)
  have npd: "?pd div 4096 \<noteq> k" using nk D(9) by blast
  have kp: "is_kpage (4096 * k)"
    using pool_pages_bound [OF palloc_ok_pools [OF D(1), of False]] G(3) by (auto simp: pool_of_def is_kpage_def)
  have ee: "e \<noteq> 0" "unat (e AND PTE_ADDR) + PHYS_BASE = 4096 * k" "pde_get_pt e = Some (4096 * k)" using pde_create_ok [OF kp] e by auto
  have out: "?m x = ram s x" if "x div 4096 \<noteq> k" "x div 4096 \<noteq> ?pd div 4096" for x
    using store32_page [OF D(3), of "768 + t" x] that t s1 by (simp add: zeroed_page)
  have pde: "pde_at ?m ?pd i = (if i = 768 + t then e else pde_at (ram s) ?pd i)" if "i < 1024" for i
  proof (cases "i = 768 + t")
    case False
    have "pde_at ?m ?pd i = load32 (zeroed True k 1 (ram s)) (?pd + 4 * i)"
      unfolding pde_at_def using False load32_store32_word [of "768 + t" i] s1 by simp
    also have "\<dots> = load32 (ram s) (?pd + 4 * i)"
      using load32_page [OF D(3) that, of "zeroed True k 1 (ram s)" "ram s"] npd by (simp add: zeroed_page)
    finally show ?thesis using False by (simp add: pde_at_def)
  qed (simp add: pde_at_def)
  have kt: "ktable ?m ?pd i = (if i = t then 4096 * k else ktable (ram s) ?pd i)" if "i < 256" for i
    using pde [of "768 + i"] that ee(2) by (simp add: ktable_def pt_at_def)
  have old: "ktable (ram s) ?pd i div 4096 \<noteq> k" if "i < t" for i using D(6) [OF that] nk by blast
  have en: "kentry ?m ?pd p = kentry (ram s) ?pd p" if "p < n" for p
  proof -
    have p: "p div 1024 < t" using that K by (auto simp: kmap_def Let_def div_less_iff_less_mult)
    have "load32 ?m (ktable (ram s) ?pd (p div 1024) + 4 * (p mod 1024)) =
        load32 (ram s) (ktable (ram s) ?pd (p div 1024) + 4 * (p mod 1024))"
      using out old [OF p] D(5,7) [OF p] by (intro load32_page) simp_all
    then show ?thesis using kt [of "p div 1024"] p t by (simp add: kentry_def)
  qed
  have c: "card (pool_used (kernel_pool s1)) \<le> 1 + Suc t"
    unfolding G(2) using K by (intro card_insert_le_m1) (simp_all add: kmap_def Let_def)
  have kts: "is_kpage (ktable ?m ?pd i) \<and> ktable ?m ?pd i div 4096 \<in> pool_used (kernel_pool ?s) \<and> ktable ?m ?pd i \<noteq> ?pd"
    if "i < Suc t" for i
    using that t kt [of i] kp D(4,6,7) [of i] npd nk G(2) by (cases "i = t") auto
  have inj: "i = j" if "i < Suc t" "j < Suc t" "ktable ?m ?pd i = ktable ?m ?pd j" for i j
  proof -
    have k: "4096 * k div 4096 = k" by simp
    have "ktable ?m ?pd i div 4096 = ktable ?m ?pd j div 4096" using that(3) by simp
    then show ?thesis using that(1,2) t kt [of i] kt [of j] old [of i] old [of j] D(8) [of i j] k
      by (cases "i = t"; cases "j = t") (simp_all add: less_Suc_eq del: nonzero_mult_div_cancel_left)
  qed
  have z: "\<forall>i<768. pde_at ?m ?pd i = 0" "\<forall>i<128. pde_at ?m ?pd (768 + i) \<noteq> 0 \<longleftrightarrow> i < Suc t"
    using K pde ee(1) by (auto simp: kmap_def Let_def)
  have gp: "\<forall>i<Suc t. pde_get_pt (pde_at ?m ?pd (768 + i)) = Some (ktable ?m ?pd i)"
    using K pde kt ee(3) t by (auto simp: kmap_def Let_def less_Suc_eq)
  have i: "init_page_dir s1 = ?pd" using s1 by simp
  have K': "n \<le> 1024 * t" "\<forall>p<n. kentry (ram s) ?pd p = kernel_pte start etext p" using K by (simp_all add: kmap_def Let_def)
  show ?thesis
    unfolding kmap_def Let_def
    using G(1,2) i z gp kts inj en K' c t kt [of t] D(2,9) by simp
qed

lemma kernel_page_available:
  assumes ok: "palloc_ok s" and c: "card (pool_used (kernel_pool s)) < card (pool_pages (kernel_pool s))"
  shows "\<exists>k s1. palloc_get_page (PAL_ASSERT OR PAL_ZERO) s = Some (4096 * k, s1) \<and> got_pages False True 1 s k s1"
proof -
  have "\<not> no_run False 1 s"
  proof
    assume "no_run False 1 s"
    then have "k \<in> pages_used s" if "k \<in> pool_pages (kernel_pool s)" for k
      unfolding no_run_def using that by (auto simp: slots_def pool_of_def)
    then have "pool_pages (kernel_pool s) \<subseteq> pool_used (kernel_pool s)"
      using pools_disjoint [OF ok, of False] pool_used_pages [of "user_pool s"]
      by (auto simp: pages_used_def pool_of_def)
    then have "pool_pages (kernel_pool s) = pool_used (kernel_pool s)" using pool_used_pages by blast
    then show False using c by simp
  qed
  then show ?thesis using palloc_get_multiple_ok [OF ok, of 1 False "PAL_ASSERT OR PAL_ZERO"]
    by (auto simp: palloc_get_page_def)
qed

text \<open>The address of the page that the loop maps.\<close>

lemma loop_address:
  assumes "n < 2 ^ 17"
  shows "ptov (uintptr (size_mul n PGSIZE)) = Some (PHYS_BASE + 4096 * n)"
    and "pd_no (PHYS_BASE + 4096 * n) = 768 + n div 1024" and "pt_no (PHYS_BASE + 4096 * n) = n mod 1024"
    and "pte_create_kernel (PHYS_BASE + 4096 * n) (\<not> (start \<le> PHYS_BASE + 4096 * n \<and> PHYS_BASE + 4096 * n < etext)) =
      Some (kernel_pte start etext n)"
proof -
  have kp: "is_kpage (PHYS_BASE + 4096 * n)" using assms by (simp add: is_kpage_def)
  have d: "PHYS_BASE + 4096 * n - PHYS_BASE = 4096 * n" by simp
  note W = is_kpage_word [OF kp, unfolded d]
  show "ptov (uintptr (size_mul n PGSIZE)) = Some (PHYS_BASE + 4096 * n)"
    using W(3) assms by (simp add: size_mul_id mult.commute)
  have "PHYS_BASE + 4096 * n < 2 ^ 32" using assms by simp
  then show "pd_no (PHYS_BASE + 4096 * n) = 768 + n div 1024" "pt_no (PHYS_BASE + 4096 * n) = n mod 1024"
    using mod_mult_self4 [of 1024 768 n] by (simp_all add: pd_no_eq pt_no_eq)
  show "pte_create_kernel (PHYS_BASE + 4096 * n) (\<not> (start \<le> PHYS_BASE + 4096 * n \<and> PHYS_BASE + 4096 * n < etext)) =
      Some (kernel_pte start etext n)"
    using W(1,4) by (simp add: pte_create_kernel_def kernel_pte_def)
qed

lemma tables_needed:
  "n mod 1024 = 0 \<Longrightarrow> (n + 1023) div 1024 = n div (1024 :: nat)"
  "n mod 1024 \<noteq> 0 \<Longrightarrow> (n + 1023) div 1024 = n div (1024 :: nat) + 1"
  "(Suc n + 1023) div 1024 = n div 1024 + 1"
proof -
  define q r where "q = n div 1024" and "r = n mod 1024"
  have n: "n = q * 1024 + r" "r < 1024" by (simp_all add: q_def r_def)
  have d: "(n + 1023) div 1024 = q + (r + 1023) div 1024" unfolding n(1) by (simp add: add.assoc)
  show "n mod 1024 = 0 \<Longrightarrow> (n + 1023) div 1024 = n div 1024" using d by (simp add: r_def [symmetric] q_def)
  assume "n mod 1024 \<noteq> 0"
  then have "(r + 1023) div 1024 = 1" using n(2) by (auto simp: r_def [symmetric] intro: div_nat_eqI)
  then show "(n + 1023) div 1024 = n div 1024 + 1" using d by (simp add: q_def)
qed simp

lemma paging_step_ok:
  assumes K: "kmap start etext ((n + 1023) div 1024) n pt s" and n: "n < 2 ^ 17"
    and c: "(n + 1023) div 1024 + 1 < card (pool_pages (kernel_pool s))"
  shows "\<exists>pt' P m. paging_step start etext n pt s = Some (pt', s\<lparr>kernel_pool := P, ram := m\<rparr>) \<and>
    kmap start etext ((Suc n + 1023) div 1024) (Suc n) pt' (s\<lparr>kernel_pool := P, ram := m\<rparr>) \<and>
    pool_pages P = pool_pages (kernel_pool s)"
proof -
  let ?t = "(n + 1023) div 1024" and ?pd = "init_page_dir s" and ?e = "kernel_pte start etext n"
  note A = loop_address [OF n] and D = kmapD [OF K]
  have q: "n div 1024 < 128" using n by simp
  have pde: "load32 (ram s) (?pd + 4 * (768 + n div 1024)) \<noteq> 0 \<longleftrightarrow> n div 1024 < ?t"
    using K q unfolding kmap_def Let_def pde_at_def by blast
  show ?thesis
  proof (cases "n mod 1024 = 0")
    case False
    then have t: "?t = n div 1024 + 1" "(Suc n + 1023) div 1024 = ?t" using tables_needed [of n] by simp_all
    let ?m = "store32 (ram s) (pt + 4 * (n mod 1024)) ?e"
    have "paging_step start etext n pt s = Some (pt, s\<lparr>ram := ?m\<rparr>)"
      using pde t A by (simp add: paging_step_def Let_def)
    moreover have "kmap start etext ?t (Suc n) pt (s\<lparr>ram := ?m\<rparr>)" using kmap_store [OF K _ _ refl] t by simp
    ultimately show ?thesis using t(2) by (intro exI [of _ pt] exI [of _ "kernel_pool s"] exI [of _ ?m]) simp
  next
    case True
    then have t: "?t = n div 1024" "(Suc n + 1023) div 1024 = Suc ?t" using tables_needed [of n] by simp_all
    have "card (pool_used (kernel_pool s)) \<le> 1 + ?t" using K by (simp add: kmap_def Let_def)
    then obtain k s1 where g: "palloc_get_page (PAL_ASSERT OR PAL_ZERO) s = Some (4096 * k, s1)" "got_pages False True 1 s k s1"
      using kernel_page_available [OF D(1)] c by auto
    have kp: "is_kpage (4096 * k)"
      using g(2) pool_pages_bound [OF palloc_ok_pools [OF D(1), of False], of k] by (auto simp: got_pages_def pool_of_def is_kpage_def slots_def)
    obtain e where e: "pde_create (4096 * k) = Some e" using pde_create_ok [OF kp] by blast
    obtain P U where s1: "s1 = s\<lparr>kernel_pool := P, user_pool := U, ram := zeroed True k 1 (ram s)\<rparr>" "U = user_pool s"
      "pool_pages P = pool_pages (kernel_pool s)"
      using g(2) by (auto simp: got_pages_def pool_of_def split: if_splits)
    define s2 where "s2 = s1\<lparr>ram := store32 (ram s1) (?pd + 4 * (768 + ?t)) e\<rparr>"
    let ?m = "store32 (ram s2) (4096 * k + 4 * (n mod 1024)) ?e"
    have run: "paging_step start etext n pt s = Some (4096 * k, s2\<lparr>ram := ?m\<rparr>)"
      using pde t A g(1) e by (simp add: paging_step_def Let_def s2_def)
    have "?t < 128" using q t(1) by simp
    then have km2: "kmap start etext (Suc ?t) n (4096 * k) s2" unfolding s2_def by (rule kmap_table [OF K _ g(2) e])
    have "n div 1024 = Suc ?t - 1" using t(1) by simp
    then have km: "kmap start etext (Suc ?t) (Suc n) (4096 * k) (s2\<lparr>ram := ?m\<rparr>)"
      by (rule kmap_store [OF km2]) simp_all
    have s': "s2\<lparr>ram := x\<rparr> = s\<lparr>kernel_pool := P, ram := x\<rparr>" for x unfolding s2_def s1(1,2) by simp
    show ?thesis unfolding t(2) by (intro exI conjI, rule run [unfolded s'], rule km [unfolded s'], rule s1(3))
  qed
qed

lemma paging_loop_ok:
  assumes "kmap start etext ((n + 1023) div 1024) n pt s" and "n \<le> N" and "N \<le> 2 ^ 17"
    and "N div 1024 + 2 < card (pool_pages (kernel_pool s))"
  shows "\<exists>pt' P m. paging_loop start etext [n..<N] pt s = Some (s\<lparr>kernel_pool := P, ram := m\<rparr>) \<and>
    kmap start etext ((N + 1023) div 1024) N pt' (s\<lparr>kernel_pool := P, ram := m\<rparr>)"
  using assms
proof (induction "N - n" arbitrary: n pt s)
  case 0
  then show ?case by (intro exI [of _ pt] exI [of _ "kernel_pool s"] exI [of _ "ram s"]) simp
next
  case (Suc d)
  have n: "n < N" using Suc.hyps(2) by simp
  have "(n + 1023) div 1024 \<le> (N + 1023) div 1024" using n by (simp add: div_le_mono)
  also have "\<dots> \<le> N div 1024 + 1" by simp
  finally have c: "(n + 1023) div 1024 + 1 < card (pool_pages (kernel_pool s))" using Suc.prems(4) by simp
  obtain pt1 P m where st: "paging_step start etext n pt s = Some (pt1, s\<lparr>kernel_pool := P, ram := m\<rparr>)"
    "kmap start etext ((Suc n + 1023) div 1024) (Suc n) pt1 (s\<lparr>kernel_pool := P, ram := m\<rparr>)"
    "pool_pages P = pool_pages (kernel_pool s)"
    using paging_step_ok [OF Suc.prems(1) _ c] n Suc.prems(3) by auto
  have "\<exists>pt' P' m'. paging_loop start etext [Suc n..<N] pt1 (s\<lparr>kernel_pool := P, ram := m\<rparr>) =
      Some (s\<lparr>kernel_pool := P, ram := m\<rparr>\<lparr>kernel_pool := P', ram := m'\<rparr>) \<and>
    kmap start etext ((N + 1023) div 1024) N pt' (s\<lparr>kernel_pool := P, ram := m\<rparr>\<lparr>kernel_pool := P', ram := m'\<rparr>)"
    using Suc.hyps(1) [OF _ st(2)] Suc.hyps(2) n Suc.prems(3,4) st(3) by simp
  then show ?case using st(1) n by (simp add: upt_conv_Cons)
qed

text \<open>The memory of the kernel at boot: the page allocator and then the page tables.\<close>

definition memory_init :: "ptr \<Rightarrow> ptr \<Rightarrow> nat \<Rightarrow> machine \<Rightarrow> machine option" where
  "memory_init start etext user_page_limit s = do {
     s \<leftarrow> palloc_init (init_ram_pages s) user_page_limit s;
     paging_init start etext s }"

lemma zero_page: "i < 1024 \<Longrightarrow> pde_at (zeroed True k 1 m) (4096 * k) i = 0"
  unfolding pde_at_def by (rule load32_zero) (simp add: zeroed_def)

lemma kmap_empty:
  assumes "got_pages False True 1 s k s1" and "pages_used s = {}" and "palloc_ok s"
  shows "kmap start etext 0 0 NULL (s1\<lparr>init_page_dir := 4096 * k\<rparr>)" and "is_kpage (4096 * k)"
proof -
  obtain P U where s1: "s1 = s\<lparr>kernel_pool := P, user_pool := U, ram := zeroed True k 1 (ram s)\<rparr>"
    using assms(1) by (auto simp: got_pages_def)
  have G: "palloc_ok s1" "pool_used P = {k}" "k \<in> pool_pages (kernel_pool s)"
    using assms s1 by (auto simp: got_pages_def pool_of_def slots_def pages_used_def)
  show "is_kpage (4096 * k)"
    using pool_pages_bound [OF palloc_ok_pools [OF assms(3), of False]] G(3) by (auto simp: pool_of_def is_kpage_def)
  moreover have "palloc_ok (s1\<lparr>init_page_dir := 4096 * k\<rparr>)" using G(1) by (simp add: palloc_ok_def)
  ultimately show "kmap start etext 0 0 NULL (s1\<lparr>init_page_dir := 4096 * k\<rparr>)"
    using G(2) zero_page [of _ k "ram s"] by (simp add: kmap_def Let_def s1)
qed

lemma memory_init_ok:
  assumes r: "512 \<le> init_ram_pages s" "init_ram_pages s \<le> 2 ^ 17" and l: "1 \<le> user_page_limit"
  shows "\<exists>s' t pt. memory_init start etext user_page_limit s = Some s' \<and> init_ram_pages s' = init_ram_pages s \<and>
    kmap start etext t (init_ram_pages s) pt s' \<and> active_pd s' = Some (init_page_dir s') \<and> tlb s' = Map.empty"
proof -
  let ?N = "init_ram_pages s"
  obtain K0 U0 where p: "palloc_init ?N user_page_limit s = Some (s\<lparr>kernel_pool := K0, user_pool := U0\<rparr>)"
      "palloc_ok (s\<lparr>kernel_pool := K0, user_pool := U0\<rparr>)" "pages_used (s\<lparr>kernel_pool := K0, user_pool := U0\<rparr>) = {}"
      "?N div 1024 + 3 < bit_cnt (used_map K0)"
    using palloc_init_ok [OF r l, of s] by auto
  let ?s = "s\<lparr>kernel_pool := K0, user_pool := U0\<rparr>"
  have c: "card (pool_pages (kernel_pool ?s)) = bit_cnt (used_map K0)" by (simp add: pool_pages_def)
  have "card (pool_used (kernel_pool ?s)) = 0" using p(3) by (simp add: pages_used_def)
  then have "card (pool_used (kernel_pool ?s)) < card (pool_pages (kernel_pool ?s))" unfolding c using p(4) by simp
  then obtain k s1 where g: "palloc_get_page (PAL_ASSERT OR PAL_ZERO) ?s = Some (4096 * k, s1)" "got_pages False True 1 ?s k s1"
    using kernel_page_available [OF p(2)] by blast
  note ke = kmap_empty(1) [OF g(2) p(3,2), of start etext] kmap_empty(2) [OF g(2) p(3,2)]
  let ?s1 = "s1\<lparr>init_page_dir := 4096 * k\<rparr>"
  obtain K1 U1 where s1: "s1 = s\<lparr>kernel_pool := K1, user_pool := U1, ram := zeroed True k 1 (ram s)\<rparr>"
      "pool_pages K1 = pool_pages (kernel_pool ?s)"
    using g(2) by (auto simp: got_pages_def pool_of_def split: if_splits)
  have N: "init_ram_pages s1 = ?N" using s1(1) by simp
  have "?N div 1024 + 2 < card (pool_pages (kernel_pool ?s1))" using s1 c p(4) by simp
  then obtain pt P m where lp: "paging_loop start etext [0..<?N] NULL ?s1 = Some (?s1\<lparr>kernel_pool := P, ram := m\<rparr>)"
      "kmap start etext ((?N + 1023) div 1024) ?N pt (?s1\<lparr>kernel_pool := P, ram := m\<rparr>)"
    using paging_loop_ok [of start etext 0 NULL ?s1 ?N] ke(1) r(2) by auto
  let ?q = "uintptr (4096 * k - PHYS_BASE)"
  have cr: "vtop (4096 * k) = Some ?q" "ptov ?q = Some (4096 * k)" using is_kpage_word(1,3) [OF ke(2)] by blast+
  let ?s' = "?s1\<lparr>kernel_pool := P, ram := m, cr3 := ?q, tlb := Map.empty\<rparr>"
  have "memory_init start etext user_page_limit s = Some ?s'"
    using p(1) g(1) N lp(1) cr(1) by (simp add: memory_init_def paging_init_def)
  moreover have "kmap start etext ((?N + 1023) div 1024) ?N pt ?s'" using lp(2) by (simp add: kmap_def Let_def palloc_ok_def)
  ultimately show ?thesis using N cr(2) by (intro exI conjI) (assumption | simp add: active_pd_def)+
qed

section \<open>Properties\<close>

lemma kmap_sim:
  assumes K: "kmap start etext t n pt s" and a: "active_pd s = Some (init_page_dir s)" and b: "tlb s = Map.empty"
  shows "pd_sim (Map.empty, NULL) s"
  using K a b by (simp add: pd_sim_def pds_ok_def act_ok_def frames_ok_def kmap_def Let_def)

lemma kmap_lookup:
  assumes K: "kmap start etext t n pt s" and p: "p < n" "p < 2 ^ 17"
  shows "\<exists>a. lookup_page (init_page_dir s) (PHYS_BASE + 4096 * p) False s = Some (a, s) \<and> a \<noteq> NULL \<and>
    load32 (ram s) a = kernel_pte start etext p"
proof -
  let ?pd = "init_page_dir s" and ?i = "p div 1024"
  have i: "?i < t" "?i < 128" using p K by (auto simp: kmap_def Let_def div_less_iff_less_mult)
  have e: "pde_at (ram s) ?pd (768 + ?i) \<noteq> 0" "pde_get_pt (pde_at (ram s) ?pd (768 + ?i)) = Some (ktable (ram s) ?pd ?i)"
    "kentry (ram s) ?pd p = kernel_pte start etext p"
    using K i p(1) by (simp_all add: kmap_def Let_def)
  have "?pd \<noteq> NULL" "ktable (ram s) ?pd ?i \<noteq> NULL"
    using kmapD(2) [OF K] kmapD(4) [OF K i(1)] by (auto simp: is_kpage_def)
  then show ?thesis
    using e loop_address(2,3) [OF p(2)] by (simp add: lookup_page_def Let_def pde_at_def kentry_def)
qed

text \<open>
  C9. With between two megabytes and half a gigabyte of memory and a user pool that is not
  empty, the kernel's memory comes up without a panic: the new page directory is active,
  it maps every page of the machine's memory at its address above \<open>PHYS_BASE\<close>, writable
  unless the page is in the kernel's text, and it maps no user address.
\<close>

theorem kernel_memory_mapped:
  assumes "512 \<le> init_ram_pages s" and "init_ram_pages s \<le> 2 ^ 17" and "1 \<le> user_page_limit"
  shows "\<exists>s'. memory_init start etext user_page_limit s = Some s' \<and> active_pd s' = Some (init_page_dir s') \<and>
    (\<forall>p<init_ram_pages s. \<exists>a. lookup_page (init_page_dir s') (PHYS_BASE + 4096 * p) False s' = Some (a, s') \<and>
      a \<noteq> NULL \<and> load32 (ram s') a = kernel_pte start etext p) \<and>
    (\<forall>v<0xc0000. entry (ram s') (init_page_dir s') v = 0)"
proof -
  obtain s' t pt where M: "memory_init start etext user_page_limit s = Some s'" "init_ram_pages s' = init_ram_pages s"
    "kmap start etext t (init_ram_pages s) pt s'" "active_pd s' = Some (init_page_dir s')"
    using memory_init_ok [OF assms] by blast
  have "entry (ram s') (init_page_dir s') v = 0" if "v < 0xc0000" for v
    using M(3) that by (simp add: entry_def kmap_def Let_def)
  then show ?thesis using M(1,4) kmap_lookup [OF M(3)] assms(2) by auto
qed

definition boot_machine :: machine where
  "boot_machine = \<lparr>kernel_pool = \<lparr>used_map = \<lparr>bit_cnt = 0, bits = []\<rparr>, base = 0\<rparr>,
     user_pool = \<lparr>used_map = \<lparr>bit_cnt = 0, bits = []\<rparr>, base = 0\<rparr>, ram = (\<lambda>_. 0),
     init_page_dir = NULL, init_ram_pages = 1024, cr3 = 0, tlb = Map.empty\<rparr>"

theorem kernel_memory_mapped_witness:
  "\<exists>s' a. memory_init 0xc0020000 0xc0030000 SIZE_MAX boot_machine = Some s' \<and>
    lookup_page (init_page_dir s') 0xc0021000 False s' = Some (a, s') \<and> load32 (ram s') a = 0x21001"
proof -
  have b: "init_ram_pages boot_machine = 1024" by (simp add: boot_machine_def)
  obtain s' where s': "memory_init 0xc0020000 0xc0030000 SIZE_MAX boot_machine = Some s'"
    "\<forall>p<1024. \<exists>a. lookup_page (init_page_dir s') (PHYS_BASE + 4096 * p) False s' = Some (a, s') \<and>
      a \<noteq> NULL \<and> load32 (ram s') a = kernel_pte 0xc0020000 0xc0030000 p"
    using kernel_memory_mapped [of boot_machine SIZE_MAX "0xc0020000" "0xc0030000"] b by (auto simp: SIZE_MAX_def)
  have "kernel_pte 0xc0020000 0xc0030000 0x21 = 0x21001" by (simp add: kernel_pte_def uintptr_def)
  then show ?thesis using s'(1) s'(2) [rule_format, of "0x21"] by auto
qed

text \<open>
  C6. Page directories are maps. From boot on, as long as the callers respect the contract
  of \<open>pd_can\<close>, and whatever bytes user programs read and write, no call fails an
  assertion, and each answers as maps from user pages to frames would: a lookup and an
  access of the processor through its TLB give the frame that was mapped last, with its
  right to write, or a page fault. The maps of the specification are those in the tables.
  The contract: calls are for directories that have been created and not destroyed, a
  page is mapped only while it is not mapped, and only to a frame of the user pool, and the
  active directory is not destroyed. A write by a user program changes the byte in the
  frame.
\<close>

theorem page_directories_are_maps:
  assumes "512 \<le> init_ram_pages s" and "init_ram_pages s \<le> 2 ^ 17" and "1 \<le> user_page_limit"
  shows "\<exists>s0. memory_init start etext user_page_limit s = Some s0 \<and>
    (\<forall>S s c. reachable pd_enabled pd_event ((Map.empty, NULL), s0) (S, s) \<and> pd_can (user_frames s) S c \<longrightarrow>
      (\<exists>r s' S'. pd_run c s = Some (r, s') \<and> pd_next S c r = Some S' \<and>
        (\<forall>pd f. fst S' pd = Some f \<longrightarrow> f = aview (ram s') pd)))"
proof -
  obtain s0 t pt where M: "memory_init start etext user_page_limit s = Some s0"
    "kmap start etext t (init_ram_pages s) pt s0" "active_pd s0 = Some (init_page_dir s0)" "tlb s0 = Map.empty"
    using memory_init_ok [OF assms] by blast
  have sim: "pd_sim (fst ((Map.empty, NULL), s0)) (snd ((Map.empty, NULL), s0))" using kmap_sim [OF M(2-4)] by simp
  have "pd_step S s c" if "reachable pd_enabled pd_event ((Map.empty, NULL), s0) (S, s)" "pd_can (user_frames s) S c" for S s c
    using paging.reachable_inv [OF that(1) sim] pd_step_any that(2) by simp
  then show ?thesis using M(1) unfolding pd_step_def by (fastforce simp: pd_sim_def)
qed

theorem page_directories_are_maps_witness:
  "\<exists>s0 r s'. memory_init 0xc0020000 0xc0030000 SIZE_MAX boot_machine = Some s0 \<and>
    pd_run Create s0 = Some (r, s') \<and> (r = NULL \<or> aview (ram s') r = Map.empty)"
proof -
  have b: "512 \<le> init_ram_pages boot_machine" "init_ram_pages boot_machine \<le> 2 ^ 17" "1 \<le> SIZE_MAX"
    by (simp_all add: boot_machine_def SIZE_MAX_def)
  obtain s0 where s0: "memory_init 0xc0020000 0xc0030000 SIZE_MAX boot_machine = Some s0"
    "\<And>S s c. reachable pd_enabled pd_event ((Map.empty, NULL), s0) (S, s) \<Longrightarrow> pd_can (user_frames s) S c \<Longrightarrow>
      \<exists>r s' S'. pd_run c s = Some (r, s') \<and> pd_next S c r = Some S' \<and> (\<forall>pd f. fst S' pd = Some f \<longrightarrow> f = aview (ram s') pd)"
    using page_directories_are_maps [OF b, of "0xc0020000" "0xc0030000"] by blast
  show ?thesis using s0(2) [OF reachable.start, of Create] s0(1) by (auto split: if_splits)
qed



end
