(* ===== verification/Page_Table.thy ===== *)
theory Page_Table
  imports Hash_Table Vaddr
begin

text \<open>
  The table of the pages of a process in \<^verbatim>\<open>vm/page.c\<close>: \<open>page_hash\<close>, \<open>page_less\<close>,
  \<open>page_allocate\<close> and \<open>page_for_addr\<close>, over the hash tables of \<open>Hash_Table\<close>. Only the
  process itself uses its table, so the functions run without steps of other
  threads in between. The address that \<open>malloc\<close> returns for the new page and whether
  it succeeds while the table is resized are arguments. Bringing pages into frames
  and writing them out is not part of this theory.
\<close>

section \<open>The code\<close>

record page =
  pg_addr :: ptr
  pg_read_only :: bool
  pg_thread :: nat
  pg_frame :: ptr
  pg_sector :: u32
  pg_private :: bool
  pg_file :: ptr
  pg_file_offset :: int
  pg_file_bytes :: int

text \<open>
  An element of the table is a page with its address, which never changes after the page
  is inserted and is all that the hash and comparison functions read.
\<close>

type_synonym page_elem = "ptr \<times> ptr"

text \<open>The members of the current thread that the functions use, and the pages in memory.\<close>

record proc =
  current :: nat
  pages :: "page_elem hash option"
  user_esp :: ptr
  page_at :: "ptr \<Rightarrow> page option"


definition page_hash :: "page_elem \<Rightarrow> u32" where
  "page_hash e = drop_bit PGBITS (uintptr (snd e))"

definition page_less :: "page_elem \<Rightarrow> page_elem \<Rightarrow> bool" where
  "page_less a b \<longleftrightarrow> snd a < snd b"

definition page_allocate :: "ptr \<Rightarrow> bool \<Rightarrow> ptr \<Rightarrow> bool \<Rightarrow> proc \<Rightarrow> (ptr \<times> proc) option" where
  "page_allocate p m vaddr read_only s =
     (if p \<noteq> NULL then do {
        let pg = \<lparr>pg_addr = pg_round_down vaddr, pg_read_only = read_only, pg_thread = current s,
          pg_frame = NULL, pg_sector = - 1, pg_private = (\<not> read_only), pg_file = NULL,
          pg_file_offset = 0, pg_file_bytes = 0\<rparr>;
        h \<leftarrow> pages s;
        (old, h) \<leftarrow> hash_insert m h (p, pg_addr pg);
        let s = s\<lparr>pages := Some h\<rparr>;
        if old \<noteq> None then Some (NULL, s)
        else Some (p, s\<lparr>page_at := (page_at s)(p \<mapsto> pg)\<rparr>) }
      else Some (NULL, s))"


section \<open>The keys of the table\<close>

lemma eqv_page_less [simp]: "eqv page_less x y \<longleftrightarrow> snd x = snd y"
  by (auto simp: eqv_def page_less_def)

interpretation page_keys: hash_keys page_hash page_less
proof
  show "weak_order page_less" by (auto simp: weak_order_def page_less_def eqv_def)
  show "page_hash x = page_hash y" if "eqv page_less x y" for x y
    using that by (simp add: page_hash_def)
qed

text \<open>The table as a map from page addresses to pages.\<close>

definition page_map :: "proc \<Rightarrow> ptr \<Rightarrow> ptr option" where
  "page_map s a =
     (case pages s of
        None \<Rightarrow> None
      | Some h \<Rightarrow> map_option fst (List.find (\<lambda>e. snd e = a) (concat (buckets h))))"

text \<open>
  The table is well formed, and each of its elements is a page of this process, at a
  page boundary, whose address is the key.
\<close>

definition page_ok :: "proc \<Rightarrow> page_elem \<Rightarrow> bool" where
  "page_ok s e \<longleftrightarrow> fst e \<noteq> NULL \<and> snd e < 2 ^ 32 \<and> 4096 dvd snd e \<and>
     page_at s (fst e) \<noteq> None \<and> pg_addr (the (page_at s (fst e))) = snd e \<and>
     pg_thread (the (page_at s (fst e))) = current s"

definition pages_ok :: "proc \<Rightarrow> bool" where
  "pages_ok s \<longleftrightarrow> user_esp s < 2 ^ 32 \<and>
     (case pages s of
        None \<Rightarrow> False
      | Some h \<Rightarrow> hash_ok h \<and> hashf h = page_hash \<and> lessf h = page_less \<and> (\<forall>e \<in> helems h. page_ok s e))"

text \<open>The page that \<open>page_allocate\<close> makes.\<close>

definition fresh_page :: "proc \<Rightarrow> ptr \<Rightarrow> bool \<Rightarrow> page" where
  "fresh_page s a ro = \<lparr>pg_addr = a, pg_read_only = ro, pg_thread = current s, pg_frame = NULL,
     pg_sector = - 1, pg_private = (\<not> ro), pg_file = NULL, pg_file_offset = 0, pg_file_bytes = 0\<rparr>"

lemma pages_okE:
  assumes "pages_ok s"
  obtains h where "pages s = Some h" "page_keys.tab h" "\<forall>e \<in> helems h. page_ok s e" "user_esp s < 2 ^ 32"
  using assms by (auto simp: pages_ok_def page_keys.tab_def split: option.splits)

lemma pages_okI:
  "pages s = Some h \<Longrightarrow> page_keys.tab h \<Longrightarrow> \<forall>e \<in> helems h. page_ok s e \<Longrightarrow> user_esp s < 2 ^ 32 \<Longrightarrow> pages_ok s"
  by (simp add: pages_ok_def page_keys.tab_def)

lemma same_key: "page_keys.tab h \<Longrightarrow> x \<in> helems h \<Longrightarrow> y \<in> helems h \<Longrightarrow> snd x = snd y \<Longrightarrow> x = y"
  by (auto simp: page_keys.tab_def hash_ok_def)

lemma page_map_eq:
  assumes "pages s = Some h" and "page_keys.tab h"
  shows "page_map s a = Some p \<longleftrightarrow> (p, a) \<in> helems h"
proof -
  let ?f = "List.find (\<lambda>e. snd e = a) (concat (buckets h))"
  have h: "helems h = set (concat (buckets h))" by (simp add: helems_def)
  show ?thesis
  proof (cases ?f)
    case None
    then have "\<forall>e \<in> helems h. snd e \<noteq> a" unfolding h by (auto simp: find_None_iff)
    then show ?thesis using None assms(1) by (auto simp: page_map_def)
  next
    case (Some x)
    then have x: "x \<in> helems h" "snd x = a" unfolding h by (auto simp: find_Some_iff simp del: set_concat)
    then show ?thesis using Some assms(1) same_key [OF assms(2) x(1), of "(p, a)"]
      by (cases x) (auto simp: page_map_def)
  qed
qed

lemma page_map_lookup:
  assumes "pages s = Some h" and "page_keys.tab h" and "lookup_in page_less (helems h) (q, a) r"
  shows "page_map s a = map_option fst r"
proof (cases r)
  case None
  then have "\<forall>p. (p, a) \<notin> helems h" using assms(3) by (auto simp: lookup_in_def)
  then have "page_map s a \<noteq> Some p" for p using page_map_eq [OF assms(1,2)] by blast
  then show ?thesis using None by (cases "page_map s a") auto
next
  case (Some x)
  then have "(fst x, a) \<in> helems h" using assms(3) by (auto simp: lookup_in_def)
  then show ?thesis using page_map_eq [OF assms(1,2)] Some by simp
qed

text \<open>There are no more pages than page numbers, so the table never fills up.\<close>

lemma card_pages:
  assumes "page_keys.tab h" and "\<forall>e \<in> helems h. page_ok s e"
  shows "card (helems h) + 1 < 2 ^ 32"
proof -
  have "inj_on (\<lambda>e. snd e div 4096) (helems h)"
  proof (intro inj_onI same_key [OF assms(1)])
    fix x y assume "x \<in> helems h" "y \<in> helems h" and eq: "snd x div 4096 = snd y div 4096"
    then have "4096 dvd snd x" "4096 dvd snd y" using assms(2) by (auto simp: page_ok_def)
    then show "snd x = snd y" using eq by (metis dvd_mult_div_cancel)
  qed
  moreover have "(\<lambda>e. snd e div 4096) ` helems h \<subseteq> {..< 2 ^ 20}"
    using assms(2) by (auto simp: page_ok_def)
  ultimately have "card (helems h) \<le> card {..< (2 :: nat) ^ 20}" by (intro card_inj_on_le) auto
  then show ?thesis by simp
qed

lemma page_addr_ok: "pg_round_down va < 2 ^ 32" "4096 dvd pg_round_down va"
proof -
  show "pg_round_down va < 2 ^ 32" using unsigned_less [of "uintptr va AND NOT PGMASK", where 'a = nat]
    by (simp add: pg_round_down_def)
  show "4096 dvd pg_round_down va"
    by (simp add: pg_round_down_def word_round_down unat_round_down dvd_minus_mod)
qed

lemma option_eqI: "(\<And>q. x = Some q \<longleftrightarrow> y = Some q) \<Longrightarrow> x = y"
  by (cases x; cases y) auto

lemma page_ok_other:
  "page_ok s e \<Longrightarrow> page_at s p = None \<Longrightarrow> page_ok (s\<lparr>pages := t, page_at := (page_at s)(p \<mapsto> pg)\<rparr>) e"
  by (auto simp: page_ok_def)

lemma page_allocate_ok:
  assumes ok: "pages_ok s" and p: "p = NULL \<or> page_at s p = None" and a: "a = pg_round_down vaddr"
  shows "\<exists>s'. page_allocate p m vaddr ro s = Some (if page_map s a = None then p else NULL, s') \<and> pages_ok s' \<and>
    (if page_map s a = None \<and> p \<noteq> NULL
     then page_map s' = (page_map s)(a \<mapsto> p) \<and> page_at s' = (page_at s)(p \<mapsto> fresh_page s a ro)
     else page_map s' = page_map s \<and> page_at s' = page_at s)"
proof (cases "p = NULL")
  case True
  then show ?thesis using ok by (simp add: page_allocate_def)
next
  case False
  obtain h where h: "pages s = Some h" "page_keys.tab h" "\<forall>e \<in> helems h. page_ok s e" "user_esp s < 2 ^ 32"
    using ok by (rule pages_okE)
  obtain r h' where h': "hash_insert m h (p, a) = Some (r, h')" "page_keys.tab h'"
      "lookup_in page_less (helems h) (p, a) r" "helems h' = (if r = None then insert (p, a) (helems h) else helems h)"
    using page_keys.insert_step [OF h(2) card_pages [OF h(2,3)], of m "(p, a)"] by auto
  have r: "page_map s a = map_option fst r" using page_map_lookup [OF h(1,2) h'(3)] .
  let ?s = "s\<lparr>pages := Some h'\<rparr>" and ?s' = "s\<lparr>pages := Some h', page_at := (page_at s)(p \<mapsto> fresh_page s a ro)\<rparr>"
  have m: "page_map s2 b = Some q \<longleftrightarrow> (q, b) \<in> helems h'" if "pages s2 = Some h'" for s2 b q
    using page_map_eq [OF that h'(2)] .
  show ?thesis
  proof (cases r)
    case None
    have e: "page_ok ?s' (p, a)" using False by (simp add: page_ok_def fresh_page_def a page_addr_ok [simplified])
    have o: "page_ok ?s' e" if "e \<in> helems h" for e
      using page_ok_other [of s e p] h(3) that p False by auto
    have "pages_ok ?s'" using e o h'(2,4) None h(4) by (intro pages_okI [where h = h']) auto
    moreover have "page_map ?s' b = ((page_map s)(a \<mapsto> p)) b" for b
    proof (rule option_eqI)
      show "page_map ?s' b = Some q \<longleftrightarrow> ((page_map s)(a \<mapsto> p)) b = Some q" for q
        using m [of ?s' b q] page_map_eq [OF h(1,2), of b q] r None h'(4) by auto
    qed
    ultimately show ?thesis
      using False h(1) h'(1) None r by (auto simp: page_allocate_def fresh_page_def a)
  next
    case (Some x)
    have "pages_ok ?s" using h'(2,4) Some h(3,4) by (intro pages_okI [where h = h']) (auto simp: page_ok_def)
    moreover have "page_map ?s b = page_map s b" for b
    proof (rule option_eqI)
      show "page_map ?s b = Some q \<longleftrightarrow> page_map s b = Some q" for q
        using m [of ?s b q] page_map_eq [OF h(1,2), of b q] Some h'(4) by simp
    qed
    ultimately show ?thesis
      using False h(1) h'(1) Some r by (auto simp: page_allocate_def a)
  qed
qed





lemma init_pages_ok:
  "hash_init True page_hash page_less = Some h \<Longrightarrow> esp < 2 ^ 32 \<Longrightarrow>
   pages_ok \<lparr>current = t, pages = Some h, user_esp = esp, page_at = P\<rparr>"
  using page_keys.init_tab [of h] by (intro pages_okI [where h = h]) auto

section \<open>Properties\<close>

text \<open>
  C39. \<open>page_allocate\<close> adds a page to the table of the process exactly if the page of the
  address is not in it and the memory for it can be allocated: then it returns the new page,
  which is at the start of the address's page, belongs to the process, has no frame, no
  swap slot and no file, and is written back to swap exactly if it is writable. Otherwise it
  returns a null pointer and the table and the pages are as before. Whether the table can be
  resized does not matter, and the table cannot overflow.
\<close>

theorem page_allocate_correct:
  assumes "pages_ok s" and "p = NULL \<or> page_at s p = None"
  shows "\<exists>s'. page_allocate p m vaddr ro s =
      Some (if page_map s (pg_round_down vaddr) = None then p else NULL, s') \<and> pages_ok s' \<and>
    (if page_map s (pg_round_down vaddr) = None \<and> p \<noteq> NULL
     then page_map s' = (page_map s)(pg_round_down vaddr \<mapsto> p) \<and>
       page_at s' = (page_at s)(p \<mapsto> fresh_page s (pg_round_down vaddr) ro)
     else page_map s' = page_map s \<and> page_at s' = page_at s)"
  using page_allocate_ok [OF assms refl] .

theorem page_allocate_correct_witness:
  "\<exists>h s'. hash_init True page_hash page_less = Some h \<and>
    page_allocate 8 True 0x8048123 True \<lparr>current = 3, pages = Some h, user_esp = 0xbffffff0, page_at = Map.empty\<rparr> =
      Some (8, s') \<and> page_map s' 0x8048000 = Some 8"
proof -
  obtain h where h: "hash_init True page_hash page_less = Some h" by (simp add: hash_init_def)
  let ?s = "\<lparr>current = 3, pages = Some h, user_esp = 0xbffffff0, page_at = Map.empty\<rparr>"
  have "pages_ok ?s" using init_pages_ok [OF h] by simp
  moreover have "pg_round_down 0x8048123 = 0x8048000" by (simp add: pg_round_down_eq)
  moreover have "page_map ?s 0x8048000 = None" using h by (auto simp: page_map_def hash_init_def hash_clear_def)
  ultimately show ?thesis using page_allocate_correct [of ?s 8 True "0x8048123" True] h by auto
qed



end
