(* ===== verification/Spec2Isabelle.thy ===== *)
theory Spec2Isabelle
  imports Linked_List_Sort Bitmap Arithmetic64 Hash_Table Threads_Fair Stdlib Filesys_Init Console Paging_Init Page_Table
begin

text \<open>
  A verification development for the Pintos kernel of this repository. File names below
  are relative to \<^verbatim>\<open>src/pintos/src\<close>.

  \<^bold>\<open>The program.\<close> Pintos is a small operating system for 32-bit x86 machines. The
  kernel library (\<^verbatim>\<open>lib\<close>, \<^verbatim>\<open>lib/kernel\<close>) has linked lists, bitmaps, hash tables,
  strings, sorting and 64-bit division. \<^verbatim>\<open>threads\<close> has the threads with their
  scheduler, semaphores, locks and condition variables, the page allocator and the start
  of the kernel. \<^verbatim>\<open>devices\<close> has the timer with its alarm clock, the block devices, the
  interrupt queues and the serial port and keyboard that use them. \<^verbatim>\<open>filesys\<close> has a file
  system of one directory on a block device, with its inodes, its free map (a bitmap kept
  in a file) and open files. \<^verbatim>\<open>userprog\<close> has the page directories of user processes, and
  \<^verbatim>\<open>vm\<close> the table of the pages of a process.
  Lists carry the queues of the scheduler and of the synchronisation primitives; bitmaps
  carry the free map and the pools of the page allocator; the page allocator carries the
  page directories; a hash table carries the table of pages.

  \<^bold>\<open>Reading the model.\<close> An operation is a function of the same name; a static helper
  whose name clashes with one of HOL has a suffix, and the body of a loop is a function
  named after it. A failed \<open>ASSERT\<close>, a \<open>PANIC\<close>, a null dereference, and an access outside an
  array are the result \<open>None\<close>, so that a theorem with the result \<open>Some\<close> says that none
  of them happens. Machine integers are words (\<open>u8\<close>, \<open>u32\<close>, \<open>u64\<close>) or natural numbers with
  the wrap-around at \<open>2 ^ 32\<close> written out (\<open>size_add\<close>, \<open>size_mul\<close>, \<open>size_sub\<close>). Pointers
  are natural numbers and \<open>NULL\<close> is 0. A loop without an obvious bound is a
  \<open>partial_function (option)\<close>, or a \<open>function\<close> with a measure; theorems that say it returns
  give the value \<open>Some\<close>. There is no fuel in the development.

  \<^bold>\<open>Shared theories.\<close> \<open>Prelude\<close> has the machine types, \<open>ASSERT\<close>, and the orders that lists
  and hash tables take as arguments. \<open>Machine\<close> has state machines whose steps can fail;
  the locale \<open>safe_machine\<close> is the contract of an invariant that every enabled event keeps,
  with its consequences for reachable states. It is interpreted on the kernel with its
  threads, on an interrupt queue, on the console and on page directories.

  \<^bold>\<open>The kernel library.\<close>
  \<^item> \<open>Linked_List\<close>, \<open>Linked_List_Ops\<close>, \<open>Linked_List_Sort\<close>: \<^verbatim>\<open>lib/kernel/list.c\<close> on a heap of
    cells with \<open>prev\<close> and \<open>next\<close> pointers. Each operation is proved against the sequence of
    the cells, with everything outside the list unchanged; the locale \<open>fifo\<close> is the
    contract of a queue, interpreted on \<open>list_push_back\<close> and \<open>list_pop_front\<close>; \<open>list_sort\<close>
    is a stable sort.
  \<^item> \<open>Bitmap\<close>: \<^verbatim>\<open>lib/kernel/bitmap.c\<close> on 32-bit elements. The locale \<open>range_allocator\<close> is the
    contract of an allocator of runs; its consequence, that live runs are disjoint, is
    obtained for \<open>bitmap_scan_and_flip\<close> and again for the page allocator.
  \<^item> \<open>Hash_Table\<close>: \<^verbatim>\<open>lib/kernel/hash.c\<close>, refined to finite sets through every rehashing. The
    locale \<open>hash_keys\<close> is the contract of the hash and comparison functions, interpreted on
    those of the table of pages.
  \<^item> \<open>Arithmetic64\<close>: \<^verbatim>\<open>lib/arithmetic.c\<close>. \<open>Strings\<close>: \<^verbatim>\<open>lib/string.c\<close> on byte-addressed
    memory. \<open>Stdlib\<close>: \<^verbatim>\<open>lib/stdlib.c\<close>; the heap sort computes with the wrap-around of \<open>size_t\<close>
    and is proved equal to one on natural numbers where its indices do not overflow.

  \<^bold>\<open>Threads.\<close> \<open>Threads\<close> models \<^verbatim>\<open>threads/thread.c\<close>, \<^verbatim>\<open>threads/synch.c\<close>, the external interrupts
  of \<^verbatim>\<open>threads/interrupt.c\<close> and the sleeping part of \<^verbatim>\<open>devices/timer.c\<close> as one state \<open>kstate\<close>
  of threads, run queue, semaphores, locks, condition variables and clock. A call is a
  sequence of statements kept per thread, so that the timer can interrupt between any two
  that run with interrupts on; a section with interrupts off is one step. The creation of a
  thread is six statements: three for the identifier, under its lock, then \<open>init_thread\<close>,
  the stack frames and the unblocking. Its insertion in \<open>all_list\<close>, which the code makes with
  interrupts on, is one step of the model. A thread may call what the predicate \<open>may_call\<close>
  allows: the rules the interface states for locks, condition variables and exits. The
  theorems hold for every sequence of such calls and timer interrupts. \<open>Threads_Inv\<close> has
  the invariant, \<open>Threads_Steps\<close>, \<open>Threads_Calls\<close>, \<open>Threads_Switch\<close> its preservation, and
  \<open>Threads_Run\<close> and \<open>Threads_Fair\<close> the conclusions: no assertion fails, mutual exclusion, no
  lost wake-up, the alarm clock, and that a ready thread runs after a bounded number of
  ticks. The queues are sequences here; that lists in memory implement them is what
  \<open>Linked_List_Ops\<close> shows.

  \<^bold>\<open>The file system.\<close> \<open>Block\<close> is \<^verbatim>\<open>devices/block.c\<close>; a driver is an array of sectors. \<open>Inode\<close> is
  \<^verbatim>\<open>filesys/inode.c\<close>, \<^verbatim>\<open>filesys/free-map.c\<close> and \<^verbatim>\<open>filesys/file.c\<close>; \<open>Directory\<close> is
  \<^verbatim>\<open>filesys/directory.c\<close> and \<^verbatim>\<open>filesys/filesys.c\<close>. On-disk structures are encoded to bytes
  and back. \<open>Inode_Content\<close>, \<open>Fs_Inv\<close>, \<open>Fs_Table\<close>, \<open>Fs_Files\<close> and \<open>Fs_Dir\<close> have the invariant
  and its preservation; \<open>Filesys\<close> and \<open>Filesys_Spec\<close> the refinement of a map from names to
  files with a table of open files; \<open>Filesys_Init\<close> formatting and mounting. Operations on
  the file system are one step each: the code has no lock around them, and its callers
  serialise them. Whether an allocation of memory succeeds is part of the state
  (\<open>mem_ok\<close>); the theorems on the whole file system have the explicit hypothesis \<open>mem_good\<close>,
  that allocations succeed, and those on reading and writing an inode do not.

  \<^bold>\<open>The console.\<close> \<open>Intq\<close> is \<^verbatim>\<open>devices/intq.c\<close> with the blocking of its callers; \<open>Console\<close> is
  \<^verbatim>\<open>devices/input.c\<close>, \<^verbatim>\<open>devices/serial.c\<close> and \<^verbatim>\<open>devices/kbd.c\<close>. The registers of the UART and
  the keyboard controller are given by the sequence of values read from them.

  \<^bold>\<open>Memory.\<close> \<open>Vaddr\<close> is \<^verbatim>\<open>threads/vaddr.h\<close> and \<^verbatim>\<open>threads/pte.h\<close>; \<open>Palloc\<close> is
  \<^verbatim>\<open>threads/palloc.c\<close>; \<open>Pagedir\<close> is \<^verbatim>\<open>userprog/pagedir.c\<close> on page tables in memory, with the
  processor's page directory register and its TLB; \<open>Pagedir_Spec\<close> has the specification of
  page directories as maps and the simulation, for calls that keep the contract \<open>pd_can\<close>
  (live directories, user pages, frames of the user pool) and for reads and writes of user
  programs, whose bytes are stored in memory; \<open>Paging_Init\<close> has \<open>paging_init\<close> of
  \<^verbatim>\<open>threads/init.c\<close> and the conclusions from boot on. \<open>Page_Table\<close> is the table of pages of
  \<^verbatim>\<open>vm/page.c\<close>: \<open>page_allocate\<close> and \<open>page_for_addr\<close>, with the growth of the stack.

  \<^bold>\<open>Bounds.\<close> The theorems on the page allocator and on page directories are for machines of
  two megabytes to half a gigabyte, where the kernel pool has room for the first page
  tables and no address computation wraps. Theorems on lists, sorting, hash tables and the file
  system have the bounds that the 32-bit counters and sector numbers of the code impose,
  as hypotheses.

  \<^bold>\<open>Not modelled.\<close> Assembly (\<^verbatim>\<open>threads/start.S\<close>, \<^verbatim>\<open>switch.S\<close>, \<^verbatim>\<open>intr-stubs.S\<close>, \<^verbatim>\<open>loader.S\<close>), the
  descriptor tables and the interrupt controller (\<^verbatim>\<open>userprog/gdt.c\<close>, \<^verbatim>\<open>tss.c\<close>, part of
  \<^verbatim>\<open>interrupt.c\<close>) and drivers that only move values to and from ports (\<^verbatim>\<open>ide.c\<close>, \<^verbatim>\<open>pit.c\<close>,
  \<^verbatim>\<open>vga.c\<close>, \<^verbatim>\<open>speaker.c\<close>, \<^verbatim>\<open>shutdown.c\<close>): their behaviour is that of the hardware. The busy
  waits of the timer depend on the speed of the processor. The frame table and swap
  (\<^verbatim>\<open>vm/frame.c\<close>, \<^verbatim>\<open>vm/swap.c\<close>) and what rests on them, the loading of programs and the system
  calls (\<^verbatim>\<open>userprog/process.c\<close>, \<^verbatim>\<open>syscall.c\<close>, \<^verbatim>\<open>exception.c\<close>), interleave the frame locks of several
  processes with disk accesses. \<open>malloc\<close> (\<^verbatim>\<open>threads/malloc.c\<close>) appears as the outcome of each
  request. Printing and the user programs
  and host tools (\<^verbatim>\<open>examples\<close>, \<^verbatim>\<open>utils\<close>, \<^verbatim>\<open>tests\<close>, and \<^verbatim>\<open>src/project4\<close>) are not part of the kernel's state.
\<close>

end
